(* ===== verification/Rhino_Prelude.thy ===== *)
theory Rhino_Prelude
  imports Main "HOL-Library.Word"
begin

text \<open>
  Prelude of the development: the machine types of the kernel headers
  (\<^verbatim>\<open>k_sys.h\<close>, \<^verbatim>\<open>k_err.h\<close>), the collections the component proofs share, and the generic
  lemmas on lists (ordered insertion, removal) that several components use.

  A C pointer is a 32-bit word and the null pointer is 0; in particular there are only
  finitely many addresses, which is what makes the pointer-chasing loops of the kernel
  terminate.
\<close>

unbundle bit_operations_syntax

section \<open>Types\<close>

type_synonym ptr = "32 word"
type_synonym u8 = "8 word"
type_synonym u32 = "32 word"
type_synonym tick = "64 word"

abbreviation NULL :: ptr where
  "NULL \<equiv> 0"

text \<open>\<^verbatim>\<open>RHINO_NO_WAIT\<close> and \<^verbatim>\<open>RHINO_WAIT_FOREVER\<close> of \<^verbatim>\<open>k_sys.h\<close>.\<close>

abbreviation RHINO_NO_WAIT :: tick where
  "RHINO_NO_WAIT \<equiv> 0"

definition RHINO_WAIT_FOREVER :: tick where
  "RHINO_WAIT_FOREVER = - 1"

text \<open>Configuration of the board (\<^verbatim>\<open>board/atbm6431/config/k_config.h\<close>).\<close>

definition RHINO_CONFIG_PRI_MAX :: nat where
  "RHINO_CONFIG_PRI_MAX = 62"

definition RHINO_IDLE_PRI :: nat where
  "RHINO_IDLE_PRI = RHINO_CONFIG_PRI_MAX - 1"

definition RHINO_CONFIG_TIME_SLICE_DEFAULT :: u32 where
  "RHINO_CONFIG_TIME_SLICE_DEFAULT = 5"

definition RHINO_CONFIG_TICKS_PER_SECOND :: nat where
  "RHINO_CONFIG_TICKS_PER_SECOND = 100"

text \<open>
  The status codes of \<^verbatim>\<open>k_err.h\<close>, in the order of the C enumeration; the codes that only
  unmodelled functions return are left out.
\<close>

datatype (plugins only: code size) kstat =
    RHINO_SUCCESS | RHINO_SYS_FATAL_ERR | RHINO_SYS_SP_ERR | RHINO_RUNNING | RHINO_STOPPED
  | RHINO_INV_PARAM | RHINO_NULL_PTR | RHINO_INV_ALIGN | RHINO_KOBJ_TYPE_ERR | RHINO_KOBJ_DEL_ERR
  | RHINO_MM_POOL_SIZE_ERR | RHINO_NO_MEM | RHINO_RINGBUF_FULL | RHINO_RINGBUF_EMPTY | RHINO_SCHED_DISABLE
  | RHINO_SCHED_ALREADY_ENABLED | RHINO_SCHED_LOCK_COUNT_OVF | RHINO_INV_SCHED_WAY
  | RHINO_TASK_INV_STACK_SIZE | RHINO_TASK_NOT_SUSPENDED | RHINO_TASK_DEL_NOT_ALLOWED
  | RHINO_TASK_SUSPEND_NOT_ALLOWED | RHINO_SUSPENDED_COUNT_OVF | RHINO_BEYOND_MAX_PRI
  | RHINO_PRI_CHG_NOT_ALLOWED | RHINO_INV_TASK_STATE | RHINO_IDLE_TASK_EXIST
  | RHINO_NO_PEND_WAIT | RHINO_BLK_ABORT | RHINO_BLK_TIMEOUT | RHINO_BLK_DEL
  | RHINO_BLK_INV_STATE | RHINO_BLK_POOL_SIZE_ERR | RHINO_NO_THIS_EVENT_OPT | RHINO_BUF_QUEUE_SIZE_ZERO
  | RHINO_BUF_QUEUE_FULL | RHINO_BUF_QUEUE_MSG_SIZE_OVERFLOW | RHINO_QUEUE_FULL
  | RHINO_QUEUE_NOT_FULL | RHINO_SEM_OVF | RHINO_SEM_TASK_WAITING
  | RHINO_MUTEX_NOT_RELEASED_BY_OWNER | RHINO_MUTEX_OWNER_NESTED | RHINO_MUTEX_NESTED_OVF
  | RHINO_NOT_CALLED_BY_INTRPT | RHINO_TRY_AGAIN | RHINO_TASK_STACK_OVF

section \<open>Lists\<close>

text \<open>
  First element of a kernel list, the null pointer for an empty one (the C code reads
  \<^verbatim>\<open>head->next\<close> or \<^verbatim>\<open>cur_list_item[pri]\<close>).
\<close>

definition first :: "ptr list \<Rightarrow> ptr" where
  "first xs = (case xs of [] \<Rightarrow> NULL | x # _ \<Rightarrow> x)"

lemma first_simps [simp]:
  "first [] = NULL" "first (x # xs) = x"
  by (simp_all add: first_def)

lemma first_in_set: "xs \<noteq> [] \<Longrightarrow> first xs \<in> set xs"
  by (cases xs) auto

lemma first_append: "first (xs @ ys) = (if xs = [] then first ys else first xs)"
  by (cases xs) auto

text \<open>
  The search loop shared by the ordered lists of the kernel (\<^verbatim>\<open>pend_list_add\<close>,
  \<^verbatim>\<open>tick_list_pri_insert\<close>, \<^verbatim>\<open>timer_list_pri_insert\<close>): walk the list until an element
  satisfies the test, and insert in front of it, at the end if none does.
\<close>

fun insert_before :: "('a \<Rightarrow> bool) \<Rightarrow> 'a \<Rightarrow> 'a list \<Rightarrow> 'a list" where
  "insert_before P x [] = [x]"
| "insert_before P x (y # ys) = (if P y then x # y # ys else y # insert_before P x ys)"

lemma set_insert_before [simp]: "set (insert_before P x xs) = insert x (set xs)"
  by (induction xs) auto

lemma distinct_insert_before [simp]:
  "distinct (insert_before P x xs) \<longleftrightarrow> x \<notin> set xs \<and> distinct xs"
  by (induction xs) auto

lemma length_insert_before [simp]: "length (insert_before P x xs) = Suc (length xs)"
  by (induction xs) auto

lemma insert_before_not_Nil [simp]: "insert_before P x xs \<noteq> []"
  by (cases xs) auto

lemma insert_before_cong:
  "(\<And>y. y \<in> set xs \<Longrightarrow> P y = Q y) \<Longrightarrow> insert_before P x xs = insert_before Q x xs"
  by (induction xs) auto

lemma sorted_insert_before:
  fixes f :: "'a \<Rightarrow> 'b::linorder"
  shows "sorted (map f xs) \<Longrightarrow> sorted (map f (insert_before (\<lambda>y. f x < f y) x xs))"
  by (induction xs) force+

lemma insert_before_takeWhile:
  "insert_before P x xs = takeWhile (\<lambda>y. \<not> P y) xs @ x # dropWhile (\<lambda>y. \<not> P y) xs"
  by (induction xs) auto

lemma sorted_map_removeAll: "sorted (map f xs) \<Longrightarrow> sorted (map f (removeAll x xs))"
  by (induction xs) auto

lemma sorted_map_cong_set:
  "(\<And>x. x \<in> set xs \<Longrightarrow> f x = g x) \<Longrightarrow> sorted (map f xs) = sorted (map g xs)"
  by (metis map_cong)

lemma distinct_length_le_one:
  "distinct xs \<Longrightarrow> x \<in> set xs \<Longrightarrow> length xs \<le> 1 \<Longrightarrow> xs = [x]"
  by (cases xs) auto

lemma sorted_hd_le: "sorted (map f (x # xs)) \<Longrightarrow> y \<in> set (x # xs) \<Longrightarrow> f x \<le> f y"
  by auto

lemma sorted_map_first:
  assumes "sorted (map f xs)" and "y \<in> set xs"
  shows "f (first xs) \<le> f y"
  using assms by (cases xs) auto

lemma removeAll_Nil_iff: "removeAll x xs = [] \<longleftrightarrow> set xs \<subseteq> {x}"
  by (induction xs) auto

lemma distinct_removeAll_hd: "distinct (x # xs) \<Longrightarrow> removeAll x (x # xs) = xs"
  by simp

lemma set_rotate1_iff [simp]: "x \<in> set (rotate1 xs) \<longleftrightarrow> x \<in> set xs"
  by simp

lemma not_gr_zero_word: "\<not> 0 < (x :: 'a::len word) \<Longrightarrow> x = 0"
  by (simp add: word_neq_0_conv [symmetric])

end
