(* ===== verification/Klist.thy ===== *)
theory Klist
  imports Rhino_Prelude
begin

text \<open>
  \<^verbatim>\<open>kernel/rhino/core/include/k_list.h\<close>: the intrusive doubly linked lists on which every
  queue of the kernel is built, at pointer level (two maps from node addresses to node
  addresses). The predicate \<open>ring\<close> says that a head and its nodes form a circular list that
  represents a sequence. The theory proves that each operation implements the sequence
  operation by which the kernel theories describe it, and that the search loop of the
  ordered lists implements \<open>insert_before\<close>.
\<close>

section \<open>The heap of list nodes and the operations\<close>

record klist_heap =
  nxt :: "ptr \<Rightarrow> ptr"
  prv :: "ptr \<Rightarrow> ptr"

definition set_nxt :: "klist_heap \<Rightarrow> ptr \<Rightarrow> ptr \<Rightarrow> klist_heap" where
  "set_nxt h p q = h\<lparr>nxt := (nxt h)(p := q)\<rparr>"

definition set_prv :: "klist_heap \<Rightarrow> ptr \<Rightarrow> ptr \<Rightarrow> klist_heap" where
  "set_prv h p q = h\<lparr>prv := (prv h)(p := q)\<rparr>"

definition klist_init :: "klist_heap \<Rightarrow> ptr \<Rightarrow> klist_heap" where
  "klist_init h list_head =
     (let h = set_nxt h list_head list_head
      in set_prv h list_head list_head)"

definition is_klist_empty :: "klist_heap \<Rightarrow> ptr \<Rightarrow> bool" where
  "is_klist_empty h list \<longleftrightarrow> nxt h list = list"

definition klist_insert :: "klist_heap \<Rightarrow> ptr \<Rightarrow> ptr \<Rightarrow> klist_heap" where
  "klist_insert h head element =
     (let h = set_prv h element (prv h head);
          h = set_nxt h element head;
          h = set_nxt h (prv h head) element
      in set_prv h head element)"

definition klist_add :: "klist_heap \<Rightarrow> ptr \<Rightarrow> ptr \<Rightarrow> klist_heap" where
  "klist_add h head element =
     (let h = set_prv h element head;
          h = set_nxt h element (nxt h head);
          h = set_prv h (nxt h head) element
      in set_nxt h head element)"

definition klist_rm :: "klist_heap \<Rightarrow> ptr \<Rightarrow> klist_heap" where
  "klist_rm h element =
     (let h = set_nxt h (prv h element) (nxt h element)
      in set_prv h (nxt h element) (prv h element))"

definition klist_rm_init :: "klist_heap \<Rightarrow> ptr \<Rightarrow> klist_heap" where
  "klist_rm_init h element =
     (let h = set_nxt h (prv h element) (nxt h element);
          h = set_prv h (nxt h element) (prv h element);
          h = set_prv h element element
      in set_nxt h element element)"

text \<open>
  The search loop of the ordered lists, from \<open>q\<close> to the head \<open>a\<close>: stop at the first node that
  passes the test. The fuel bounds the number of nodes visited; \<open>scan_insert\<close> below shows
  that the length of the list plus one is enough.
\<close>

fun scan :: "nat \<Rightarrow> (ptr \<Rightarrow> ptr) \<Rightarrow> (ptr \<Rightarrow> bool) \<Rightarrow> ptr \<Rightarrow> ptr \<Rightarrow> ptr option" where
  "scan 0 nx P q a = None"
| "scan (Suc n) nx P q a = (if q = a \<or> P q then Some q else scan n nx P (nx q) a)"

section \<open>The sequence a list represents\<close>

fun linked :: "klist_heap \<Rightarrow> ptr list \<Rightarrow> bool" where
  "linked h (x # y # xs) \<longleftrightarrow> nxt h x = y \<and> prv h y = x \<and> linked h (y # xs)"
| "linked h _ \<longleftrightarrow> True"

definition ring :: "klist_heap \<Rightarrow> ptr \<Rightarrow> ptr list \<Rightarrow> bool" where
  "ring h a xs \<longleftrightarrow> distinct (a # xs) \<and> linked h (a # xs @ [a])"

lemma linked_append:
  "us \<noteq> [] \<Longrightarrow> vs \<noteq> [] \<Longrightarrow>
   linked h (us @ vs) \<longleftrightarrow>
     linked h us \<and> linked h vs \<and> nxt h (last us) = hd vs \<and> prv h (hd vs) = last us"
proof (induction us)
  case (Cons u us)
  then show ?case by (cases us; cases vs) auto
qed simp

lemma linked_frame:
  "(\<And>x. x \<in> set (butlast xs) \<Longrightarrow> nxt h' x = nxt h x) \<Longrightarrow>
   (\<And>x. x \<in> set (tl xs) \<Longrightarrow> prv h' x = prv h x) \<Longrightarrow> linked h' xs = linked h xs"
  by (induction h xs rule: linked.induct) auto

lemma first_snoc_hd: "first (zs @ [a]) = hd (zs @ [a])"
  by (cases zs) auto

lemma nxt_klist_insert:
  "element \<noteq> head \<Longrightarrow>
   nxt (klist_insert h head element) = (nxt h)(element := head, prv h head := element)"
  by (auto simp: klist_insert_def set_nxt_def set_prv_def Let_def)

lemma prv_klist_insert:
  "prv (klist_insert h head element) = (prv h)(element := prv h head, head := element)"
  by (auto simp: klist_insert_def set_nxt_def set_prv_def Let_def)

lemma nxt_klist_rm: "nxt (klist_rm h e) = (nxt h)(prv h e := nxt h e)"
  by (simp add: klist_rm_def set_nxt_def set_prv_def Let_def)

lemma prv_klist_rm:
  "prv h e \<noteq> e \<Longrightarrow> prv (klist_rm h e) = (prv h)(nxt h e := prv h e)"
  by (simp add: klist_rm_def set_nxt_def set_prv_def Let_def)

lemma ring_distinct: "ring h a xs \<Longrightarrow> distinct (a # xs)"
  by (simp add: ring_def)

lemma ring_init: "ring (klist_init h a) a []"
  by (simp add: ring_def klist_init_def set_nxt_def set_prv_def Let_def)

lemma ring_next_head: "ring h a xs \<Longrightarrow> nxt h a = first (xs @ [a])"
  by (cases xs) (auto simp: ring_def)

lemma ring_next:
  assumes "ring h a (ys @ y # zs)"
  shows "nxt h y = first (zs @ [a])"
proof -
  have "linked h ((a # ys @ [y]) @ (zs @ [a]))"
    using assms by (simp add: ring_def)
  then show ?thesis
    by (simp add: linked_append first_snoc_hd del: append_Cons append_assoc)
qed

lemma ring_empty_iff: "ring h a xs \<Longrightarrow> is_klist_empty h a \<longleftrightarrow> xs = []"
  using ring_next_head [of h a xs] by (cases xs) (auto simp: is_klist_empty_def ring_def)

lemma ring_insert:
  assumes r: "ring h a (ys @ zs)" and e: "e \<notin> set (a # ys @ zs)"
  shows "ring (klist_insert h (first (zs @ [a])) e) a (ys @ e # zs)"
proof -
  let ?us = "a # ys" and ?vs = "zs @ [a]"
  let ?q = "hd ?vs" and ?p = "last ?us"
  let ?h = "klist_insert h ?q e"
  have d: "distinct (a # ys @ zs)"
    and l: "linked h (?us @ ?vs)"
    using r by (simp_all add: ring_def)
  have l1: "linked h ?us" and l2: "linked h ?vs" and pq: "nxt h ?p = ?q" "prv h ?q = ?p"
    using l linked_append [of ?us ?vs h] by simp_all
  have qin: "?q \<in> set ?vs" by (rule hd_in_set) simp
  have pin: "?p \<in> set ?us" by (rule last_in_set) simp
  have eq: "e \<noteq> ?q"
    using qin e by auto
  have n: "nxt ?h = (nxt h)(e := ?q, ?p := e)" and p: "prv ?h = (prv h)(e := ?p, ?q := e)"
    using pq(2) by (simp_all add: nxt_klist_insert [OF eq] prv_klist_insert del: last.simps)
  have ptl: "?p \<notin> set (butlast ?us)"
    using d by (metis append_butlast_last_id distinct.simps(2) distinct_append distinct_butlast
        distinct1_rotate list.distinct(1) list.set_intros(1) append_Cons not_distinct_conv_prefix)
  have "linked ?h ?us = linked h ?us"
  proof (rule linked_frame)
    fix x assume x: "x \<in> set (butlast ?us)"
    then have "x \<in> set ?us" by (rule in_set_butlastD)
    then show "nxt ?h x = nxt h x"
      using x ptl e by (auto simp: n simp del: last.simps butlast.simps)
  next
    fix x assume "x \<in> set (tl ?us)"
    then have "x \<in> set ys" by simp
    then show "prv ?h x = prv h x"
      using d e qin by (auto simp: p)
  qed
  moreover have "linked ?h ?vs = linked h ?vs"
  proof (rule linked_frame)
    fix x assume "x \<in> set (butlast ?vs)"
    then have "x \<in> set zs" by simp
    then show "nxt ?h x = nxt h x"
      using d e pin by (auto simp: n simp del: last.simps)
  next
    fix x assume x: "x \<in> set (tl ?vs)"
    have "?q \<notin> set (tl ?vs)"
      using d by (cases zs) auto
    moreover have "x \<noteq> e"
      using x e by (cases zs) auto
    ultimately show "prv ?h x = prv h x"
      using x by (auto simp: p)
  qed
  moreover have "nxt ?h ?p = e" "prv ?h e = ?p" "nxt ?h e = ?q" "prv ?h ?q = e"
    using e eq pin by (auto simp: n p simp del: last.simps)
  ultimately have "linked ?h (?us @ e # ?vs)"
    using l1 l2 linked_append [of ?us "e # ?vs" ?h]
    by (cases ?vs) (auto simp del: last.simps)
  then show ?thesis
    using d e by (auto simp: ring_def first_snoc_hd)
qed

lemma ring_rm:
  assumes r: "ring h a (ys @ e # zs)"
  shows "ring (klist_rm h e) a (ys @ zs)"
proof -
  let ?us = "a # ys" and ?vs = "zs @ [a]"
  let ?q = "hd ?vs" and ?p = "last ?us"
  let ?h = "klist_rm h e"
  have d: "distinct (a # ys @ e # zs)" and l: "linked h (?us @ e # ?vs)"
    using r by (simp_all add: ring_def)
  have l1: "linked h ?us" and l2: "linked h ?vs" and pe: "prv h e = ?p" and eq: "nxt h e = ?q"
    using l linked_append [of ?us "e # ?vs" h] linked_append [of "[e]" ?vs h] by simp_all
  have qin: "?q \<in> set ?vs" by (rule hd_in_set) simp
  have pin: "?p \<in> set ?us" by (rule last_in_set) simp
  have "?p \<noteq> e" using pin d by auto
  then have n: "nxt ?h = (nxt h)(?p := ?q)" and p: "prv ?h = (prv h)(?q := ?p)"
    using pe eq by (simp_all add: nxt_klist_rm prv_klist_rm del: last.simps)
  have ptl: "?p \<notin> set (butlast ?us)"
    using d by (metis append_butlast_last_id distinct.simps(2) distinct_append distinct_butlast
        distinct1_rotate list.distinct(1) list.set_intros(1) append_Cons not_distinct_conv_prefix)
  have "linked ?h ?us = linked h ?us"
    using ptl d qin by (intro linked_frame) (auto simp: n p simp del: last.simps butlast.simps)
  moreover have "linked ?h ?vs = linked h ?vs"
  proof (rule linked_frame)
    fix x assume "x \<in> set (butlast ?vs)"
    then have "x \<in> set zs" by simp
    then show "nxt ?h x = nxt h x"
      using d pin by (auto simp: n simp del: last.simps)
  next
    fix x assume x: "x \<in> set (tl ?vs)"
    have "?q \<notin> set (tl ?vs)"
      using d by (cases zs) auto
    then show "prv ?h x = prv h x"
      using x by (auto simp: p)
  qed
  moreover have "nxt ?h ?p = ?q" "prv ?h ?q = ?p"
    by (simp_all add: n p del: last.simps)
  ultimately have "linked ?h (?us @ ?vs)"
    using l1 l2 linked_append [of ?us ?vs ?h] by (simp del: last.simps append_Cons)
  then show ?thesis
    using d by (auto simp: ring_def)
qed

section \<open>The contract of an intrusive list\<close>

text \<open>
  What the kernel relies on: a representation relation, insertion in front of a node (or of
  the head), removal of a node, and the successor pointer. The sequence operations the kernel
  theories use (append, \<open>insert_before\<close>, \<open>removeAll\<close>) are proved here once.
\<close>

locale intrusive_list =
  fixes rep :: "'h \<Rightarrow> ptr \<Rightarrow> ptr list \<Rightarrow> bool"
    and ins :: "'h \<Rightarrow> ptr \<Rightarrow> ptr \<Rightarrow> 'h"
    and del :: "'h \<Rightarrow> ptr \<Rightarrow> 'h"
    and succ :: "'h \<Rightarrow> ptr \<Rightarrow> ptr"
  assumes rep_distinct: "rep h a xs \<Longrightarrow> distinct (a # xs)"
    and rep_insert: "rep h a (ys @ zs) \<Longrightarrow> e \<notin> set (a # ys @ zs) \<Longrightarrow>
      rep (ins h (first (zs @ [a])) e) a (ys @ e # zs)"
    and rep_remove: "rep h a (ys @ e # zs) \<Longrightarrow> rep (del h e) a (ys @ zs)"
    and rep_succ_head: "rep h a xs \<Longrightarrow> succ h a = first (xs @ [a])"
    and rep_succ: "rep h a (ys @ y # zs) \<Longrightarrow> succ h y = first (zs @ [a])"
begin

lemma append_node:
  assumes "rep h a xs" and "e \<notin> set (a # xs)"
  shows "rep (ins h a e) a (xs @ [e])"
  using rep_insert [of h a xs "[]" e] assms by simp

lemma remove_node:
  assumes r: "rep h a xs" and e: "e \<in> set xs"
  shows "rep (del h e) a (removeAll e xs)"
proof -
  obtain ys zs where xs: "xs = ys @ e # zs"
    using e by (metis split_list)
  then have "removeAll e xs = ys @ zs"
    using rep_distinct [OF r] by simp
  with rep_remove r xs show ?thesis by metis
qed

lemma scan_finds:
  assumes "rep h a (ys @ zs)"
  shows "scan (Suc (length zs)) (succ h) P (first (zs @ [a])) a
           = Some (first (dropWhile (\<lambda>y. \<not> P y) zs @ [a]))"
  using assms
proof (induction zs arbitrary: ys)
  case (Cons z zs)
  have "z \<noteq> a"
    using rep_distinct [OF Cons.prems] by auto
  moreover have "succ h z = first (zs @ [a])"
    using Cons.prems by (rule rep_succ)
  moreover have "scan (Suc (length zs)) (succ h) P (first (zs @ [a])) a
      = Some (first (dropWhile (\<lambda>y. \<not> P y) zs @ [a]))"
    using Cons.IH [of "ys @ [z]"] Cons.prems by simp
  ultimately show ?case by simp
qed simp

lemma scan_insert:
  assumes r: "rep h a xs" and e: "e \<notin> set (a # xs)"
  shows "\<exists>q. scan (Suc (length xs)) (succ h) P (succ h a) a = Some q
             \<and> rep (ins h q e) a (insert_before P e xs)"
proof -
  let ?t = "takeWhile (\<lambda>y. \<not> P y) xs" and ?d = "dropWhile (\<lambda>y. \<not> P y) xs"
  have "scan (Suc (length xs)) (succ h) P (succ h a) a = Some (first (?d @ [a]))"
    using scan_finds [of h a "[]" xs P] rep_succ_head [OF r] r by simp
  moreover have "rep (ins h (first (?d @ [a])) e) a (?t @ e # ?d)"
    using r e by (intro rep_insert) (simp_all del: takeWhile_dropWhile_id
        add: takeWhile_dropWhile_id)
  ultimately show ?thesis
    by (simp add: insert_before_takeWhile)
qed

lemma drain_head:
  assumes "rep h a (x # xs)"
  shows "succ h a = x \<and> rep (del h x) a xs"
  using rep_succ_head [OF assms] rep_remove [of h a "[]" x xs] assms by simp

end

interpretation kl: intrusive_list ring klist_insert klist_rm nxt
  by unfold_locales
    (rule ring_distinct ring_insert ring_rm ring_next_head ring_next; assumption)+

section \<open>The remaining operations\<close>

text \<open>
  \<^verbatim>\<open>klist_add\<close> is an insertion in front of the first element, and \<^verbatim>\<open>klist_rm_init\<close> a removal
  that leaves the element as an empty list.
\<close>

lemma klist_add_eq:
  assumes r: "ring h a xs" and e: "e \<notin> set (a # xs)"
  shows "klist_add h a e = klist_insert h (first (xs @ [a])) e"
proof -
  have n: "nxt h a = first (xs @ [a])" using r by (rule ring_next_head)
  have p: "prv h (first (xs @ [a])) = a"
    using r by (cases xs) (auto simp: ring_def)
  have q: "first (xs @ [a]) \<noteq> e" using e by (cases xs) auto
  show ?thesis
    using n p q e
    by (auto simp: klist_add_def klist_insert_def set_nxt_def set_prv_def Let_def fun_eq_iff)
qed

lemma klist_rm_init_eq:
  "prv h e \<noteq> e \<Longrightarrow> klist_rm_init h e = klist_init (klist_rm h e) e"
  by (simp add: klist_rm_init_def klist_rm_def klist_init_def set_nxt_def set_prv_def Let_def)

section \<open>Properties\<close>

text \<open>C23: The list operations implement the operations on the sequence a circular list
  represents: insertion at the head node appends, \<^verbatim>\<open>klist_add\<close> prepends, removal deletes the
  element, and emptiness is that of the sequence.\<close>

theorem klist_refines:
  assumes "ring h a xs" and "e \<notin> set (a # xs)"
  shows "ring (klist_insert h a e) a (xs @ [e]) \<and> ring (klist_add h a e) a (e # xs)
    \<and> (is_klist_empty h a \<longleftrightarrow> xs = [])
    \<and> (\<forall>x. x \<notin> set xs \<or> ring (klist_rm h x) a (removeAll x xs))"
  using kl.append_node [OF assms] kl.remove_node [OF assms(1)] ring_empty_iff [OF assms(1)]
    ring_insert [of h a "[]" xs e] assms
  by (auto simp: klist_add_eq)

theorem klist_refines_witness:
  "ring (klist_insert (klist_init \<lparr>nxt = (\<lambda>_. 0), prv = (\<lambda>_. 0)\<rparr> 1) 1 2) 1 [2]"
  using klist_refines [OF ring_init, of 2 1] by simp

text \<open>C24: The search loop of the ordered lists (\<^verbatim>\<open>pend_list_add\<close>, \<^verbatim>\<open>tick_list_pri_insert\<close>) ends, and
  inserting in front of the node it stops at puts the element before the first one that passes
  the test.\<close>

theorem ordered_insert_refines:
  assumes "ring h a xs" and "e \<notin> set (a # xs)"
  shows "\<exists>q. scan (Suc (length xs)) (nxt h) P (nxt h a) a = Some q
           \<and> ring (klist_insert h q e) a (insert_before P e xs)"
  using assms by (rule kl.scan_insert)

theorem ordered_insert_refines_witness:
  "\<exists>q. scan 1 (nxt (klist_init \<lparr>nxt = (\<lambda>_. 0), prv = (\<lambda>_. 0)\<rparr> 1)) (\<lambda>x. x > 5) 1 1 = Some q
     \<and> ring (klist_insert (klist_init \<lparr>nxt = (\<lambda>_. 0), prv = (\<lambda>_. 0)\<rparr> 1) q 7) 1 [7]"
  using ordered_insert_refines [of "klist_init \<lparr>nxt = (\<lambda>_. 0), prv = (\<lambda>_. 0)\<rparr> 1" 1 "[]" 7
      "\<lambda>x. x > 5", OF ring_init]
  by (simp add: klist_init_def set_nxt_def set_prv_def Let_def)

end
