(* ===== verification/Bitmap.thy ===== *)
theory Bitmap
  imports Rhino_Prelude
begin

text \<open>
  \<^verbatim>\<open>kernel/rhino/core/include/k_bitmap.h\<close>: the bitmap of ready priorities. A bitmap is the list
  of its 32-bit words; bit \<open>nr\<close> is stored most significant bit first.
  The operations are the C ones, on words; the lemmas relate them to the set of positions
  the bitmap holds.
\<close>

section \<open>Operations\<close>

text \<open>\<^verbatim>\<open>BITMAP_MASK\<close> and \<^verbatim>\<open>BITMAP_WORD\<close>.\<close>

definition BITMAP_MASK :: "nat \<Rightarrow> u32" where
  "BITMAP_MASK nr = push_bit (32 - 1 - nr mod 32) 1"

definition BITMAP_WORD :: "nat \<Rightarrow> nat" where
  "BITMAP_WORD nr = nr div 32"

definition krhino_bitmap_set :: "u32 list \<Rightarrow> nat \<Rightarrow> u32 list" where
  "krhino_bitmap_set bitmap nr =
     bitmap[BITMAP_WORD nr := (bitmap ! BITMAP_WORD nr) OR BITMAP_MASK nr]"

definition krhino_bitmap_clear :: "u32 list \<Rightarrow> nat \<Rightarrow> u32 list" where
  "krhino_bitmap_clear bitmap nr =
     bitmap[BITMAP_WORD nr := (bitmap ! BITMAP_WORD nr) AND NOT (BITMAP_MASK nr)]"

text \<open>One step of the binary search: shift the word and count when its top part is zero.\<close>

definition norm_step :: "u32 \<Rightarrow> nat \<Rightarrow> u32 \<times> nat \<Rightarrow> u32 \<times> nat" where
  "norm_step hi k = (\<lambda>(x, n). if x AND hi = 0 then (push_bit k x, n + k) else (x, n))"

definition krhino_clz32 :: "u32 \<Rightarrow> nat" where
  "krhino_clz32 x =
     (if x = 0 then 32
      else
        let (x, n) = norm_step 0xC0000000 2
                      (norm_step 0xF0000000 4
                        (norm_step 0xFF000000 8 (norm_step 0xFFFF0000 16 (x, 0))))
        in if x AND 0x80000000 = 0 then n + 1 else n)"

text \<open>
  \<^verbatim>\<open>krhino_find_first_bit\<close> skips the zero words without looking at the length of the
  array: on a bitmap with no bit set it reads past the end. That case is \<open>None\<close>.
\<close>

fun krhino_find_first_bit :: "u32 list \<Rightarrow> nat option" where
  "krhino_find_first_bit [] = None"
| "krhino_find_first_bit (tmp # bitmap) =
     (if tmp = 0 then map_option (\<lambda>nr. nr + 32) (krhino_find_first_bit bitmap)
      else
        let (tmp, nr) = norm_step 0xC0000000 2
                      (norm_step 0xF0000000 4
                        (norm_step 0xFF000000 8 (norm_step 0xFFFF0000 16 (tmp, 0))))
        in Some (if tmp AND 0x80000000 = 0 then nr + 1 else nr))"

section \<open>The positions a bitmap holds\<close>

definition bm_test :: "u32 list \<Rightarrow> nat \<Rightarrow> bool" where
  "bm_test bm nr \<longleftrightarrow> nr div 32 < length bm \<and> bit (bm ! (nr div 32)) (31 - nr mod 32)"

lemma bit_BITMAP_MASK: "bit (BITMAP_MASK nr) i \<longleftrightarrow> i = 31 - nr mod 32"
  by (auto simp: BITMAP_MASK_def bit_simps)

lemma length_bitmap_set [simp]: "length (krhino_bitmap_set bm nr) = length bm"
  by (simp add: krhino_bitmap_set_def)

lemma length_bitmap_clear [simp]: "length (krhino_bitmap_clear bm nr) = length bm"
  by (simp add: krhino_bitmap_clear_def)

lemma pos_eq: "n div 32 = m div 32 \<Longrightarrow> 31 - n mod 32 = 31 - m mod 32 \<Longrightarrow> n = (m::nat)"
proof -
  assume a: "n div 32 = m div 32" and b: "31 - n mod 32 = 31 - m mod 32"
  have "n mod 32 < 32" "m mod 32 < 32" by simp_all
  with b have "n mod 32 = m mod 32" by arith
  with a show ?thesis by (metis div_mult_mod_eq)
qed

lemma pos_iff: "n div 32 = m div 32 \<Longrightarrow> 31 - n mod 32 = 31 - m mod 32 \<longleftrightarrow> n = (m::nat)"
  using pos_eq by blast

lemma bm_test_set:
  assumes "nr div 32 < length bm"
  shows "bm_test (krhino_bitmap_set bm nr) m \<longleftrightarrow> m = nr \<or> bm_test bm m"
proof (cases "m div 32 = nr div 32")
  case True
  with assms show ?thesis
    by (simp add: bm_test_def krhino_bitmap_set_def BITMAP_WORD_def bit_or_iff
        bit_BITMAP_MASK pos_iff disj_commute)
next
  case False
  then have "m \<noteq> nr" by auto
  with False show ?thesis
    by (simp add: bm_test_def krhino_bitmap_set_def BITMAP_WORD_def)
qed

lemma bm_test_clear:
  assumes "nr div 32 < length bm"
  shows "bm_test (krhino_bitmap_clear bm nr) m \<longleftrightarrow> m \<noteq> nr \<and> bm_test bm m"
proof (cases "m div 32 = nr div 32")
  case True
  have "31 - m mod 32 < 32" by arith
  with True assms show ?thesis
    by (auto simp: bm_test_def krhino_bitmap_clear_def BITMAP_WORD_def bit_and_iff
        bit_not_iff bit_BITMAP_MASK pos_iff)
next
  case False
  then have "m \<noteq> nr" by auto
  with False show ?thesis
    by (simp add: bm_test_def krhino_bitmap_clear_def BITMAP_WORD_def)
qed

section \<open>Counting leading zeros\<close>

text \<open>
  Invariant of the search: the pair \<open>(x, n)\<close> still denotes the original word, no set bit
  was shifted out, and the remaining zeros are fewer than the current window.
\<close>

definition norm_inv :: "u32 \<Rightarrow> nat \<Rightarrow> u32 \<times> nat \<Rightarrow> bool" where
  "norm_inv w d = (\<lambda>(x, n). unat x = unat w * 2 ^ n \<and> 2 ^ (32 - d) \<le> unat x)"

lemma bit_top:
  "bit (push_bit (32 - k) (mask k) :: u32) i \<longleftrightarrow> k \<le> 32 \<and> 32 - k \<le> i \<and> i < 32 \<or> k > 32 \<and> i < 32"
  by (auto simp: bit_simps)

lemma and_top_zero:
  assumes "k \<le> 32"
  shows "x AND push_bit (32 - k) (mask k) = (0::u32) \<longleftrightarrow> unat x < 2 ^ (32 - k)"
proof -
  have "x AND push_bit (32 - k) (mask k) = (0::u32) \<longleftrightarrow> (\<forall>i. 32 - k \<le> i \<and> i < 32 \<longrightarrow> \<not> bit x i)"
    using assms by (auto simp: bit_eq_iff bit_and_iff bit_top)
  also have "\<dots> \<longleftrightarrow> drop_bit (32 - k) x = 0"
  proof
    assume z: "\<forall>i. 32 - k \<le> i \<and> i < 32 \<longrightarrow> \<not> bit x i"
    show "drop_bit (32 - k) x = 0"
    proof (rule bit_eqI)
      fix n
      have "bit x (32 - k + n) \<Longrightarrow> 32 - k + n < 32"
        using bit_imp_le_length [of x "32 - k + n"] by simp
      then show "bit (drop_bit (32 - k) x) n = bit (0::u32) n"
        using z by (auto simp: bit_drop_bit_eq)
    qed
  next
    assume d: "drop_bit (32 - k) x = 0"
    show "\<forall>i. 32 - k \<le> i \<and> i < 32 \<longrightarrow> \<not> bit x i"
    proof (intro allI impI)
      fix i assume i: "32 - k \<le> i \<and> i < 32"
      from d have "\<not> bit (drop_bit (32 - k) x) (i - (32 - k))" by simp
      with i show "\<not> bit x i" by (simp add: bit_drop_bit_eq)
    qed
  qed
  also have "\<dots> \<longleftrightarrow> unat (drop_bit (32 - k) x) = 0"
    by (simp add: unat_eq_0)
  also have "\<dots> \<longleftrightarrow> unat x div 2 ^ (32 - k) = 0"
    unfolding unat_drop_bit_eq by (simp add: drop_bit_eq_div)
  also have "\<dots> \<longleftrightarrow> unat x < 2 ^ (32 - k)"
    by (simp add: div_eq_0_iff)
  finally show ?thesis .
qed

lemma top_masks:
  "x AND 0xFFFF0000 = (0::u32) \<longleftrightarrow> unat x < 2 ^ 16"
  "x AND 0xFF000000 = (0::u32) \<longleftrightarrow> unat x < 2 ^ 24"
  "x AND 0xF0000000 = (0::u32) \<longleftrightarrow> unat x < 2 ^ 28"
  "x AND 0xC0000000 = (0::u32) \<longleftrightarrow> unat x < 2 ^ 30"
  "x AND 0x80000000 = (0::u32) \<longleftrightarrow> unat x < 2 ^ 31"
  using and_top_zero [of 16 x] and_top_zero [of 8 x] and_top_zero [of 4 x]
    and_top_zero [of 2 x] and_top_zero [of 1 x]
  by (simp_all add: mask_eq_exp_minus_1)

lemma unat_push_bit_small: "unat x * 2 ^ k < 2 ^ 32 \<Longrightarrow> unat (push_bit k (x::u32)) = unat x * 2 ^ k"
  unfolding unsigned_push_bit_eq by (simp add: push_bit_eq_mult take_bit_nat_eq_self)

lemma norm_step_inv:
  assumes hi: "x AND hi = 0 \<longleftrightarrow> unat x < 2 ^ (32 - k)"
    and inv: "norm_inv w (2 * k) (x, n)" and k: "2 * k \<le> 32"
  shows "norm_inv w k (norm_step hi k (x, n))"
proof (cases "unat x < 2 ^ (32 - k)")
  case True
  have "unat x * 2 ^ k < 2 ^ (32 - k) * 2 ^ k"
    using True by simp
  also have "\<dots> = (2::nat) ^ 32"
    using k by (simp flip: power_add)
  finally have u: "unat (push_bit k x) = unat x * 2 ^ k"
    by (rule unat_push_bit_small)
  have "(2::nat) ^ (32 - k) = 2 ^ (32 - 2 * k) * 2 ^ k"
    using k by (simp flip: power_add)
  also have "\<dots> \<le> unat x * 2 ^ k"
    using inv by (simp add: norm_inv_def)
  finally have "2 ^ (32 - k) \<le> unat (push_bit k x)"
    by (simp add: u)
  moreover have "unat (push_bit k x) = unat w * 2 ^ (n + k)"
    using inv by (simp add: norm_inv_def u power_add)
  moreover have "norm_step hi k (x, n) = (push_bit k x, n + k)"
    using True hi by (simp add: norm_step_def)
  ultimately show ?thesis
    by (simp add: norm_inv_def)
next
  case False
  then have "norm_step hi k (x, n) = (x, n)"
    using hi by (simp add: norm_step_def)
  with False inv show ?thesis
    by (simp add: norm_inv_def)
qed

lemma norm_step_invs:
  "norm_inv w 32 p \<Longrightarrow> norm_inv w 16 (norm_step 0xFFFF0000 16 p)"
  "norm_inv w 16 p \<Longrightarrow> norm_inv w 8 (norm_step 0xFF000000 8 p)"
  "norm_inv w 8 p \<Longrightarrow> norm_inv w 4 (norm_step 0xF0000000 4 p)"
  "norm_inv w 4 p \<Longrightarrow> norm_inv w 2 (norm_step 0xC0000000 2 p)"
  using norm_step_inv [of "fst p" "0xFFFF0000" 16 w "snd p"]
    norm_step_inv [of "fst p" "0xFF000000" 8 w "snd p"]
    norm_step_inv [of "fst p" "0xF0000000" 4 w "snd p"]
    norm_step_inv [of "fst p" "0xC0000000" 2 w "snd p"]
  by (simp_all add: top_masks)

text \<open>The four halving steps, as \<open>krhino_clz32\<close> and \<open>krhino_find_first_bit\<close> chain them.\<close>

lemma norm_word_inv:
  assumes "w \<noteq> 0"
  shows "norm_inv w 2 (norm_step 0xC0000000 2
      (norm_step 0xF0000000 4 (norm_step 0xFF000000 8 (norm_step 0xFFFF0000 16 (w, 0)))))"
  using assms by (intro norm_step_invs) (simp add: norm_inv_def unat_gt_0 Suc_le_eq)

lemma norm_last:
  assumes inv: "norm_inv w 2 (x, n)" and m: "m = (if x AND 0x80000000 = 0 then n + 1 else n)"
  shows "m < 32 \<and> 2 ^ (31 - m) \<le> unat w \<and> unat w < 2 ^ (32 - m)"
proof -
  have x: "unat x = unat w * 2 ^ n" and lo: "2 ^ 30 \<le> unat x"
    using inv by (simp_all add: norm_inv_def)
  have hi: "unat x < 2 ^ 32"
    using unsigned_less [of x] by simp
  have w: "2 ^ 31 \<le> unat w * 2 ^ m" "unat w * 2 ^ m < 2 ^ 32"
    using x lo hi m by (auto simp: top_masks not_less split: if_splits)
  have "unat w \<noteq> 0"
    using w(1) by (cases "unat w") auto
  then have "(2::nat) ^ m \<le> unat w * 2 ^ m"
    by simp
  then have "(2::nat) ^ m < 2 ^ 32"
    using w(2) by (rule le_less_trans)
  then have m32: "m < 32"
    by (simp only: power_strict_increasing_iff)
  have "(2::nat) ^ 31 = 2 ^ (31 - m) * 2 ^ m" "(2::nat) ^ 32 = 2 ^ (32 - m) * 2 ^ m"
    using m32 by (simp_all flip: power_add)
  with w have "2 ^ (31 - m) * 2 ^ m \<le> unat w * 2 ^ m" "unat w * 2 ^ m < 2 ^ (32 - m) * 2 ^ m"
    by simp_all
  with m32 show ?thesis by simp
qed

lemma krhino_clz32_bounds:
  assumes "w \<noteq> 0"
  shows "krhino_clz32 w < 32 \<and> 2 ^ (31 - krhino_clz32 w) \<le> unat w
         \<and> unat w < 2 ^ (32 - krhino_clz32 w)"
proof -
  obtain x n where xn: "norm_step 0xC0000000 2 (norm_step 0xF0000000 4
      (norm_step 0xFF000000 8 (norm_step 0xFFFF0000 16 (w, 0)))) = (x, n)"
    by (metis surj_pair)
  then have "krhino_clz32 w = (if x AND 0x80000000 = 0 then n + 1 else n)"
    using assms by (simp add: krhino_clz32_def)
  with norm_word_inv [OF assms] xn show ?thesis
    by (intro norm_last) simp_all
qed

lemma find_first_bit_clz:
  "krhino_find_first_bit (w # ws) =
     (if w = 0 then map_option (\<lambda>nr. nr + 32) (krhino_find_first_bit ws)
      else Some (krhino_clz32 w))"
  by (simp add: krhino_clz32_def Let_def case_prod_unfold)

lemma bit_word_unat: "bit (w::u32) i \<longleftrightarrow> odd (unat w div 2 ^ i)"
  using bit_iff_odd [of "unat w" i] by (simp add: bit_unsigned_iff)

lemma leading_bit:
  assumes "w \<noteq> 0"
  shows "bit w (31 - krhino_clz32 w)" and "k < krhino_clz32 w \<Longrightarrow> \<not> bit w (31 - k)"
proof -
  let ?n = "krhino_clz32 w"
  have b: "?n < 32" "2 ^ (31 - ?n) \<le> unat w" "unat w < 2 ^ (32 - ?n)"
    using krhino_clz32_bounds [OF assms] by simp_all
  have e: "(2::nat) ^ (32 - ?n) = 2 * 2 ^ (31 - ?n)"
    using b(1) by (simp add: Suc_diff_Suc numeral_eq_Suc flip: power_Suc)
  have "unat w div 2 ^ (31 - ?n) = 1"
    using b(2,3) e by (intro div_nat_eqI) auto
  then show "bit w (31 - ?n)"
    by (simp add: bit_word_unat)
  assume k: "k < ?n"
  have "unat w < 2 ^ (31 - k)"
  proof -
    have "(2::nat) ^ (32 - ?n) \<le> 2 ^ (31 - k)"
      using k b(1) by (intro power_increasing) auto
    with b(3) show ?thesis by (rule less_le_trans)
  qed
  then have "unat w div 2 ^ (31 - k) = 0"
    by simp
  then show "\<not> bit w (31 - k)"
    by (simp add: bit_word_unat)
qed

section \<open>Finding the first bit\<close>

lemma bm_test_Nil [simp]: "\<not> bm_test [] nr"
  by (simp add: bm_test_def)

lemma bm_test_Cons:
  "bm_test (w # ws) nr \<longleftrightarrow> (if nr < 32 then bit w (31 - nr) else bm_test ws (nr - 32))"
proof (cases "nr < 32")
  case False
  then obtain k where k: "nr = k + 32" by (metis add.commute le_Suc_ex not_less)
  have "(k + 32) div 32 = Suc (k div 32)"
    by simp
  then show ?thesis by (simp only: bm_test_def k) simp
qed (simp add: bm_test_def)

lemma find_first_bit_None:
  "krhino_find_first_bit bm = None \<longleftrightarrow> (\<forall>nr. \<not> bm_test bm nr)"
proof (induction bm)
  case (Cons w ws)
  show ?case
  proof (cases "w = 0")
    case True
    have "(\<forall>nr. \<not> bm_test (w # ws) nr) \<longleftrightarrow> (\<forall>nr. \<not> bm_test ws nr)"
      using True by (auto simp: bm_test_Cons)
    with True Cons.IH show ?thesis by simp
  next
    case False
    then have "bm_test (w # ws) (krhino_clz32 w)"
      using leading_bit(1) [OF False] krhino_clz32_bounds [OF False] by (simp add: bm_test_Cons)
    with False show ?thesis by (auto simp: find_first_bit_clz simp del: krhino_find_first_bit.simps)
  qed
qed simp

lemma find_first_bit_Some:
  "krhino_find_first_bit bm = Some nr \<Longrightarrow> bm_test bm nr \<and> (\<forall>k < nr. \<not> bm_test bm k)"
proof (induction bm arbitrary: nr)
  case (Cons w ws)
  show ?case
  proof (cases "w = 0")
    case True
    then obtain k where k: "krhino_find_first_bit ws = Some k" "nr = k + 32"
      using Cons.prems by auto
    then have "bm_test ws k \<and> (\<forall>j < k. \<not> bm_test ws j)"
      using Cons.IH by blast
    with k(2) True show ?thesis by (auto simp: bm_test_Cons)
  next
    case False
    then have "nr = krhino_clz32 w"
      using Cons.prems by (simp add: find_first_bit_clz del: krhino_find_first_bit.simps)
    then show ?thesis
      using leading_bit [OF False] krhino_clz32_bounds [OF False] by (auto simp: bm_test_Cons)
  qed
qed simp

lemma find_first_bit_eq:
  "krhino_find_first_bit bm = Some nr \<longleftrightarrow> bm_test bm nr \<and> (\<forall>k < nr. \<not> bm_test bm k)"
proof
  assume a: "bm_test bm nr \<and> (\<forall>k < nr. \<not> bm_test bm k)"
  then obtain m where m: "krhino_find_first_bit bm = Some m"
    using find_first_bit_None by (metis not_None_eq)
  then have "m = nr"
    using a find_first_bit_Some [OF m] by (metis linorder_less_linear)
  with m show "krhino_find_first_bit bm = Some nr" by simp
qed (rule find_first_bit_Some)

declare krhino_find_first_bit.simps [simp del]

section \<open>Properties\<close>

text \<open>C22: \<^verbatim>\<open>krhino_find_first_bit\<close> returns the least set bit of a bitmap of any length; on a bitmap
  without one it has no result (the C loop runs past the array).\<close>

theorem krhino_find_first_bit_least:
  "krhino_find_first_bit bm =
     (if \<exists>nr. bm_test bm nr then Some (LEAST nr. bm_test bm nr) else None)"
proof (cases "krhino_find_first_bit bm")
  case None
  then show ?thesis using find_first_bit_None by auto
next
  case (Some nr)
  note f = find_first_bit_Some [OF Some]
  then have "(LEAST nr. bm_test bm nr) = nr"
    by (intro Least_equality) (auto simp: not_less [symmetric])
  with f Some show ?thesis by auto
qed

text \<open>\<^verbatim>\<open>krhino_clz32\<close> counts the zero bits above the most significant one: the value lies
  between the powers of two that the count names.\<close>

theorem krhino_clz32_correct:
  "(krhino_clz32 w = 32 \<longleftrightarrow> w = 0) \<and>
   (w = 0 \<or> 2 ^ (31 - krhino_clz32 w) \<le> unat w \<and> unat w < 2 ^ (32 - krhino_clz32 w))"
proof (cases "w = 0")
  case True
  then show ?thesis by (simp add: krhino_clz32_def)
next
  case False
  with krhino_clz32_bounds [OF False] show ?thesis by auto
qed

end
