(* ===== verification/Ringbuf.thy ===== *)
theory Ringbuf
  imports Rhino_Prelude
begin

text \<open>
  \<^verbatim>\<open>kernel/rhino/core/k_ringbuf.c\<close>: the byte ring buffer under message queues and buffer
  queues. A buffer of type FIX holds blocks of one size, a buffer of type DYN holds messages
  of any size behind a length header of one to three bytes.

  The memory between \<^verbatim>\<open>buf\<close> and \<^verbatim>\<open>end\<close> is the list \<open>rb_buf\<close>, and \<^verbatim>\<open>head\<close> and \<^verbatim>\<open>tail\<close> are
  offsets into it. A source pointer is the map of the bytes it points at, so that
  \<^verbatim>\<open>memcpy(dst, data, n)\<close> reads \<open>map data [0..<n]\<close>; a destination is the list of bytes
  written. The sizes are bounded by the buffer, so they are natural numbers.
\<close>

section \<open>State\<close>

definition RINGBUF_TYPE_FIX :: nat where "RINGBUF_TYPE_FIX = 0"
definition RINGBUF_TYPE_DYN :: nat where "RINGBUF_TYPE_DYN = 1"
definition RINGBUF_LEN_MAX_SIZE :: nat where "RINGBUF_LEN_MAX_SIZE = 3"
definition RINGBUF_LEN_3BYTES_MAXVALUE :: nat where "RINGBUF_LEN_3BYTES_MAXVALUE = 0x3fffff"

record k_ringbuf_t =
  rb_buf :: "u8 list"
  rb_head :: nat
  rb_tail :: nat
  rb_freesize :: nat
  rb_type :: nat
  rb_blk_size :: nat

definition rb_end :: "k_ringbuf_t \<Rightarrow> nat" where
  "rb_end rb = length (rb_buf rb)"

text \<open>\<^verbatim>\<open>memcpy\<close> into the buffer at an offset.\<close>

definition blit :: "u8 list \<Rightarrow> nat \<Rightarrow> u8 list \<Rightarrow> u8 list" where
  "blit buf off bs = take off buf @ bs @ drop (off + length bs) buf"

section \<open>Operations\<close>

definition ringbuf_reset :: "k_ringbuf_t \<Rightarrow> k_ringbuf_t" where
  "ringbuf_reset rb = rb\<lparr>rb_head := 0, rb_tail := 0, rb_freesize := rb_end rb\<rparr>"

definition ringbuf_init :: "u8 list \<Rightarrow> nat \<Rightarrow> nat \<Rightarrow> k_ringbuf_t" where
  "ringbuf_init buf type block_size =
     ringbuf_reset \<lparr>rb_buf = buf, rb_head = 0, rb_tail = 0, rb_freesize = 0,
                    rb_type = type, rb_blk_size = block_size\<rparr>"

definition ringbuf_is_full :: "k_ringbuf_t \<Rightarrow> bool" where
  "ringbuf_is_full rb \<longleftrightarrow>
     (rb_type rb = RINGBUF_TYPE_DYN \<and> rb_freesize rb < 2)
     \<or> (rb_type rb = RINGBUF_TYPE_FIX \<and> rb_freesize rb < rb_blk_size rb)"

definition ringbuf_is_empty :: "k_ringbuf_t \<Rightarrow> bool" where
  "ringbuf_is_empty rb \<longleftrightarrow> rb_freesize rb = rb_end rb"

text \<open>
  \<^verbatim>\<open>COMPRESS_LEN\<close>: the size of the header; a length that does not fit yields the numeric
  value of \<^verbatim>\<open>RHINO_INV_PARAM\<close>, 5.
\<close>

definition COMPRESS_LEN :: "nat \<Rightarrow> nat" where
  "COMPRESS_LEN x =
     (if x \<le> 0x7f then 1 else if x \<le> 0x3fff then 2 else if x \<le> 0x3fffff then 3 else 5)"

text \<open>Byte \<open>i\<close> of a 32-bit length, counted from the least significant one.\<close>

definition len_byte :: "nat \<Rightarrow> nat \<Rightarrow> u8" where
  "len_byte i n = word_of_nat (n div 256 ^ i)"

definition ringbuf_headlen_compress :: "nat \<Rightarrow> nat \<times> u8 list" where
  "ringbuf_headlen_compress head_len =
     (let len_bytes = COMPRESS_LEN head_len in
      (len_bytes,
       if len_bytes = 1 then [0x7f AND len_byte 0 head_len]
       else if len_bytes = 2 then [0x80 OR len_byte 1 head_len, len_byte 0 head_len]
       else if len_bytes = 3 then
         [0xC0 OR len_byte 2 head_len, len_byte 1 head_len, len_byte 0 head_len]
       else []))"

text \<open>Big-endian value of a byte list.\<close>

definition be_val :: "u8 list \<Rightarrow> nat" where
  "be_val bs = foldl (\<lambda>a b. a * 256 + unat b) 0 bs"

definition ringbuf_headlen_decompress :: "nat \<Rightarrow> u8 list \<Rightarrow> nat" where
  "ringbuf_headlen_decompress buf_len cmp_buf =
     (let len_buf = take buf_len cmp_buf in
      be_val (if buf_len > 1 then (hd len_buf AND 0x3f) # tl len_buf else len_buf))"

definition wrap_tail :: "k_ringbuf_t \<Rightarrow> k_ringbuf_t" where
  "wrap_tail rb = (if rb_tail rb = rb_end rb then rb\<lparr>rb_tail := 0\<rparr> else rb)"

definition wrap_head :: "k_ringbuf_t \<Rightarrow> k_ringbuf_t" where
  "wrap_head rb = (if rb_head rb = rb_end rb then rb\<lparr>rb_head := 0\<rparr> else rb)"

text \<open>One \<^verbatim>\<open>memcpy\<close> to the tail with its accounting.\<close>

definition put :: "k_ringbuf_t \<Rightarrow> u8 list \<Rightarrow> k_ringbuf_t" where
  "put rb bs = rb\<lparr>rb_buf := blit (rb_buf rb) (rb_tail rb) bs,
                  rb_tail := rb_tail rb + length bs,
                  rb_freesize := rb_freesize rb - length bs\<rparr>"

text \<open>
  Copying the header or the data of a message: when it would run over the end of the buffer,
  the part that fits goes to the end and the rest to the start.
\<close>

definition split_put :: "k_ringbuf_t \<Rightarrow> u8 list \<Rightarrow> k_ringbuf_t" where
  "split_put rb bs =
     (let split_len = rb_end rb - rb_tail rb in
      if rb_tail rb \<ge> rb_head rb \<and> split_len < length bs \<and> split_len > 0 then
        put ((put rb (take split_len bs))\<lparr>rb_tail := 0\<rparr>) (drop split_len bs)
      else put rb bs)"

definition ringbuf_push :: "k_ringbuf_t \<Rightarrow> (nat \<Rightarrow> u8) \<Rightarrow> nat \<Rightarrow> kstat \<times> k_ringbuf_t" where
  "ringbuf_push rb data len =
     (if ringbuf_is_full rb then (RHINO_RINGBUF_FULL, rb)
      else if rb_type rb = RINGBUF_TYPE_FIX then
        (RHINO_SUCCESS, put (wrap_tail rb) (map data [0..<rb_blk_size rb]))
      else
        let (len_bytes, c_len) = ringbuf_headlen_compress len in
        if len_bytes = 0 \<or> len_bytes > RINGBUF_LEN_MAX_SIZE then (RHINO_INV_PARAM, rb)
        else if rb_freesize rb < len_bytes + len then (RHINO_RINGBUF_FULL, rb)
        else
          let rb = split_put (wrap_tail rb) c_len
          in (RHINO_SUCCESS, split_put (wrap_tail rb) (map data [0..<len])))"

text \<open>One \<^verbatim>\<open>memcpy\<close> from the head with its accounting.\<close>

definition get :: "k_ringbuf_t \<Rightarrow> nat \<Rightarrow> u8 list \<times> k_ringbuf_t" where
  "get rb n = (take n (drop (rb_head rb) (rb_buf rb)),
               rb\<lparr>rb_head := rb_head rb + n, rb_freesize := rb_freesize rb + n\<rparr>)"

definition split_get :: "bool \<Rightarrow> k_ringbuf_t \<Rightarrow> nat \<Rightarrow> u8 list \<times> k_ringbuf_t" where
  "split_get cond rb n =
     (let split_len = rb_end rb - rb_head rb in
      if cond \<and> split_len < n then
        let (bs1, rb) = get rb split_len;
            (bs2, rb) = get (rb\<lparr>rb_head := 0\<rparr>) (n - split_len)
        in (bs1 @ bs2, rb)
      else get rb n)"

text \<open>
  \<^verbatim>\<open>ringbuf_pop\<close> returns the status, the bytes it copied to \<^verbatim>\<open>pdata\<close>, the value it stored
  through \<^verbatim>\<open>plen\<close>, and the buffer.
\<close>

definition ringbuf_pop :: "k_ringbuf_t \<Rightarrow> kstat \<times> u8 list \<times> nat \<times> k_ringbuf_t" where
  "ringbuf_pop rb =
     (if ringbuf_is_empty rb then (RHINO_RINGBUF_EMPTY, [], 0, rb)
      else if rb_type rb = RINGBUF_TYPE_FIX then
        let (bs, rb) = get (wrap_head rb) (rb_blk_size rb)
        in (RHINO_SUCCESS, bs, rb_blk_size rb, rb)
      else
        let rb = wrap_head rb;
            b = rb_buf rb ! rb_head rb;
            len_bytes = (if b AND 0x80 = 0 then 1
                         else if b AND 0xC0 = 0x80 then 2
                         else if b AND 0xC0 = 0xC0 then 3 else 0)
        in if len_bytes = 0 then (RHINO_INV_PARAM, [], 0, rb)
           else
             let (c_len, rb) = split_get (rb_end rb - rb_head rb > 0) rb len_bytes;
                 len = ringbuf_headlen_decompress len_bytes c_len;
                 rb = wrap_head rb;
                 (bs, rb) = split_get (rb_head rb > rb_tail rb) rb len
             in (RHINO_SUCCESS, bs, len, rb))"

end
