(* ===== verification/Kernel_State.thy ===== *)
theory Kernel_State
  imports Klist Bitmap Ringbuf
begin

text \<open>
  The data of the kernel: task control blocks (\<^verbatim>\<open>k_task.h\<close>), kernel objects
  (\<^verbatim>\<open>k_obj.h\<close>, \<^verbatim>\<open>k_sem.h\<close>, \<^verbatim>\<open>k_mutex.h\<close>, \<^verbatim>\<open>k_queue.h\<close>, \<^verbatim>\<open>k_buf_queue.h\<close>, \<^verbatim>\<open>k_event.h\<close>,
  \<^verbatim>\<open>k_mm_blk.h\<close>, \<^verbatim>\<open>k_timer.h\<close>), the
  run queue (\<^verbatim>\<open>k_sched.h\<close>) and the globals of \<^verbatim>\<open>k_obj.c\<close>.

  Structures are records stored at addresses (maps from \<open>ptr\<close>). A structure that starts with a
  \<^verbatim>\<open>blk_obj_t\<close> has that part in \<open>blks\<close> and the rest in the map of its kind, both at the address
  of the object, as the casts \<^verbatim>\<open>(blk_obj_t *)sem\<close> and \<^verbatim>\<open>(kmutex_t *)task->blk_obj\<close> need it.
  Circular lists are the sequences they represent (theory \<open>Klist\<close> justifies the operations on
  them); a non-empty ready list starts at \<^verbatim>\<open>cur_list_item[prio]\<close>. The singly linked chain of
  mutexes a task holds (\<^verbatim>\<open>task->mutex_list\<close>, linked through \<^verbatim>\<open>mutex->mutex_list\<close>) is a list of
  addresses in the task; theory \<open>Mutex_Chain\<close> justifies the operations on it for tasks that have not been
  deleted. The list of a deleted task is what the pointers say only until one of its mutexes gets a
  new owner, whose chain the link of the mutex then continues; no call that \<open>legal\<close> admits looks at it.
  Names, stacks, statistics counters and trace points are left out.
\<close>

section \<open>Enumerations\<close>

datatype (plugins only: code size) task_stat_t =
    K_SEED | K_RDY | K_PEND | K_SUSPENDED | K_PEND_SUSPENDED | K_SLEEP | K_SLEEP_SUSPENDED
  | K_DELETED

datatype (plugins only: code size) blk_policy_t = BLK_POLICY_PRI | BLK_POLICY_FIFO

datatype (plugins only: code size) blk_state_t =
    BLK_FINISH | BLK_ABORT | BLK_TIMEOUT | BLK_DEL | BLK_INVALID

datatype (plugins only: code size) kobj_type_t =
    RHINO_OBJ_TYPE_NONE | RHINO_SEM_OBJ_TYPE | RHINO_MUTEX_OBJ_TYPE | RHINO_QUEUE_OBJ_TYPE
  | RHINO_BUF_QUEUE_OBJ_TYPE | RHINO_TIMER_OBJ_TYPE | RHINO_EVENT_OBJ_TYPE | RHINO_MM_OBJ_TYPE

text \<open>\<^verbatim>\<open>K_OBJ_STATIC_ALLOC\<close> and \<^verbatim>\<open>K_OBJ_DYN_ALLOC\<close>, the values of \<^verbatim>\<open>mm_alloc_flag\<close>.\<close>

datatype (plugins only: code size) alloc_flag_t =
    K_OBJ_NO_ALLOC | K_OBJ_STATIC_ALLOC | K_OBJ_DYN_ALLOC

section \<open>Structures\<close>

record ktask_t =
  stack_size :: u32
  suspend_count :: u8
  mutex_list :: "ptr list"
  tick_match :: tick
  tick_remain :: tick
  tick_head :: bool
  msg :: u32
  bq_msg_size :: nat
  task_state :: task_stat_t
  blk_state :: blk_state_t
  blk_obj :: ptr
  task_sem_obj :: ptr
  task_time_slice :: u32
  time_total :: u32
  pend_flags :: u32
  pend_info :: ptr
  pend_option :: u8
  sched_policy :: u8
  cpu_num :: u8
  prio :: nat
  b_prio :: nat
  task_mm_alloc_flag :: alloc_flag_t
  user_info :: "nat \<Rightarrow> ptr"

text \<open>A control block with every byte zero, as \<^verbatim>\<open>memset\<close> and the loader leave it.\<close>

definition zero_task :: ktask_t where
  "zero_task = \<lparr>stack_size = 0, suspend_count = 0, mutex_list = [], tick_match = 0,
     tick_remain = 0, tick_head = False, msg = 0, bq_msg_size = 0, task_state = K_SEED,
     blk_state = BLK_FINISH, blk_obj = NULL, task_sem_obj = NULL, task_time_slice = 0,
     time_total = 0, pend_flags = 0, pend_info = NULL, pend_option = 0, sched_policy = 0,
     cpu_num = 0, prio = 0, b_prio = 0, task_mm_alloc_flag = K_OBJ_NO_ALLOC,
     user_info = (\<lambda>_. NULL)\<rparr>"

record blk_obj_t =
  blk_list :: "ptr list"
  blk_policy :: blk_policy_t
  obj_type :: kobj_type_t

record ksem_t =
  count :: u32
  peak_count :: u32
  sem_mm_alloc_flag :: alloc_flag_t

record kmutex_t =
  mutex_task :: ptr
  owner_nested :: u32
  mutex_mm_alloc_flag :: alloc_flag_t

record kqueue_t =
  q_ringbuf :: k_ringbuf_t
  q_start :: ptr
  q_size :: nat
  q_cur_num :: nat
  q_peak_num :: nat
  queue_mm_alloc_flag :: alloc_flag_t

record kbuf_queue_t =
  bq_ringbuf :: k_ringbuf_t
  max_msg_size :: nat
  bq_cur_num :: nat
  bq_peak_num :: nat
  min_free_buf_size :: nat
  buf_queue_mm_alloc_flag :: alloc_flag_t

record kevent_t =
  flags :: u32
  event_mm_alloc_flag :: alloc_flag_t

record mblk_pool_t =
  pool_end :: u32
  pool_start :: ptr
  pool_blk_size :: u32
  blk_avail :: u32
  blk_whole :: u32
  avail_list :: ptr

datatype (plugins only: code size) k_timer_state_t = TIMER_DEACTIVE | TIMER_ACTIVE

record ktimer_t =
  to_head :: bool
  timer_cb :: ptr
  timer_cb_arg :: ptr
  timer_match :: tick
  timer_remain :: tick
  init_count :: tick
  round_ticks :: tick
  timer_obj_type :: kobj_type_t
  timer_state :: k_timer_state_t
  timer_mm_alloc_flag :: alloc_flag_t

text \<open>
  The head of a heap; the blocks, their headers and the links of the free lists are in \<open>umem\<close>. The
  arrays have 15 entries, one for each level.
\<close>

record k_mm_head =
  regioninfo :: ptr
  fix_pool :: ptr
  used_size :: u32
  maxused_size :: u32
  free_size :: u32
  alloc_times :: "nat \<Rightarrow> u32"
  free_bitmap :: u32
  freelist :: "nat \<Rightarrow> ptr"

record kobj_list_t =
  kobj_task_head :: "ptr list"
  kobj_mutex_head :: "ptr list"
  kobj_mblkpool_head :: "ptr list"
  kobj_sem_head :: "ptr list"
  kobj_queue_head :: "ptr list"
  kobj_event_head :: "ptr list"
  kobj_buf_queue_head :: "ptr list"

text \<open>
  The run queue. The ghost field \<open>rq_ub\<close> records that the C code would have dereferenced the
  null pointer or read past the bitmap.
\<close>

record runqueue_t =
  cur_list_item :: "nat \<Rightarrow> ptr list"
  task_bit_map :: "u32 list"
  highest_pri :: nat
  rq_ub :: bool

section \<open>The kernel state\<close>

text \<open>
  \<open>umem\<close> and \<open>bmem\<close> are the variables and the message buffers of the callers, which the kernel writes
  through pointers kept in a task or given to a call. \<open>umem\<close> has one cell for each variable, under its
  address, whatever its width: a pointer or a \<^verbatim>\<open>uint32_t\<close> fills it, a \<^verbatim>\<open>uint8_t\<close> (the old priority, the
  scheduling policy) is a value below 256 in it; \<open>k_errs\<close> logs the calls of \<^verbatim>\<open>k_err_proc\<close>.
\<close>

record kstate =
  g_sys_stat :: kstat
  g_idle_task_spawned :: bool
  g_ready_queue :: runqueue_t
  g_sched_lock :: u8
  g_intrpt_nested_level :: u8
  g_preferred_ready_task :: ptr
  g_active_task :: ptr
  g_tick_count :: tick
  g_tick_head :: "ptr list"
  g_kobj_list :: kobj_list_t
  tasks :: "ptr \<Rightarrow> ktask_t"
  blks :: "ptr \<Rightarrow> blk_obj_t"
  sems :: "ptr \<Rightarrow> ksem_t"
  mutexes :: "ptr \<Rightarrow> kmutex_t"
  queues :: "ptr \<Rightarrow> kqueue_t"
  bufqs :: "ptr \<Rightarrow> kbuf_queue_t"
  events :: "ptr \<Rightarrow> kevent_t"
  mblk_pools :: "ptr \<Rightarrow> mblk_pool_t"
  g_timer_head :: "ptr list"
  g_timer_count :: tick
  timers :: "ptr \<Rightarrow> ktimer_t"
  mm_heads :: "ptr \<Rightarrow> k_mm_head"
  g_kmm_head :: ptr
  umem :: "ptr \<Rightarrow> u32"
  bmem :: "ptr \<Rightarrow> u8 list"
  k_errs :: "kstat list"

text \<open>Assignments through a pointer.\<close>

abbreviation set_task :: "ptr \<Rightarrow> (ktask_t \<Rightarrow> ktask_t) \<Rightarrow> kstate \<Rightarrow> kstate" where
  "set_task t f \<equiv> tasks_update (\<lambda>T. T(t := f (T t)))"

abbreviation set_blk :: "ptr \<Rightarrow> (blk_obj_t \<Rightarrow> blk_obj_t) \<Rightarrow> kstate \<Rightarrow> kstate" where
  "set_blk ob f \<equiv> blks_update (\<lambda>B. B(ob := f (B ob)))"

abbreviation set_mutex :: "ptr \<Rightarrow> (kmutex_t \<Rightarrow> kmutex_t) \<Rightarrow> kstate \<Rightarrow> kstate" where
  "set_mutex m f \<equiv> mutexes_update (\<lambda>M. M(m := f (M m)))"

abbreviation set_sem :: "ptr \<Rightarrow> (ksem_t \<Rightarrow> ksem_t) \<Rightarrow> kstate \<Rightarrow> kstate" where
  "set_sem p f \<equiv> sems_update (\<lambda>S. S(p := f (S p)))"

abbreviation set_queue :: "ptr \<Rightarrow> (kqueue_t \<Rightarrow> kqueue_t) \<Rightarrow> kstate \<Rightarrow> kstate" where
  "set_queue p f \<equiv> queues_update (\<lambda>Q. Q(p := f (Q p)))"

abbreviation set_bufq :: "ptr \<Rightarrow> (kbuf_queue_t \<Rightarrow> kbuf_queue_t) \<Rightarrow> kstate \<Rightarrow> kstate" where
  "set_bufq p f \<equiv> bufqs_update (\<lambda>Q. Q(p := f (Q p)))"

abbreviation set_event :: "ptr \<Rightarrow> (kevent_t \<Rightarrow> kevent_t) \<Rightarrow> kstate \<Rightarrow> kstate" where
  "set_event p f \<equiv> events_update (\<lambda>E. E(p := f (E p)))"

abbreviation set_pool :: "ptr \<Rightarrow> (mblk_pool_t \<Rightarrow> mblk_pool_t) \<Rightarrow> kstate \<Rightarrow> kstate" where
  "set_pool p f \<equiv> mblk_pools_update (\<lambda>P. P(p := f (P p)))"

abbreviation set_timer :: "ptr \<Rightarrow> (ktimer_t \<Rightarrow> ktimer_t) \<Rightarrow> kstate \<Rightarrow> kstate" where
  "set_timer p f \<equiv> timers_update (\<lambda>T. T(p := f (T p)))"

abbreviation set_head :: "ptr \<Rightarrow> (k_mm_head \<Rightarrow> k_mm_head) \<Rightarrow> kstate \<Rightarrow> kstate" where
  "set_head p f \<equiv> mm_heads_update (\<lambda>H. H(p := f (H p)))"

text \<open>\<^verbatim>\<open>k_err_proc\<close> calls the installed error hook and returns.\<close>

definition k_err_proc :: "kstate \<Rightarrow> kstat \<Rightarrow> kstate" where
  "k_err_proc s err = k_errs_update (\<lambda>es. es @ [err]) s"

text \<open>Tasks on the waiting list of an object.\<close>

definition pending :: "ktask_t \<Rightarrow> bool" where
  "pending t \<longleftrightarrow> task_state t = K_PEND \<or> task_state t = K_PEND_SUSPENDED"

definition sleeping :: "ktask_t \<Rightarrow> bool" where
  "sleeping t \<longleftrightarrow> task_state t = K_SLEEP \<or> task_state t = K_SLEEP_SUSPENDED"

end
