(* ===== verification/Sched.thy ===== *)
theory Sched
  imports Kernel_State
begin

text \<open>
  \<^verbatim>\<open>kernel/rhino/core/k_sched.c\<close> for one CPU (\<^verbatim>\<open>RHINO_CONFIG_CPU_NUM\<close> is 1): the run queue
  (one circular list per priority, a bitmap of the non-empty ones and the highest priority),
  the scheduler lock, the context switch and the round-robin time slices.
\<close>

section \<open>The run queue\<close>

definition runqueue_init :: "runqueue_t \<Rightarrow> runqueue_t" where
  "runqueue_init rq =
     rq\<lparr>highest_pri := RHINO_CONFIG_PRI_MAX,
        cur_list_item := (\<lambda>p. if p < RHINO_CONFIG_PRI_MAX then [] else cur_list_item rq p)\<rparr>"

definition ready_list_init :: "runqueue_t \<Rightarrow> ptr \<Rightarrow> nat \<Rightarrow> runqueue_t" where
  "ready_list_init rq task pri =
     (let rq = rq\<lparr>cur_list_item := (cur_list_item rq)(pri := [task]),
                  task_bit_map := krhino_bitmap_set (task_bit_map rq) pri\<rparr>
      in if pri < highest_pri rq then rq\<lparr>highest_pri := pri\<rparr> else rq)"

definition is_ready_list_empty :: "runqueue_t \<Rightarrow> nat \<Rightarrow> bool" where
  "is_ready_list_empty rq pri \<longleftrightarrow> cur_list_item rq pri = []"

definition ready_list_add_tail :: "runqueue_t \<Rightarrow> ptr \<Rightarrow> nat \<Rightarrow> runqueue_t" where
  "ready_list_add_tail rq task pri =
     (if is_ready_list_empty rq pri then ready_list_init rq task pri
      else rq\<lparr>cur_list_item := (cur_list_item rq)(pri := cur_list_item rq pri @ [task])\<rparr>)"

definition ready_list_add_head :: "runqueue_t \<Rightarrow> ptr \<Rightarrow> nat \<Rightarrow> runqueue_t" where
  "ready_list_add_head rq task pri =
     (if is_ready_list_empty rq pri then ready_list_init rq task pri
      else rq\<lparr>cur_list_item := (cur_list_item rq)(pri := task # cur_list_item rq pri)\<rparr>)"

definition ready_list_rm :: "runqueue_t \<Rightarrow> ptr \<Rightarrow> nat \<Rightarrow> runqueue_t" where
  "ready_list_rm rq task pri =
     (case cur_list_item rq pri of
        [] \<Rightarrow> rq\<lparr>rq_ub := True\<rparr>
      | x # y # xs \<Rightarrow>
          rq\<lparr>cur_list_item := (cur_list_item rq)(pri := removeAll task (x # y # xs))\<rparr>
      | [x] \<Rightarrow>
          let rq = rq\<lparr>cur_list_item := (cur_list_item rq)(pri := []),
                      task_bit_map := krhino_bitmap_clear (task_bit_map rq) pri\<rparr>
          in if pri \<noteq> highest_pri rq then rq
             else (case krhino_find_first_bit (task_bit_map rq) of
                     Some i \<Rightarrow> rq\<lparr>highest_pri := i\<rparr>
                   | None \<Rightarrow> rq\<lparr>rq_ub := True\<rparr>))"

definition ready_list_head_to_tail :: "runqueue_t \<Rightarrow> nat \<Rightarrow> runqueue_t" where
  "ready_list_head_to_tail rq pri =
     (case cur_list_item rq pri of
        [] \<Rightarrow> rq\<lparr>rq_ub := True\<rparr>
      | xs \<Rightarrow> rq\<lparr>cur_list_item := (cur_list_item rq)(pri := rotate1 xs)\<rparr>)"

text \<open>
  \<^verbatim>\<open>ready_list_add\<close>: at the end when the priority is that of the running task, otherwise in
  front.
\<close>

definition ready_list_add :: "kstate \<Rightarrow> ptr \<Rightarrow> kstate" where
  "ready_list_add s task =
     (if prio (tasks s task) = prio (tasks s (g_active_task s))
      then g_ready_queue_update (\<lambda>rq. ready_list_add_tail rq task (prio (tasks s task))) s
      else g_ready_queue_update (\<lambda>rq. ready_list_add_head rq task (prio (tasks s task))) s)"

text \<open>\<^verbatim>\<open>ready_list_rm(&g_ready_queue, task)\<close>, which reads \<^verbatim>\<open>task->prio\<close>.\<close>

abbreviation g_ready_list_rm :: "kstate \<Rightarrow> ptr \<Rightarrow> kstate" where
  "g_ready_list_rm s task \<equiv>
     g_ready_queue_update (\<lambda>rq. ready_list_rm rq task (prio (tasks s task))) s"

section \<open>Choosing and switching tasks\<close>

definition preferred_cpu_ready_task_get :: "kstate \<Rightarrow> kstate" where
  "preferred_cpu_ready_task_get s =
     s\<lparr>g_preferred_ready_task :=
         first (cur_list_item (g_ready_queue s) (highest_pri (g_ready_queue s)))\<rparr>"

text \<open>\<^verbatim>\<open>cpu_task_switch\<close> of the port: the preferred task becomes the active one.\<close>

definition cpu_task_switch :: "kstate \<Rightarrow> kstate" where
  "cpu_task_switch s = s\<lparr>g_active_task := g_preferred_ready_task s\<rparr>"

definition core_sched :: "kstate \<Rightarrow> kstate" where
  "core_sched s =
     (if g_intrpt_nested_level s > 0 then s
      else if g_sched_lock s > 0 then s
      else
        let s = preferred_cpu_ready_task_get s
        in if g_preferred_ready_task s = g_active_task s then s else cpu_task_switch s)"

section \<open>The scheduler lock\<close>

definition SCHED_MAX_LOCK_COUNT :: u8 where
  "SCHED_MAX_LOCK_COUNT = 200"

definition krhino_sched_disable :: "kstate \<Rightarrow> kstat \<times> kstate" where
  "krhino_sched_disable s =
     (if g_intrpt_nested_level s > 0 then (RHINO_NOT_CALLED_BY_INTRPT, s)
      else if g_sched_lock s \<ge> SCHED_MAX_LOCK_COUNT then (RHINO_SCHED_LOCK_COUNT_OVF, s)
      else (RHINO_SUCCESS, s\<lparr>g_sched_lock := g_sched_lock s + 1\<rparr>))"

definition krhino_sched_enable :: "kstate \<Rightarrow> kstat \<times> kstate" where
  "krhino_sched_enable s =
     (if g_intrpt_nested_level s > 0 then (RHINO_NOT_CALLED_BY_INTRPT, s)
      else if g_sched_lock s = 0 then (RHINO_SCHED_ALREADY_ENABLED, s)
      else
        let s = s\<lparr>g_sched_lock := g_sched_lock s - 1\<rparr>
        in if g_sched_lock s > 0 then (RHINO_SCHED_DISABLE, s)
           else (RHINO_SUCCESS, core_sched s))"

section \<open>Time slices\<close>

definition KSCHED_FIFO :: u8 where "KSCHED_FIFO = 0"
definition KSCHED_RR :: u8 where "KSCHED_RR = 1"

definition time_slice_update :: "kstate \<Rightarrow> kstate" where
  "time_slice_update s =
     (let task_pri = prio (tasks s (g_active_task s));
          head = cur_list_item (g_ready_queue s) task_pri
      in if is_ready_list_empty (g_ready_queue s) task_pri then s
         else
           let task = first head
           in if sched_policy (tasks s task) = KSCHED_FIFO then s
              else if length head = 1 then s
              else
                let s = (if task_time_slice (tasks s task) > 0
                         then set_task task (task_time_slice_update (\<lambda>n. n - 1)) s else s)
                in if task_time_slice (tasks s task) > 0 then s
                   else
                     let s = g_ready_queue_update
                               (\<lambda>rq. ready_list_head_to_tail rq (prio (tasks s task))) s
                     in set_task task (\<lambda>t. t\<lparr>task_time_slice := time_total t\<rparr>) s)"

section \<open>Well-formed run queues\<close>

text \<open>
  The bitmap marks exactly the non-empty lists, and \<open>highest_pri\<close> is the least of them
  (\<open>RHINO_CONFIG_PRI_MAX\<close> when all are empty, as \<^verbatim>\<open>runqueue_init\<close> leaves it).
\<close>

definition rq_wf :: "runqueue_t \<Rightarrow> bool" where
  "rq_wf rq \<longleftrightarrow>
     length (task_bit_map rq) = 2
     \<and> (\<forall>p. distinct (cur_list_item rq p))
     \<and> (\<forall>p. bm_test (task_bit_map rq) p \<longleftrightarrow> cur_list_item rq p \<noteq> [])
     \<and> (\<forall>p. cur_list_item rq p \<noteq> [] \<longrightarrow> highest_pri rq \<le> p \<and> p < RHINO_CONFIG_PRI_MAX)
     \<and> (highest_pri rq < RHINO_CONFIG_PRI_MAX \<longrightarrow> cur_list_item rq (highest_pri rq) \<noteq> [])
     \<and> highest_pri rq \<le> RHINO_CONFIG_PRI_MAX"

lemma PRI_MAX_words: "p < RHINO_CONFIG_PRI_MAX \<Longrightarrow> p div 32 < 2"
  by (simp add: RHINO_CONFIG_PRI_MAX_def)

lemma rq_wf_distinct: "rq_wf rq \<Longrightarrow> distinct (cur_list_item rq p)"
  by (simp add: rq_wf_def)

lemma rq_wf_bound: "rq_wf rq \<Longrightarrow> t \<in> set (cur_list_item rq p) \<Longrightarrow> p < RHINO_CONFIG_PRI_MAX"
  by (fastforce simp: rq_wf_def)

lemma rq_wf_highest:
  assumes "rq_wf rq" and "cur_list_item rq p \<noteq> []"
  shows "cur_list_item rq (highest_pri rq) \<noteq> []" and "highest_pri rq \<le> p"
    and "highest_pri rq < RHINO_CONFIG_PRI_MAX"
proof -
  show l: "highest_pri rq \<le> p" using assms by (simp add: rq_wf_def)
  have "p < RHINO_CONFIG_PRI_MAX" using assms by (simp add: rq_wf_def)
  with l show b: "highest_pri rq < RHINO_CONFIG_PRI_MAX" by simp
  then show "cur_list_item rq (highest_pri rq) \<noteq> []" using assms by (simp add: rq_wf_def)
qed

text \<open>What the operations do to the lists: this is all the other theories use.\<close>

lemma cur_list_add_tail [simp]:
  "cur_list_item (ready_list_add_tail rq t p)
     = (cur_list_item rq)(p := cur_list_item rq p @ [t])"
  by (simp add: ready_list_add_tail_def is_ready_list_empty_def ready_list_init_def Let_def)

lemma cur_list_add_head [simp]:
  "cur_list_item (ready_list_add_head rq t p)
     = (cur_list_item rq)(p := t # cur_list_item rq p)"
  by (simp add: ready_list_add_head_def is_ready_list_empty_def ready_list_init_def Let_def)

lemma cur_list_rm:
  assumes "distinct (cur_list_item rq p)" and "t \<in> set (cur_list_item rq p)"
  shows "cur_list_item (ready_list_rm rq t p)
           = (cur_list_item rq)(p := removeAll t (cur_list_item rq p))"
  using assms
  by (cases "cur_list_item rq p" rule: remdups_adj.cases)
    (auto simp: ready_list_rm_def Let_def split: option.splits)

lemma cur_list_rotate [simp]:
  "cur_list_item (ready_list_head_to_tail rq p)
     = (cur_list_item rq)(p := rotate1 (cur_list_item rq p))"
  by (auto simp: ready_list_head_to_tail_def split: list.splits)

lemma rq_wf_ready_list_init:
  assumes "rq_wf rq" and "p < RHINO_CONFIG_PRI_MAX" and "cur_list_item rq p = []"
  shows "rq_wf (ready_list_init rq t p)"
proof -
  have "p div 32 < length (task_bit_map rq)"
    using assms(1,2) PRI_MAX_words by (simp add: rq_wf_def)
  with assms show ?thesis
    by (auto simp: rq_wf_def ready_list_init_def Let_def bm_test_set)
qed

lemma rq_wf_set_list:
  assumes "rq_wf rq" and "cur_list_item rq p \<noteq> []" and "xs \<noteq> []" and "distinct xs"
  shows "rq_wf (rq\<lparr>cur_list_item := (cur_list_item rq)(p := xs)\<rparr>)"
  using assms by (auto simp: rq_wf_def)

lemma rq_wf_add_tail:
  "rq_wf rq \<Longrightarrow> p < RHINO_CONFIG_PRI_MAX \<Longrightarrow> t \<notin> set (cur_list_item rq p) \<Longrightarrow>
   rq_wf (ready_list_add_tail rq t p)"
  by (auto simp: ready_list_add_tail_def is_ready_list_empty_def rq_wf_ready_list_init
      rq_wf_distinct intro: rq_wf_set_list)

lemma rq_wf_add_head:
  "rq_wf rq \<Longrightarrow> p < RHINO_CONFIG_PRI_MAX \<Longrightarrow> t \<notin> set (cur_list_item rq p) \<Longrightarrow>
   rq_wf (ready_list_add_head rq t p)"
  by (auto simp: ready_list_add_head_def is_ready_list_empty_def rq_wf_ready_list_init
      rq_wf_distinct intro: rq_wf_set_list)

lemma rq_wf_rotate:
  assumes "rq_wf rq" and "cur_list_item rq p \<noteq> []"
  shows "rq_wf (ready_list_head_to_tail rq p)"
proof -
  have "ready_list_head_to_tail rq p
      = rq\<lparr>cur_list_item := (cur_list_item rq)(p := rotate1 (cur_list_item rq p))\<rparr>"
    using assms(2) by (simp add: ready_list_head_to_tail_def split: list.splits)
  with assms show ?thesis
    by (simp add: rq_wf_set_list rq_wf_distinct)
qed

text \<open>
  Removing a task keeps the queue well formed and reads no memory outside it, as long as some
  other task stays ready; the idle task always is.
\<close>

lemma ready_list_rm_wf:
  assumes wf: "rq_wf rq" and t: "t \<in> set (cur_list_item rq p)"
    and other: "u \<in> set (cur_list_item rq q)" "u \<noteq> t"
  shows "rq_wf (ready_list_rm rq t p) \<and> rq_ub (ready_list_rm rq t p) = rq_ub rq"
proof (cases "cur_list_item rq p" rule: remdups_adj.cases)
  case 1
  with t show ?thesis by simp
next
  case (2 x)
  let ?bm = "krhino_bitmap_clear (task_bit_map rq) p"
  have xt: "x = t" using t 2 by simp
  have pq: "p \<noteq> q" using other 2 xt by auto
  have p: "p < RHINO_CONFIG_PRI_MAX" using wf t by (rule rq_wf_bound)
  have bm: "bm_test ?bm k \<longleftrightarrow> k \<noteq> p \<and> cur_list_item rq k \<noteq> []" for k
    using wf p PRI_MAX_words by (simp add: bm_test_clear rq_wf_def)
  have "cur_list_item rq q \<noteq> []" using other(1) by (metis empty_iff empty_set)
  then have "bm_test ?bm q" using pq by (simp add: bm)
  then obtain i where i: "krhino_find_first_bit ?bm = Some i"
    using find_first_bit_None [of ?bm] by fastforce
  then have fi: "bm_test ?bm i \<and> (\<forall>k<i. \<not> bm_test ?bm k)"
    by (rule find_first_bit_Some)
  have ii: "i \<noteq> p" "cur_list_item rq i \<noteq> []"
    and least: "\<And>k. k \<noteq> p \<Longrightarrow> cur_list_item rq k \<noteq> [] \<Longrightarrow> i \<le> k"
    using fi bm by (simp, simp, metis linorder_not_le)
  have ib: "i < RHINO_CONFIG_PRI_MAX" using wf ii(2) by (simp add: rq_wf_def)
  show ?thesis
  proof (cases "p = highest_pri rq")
    case True
    with 2 i wf ii least ib less_imp_le [OF ib] bm show ?thesis
      by (simp add: ready_list_rm_def rq_wf_def)
  next
    case False
    with 2 wf bm show ?thesis
      by (auto simp: ready_list_rm_def rq_wf_def)
  qed
next
  case (3 x y xs)
  have d: "distinct (x # y # xs)" using wf 3 rq_wf_distinct by metis
  have "removeAll t (x # y # xs) \<noteq> []"
    using d by auto
  with 3 wf d rq_wf_set_list [of rq p "removeAll t (x # y # xs)"] show ?thesis
    by (simp add: ready_list_rm_def distinct_removeAll)
qed

lemma rq_ub_add [simp]:
  "rq_ub (ready_list_add_tail rq t p) = rq_ub rq"
  "rq_ub (ready_list_add_head rq t p) = rq_ub rq"
  by (simp_all add: ready_list_add_tail_def ready_list_add_head_def ready_list_init_def Let_def)

lemma rq_ub_rotate: "cur_list_item rq p \<noteq> [] \<Longrightarrow> rq_ub (ready_list_head_to_tail rq p) = rq_ub rq"
  by (auto simp: ready_list_head_to_tail_def split: list.splits)

end
