(* ===== verification/Kernel_Inv.thy ===== *)
theory Kernel_Inv
  imports Sched
begin

text \<open>
  The structural invariant of the kernel: where each task is. A ready task is exactly in the
  ready list of its priority, a pending task exactly in the waiting list of the object it
  blocks on (in priority order when the object asks for it), and the tick list holds the
  sleeping tasks and the pending tasks that have a timeout. Each part speaks about one list
  component and the task table, and comes with one rule per kind of update, so that an
  operation is checked by chaining the rules.
\<close>

section \<open>Ready lists\<close>

definition rdy :: "ktask_t \<Rightarrow> bool" where
  "rdy t \<longleftrightarrow> task_state t = K_RDY"

definition rdy_ok :: "runqueue_t \<Rightarrow> (ptr \<Rightarrow> ktask_t) \<Rightarrow> bool" where
  "rdy_ok rq T \<longleftrightarrow> rq_wf rq \<and> \<not> rq_ub rq
     \<and> (\<forall>p t. t \<in> set (cur_list_item rq p) \<longleftrightarrow> rdy (T t) \<and> prio (T t) = p)"

lemma rdy_ok_mem: "rdy_ok rq T \<Longrightarrow> t \<in> set (cur_list_item rq p) \<longleftrightarrow> rdy (T t) \<and> prio (T t) = p"
  by (simp add: rdy_ok_def)

lemma rdy_ok_same:
  "rdy_ok rq T \<Longrightarrow> rdy x = rdy (T t) \<Longrightarrow> (rdy x \<Longrightarrow> prio x = prio (T t)) \<Longrightarrow>
   rdy_ok rq (T(t := x))"
  by (auto simp: rdy_ok_def)

lemma rdy_ok_add_tail:
  "rdy_ok rq T \<Longrightarrow> \<not> rdy (T t) \<Longrightarrow> rdy x \<Longrightarrow> prio x = p \<Longrightarrow> p < RHINO_CONFIG_PRI_MAX \<Longrightarrow>
   rdy_ok (ready_list_add_tail rq t p) (T(t := x))"
  by (auto simp: rdy_ok_def intro: rq_wf_add_tail)

lemma rdy_ok_add_head:
  "rdy_ok rq T \<Longrightarrow> \<not> rdy (T t) \<Longrightarrow> rdy x \<Longrightarrow> prio x = p \<Longrightarrow> p < RHINO_CONFIG_PRI_MAX \<Longrightarrow>
   rdy_ok (ready_list_add_head rq t p) (T(t := x))"
  by (auto simp: rdy_ok_def intro: rq_wf_add_head)

lemma rdy_ok_rm:
  assumes "rdy_ok rq T" and "rdy (T t)" and "prio (T t) = p" and "\<not> rdy x"
    and "u \<noteq> t" "rdy (T u)"
  shows "rdy_ok (ready_list_rm rq t p) (T(t := x))"
proof -
  have t: "t \<in> set (cur_list_item rq p)" and u: "u \<in> set (cur_list_item rq (prio (T u)))"
    using assms by (simp_all add: rdy_ok_def)
  have wf: "rq_wf rq" using assms(1) by (simp add: rdy_ok_def)
  have "rq_wf (ready_list_rm rq t p)" "rq_ub (ready_list_rm rq t p) = rq_ub rq"
    using ready_list_rm_wf [OF wf t u assms(5)] by simp_all
  with assms t wf show ?thesis
    by (auto simp: rdy_ok_def cur_list_rm rq_wf_distinct)
qed

lemma rdy_ok_rotate:
  assumes "rdy_ok rq T" and "rdy (T t)"
  shows "rdy_ok (ready_list_head_to_tail rq (prio (T t))) T"
proof -
  have "cur_list_item rq (prio (T t)) \<noteq> []"
    using assms by (metis empty_iff empty_set rdy_ok_mem)
  with assms show ?thesis
    by (auto simp: rdy_ok_def rq_ub_rotate intro: rq_wf_rotate)
qed

section \<open>Waiting lists\<close>

definition blk_ok :: "(ptr \<Rightarrow> blk_obj_t) \<Rightarrow> (ptr \<Rightarrow> ktask_t) \<Rightarrow> bool" where
  "blk_ok B T \<longleftrightarrow>
     (\<forall>ob. distinct (blk_list (B ob)))
     \<and> (\<forall>ob t. t \<in> set (blk_list (B ob)) \<longleftrightarrow> pending (T t) \<and> blk_obj (T t) = ob)
     \<and> (\<forall>ob. blk_policy (B ob) = BLK_POLICY_PRI \<longrightarrow>
           sorted (map (\<lambda>t. prio (T t)) (blk_list (B ob))))"

text \<open>\<^verbatim>\<open>klist_rm(&task->task_list)\<close> on the list of the object the task waits for.\<close>

abbreviation blk_list_rm :: "ptr \<Rightarrow> (ptr \<Rightarrow> blk_obj_t) \<Rightarrow> (ptr \<Rightarrow> blk_obj_t)" where
  "blk_list_rm t \<equiv> (\<lambda>B ob. blk_list_update (removeAll t) (B ob))"

lemma blk_ok_mem: "blk_ok B T \<Longrightarrow> t \<in> set (blk_list (B ob)) \<longleftrightarrow> pending (T t) \<and> blk_obj (T t) = ob"
  by (simp add: blk_ok_def)

lemma blk_ok_distinct: "blk_ok B T \<Longrightarrow> distinct (blk_list (B ob))"
  by (simp add: blk_ok_def)

lemma blk_ok_sorted:
  "blk_ok B T \<Longrightarrow> blk_policy (B ob) = BLK_POLICY_PRI \<Longrightarrow>
   sorted (map (\<lambda>t. prio (T t)) (blk_list (B ob)))"
  by (simp add: blk_ok_def)

lemma sorted_map_upd:
  "t \<notin> set xs \<Longrightarrow> sorted (map (\<lambda>u. prio (if u = t then x else T u)) xs)
     = sorted (map (\<lambda>u. prio (T u)) xs)"
  by (rule sorted_map_cong_set) auto

lemma blk_ok_same:
  assumes "blk_ok B T" and "pending x = pending (T t)"
    and "pending x \<Longrightarrow> blk_obj x = blk_obj (T t) \<and> prio x = prio (T t)"
  shows "blk_ok B (T(t := x))"
proof -
  have "sorted (map (\<lambda>u. prio ((T(t := x)) u)) (blk_list (B ob)))
      = sorted (map (\<lambda>u. prio (T u)) (blk_list (B ob)))" for ob
    using assms by (intro sorted_map_cong_set) (auto simp: blk_ok_def)
  with assms show ?thesis by (auto simp: blk_ok_def)
qed

lemma blk_ok_rm:
  assumes "blk_ok B T" and "\<not> pending x"
  shows "blk_ok (blk_list_rm t B) (T(t := x))"
  using assms
  by (auto simp: blk_ok_def distinct_removeAll sorted_map_upd intro: sorted_map_removeAll)

lemma blk_ok_add_pri:
  assumes "blk_ok B T" and "\<not> pending (T t)" and "pending x" and "blk_obj x = ob"
    and "blk_policy (B ob) = BLK_POLICY_PRI"
    and P: "\<And>q. q \<noteq> t \<Longrightarrow> P q \<longleftrightarrow> prio (T q) > prio x"
  shows "blk_ok (B(ob := blk_list_update (insert_before P t) (B ob))) (T(t := x))"
proof -
  have nt: "t \<notin> set (blk_list (B ob'))" for ob'
    using assms(1,2) by (auto simp: blk_ok_def)
  let ?f = "\<lambda>u. prio (if u = t then x else T u)"
  have "insert_before P t (blk_list (B ob))
      = insert_before (\<lambda>q. ?f t < ?f q) t (blk_list (B ob))"
    using nt P by (intro insert_before_cong) auto
  moreover have "sorted (map ?f (blk_list (B ob)))"
    using assms(1,5) nt by (simp add: sorted_map_upd blk_ok_def)
  ultimately have "sorted (map ?f (insert_before P t (blk_list (B ob))))"
    using sorted_insert_before [of ?f "blk_list (B ob)" t] by simp
  with assms(1-5) nt show ?thesis
    by (auto simp: blk_ok_def sorted_map_upd)
qed

lemma blk_ok_add_fifo:
  assumes "blk_ok B T" and "\<not> pending (T t)" and "pending x" and "blk_obj x = ob"
    and "blk_policy (B ob) \<noteq> BLK_POLICY_PRI"
  shows "blk_ok (B(ob := blk_list_update (\<lambda>l. l @ [t]) (B ob))) (T(t := x))"
proof -
  have nt: "t \<notin> set (blk_list (B ob'))" for ob'
    using assms by (auto simp: blk_ok_def)
  with assms show ?thesis
    by (auto simp: blk_ok_def sorted_map_upd)
qed

text \<open>Changing the header fields of an object, or clearing an empty waiting list.\<close>

lemma blk_ok_hdr:
  "blk_ok B T \<Longrightarrow> blk_list y = blk_list (B ob) \<Longrightarrow>
   blk_policy y = blk_policy (B ob) \<or> blk_list y = [] \<Longrightarrow> blk_ok (B(ob := y)) T"
  by (auto simp: blk_ok_def)

section \<open>The tick list\<close>

definition tick_ok :: "ptr list \<Rightarrow> (ptr \<Rightarrow> ktask_t) \<Rightarrow> bool" where
  "tick_ok L T \<longleftrightarrow> distinct L
     \<and> (\<forall>t. t \<in> set L \<longleftrightarrow> tick_head (T t))
     \<and> (\<forall>t. tick_head (T t) \<longrightarrow> pending (T t) \<or> sleeping (T t))
     \<and> (\<forall>t. sleeping (T t) \<longrightarrow> tick_head (T t))"

lemma tick_ok_mem: "tick_ok L T \<Longrightarrow> t \<in> set L \<longleftrightarrow> tick_head (T t)"
  by (simp add: tick_ok_def)

lemma tick_ok_same:
  "tick_ok L T \<Longrightarrow> tick_head x = tick_head (T t) \<Longrightarrow>
   (tick_head x \<Longrightarrow> pending x \<or> sleeping x) \<Longrightarrow> (sleeping x \<Longrightarrow> tick_head x) \<Longrightarrow>
   tick_ok L (T(t := x))"
  by (auto simp: tick_ok_def)

lemma tick_ok_rm:
  "tick_ok L T \<Longrightarrow> \<not> tick_head x \<Longrightarrow> \<not> sleeping x \<Longrightarrow> tick_ok (removeAll t L) (T(t := x))"
  by (auto simp: tick_ok_def distinct_removeAll)

lemma tick_ok_add:
  "tick_ok L T \<Longrightarrow> \<not> tick_head (T t) \<Longrightarrow> tick_head x \<Longrightarrow> pending x \<or> sleeping x \<Longrightarrow>
   tick_ok (insert_before P t L) (T(t := x))"
  by (auto simp: tick_ok_def)

lemma tick_ok_rm_absent: "tick_ok L T \<Longrightarrow> \<not> tick_head (T t) \<Longrightarrow> removeAll t L = L"
  by (simp add: tick_ok_def removeAll_id)

section \<open>Priorities\<close>

text \<open>
  Priorities stay below the maximum; only ready tasks have the idle priority, one of them at
  least is there, and the idle task never takes part in priority inheritance. Nothing is a task
  at the null pointer.
\<close>

definition prio_ok :: "(ptr \<Rightarrow> ktask_t) \<Rightarrow> bool" where
  "prio_ok T \<longleftrightarrow>
     (\<forall>t. prio (T t) < RHINO_CONFIG_PRI_MAX \<and> b_prio (T t) < RHINO_CONFIG_PRI_MAX)
     \<and> (\<forall>t. prio (T t) = RHINO_IDLE_PRI \<longleftrightarrow> b_prio (T t) = RHINO_IDLE_PRI)
     \<and> (\<forall>t. prio (T t) = RHINO_IDLE_PRI \<longrightarrow> rdy (T t))
     \<and> (\<exists>t. prio (T t) = RHINO_IDLE_PRI)
     \<and> task_state (T NULL) = K_SEED"

lemma prio_ok_bound:
  "prio_ok T \<Longrightarrow> prio (T t) < RHINO_CONFIG_PRI_MAX" "prio_ok T \<Longrightarrow> b_prio (T t) < RHINO_CONFIG_PRI_MAX"
  by (simp_all add: prio_ok_def)

lemma prio_ok_not_rdy: "prio_ok T \<Longrightarrow> \<not> rdy (T t) \<Longrightarrow> prio (T t) \<noteq> RHINO_IDLE_PRI"
  by (auto simp: prio_ok_def)

lemma prio_ok_other:
  assumes "prio_ok T" and "prio (T t) \<noteq> RHINO_IDLE_PRI"
  obtains u where "u \<noteq> t" "rdy (T u)"
  using assms by (metis prio_ok_def)

lemma prio_ok_upd:
  assumes "prio_ok T" and "prio (T t) \<noteq> RHINO_IDLE_PRI"
    and "prio x < RHINO_IDLE_PRI" "b_prio x < RHINO_IDLE_PRI"
    and "task_state x = K_SEED \<or> task_state (T t) \<noteq> K_SEED \<or> t \<noteq> NULL"
  shows "prio_ok (T(t := x))"
proof -
  obtain u where u: "prio (T u) = RHINO_IDLE_PRI"
    using assms(1) by (auto simp: prio_ok_def)
  then have "u \<noteq> t" using assms(2) by auto
  with u have "\<exists>u. prio ((T(t := x)) u) = RHINO_IDLE_PRI" by auto
  with assms show ?thesis
    by (auto simp: prio_ok_def RHINO_IDLE_PRI_def RHINO_CONFIG_PRI_MAX_def)
qed

lemma prio_ok_same:
  assumes "prio_ok T" and "prio x = prio (T t)" "b_prio x = b_prio (T t)"
    and "prio (T t) = RHINO_IDLE_PRI \<Longrightarrow> rdy x"
    and "task_state x = K_SEED \<or> task_state (T t) \<noteq> K_SEED \<or> t \<noteq> NULL"
  shows "prio_ok (T(t := x))"
proof -
  obtain u where u: "prio (T u) = RHINO_IDLE_PRI"
    using assms(1) by (auto simp: prio_ok_def)
  then have ex: "\<exists>u. prio ((T(t := x)) u) = RHINO_IDLE_PRI" using assms(2) by auto
  show ?thesis
    using assms unfolding prio_ok_def by (intro conjI ex) auto
qed

lemma prio_ok_less_idle:
  assumes "prio_ok T" and "prio (T t) \<noteq> RHINO_IDLE_PRI"
  shows "prio (T t) < RHINO_IDLE_PRI" and "b_prio (T t) < RHINO_IDLE_PRI"
proof -
  have "prio (T t) < RHINO_CONFIG_PRI_MAX" "b_prio (T t) < RHINO_CONFIG_PRI_MAX"
    "b_prio (T t) \<noteq> RHINO_IDLE_PRI"
    using assms by (auto simp: prio_ok_def)
  with assms(2) show "prio (T t) < RHINO_IDLE_PRI" and "b_prio (T t) < RHINO_IDLE_PRI"
    by (auto simp: RHINO_IDLE_PRI_def)
qed

lemmas task_kinds = rdy_def pending_def sleeping_def

section \<open>The whole invariant\<close>

definition lists_ok :: "kstate \<Rightarrow> bool" where
  "lists_ok s \<longleftrightarrow> rdy_ok (g_ready_queue s) (tasks s) \<and> blk_ok (blks s) (tasks s)
     \<and> tick_ok (g_tick_head s) (tasks s) \<and> prio_ok (tasks s)"

lemma lists_okI [intro?]:
  "rdy_ok (g_ready_queue s) (tasks s) \<Longrightarrow> blk_ok (blks s) (tasks s) \<Longrightarrow>
   tick_ok (g_tick_head s) (tasks s) \<Longrightarrow> prio_ok (tasks s) \<Longrightarrow> lists_ok s"
  by (simp add: lists_ok_def)

lemma lists_okD:
  assumes "lists_ok s"
  shows "rdy_ok (g_ready_queue s) (tasks s)" "blk_ok (blks s) (tasks s)"
    "tick_ok (g_tick_head s) (tasks s)" "prio_ok (tasks s)"
  using assms by (simp_all add: lists_ok_def)

lemma highest_ready:
  assumes "lists_ok s"
  defines "p \<equiv> highest_pri (g_ready_queue s)"
  shows "rdy (tasks s (first (cur_list_item (g_ready_queue s) p)))"
    and "prio (tasks s (first (cur_list_item (g_ready_queue s) p))) = p"
    and "rdy (tasks s t) \<Longrightarrow> p \<le> prio (tasks s t)"
    and "first (cur_list_item (g_ready_queue s) p) \<noteq> NULL"
proof -
  note l = lists_okD [OF assms(1)]
  have wf: "rq_wf (g_ready_queue s)" using l(1) by (simp add: rdy_ok_def)
  obtain u where "prio (tasks s u) = RHINO_IDLE_PRI" using l(4) by (auto simp: prio_ok_def)
  then have u: "rdy (tasks s u)" using l(4) by (auto simp: prio_ok_def)
  have ne: "cur_list_item (g_ready_queue s) (prio (tasks s t)) \<noteq> []" if "rdy (tasks s t)" for t
    using that rdy_ok_mem [OF l(1), of t "prio (tasks s t)"] by auto
  note hi = rq_wf_highest [OF wf ne [OF u]]
  have "first (cur_list_item (g_ready_queue s) p) \<in> set (cur_list_item (g_ready_queue s) p)"
    unfolding p_def by (rule first_in_set [OF hi(1)])
  then show r: "rdy (tasks s (first (cur_list_item (g_ready_queue s) p)))"
    and "prio (tasks s (first (cur_list_item (g_ready_queue s) p))) = p"
    using rdy_ok_mem [OF l(1)] by blast+
  show "rdy (tasks s t) \<Longrightarrow> p \<le> prio (tasks s t)"
    unfolding p_def by (rule rq_wf_highest(2) [OF wf ne])
  show "first (cur_list_item (g_ready_queue s) p) \<noteq> NULL"
    using r l(4) by (auto simp: prio_ok_def rdy_def)
qed

section \<open>The running task\<close>

text \<open>
  The running task is ready, except that an interrupt handler may have suspended it while the
  scheduler was not locked. When neither an interrupt nor the scheduler lock holds
  rescheduling off, it is the first task of the best non-empty ready list.
\<close>

definition act_safe :: "kstate \<Rightarrow> bool" where
  "act_safe s \<longleftrightarrow> g_active_task s \<noteq> NULL \<and>
     (rdy (tasks s (g_active_task s)) \<or> g_intrpt_nested_level s > 0 \<and> g_sched_lock s = 0)"

definition act_ok :: "kstate \<Rightarrow> bool" where
  "act_ok s \<longleftrightarrow> act_safe s \<and>
     (g_sched_lock s = 0 \<and> g_intrpt_nested_level s = 0 \<longrightarrow>
        g_active_task s = first (cur_list_item (g_ready_queue s) (highest_pri (g_ready_queue s))))"

lemma core_sched_frame [simp]:
  "tasks (core_sched s) = tasks s" "blks (core_sched s) = blks s"
  "mutexes (core_sched s) = mutexes s" "g_ready_queue (core_sched s) = g_ready_queue s"
  "g_tick_head (core_sched s) = g_tick_head s" "g_sched_lock (core_sched s) = g_sched_lock s"
  "g_intrpt_nested_level (core_sched s) = g_intrpt_nested_level s" "sems (core_sched s) = sems s"
  "queues (core_sched s) = queues s" "bufqs (core_sched s) = bufqs s"
  "events (core_sched s) = events s" "umem (core_sched s) = umem s" "bmem (core_sched s) = bmem s"
  "g_tick_count (core_sched s) = g_tick_count s" "g_sys_stat (core_sched s) = g_sys_stat s"
  "g_kobj_list (core_sched s) = g_kobj_list s"
  by (simp_all add: core_sched_def preferred_cpu_ready_task_get_def cpu_task_switch_def Let_def)

lemma core_sched_active:
  "g_active_task (core_sched s) =
     (if g_intrpt_nested_level s > 0 \<or> g_sched_lock s > 0 then g_active_task s
      else first (cur_list_item (g_ready_queue s) (highest_pri (g_ready_queue s))))"
  by (simp add: core_sched_def preferred_cpu_ready_task_get_def cpu_task_switch_def Let_def)

lemma lists_ok_core_sched [simp]: "lists_ok (core_sched s) = lists_ok s"
  by (simp add: lists_ok_def)

lemma rdy_not_NULL: "lists_ok s \<Longrightarrow> rdy (tasks s t) \<Longrightarrow> t \<noteq> NULL"
  by (auto simp: lists_ok_def prio_ok_def rdy_def)

lemma act_ok_core_sched:
  assumes "lists_ok s" and "g_intrpt_nested_level s > 0 \<or> g_sched_lock s > 0 \<Longrightarrow> act_safe s"
  shows "act_ok (core_sched s)"
  using assms highest_ready(1,4) [OF assms(1)]
  by (auto simp: act_ok_def act_safe_def core_sched_active)

end
