(* ===== verification/Pend.thy ===== *)
theory Pend
  imports Kernel_Inv
begin

text \<open>
  \<^verbatim>\<open>kernel/rhino/core/k_pend.c\<close> and the list half of \<^verbatim>\<open>k_tick.c\<close>: putting a task on the
  waiting list of an object, waking it up, re-sorting a waiting list, and inserting tasks in
  and removing them from the list of tasks with a timeout.

  Waking a task for whatever reason is one abstract step, \<open>wake_task\<close>; the wake-up functions
  of the kernel are shown to be that step, and the invariant is proved for it once.
\<close>

section \<open>The tick list\<close>

definition tick_list_pri_insert :: "kstate \<Rightarrow> ptr \<Rightarrow> kstate" where
  "tick_list_pri_insert s task =
     g_tick_head_update
       (insert_before
          (\<lambda>q. tick_match (tasks s q) - g_tick_count s > tick_remain (tasks s task)) task) s"

definition tick_list_insert :: "kstate \<Rightarrow> ptr \<Rightarrow> tick \<Rightarrow> kstate" where
  "tick_list_insert s task time =
     (if time > 0 then
        let s = set_task task (\<lambda>t. t\<lparr>tick_match := g_tick_count s + time,
                                     tick_remain := time\<rparr>) s;
            s = tick_list_pri_insert s task
        in set_task task (\<lambda>t. t\<lparr>tick_head := True\<rparr>) s
      else s)"

definition tick_list_rm :: "kstate \<Rightarrow> ptr \<Rightarrow> kstate" where
  "tick_list_rm s task =
     (if tick_head (tasks s task) then
        let s = g_tick_head_update (removeAll task) s
        in set_task task (\<lambda>t. t\<lparr>tick_head := False\<rparr>) s
      else s)"

section \<open>Waiting lists\<close>

definition pend_list_add :: "kstate \<Rightarrow> ptr \<Rightarrow> ptr \<Rightarrow> kstate" where
  "pend_list_add s ob task =
     set_blk ob (blk_list_update
       (insert_before (\<lambda>tmp. prio (tasks s tmp) > prio (tasks s task)) task)) s"

definition pend_task_wakeup :: "kstate \<Rightarrow> ptr \<Rightarrow> kstate" where
  "pend_task_wakeup s task =
     (let s = (case task_state (tasks s task) of
                 K_PEND \<Rightarrow>
                   let s = blks_update (blk_list_rm task) s;
                       s = ready_list_add s task
                   in set_task task (\<lambda>t. t\<lparr>task_state := K_RDY\<rparr>) s
               | K_PEND_SUSPENDED \<Rightarrow>
                   let s = blks_update (blk_list_rm task) s
                   in set_task task (\<lambda>t. t\<lparr>task_state := K_SUSPENDED\<rparr>) s
               | _ \<Rightarrow> k_err_proc s RHINO_SYS_FATAL_ERR);
          s = tick_list_rm s task
      in set_task task (\<lambda>t. t\<lparr>blk_state := BLK_FINISH, blk_obj := NULL\<rparr>) s)"

definition pend_to_blk_obj :: "kstate \<Rightarrow> ptr \<Rightarrow> ptr \<Rightarrow> tick \<Rightarrow> kstate" where
  "pend_to_blk_obj s ob task timeout =
     (let s = set_task task (\<lambda>t. t\<lparr>blk_obj := ob\<rparr>) s;
          s = (if timeout \<noteq> RHINO_WAIT_FOREVER then tick_list_insert s task timeout else s);
          s = set_task task (\<lambda>t. t\<lparr>task_state := K_PEND\<rparr>) s;
          s = g_ready_list_rm s task
      in if blk_policy (blks s ob) = BLK_POLICY_FIFO
         then set_blk ob (blk_list_update (\<lambda>l. l @ [task])) s
         else pend_list_add s ob task)"

definition pend_task_rm :: "kstate \<Rightarrow> ptr \<Rightarrow> kstate" where
  "pend_task_rm s task =
     (let s = (case task_state (tasks s task) of
                 K_PEND \<Rightarrow>
                   let s = blks_update (blk_list_rm task) s;
                       s = ready_list_add s task
                   in set_task task (\<lambda>t. t\<lparr>task_state := K_RDY\<rparr>) s
               | K_PEND_SUSPENDED \<Rightarrow>
                   let s = blks_update (blk_list_rm task) s
                   in set_task task (\<lambda>t. t\<lparr>task_state := K_SUSPENDED\<rparr>) s
               | _ \<Rightarrow> k_err_proc s RHINO_SYS_FATAL_ERR);
          s = tick_list_rm s task;
          s = set_task task (\<lambda>t. t\<lparr>blk_state := BLK_DEL\<rparr>) s
      in set_task task (\<lambda>t. t\<lparr>blk_obj := NULL\<rparr>) s)"

definition pend_list_reorder :: "kstate \<Rightarrow> ptr \<Rightarrow> kstate" where
  "pend_list_reorder s task =
     (if blk_policy (blks s (blk_obj (tasks s task))) = BLK_POLICY_PRI then
        let s = blks_update (blk_list_rm task) s
        in pend_list_add s (blk_obj (tasks s task)) task
      else s)"

definition pend_state_end_proc :: "kstate \<Rightarrow> ptr \<Rightarrow> kstat \<times> kstate" where
  "pend_state_end_proc s task =
     (case blk_state (tasks s task) of
        BLK_FINISH \<Rightarrow> (RHINO_SUCCESS, s)
      | BLK_ABORT \<Rightarrow> (RHINO_BLK_ABORT, s)
      | BLK_TIMEOUT \<Rightarrow> (RHINO_BLK_TIMEOUT, s)
      | BLK_DEL \<Rightarrow> (RHINO_BLK_DEL, s)
      | _ \<Rightarrow> (RHINO_BLK_INV_STATE, k_err_proc s RHINO_BLK_INV_STATE))"

text \<open>
  The loop that empties the waiting list of an object that is deleted: \<^verbatim>\<open>while\<close> the list is not
  empty, \<^verbatim>\<open>pend_task_rm\<close> of its first task. Every turn takes one task off the list
  (\<open>pend_rm_all_empty\<close>), so as many turns as there are tasks empty it.
\<close>

fun pend_rm_loop :: "nat \<Rightarrow> kstate \<Rightarrow> ptr \<Rightarrow> kstate" where
  "pend_rm_loop 0 s ob = s"
| "pend_rm_loop (Suc n) s ob =
     (if blk_list (blks s ob) = [] then s
      else pend_rm_loop n (pend_task_rm s (first (blk_list (blks s ob)))) ob)"

definition pend_rm_all :: "kstate \<Rightarrow> ptr \<Rightarrow> kstate" where
  "pend_rm_all s ob = pend_rm_loop (length (blk_list (blks s ob))) s ob"

section \<open>The abstract wake-up\<close>

definition rq_add :: "kstate \<Rightarrow> ptr \<Rightarrow> runqueue_t" where
  "rq_add s t =
     (if prio (tasks s t) = prio (tasks s (g_active_task s))
      then ready_list_add_tail (g_ready_queue s) t (prio (tasks s t))
      else ready_list_add_head (g_ready_queue s) t (prio (tasks s t)))"

lemma ready_list_add_eq: "ready_list_add s t = s\<lparr>g_ready_queue := rq_add s t\<rparr>"
  by (simp add: ready_list_add_def rq_add_def)

lemma rq_add_cong:
  "g_ready_queue s = g_ready_queue s' \<Longrightarrow> g_active_task s = g_active_task s' \<Longrightarrow>
   (\<And>u. prio (tasks s u) = prio (tasks s' u)) \<Longrightarrow> rq_add s t = rq_add s' t"
  by (simp add: rq_add_def)

text \<open>A waiting task becomes ready, or merely suspended if it was suspended while waiting.\<close>

definition woken :: "blk_state_t \<Rightarrow> ktask_t \<Rightarrow> ktask_t" where
  "woken b t = t\<lparr>task_state := (if task_state t = K_PEND then K_RDY else K_SUSPENDED),
                 tick_head := False, blk_state := b, blk_obj := NULL\<rparr>"

definition wake_task :: "blk_state_t \<Rightarrow> kstate \<Rightarrow> ptr \<Rightarrow> kstate" where
  "wake_task b s t =
     s\<lparr>g_ready_queue := (if task_state (tasks s t) = K_PEND then rq_add s t else g_ready_queue s),
       blks := blk_list_rm t (blks s),
       g_tick_head := (if tick_head (tasks s t) then removeAll t (g_tick_head s)
                       else g_tick_head s),
       tasks := (tasks s)(t := woken b (tasks s t))\<rparr>"

lemma tick_list_rm_eq:
  "tick_list_rm s t =
     s\<lparr>g_tick_head := (if tick_head (tasks s t) then removeAll t (g_tick_head s)
                       else g_tick_head s),
       tasks := (tasks s)(t := (tasks s t)\<lparr>tick_head := False\<rparr>)\<rparr>"
  by (simp add: tick_list_rm_def fun_upd_def fun_eq_iff)

lemma rq_add_frame [simp]:
  "rq_add (blks_update f s) t = rq_add s t"
  "rq_add (g_tick_head_update g s) t = rq_add s t"
  by (simp_all add: rq_add_def)

lemma pend_task_wakeup_eq:
  assumes "pending (tasks s t)"
  shows "pend_task_wakeup s t = wake_task BLK_FINISH s t"
  using assms unfolding pending_def
proof
  assume "task_state (tasks s t) = K_PEND"
  then show ?thesis
    by (simp add: pend_task_wakeup_def wake_task_def ready_list_add_eq woken_def tick_list_rm_eq)
next
  assume "task_state (tasks s t) = K_PEND_SUSPENDED"
  then show ?thesis
    by (simp add: pend_task_wakeup_def wake_task_def woken_def tick_list_rm_eq)
qed

lemma pend_task_rm_eq:
  assumes "pending (tasks s t)"
  shows "pend_task_rm s t = wake_task BLK_DEL s t"
  using assms unfolding pending_def
proof
  assume "task_state (tasks s t) = K_PEND"
  then show ?thesis
    by (simp add: pend_task_rm_def wake_task_def ready_list_add_eq woken_def tick_list_rm_eq)
next
  assume "task_state (tasks s t) = K_PEND_SUSPENDED"
  then show ?thesis
    by (simp add: pend_task_rm_def wake_task_def woken_def tick_list_rm_eq)
qed

lemma woken_simps [simp]:
  "prio (woken b x) = prio x" "b_prio (woken b x) = b_prio x"
  "mutex_list (woken b x) = mutex_list x" "tick_head (woken b x) = False"
  "blk_state (woken b x) = b" "blk_obj (woken b x) = NULL" "msg (woken b x) = msg x"
  "task_state (woken b x) = (if task_state x = K_PEND then K_RDY else K_SUSPENDED)"
  "pending (woken b x) = False" "sleeping (woken b x) = False"
  "rdy (woken b x) = (task_state x = K_PEND)"
  by (auto simp: woken_def task_kinds)

lemma rdy_ok_rq_add:
  assumes "rdy_ok (g_ready_queue s) (tasks s)" and "\<not> rdy (tasks s t)" and "rdy x"
    and "prio x = prio (tasks s t)" and "prio x < RHINO_CONFIG_PRI_MAX"
  shows "rdy_ok (rq_add s t) ((tasks s)(t := x))"
  using assms by (simp add: rq_add_def rdy_ok_add_tail rdy_ok_add_head)

lemma lists_ok_wake_task:
  assumes "lists_ok s" and "pending (tasks s t)"
  shows "lists_ok (wake_task b s t)"
proof
  note ok = lists_okD [OF assms(1)]
  have nr: "\<not> rdy (tasks s t)" using assms(2) by (auto simp: task_kinds)
  have st: "task_state (tasks s t) \<noteq> K_PEND \<Longrightarrow> task_state (tasks s t) = K_PEND_SUSPENDED"
    using assms(2) by (auto simp: pending_def)
  show "rdy_ok (g_ready_queue (wake_task b s t)) (tasks (wake_task b s t))"
    using ok(1) nr prio_ok_bound [OF ok(4)]
    by (auto simp: wake_task_def intro: rdy_ok_rq_add rdy_ok_same)
  show "blk_ok (blks (wake_task b s t)) (tasks (wake_task b s t))"
    using blk_ok_rm [OF ok(2), of "woken b (tasks s t)" t] by (simp add: wake_task_def)
  show "tick_ok (g_tick_head (wake_task b s t)) (tasks (wake_task b s t))"
    using tick_ok_rm [OF ok(3), of "woken b (tasks s t)" t] tick_ok_rm_absent [OF ok(3), of t]
    by (cases "tick_head (tasks s t)") (simp_all add: wake_task_def)
  show "prio_ok (tasks (wake_task b s t))"
    using prio_ok_same [OF ok(4), of "woken b (tasks s t)" t] prio_ok_not_rdy [OF ok(4) nr] assms(2)
    by (auto simp: wake_task_def pending_def)
qed

section \<open>The abstract blocking step\<close>

definition timed :: "tick \<Rightarrow> bool" where
  "timed timeout \<longleftrightarrow> timeout \<noteq> RHINO_WAIT_FOREVER \<and> timeout > 0"

definition blocked :: "ptr \<Rightarrow> tick \<Rightarrow> tick \<Rightarrow> ktask_t \<Rightarrow> ktask_t" where
  "blocked ob now timeout t =
     (if timed timeout
      then t\<lparr>blk_obj := ob, tick_match := now + timeout, tick_remain := timeout,
             tick_head := True, task_state := K_PEND\<rparr>
      else t\<lparr>blk_obj := ob, task_state := K_PEND\<rparr>)"

lemma blocked_simps [simp]:
  "prio (blocked ob n d x) = prio x" "b_prio (blocked ob n d x) = b_prio x"
  "mutex_list (blocked ob n d x) = mutex_list x"
  "tick_head (blocked ob n d x) = (timed d \<or> tick_head x)"
  "tick_match (blocked ob n d x) = (if timed d then n + d else tick_match x)"
  "blk_obj (blocked ob n d x) = ob" "task_state (blocked ob n d x) = K_PEND"
  "pending (blocked ob n d x)" "\<not> sleeping (blocked ob n d x)" "\<not> rdy (blocked ob n d x)"
  by (auto simp: blocked_def task_kinds)

text \<open>The place of a waiting task in the list of its object.\<close>

definition enqueue_blk :: "kstate \<Rightarrow> ptr \<Rightarrow> blk_obj_t \<Rightarrow> blk_obj_t" where
  "enqueue_blk s t o' =
     (if blk_policy o' = BLK_POLICY_FIFO then blk_list_update (\<lambda>l. l @ [t]) o'
      else blk_list_update (insert_before (\<lambda>q. prio (tasks s q) > prio (tasks s t)) t) o')"

lemma enqueue_blk_simps [simp]:
  "set (blk_list (enqueue_blk s t o')) = insert t (set (blk_list o'))"
  "blk_policy (enqueue_blk s t o') = blk_policy o'"
  "obj_type (enqueue_blk s t o') = obj_type o'"
  by (auto simp: enqueue_blk_def)

lemma pend_to_blk_obj_eq:
  "pend_to_blk_obj s ob t d =
     s\<lparr>g_ready_queue := ready_list_rm (g_ready_queue s) t (prio (tasks s t)),
       blks := (blks s)(ob := enqueue_blk s t (blks s ob)),
       g_tick_head :=
         (if timed d then insert_before
            (\<lambda>q. d < tick_match (((tasks s)(t := blocked ob (g_tick_count s) d (tasks s t))) q)
                     - g_tick_count s) t (g_tick_head s)
          else g_tick_head s),
       tasks := (tasks s)(t := blocked ob (g_tick_count s) d (tasks s t))\<rparr>"
proof (cases "timed d")
  case True
  have eq: "(\<lambda>q. q \<noteq> t \<and> (q \<noteq> t \<longrightarrow> prio (tasks s t) < prio (tasks s q)))
      = (\<lambda>q. prio (tasks s t) < prio (tasks s q))"
    by auto
  from True show ?thesis
    by (intro kstate.equality)
      (simp_all add: pend_to_blk_obj_def timed_def tick_list_insert_def tick_list_pri_insert_def
        pend_list_add_def enqueue_blk_def blocked_def eq Let_def)
next
  case False
  have eq: "(\<lambda>q. q \<noteq> t \<and> (q \<noteq> t \<longrightarrow> prio (tasks s t) < prio (tasks s q)))
      = (\<lambda>q. prio (tasks s t) < prio (tasks s q))"
    by auto
  from False have "d = RHINO_WAIT_FOREVER \<or> d = 0"
    by (auto simp: timed_def word_neq_0_conv)
  with False show ?thesis
    by (intro kstate.equality)
      (auto simp: pend_to_blk_obj_def tick_list_insert_def tick_list_pri_insert_def
        pend_list_add_def enqueue_blk_def blocked_def eq Let_def)
qed

lemma lists_ok_block:
  assumes "lists_ok s" and "rdy (tasks s t)" and "prio (tasks s t) \<noteq> RHINO_IDLE_PRI"
  shows "lists_ok (pend_to_blk_obj s ob t d)"
proof
  note ok = lists_okD [OF assms(1)]
  let ?x = "blocked ob (g_tick_count s) d (tasks s t)"
  have np: "\<not> pending (tasks s t)" "\<not> sleeping (tasks s t)"
    using assms(2) by (auto simp: task_kinds)
  then have nt: "\<not> tick_head (tasks s t)" using ok(3) by (auto simp: tick_ok_def)
  obtain u where u: "u \<noteq> t" "rdy (tasks s u)"
    using prio_ok_other [OF ok(4) assms(3)] .
  show "rdy_ok (g_ready_queue (pend_to_blk_obj s ob t d)) (tasks (pend_to_blk_obj s ob t d))"
    using rdy_ok_rm [OF ok(1) assms(2) refl, of ?x] u by (simp add: pend_to_blk_obj_eq)
  show "blk_ok (blks (pend_to_blk_obj s ob t d)) (tasks (pend_to_blk_obj s ob t d))"
    using blk_ok_add_pri [OF ok(2) np(1), of ?x ob "\<lambda>q. prio (tasks s q) > prio (tasks s t)"]
      blk_ok_add_fifo [OF ok(2) np(1), of ?x ob]
    by (cases "blk_policy (blks s ob)") (simp_all add: pend_to_blk_obj_eq enqueue_blk_def)
  show "tick_ok (g_tick_head (pend_to_blk_obj s ob t d)) (tasks (pend_to_blk_obj s ob t d))"
    using tick_ok_add [OF ok(3) nt, of ?x] tick_ok_same [OF ok(3), of ?x t]
    by (cases "timed d") (simp_all add: pend_to_blk_obj_eq nt del: fun_upd_apply)
  show "prio_ok (tasks (pend_to_blk_obj s ob t d))"
    using prio_ok_same [OF ok(4), of ?x t] assms(2,3)
    by (auto simp: pend_to_blk_obj_eq rdy_def)
qed

section \<open>Changing the priority of a waiting task\<close>

lemma pend_list_reorder_eq:
  assumes "blk_policy (blks s (blk_obj (tasks s t))) = BLK_POLICY_PRI"
  shows "pend_list_reorder s t =
     s\<lparr>blks := (blk_list_rm t (blks s))
          (blk_obj (tasks s t) := blk_list_update
             (insert_before (\<lambda>q. prio (tasks s q) > prio (tasks s t)) t)
             (blk_list_rm t (blks s) (blk_obj (tasks s t))))\<rparr>"
  using assms by (simp add: pend_list_reorder_def pend_list_add_def Let_def)

text \<open>
  A pending task gets a new priority and is moved to its new place in the waiting list; the
  list stays sorted.
\<close>

lemma blk_ok_pend_list_reorder:
  assumes ok: "blk_ok (blks s) T" and p: "pending (T t)"
    and s: "tasks s = T(t := x)"
    and x: "pending x" "blk_obj x = blk_obj (T t)"
  shows "blk_ok (blks (pend_list_reorder s t)) (T(t := x))"
proof (cases "blk_policy (blks s (blk_obj (T t)))")
  case BLK_POLICY_PRI
  let ?y = "T t\<lparr>task_state := K_RDY\<rparr>" and ?ob = "blk_obj (T t)"
  let ?B = "blk_list_rm t (blks s)"
  have "blk_ok ?B (T(t := ?y))"
    using ok by (rule blk_ok_rm) (simp add: pending_def)
  from blk_ok_add_pri [OF this _ x(1,2), of t "\<lambda>q. prio (tasks s q) > prio (tasks s t)"]
  show ?thesis
    using x BLK_POLICY_PRI by (simp add: pending_def s pend_list_reorder_eq)
next
  case BLK_POLICY_FIFO
  have "sorted (map (\<lambda>u. prio (if u = t then x else T u)) (blk_list (blks s ob)))"
    if pri: "blk_policy (blks s ob) = BLK_POLICY_PRI" for ob
  proof -
    have "t \<notin> set (blk_list (blks s ob))"
      using pri BLK_POLICY_FIFO blk_ok_mem [OF ok, of t ob] by auto
    with blk_ok_sorted [OF ok pri] show ?thesis by (simp add: sorted_map_upd)
  qed
  with BLK_POLICY_FIFO show ?thesis
    using ok p x s by (auto simp: pend_list_reorder_def blk_ok_def)
qed

end
