(* ===== verification/PrioInherit.thy ===== *)
theory PrioInherit
  imports Pend
begin

text \<open>
  Priority inheritance: \<^verbatim>\<open>mutex_pri_limit\<close>, \<^verbatim>\<open>mutex_pri_look\<close>, \<^verbatim>\<open>mutex_release\<close> and
  \<^verbatim>\<open>mutex_task_pri_reset\<close> of \<^verbatim>\<open>k_mutex.c\<close> and \<^verbatim>\<open>task_pri_change\<close> of \<^verbatim>\<open>k_task.c\<close>, whose loop
  walks the chain of owners.

  The specification is an equation: every live task runs at the best of its own base priority
  and the priorities of the tasks that wait for a mutex it holds. The loop is shown to
  terminate, and to restore the equation when it is broken at one task.
\<close>

section \<open>Looking through the mutexes of a task\<close>

fun mutex_pri_limit_loop :: "kstate \<Rightarrow> ptr list \<Rightarrow> nat \<Rightarrow> nat \<Rightarrow> nat" where
  "mutex_pri_limit_loop s [] pri high_pri = high_pri"
| "mutex_pri_limit_loop s (mutex_tmp # ms) pri high_pri =
     (let l = blk_list (blks s mutex_tmp);
          pri = (if l \<noteq> [] then prio (tasks s (first l)) else pri);
          high_pri = (if pri < high_pri then pri else high_pri)
      in mutex_pri_limit_loop s ms pri high_pri)"

definition mutex_pri_limit :: "kstate \<Rightarrow> ptr \<Rightarrow> nat \<Rightarrow> nat" where
  "mutex_pri_limit s task pri = mutex_pri_limit_loop s (mutex_list (tasks s task)) pri pri"

text \<open>The loop of \<^verbatim>\<open>mutex_pri_look\<close>: the priority found, and the chain without \<open>mutex_rel\<close>.\<close>

fun mutex_pri_look_loop ::
    "kstate \<Rightarrow> ptr \<Rightarrow> ptr list \<Rightarrow> nat \<Rightarrow> nat \<Rightarrow> nat \<times> ptr list" where
  "mutex_pri_look_loop s mutex_rel [] pri new_pri = (new_pri, [])"
| "mutex_pri_look_loop s mutex_rel (mutex_tmp # ms) pri new_pri =
     (if mutex_tmp = mutex_rel then mutex_pri_look_loop s mutex_rel ms pri new_pri
      else
        let l = blk_list (blks s mutex_tmp);
            pri = (if l \<noteq> [] then prio (tasks s (first l)) else pri);
            new_pri = (if new_pri > pri then pri else new_pri);
            (r, ms') = mutex_pri_look_loop s mutex_rel ms pri new_pri
        in (r, mutex_tmp # ms'))"

definition mutex_pri_look :: "kstate \<Rightarrow> ptr \<Rightarrow> ptr \<Rightarrow> nat \<times> kstate" where
  "mutex_pri_look s task mutex_rel =
     (let new_pri = b_prio (tasks s task);
          (r, ms) = mutex_pri_look_loop s mutex_rel (mutex_list (tasks s task)) new_pri new_pri
      in (r, set_task task (\<lambda>t. t\<lparr>mutex_list := ms\<rparr>) s))"

section \<open>Changing a priority\<close>

text \<open>
  One turn of the loop of \<^verbatim>\<open>task_pri_change\<close>: \<open>Inl\<close> a return, \<open>Inr\<close> the task and the priority
  of the next turn (the null pointer ends the loop).
\<close>

definition task_pri_change_step :: "kstate \<Rightarrow> ptr \<Rightarrow> nat \<Rightarrow> (kstat + ptr \<times> nat) \<times> kstate" where
  "task_pri_change_step s task new_pri =
     (if prio (tasks s task) \<noteq> new_pri then
        case task_state (tasks s task) of
          K_RDY \<Rightarrow>
            let s = g_ready_list_rm s task;
                s = set_task task (\<lambda>t. t\<lparr>prio := new_pri\<rparr>) s;
                s = (if task = g_active_task s
                     then g_ready_queue_update (\<lambda>rq. ready_list_add_head rq task new_pri) s
                     else g_ready_queue_update (\<lambda>rq. ready_list_add_tail rq task new_pri) s)
            in (Inr (NULL, new_pri), s)
        | K_SLEEP \<Rightarrow> (Inr (NULL, new_pri), set_task task (\<lambda>t. t\<lparr>prio := new_pri\<rparr>) s)
        | K_SUSPENDED \<Rightarrow> (Inr (NULL, new_pri), set_task task (\<lambda>t. t\<lparr>prio := new_pri\<rparr>) s)
        | K_SLEEP_SUSPENDED \<Rightarrow>
            (Inr (NULL, new_pri), set_task task (\<lambda>t. t\<lparr>prio := new_pri\<rparr>) s)
        | K_SEED \<Rightarrow> (Inl RHINO_INV_TASK_STATE, k_err_proc s RHINO_INV_TASK_STATE)
        | K_DELETED \<Rightarrow> (Inl RHINO_INV_TASK_STATE, k_err_proc s RHINO_INV_TASK_STATE)
        | _ \<Rightarrow>
            let old_pri = prio (tasks s task);
                s = set_task task (\<lambda>t. t\<lparr>prio := new_pri\<rparr>) s;
                s = pend_list_reorder s task;
                mutex_tmp = blk_obj (tasks s task)
            in if obj_type (blks s mutex_tmp) = RHINO_MUTEX_OBJ_TYPE then
                 let owner = mutex_task (mutexes s mutex_tmp)
                 in if prio (tasks s owner) > prio (tasks s task)
                    then (Inr (owner, new_pri), s)
                    else if prio (tasks s owner) = old_pri then
                      let (new_pri, s) = mutex_pri_look s owner NULL
                      in if new_pri \<noteq> prio (tasks s owner) then (Inr (owner, new_pri), s)
                         else (Inr (NULL, new_pri), s)
                    else (Inr (NULL, new_pri), s)
               else (Inr (NULL, new_pri), s)
      else (Inr (NULL, new_pri), s))"

text \<open>
  Why the loop ends. While the priority rises, the tasks worse than the new priority become
  fewer; while it sinks, the tasks that have the old priority do, and a sinking chain may turn
  into a rising one but not back.
\<close>

definition pri_change_measure :: "kstate \<Rightarrow> ptr \<Rightarrow> nat \<Rightarrow> nat \<times> nat" where
  "pri_change_measure s task new_pri =
     (if new_pri < prio (tasks s task) then (0, card {u. prio (tasks s u) > new_pri})
      else (1, card {u. prio (tasks s u) = prio (tasks s task)}))"

lemma card_less_ptr: "A \<subseteq> B \<Longrightarrow> x \<in> B \<Longrightarrow> x \<notin> A \<Longrightarrow> card A < card (B :: ptr set)"
  by (rule psubset_card_mono) auto

lemma pend_list_reorder_tasks [simp]:
  "tasks (pend_list_reorder s t) = tasks s" "mutexes (pend_list_reorder s t) = mutexes s"
  by (simp_all add: pend_list_reorder_def pend_list_add_def Let_def)

lemma task_pri_change_step_next:
  assumes "task_pri_change_step s task new_pri = (Inr (own, pri), s')" and "own \<noteq> NULL"
  shows "prio (tasks s task) \<noteq> new_pri
    \<and> (\<forall>u. prio (tasks s' u) = (if u = task then new_pri else prio (tasks s u)))
    \<and> (if new_pri < prio (tasks s' own) then pri = new_pri
       else prio (tasks s' own) = prio (tasks s task) \<and> pri \<noteq> prio (tasks s' own))"
  using assms
  by (auto simp: task_pri_change_step_def mutex_pri_look_def Let_def
      split: if_splits task_stat_t.splits prod.splits)

lemma pri_change_measure_less:
  assumes "task_pri_change_step s task new_pri = (Inr (own, pri), s')" and "own \<noteq> NULL"
  shows "(pri_change_measure s' own pri, pri_change_measure s task new_pri)
           \<in> less_than <*lex*> less_than"
proof -
  note st = task_pri_change_step_next [OF assms]
  let ?P = "\<lambda>u. prio (tasks s u)" and ?P' = "\<lambda>u. prio (tasks s' u)"
  have P': "?P' u = (if u = task then new_pri else ?P u)" for u using st by blast
  have ne: "?P task \<noteq> new_pri" using st by blast
  show ?thesis
  proof (cases "new_pri < ?P' own")
    case True
    then have pri: "pri = new_pri" using st by simp
    have "{u. ?P' u > new_pri} \<subseteq> {u. ?P u > new_pri}" using P' by auto
    moreover have "task \<notin> {u. ?P' u > new_pri}" using P' by simp
    ultimately show ?thesis
      using True pri card_less_ptr [of "{u. ?P' u > new_pri}" "{u. ?P u > new_pri}" task]
      by (auto simp: pri_change_measure_def)
  next
    case False
    then have eq: "?P' own = ?P task" and pn: "pri \<noteq> ?P' own" using st by auto
    have up: "\<not> new_pri < ?P task" using False eq by simp
    have "{u. ?P' u = ?P task} \<subseteq> {u. ?P u = ?P task}" using P' ne by auto
    moreover have "task \<notin> {u. ?P' u = ?P task}" using P' ne by simp
    ultimately have "card {u. ?P' u = ?P task} < card {u. ?P u = ?P task}"
      by (intro card_less_ptr) auto
    with up eq show ?thesis by (auto simp: pri_change_measure_def)
  qed
qed

function task_pri_change :: "kstate \<Rightarrow> ptr \<Rightarrow> nat \<Rightarrow> kstat \<times> kstate" where
  "task_pri_change s task new_pri =
     (case task_pri_change_step s task new_pri of
        (Inl err, s) \<Rightarrow> (err, s)
      | (Inr (task, new_pri), s) \<Rightarrow>
          if task \<noteq> NULL then task_pri_change s task new_pri else (RHINO_SUCCESS, s))"
  by pat_completeness auto
termination
proof (relation "inv_image (less_than <*lex*> less_than) (\<lambda>(s, t, p). pri_change_measure s t p)")
  show "wf (inv_image (less_than <*lex*> less_than) (\<lambda>(s, t, p). pri_change_measure s t p))"
    by auto
qed (use pri_change_measure_less in \<open>auto simp: in_inv_image\<close>)

declare task_pri_change.simps [simp del]

section \<open>Releasing a mutex\<close>

definition mutex_release :: "kstate \<Rightarrow> ptr \<Rightarrow> ptr \<Rightarrow> kstate" where
  "mutex_release s task mutex_rel =
     (let (new_pri, s) = mutex_pri_look s task mutex_rel
      in if new_pri \<noteq> prio (tasks s task) then snd (task_pri_change s task new_pri) else s)"

definition mutex_task_pri_reset :: "kstate \<Rightarrow> ptr \<Rightarrow> kstate" where
  "mutex_task_pri_reset s task =
     (if obj_type (blks s (blk_obj (tasks s task))) = RHINO_MUTEX_OBJ_TYPE then
        let owner = mutex_task (mutexes s (blk_obj (tasks s task)))
        in if prio (tasks s owner) = prio (tasks s task) then mutex_release s owner NULL else s
      else s)"

section \<open>The inheritance equation\<close>

text \<open>The mutexes of a live task; the chain of a deleted task is stale.\<close>

definition held :: "(ptr \<Rightarrow> ktask_t) \<Rightarrow> ptr \<Rightarrow> ptr list" where
  "held T t = (if task_state (T t) = K_DELETED then [] else mutex_list (T t))"

definition waiters :: "(ptr \<Rightarrow> blk_obj_t) \<Rightarrow> (ptr \<Rightarrow> ktask_t) \<Rightarrow> ptr \<Rightarrow> ptr set" where
  "waiters B T t = (\<Union>m \<in> set (held T t). set (blk_list (B m)))"

definition eff_prio :: "(ptr \<Rightarrow> blk_obj_t) \<Rightarrow> (ptr \<Rightarrow> ktask_t) \<Rightarrow> ptr \<Rightarrow> nat" where
  "eff_prio B T t = Min (insert (b_prio (T t)) ((\<lambda>w. prio (T w)) ` waiters B T t))"

definition inh_ok_but :: "ptr set \<Rightarrow> (ptr \<Rightarrow> blk_obj_t) \<Rightarrow> (ptr \<Rightarrow> ktask_t) \<Rightarrow> bool" where
  "inh_ok_but X B T \<longleftrightarrow>
     (\<forall>t. t \<notin> X \<and> task_state (T t) \<noteq> K_DELETED \<longrightarrow> prio (T t) = eff_prio B T t)"

abbreviation inh_ok :: "(ptr \<Rightarrow> blk_obj_t) \<Rightarrow> (ptr \<Rightarrow> ktask_t) \<Rightarrow> bool" where
  "inh_ok \<equiv> inh_ok_but {}"

text \<open>
  Ownership: the chains of the tasks and the owner fields of the mutexes agree. The mutexes in
  \<open>Y\<close> are just being handed over: out of the chain, but the waiting list is not empty yet.
\<close>

definition mx_ok_but ::
    "ptr set \<Rightarrow> (ptr \<Rightarrow> kmutex_t) \<Rightarrow> (ptr \<Rightarrow> blk_obj_t) \<Rightarrow> (ptr \<Rightarrow> ktask_t) \<Rightarrow> bool" where
  "mx_ok_but Y M B T \<longleftrightarrow>
     (\<forall>t. distinct (held T t))
     \<and> (\<forall>t m. m \<in> set (held T t) \<longrightarrow>
           m \<noteq> NULL \<and> t \<noteq> NULL \<and> task_state (T t) \<noteq> K_SEED \<and> b_prio (T t) \<noteq> RHINO_IDLE_PRI
           \<and> mutex_task (M m) = t \<and> obj_type (B m) = RHINO_MUTEX_OBJ_TYPE
           \<and> (pending (T t) \<longrightarrow> blk_obj (T t) \<noteq> m))
     \<and> (\<forall>m. obj_type (B m) = RHINO_MUTEX_OBJ_TYPE \<longrightarrow> blk_policy (B m) = BLK_POLICY_PRI)
     \<and> (\<forall>m. obj_type (B m) = RHINO_MUTEX_OBJ_TYPE \<and> m \<notin> Y
            \<and> (blk_list (B m) \<noteq> [] \<or> mutex_task (M m) \<noteq> NULL) \<longrightarrow>
           m \<in> set (held T (mutex_task (M m))))"

abbreviation mx_ok ::
    "(ptr \<Rightarrow> kmutex_t) \<Rightarrow> (ptr \<Rightarrow> blk_obj_t) \<Rightarrow> (ptr \<Rightarrow> ktask_t) \<Rightarrow> bool" where
  "mx_ok \<equiv> mx_ok_but {}"

lemma mx_ok_owned:
  "mx_ok_but Y M B T \<Longrightarrow> obj_type (B m) = RHINO_MUTEX_OBJ_TYPE \<Longrightarrow> m \<notin> Y \<Longrightarrow>
   blk_list (B m) \<noteq> [] \<or> mutex_task (M m) \<noteq> NULL \<Longrightarrow> m \<in> set (held T (mutex_task (M m)))"
  by (simp add: mx_ok_but_def)

lemma finite_waiters [simp]: "finite (waiters B T t)"
  by (simp add: waiters_def)

lemma le_eff_prio:
  "k \<le> eff_prio B T t \<longleftrightarrow> k \<le> b_prio (T t) \<and> (\<forall>w \<in> waiters B T t. k \<le> prio (T w))"
  by (simp add: eff_prio_def)

lemma eff_prio_le: "eff_prio B T t \<le> b_prio (T t)"
  "w \<in> waiters B T t \<Longrightarrow> eff_prio B T t \<le> prio (T w)"
  using le_eff_prio [of "eff_prio B T t" B T t] by auto

lemma nat_eq_if_le: "(\<And>k. k \<le> a \<longleftrightarrow> k \<le> b) \<Longrightarrow> a = (b :: nat)"
  by (meson le_antisym order_refl)

lemma eff_prio_cong:
  assumes "b_prio (T t) = b_prio (T' t)" and "waiters B T t = waiters B' T' t"
    and "\<And>w. w \<in> waiters B T t \<Longrightarrow> prio (T w) = prio (T' w)"
  shows "eff_prio B T t = eff_prio B' T' t"
  using assms by (intro nat_eq_if_le) (auto simp: le_eff_prio)

lemma inh_okD: "inh_ok_but X B T \<Longrightarrow> t \<notin> X \<Longrightarrow> task_state (T t) \<noteq> K_DELETED \<Longrightarrow>
    prio (T t) = eff_prio B T t"
  by (simp add: inh_ok_but_def)

subsection \<open>What the loops compute\<close>

lemma mutex_pri_look_loop_eq:
  assumes "\<And>m. m \<in> set ms \<Longrightarrow> sorted (map (\<lambda>t. prio (tasks s t)) (blk_list (blks s m)))"
    and "new_pri \<le> pri"
  shows "snd (mutex_pri_look_loop s mutex_rel ms pri new_pri) = removeAll mutex_rel ms
    \<and> (k \<le> fst (mutex_pri_look_loop s mutex_rel ms pri new_pri) \<longleftrightarrow>
        k \<le> new_pri \<and> (\<forall>m \<in> set ms - {mutex_rel}. \<forall>w \<in> set (blk_list (blks s m)). k \<le> prio (tasks s w)))"
  using assms
proof (induction ms arbitrary: pri new_pri)
  case Nil
  then show ?case by simp
next
  case (Cons m ms)
  show ?case
  proof (cases "m = mutex_rel")
    case True
    with Cons show ?thesis by auto
  next
    case False
    show ?thesis
    proof (cases "blk_list (blks s m)")
      case Nil
      with False Cons.prems(2)
      have "mutex_pri_look_loop s mutex_rel (m # ms) pri new_pri
          = (fst (mutex_pri_look_loop s mutex_rel ms pri new_pri),
             m # snd (mutex_pri_look_loop s mutex_rel ms pri new_pri))"
        by (simp add: Let_def split_beta)
      with Cons.IH [of new_pri pri] Cons.prems False Nil show ?thesis by auto
    next
      case (Cons w ws)
      let ?n = "min new_pri (prio (tasks s w))"
      have IH: "snd (mutex_pri_look_loop s mutex_rel ms (prio (tasks s w)) ?n) = removeAll mutex_rel ms
        \<and> (k \<le> fst (mutex_pri_look_loop s mutex_rel ms (prio (tasks s w)) ?n) \<longleftrightarrow>
        k \<le> ?n \<and> (\<forall>m \<in> set ms - {mutex_rel}. \<forall>w \<in> set (blk_list (blks s m)). k \<le> prio (tasks s w)))"
        using Cons.prems by (intro Cons.IH) auto
      have le: "\<And>v. v \<in> set ws \<Longrightarrow> prio (tasks s w) \<le> prio (tasks s v)"
        using Cons.prems(1) [of m] Cons by simp
      have n: "(if new_pri > prio (tasks s w) then prio (tasks s w) else new_pri) = ?n" by auto
      have "mutex_pri_look_loop s mutex_rel (m # ms) pri new_pri
          = (fst (mutex_pri_look_loop s mutex_rel ms (prio (tasks s w)) ?n),
             m # snd (mutex_pri_look_loop s mutex_rel ms (prio (tasks s w)) ?n))"
        using False Cons by (simp add: n Let_def split: prod.splits)
      moreover have "(\<forall>v \<in> set (blk_list (blks s m)). k \<le> prio (tasks s v)) \<longleftrightarrow> k \<le> prio (tasks s w)"
        using Cons le order_trans by fastforce
      moreover have "set (m # ms) - {mutex_rel} = insert m (set ms - {mutex_rel})"
        using False by auto
      ultimately show ?thesis using IH False by simp
    qed
  qed
qed

lemma mx_ok_held:
  assumes "mx_ok_but Y M B T" and "m \<in> set (held T t)"
  shows "m \<noteq> NULL" "t \<noteq> NULL" "mutex_task (M m) = t" "obj_type (B m) = RHINO_MUTEX_OBJ_TYPE"
    "blk_policy (B m) = BLK_POLICY_PRI" "b_prio (T t) \<noteq> RHINO_IDLE_PRI"
    "task_state (T t) \<noteq> K_SEED" "task_state (T t) \<noteq> K_DELETED"
    "pending (T t) \<Longrightarrow> blk_obj (T t) \<noteq> m"
proof -
  show "task_state (T t) \<noteq> K_DELETED" using assms(2) by (auto simp: held_def)
qed (use assms in \<open>unfold mx_ok_but_def, blast+\<close>)

text \<open>
  \<^verbatim>\<open>mutex_pri_look\<close> unlinks \<open>mutex_rel\<close> and returns the priority the inheritance equation asks for
  afterwards.
\<close>

lemma mutex_pri_look_eq:
  assumes ok: "blk_ok (blks s) (tasks s)"
    and pri: "\<And>m. m \<in> set (held (tasks s) t) \<Longrightarrow> blk_policy (blks s m) = BLK_POLICY_PRI"
    and live: "task_state (tasks s t) \<noteq> K_DELETED"
  shows "mutex_pri_look s t mutex_rel =
    (let T = (tasks s)(t := (tasks s t)\<lparr>mutex_list := removeAll mutex_rel (mutex_list (tasks s t))\<rparr>)
     in (eff_prio (blks s) T t, s\<lparr>tasks := T\<rparr>))"
proof -
  let ?ms = "mutex_list (tasks s t)" and ?b = "b_prio (tasks s t)"
  let ?L = "mutex_pri_look_loop s mutex_rel ?ms ?b ?b"
  let ?T = "(tasks s)(t := (tasks s t)\<lparr>mutex_list := removeAll mutex_rel ?ms\<rparr>)"
  have m: "set ?ms = set (held (tasks s) t)" using live by (simp add: held_def)
  have L: "snd ?L = removeAll mutex_rel ?ms \<and> (k \<le> fst ?L \<longleftrightarrow>
        k \<le> ?b \<and> (\<forall>m \<in> set ?ms - {mutex_rel}. \<forall>w \<in> set (blk_list (blks s m)). k \<le> prio (tasks s w)))" for k
    using blk_ok_sorted [OF ok pri] m by (intro mutex_pri_look_loop_eq) auto
  have w: "waiters (blks s) ?T t = (\<Union>m \<in> set ?ms - {mutex_rel}. set (blk_list (blks s m)))"
    using live by (simp add: waiters_def held_def)
  have "k \<le> fst ?L \<longleftrightarrow> k \<le> eff_prio (blks s) ?T t" for k
    using L [of k] by (auto simp: le_eff_prio w)
  then have "fst ?L = eff_prio (blks s) ?T t" by (rule nat_eq_if_le)
  with L [of 0] show ?thesis
    by (simp add: mutex_pri_look_def Let_def split_beta)
qed

lemma mutex_pri_look_NULL:
  assumes ok: "blk_ok (blks s) (tasks s)" "mx_ok_but Y (mutexes s) (blks s) (tasks s)"
    and live: "task_state (tasks s t) \<noteq> K_DELETED"
  shows "mutex_pri_look s t NULL = (eff_prio (blks s) (tasks s) t, s)"
proof -
  have "NULL \<notin> set (held (tasks s) t)" using mx_ok_held(1) [OF ok(2)] by blast
  then have "removeAll NULL (mutex_list (tasks s t)) = mutex_list (tasks s t)"
    using live by (simp add: held_def)
  then show ?thesis
    using mutex_pri_look_eq [OF ok(1) mx_ok_held(5) [OF ok(2)] live, where mutex_rel = NULL] by (simp add: Let_def)
qed

subsection \<open>How updates affect the equation\<close>

text \<open>Waiting lists that differ in their order only.\<close>

definition blk_sim :: "(ptr \<Rightarrow> blk_obj_t) \<Rightarrow> (ptr \<Rightarrow> blk_obj_t) \<Rightarrow> bool" where
  "blk_sim B B' \<longleftrightarrow> (\<forall>ob. set (blk_list (B' ob)) = set (blk_list (B ob))
     \<and> blk_policy (B' ob) = blk_policy (B ob) \<and> obj_type (B' ob) = obj_type (B ob))"

lemma blk_sim_refl [simp]: "blk_sim B B"
  by (simp add: blk_sim_def)

lemma blk_sim_trans: "blk_sim A B \<Longrightarrow> blk_sim B C \<Longrightarrow> blk_sim A C"
  by (simp add: blk_sim_def)

lemma waiters_sim: "blk_sim B B' \<Longrightarrow> waiters B' T t = waiters B T t"
  by (simp add: waiters_def blk_sim_def)

lemma held_upd:
  "mutex_list x = mutex_list (T t) \<Longrightarrow> (task_state x = K_DELETED \<longleftrightarrow> task_state (T t) = K_DELETED) \<Longrightarrow>
   held (T(t := x)) = held T"
  by (auto simp: held_def fun_eq_iff)

lemma waiters_upd:
  "mutex_list x = mutex_list (T t) \<Longrightarrow> (task_state x = K_DELETED \<longleftrightarrow> task_state (T t) = K_DELETED) \<Longrightarrow>
   waiters B (T(t := x)) = waiters B T"
  by (simp add: waiters_def held_upd fun_eq_iff)

lemma mx_ok_same:
  assumes "mx_ok_but Y M B T" and "mutex_list x = mutex_list (T t)"
    and "b_prio x = b_prio (T t) \<or> b_prio x \<noteq> RHINO_IDLE_PRI"
    and "task_state x = K_DELETED \<longleftrightarrow> task_state (T t) = K_DELETED"
    and "task_state x = K_SEED \<Longrightarrow> mutex_list (T t) = []"
    and "pending x \<Longrightarrow> blk_obj x \<notin> set (held T t)"
  shows "mx_ok_but Y M B (T(t := x))"
proof -
  have h: "held (T(t := x)) = held T" using assms by (simp add: held_upd)
  have "m \<in> set (held T t) \<Longrightarrow> task_state x \<noteq> K_SEED" for m
    using assms(5) by (auto simp: held_def split: if_splits)
  moreover have "m \<in> set (held T t) \<Longrightarrow> b_prio x \<noteq> RHINO_IDLE_PRI" for m
    using assms(3) mx_ok_held(6) [OF assms(1)] by metis
  ultimately show ?thesis
    using assms(1,6) unfolding mx_ok_but_def h by auto
qed

lemma mx_ok_sim:
  assumes "mx_ok_but Y M B T" and "blk_sim B B'"
  shows "mx_ok_but Y M B' T"
proof -
  have hd: "blk_policy (B' m) = blk_policy (B m)" "obj_type (B' m) = obj_type (B m)"
    and st: "set (blk_list (B' m)) = set (blk_list (B m))" for m
    using assms(2) by (simp_all add: blk_sim_def)
  have "blk_list (B' m) = [] \<longleftrightarrow> blk_list (B m) = []" for m
    using st [of m] by (cases "blk_list (B m)"; cases "blk_list (B' m)") simp_all
  with assms(1) show ?thesis unfolding mx_ok_but_def hd by blast
qed

text \<open>A task waits for at most one mutex, so at most one owner feels its priority.\<close>

lemma waiter_owner:
  assumes "blk_ok B T" and "mx_ok_but Y M B T" and "t \<in> waiters B T u"
  shows "pending (T t)" and "obj_type (B (blk_obj (T t))) = RHINO_MUTEX_OBJ_TYPE"
    and "u = mutex_task (M (blk_obj (T t)))" and "u \<noteq> t"
proof -
  obtain m where m: "m \<in> set (held T u)" "t \<in> set (blk_list (B m))"
    using assms(3) by (auto simp: waiters_def)
  with assms(1) have p: "pending (T t)" "blk_obj (T t) = m" by (auto simp: blk_ok_mem)
  have h: "mutex_task (M m) = u" "obj_type (B m) = RHINO_MUTEX_OBJ_TYPE"
    "pending (T u) \<longrightarrow> blk_obj (T u) \<noteq> m"
    using assms(2) m(1) by (auto simp: mx_ok_but_def)
  show "pending (T t)" "obj_type (B (blk_obj (T t))) = RHINO_MUTEX_OBJ_TYPE"
    "u = mutex_task (M (blk_obj (T t)))" "u \<noteq> t"
    using p h by auto
qed

lemma owner_of_waiter:
  assumes "blk_ok B T" and "mx_ok M B T" and "pending (T t)"
    and "obj_type (B (blk_obj (T t))) = RHINO_MUTEX_OBJ_TYPE"
  shows "blk_obj (T t) \<in> set (held T (mutex_task (M (blk_obj (T t)))))"
    and "t \<in> waiters B T (mutex_task (M (blk_obj (T t))))"
proof -
  have t: "t \<in> set (blk_list (B (blk_obj (T t))))"
    using assms by (simp add: blk_ok_mem)
  then have "blk_list (B (blk_obj (T t))) \<noteq> []" by auto
  with assms show h: "blk_obj (T t) \<in> set (held T (mutex_task (M (blk_obj (T t)))))"
    by (simp add: mx_ok_but_def)
  with t show "t \<in> waiters B T (mutex_task (M (blk_obj (T t))))"
    by (auto simp: waiters_def)
qed

lemma eff_prio_upd_other:
  assumes "t \<notin> waiters B T u" and "b_prio x = b_prio (T t)" and "mutex_list x = mutex_list (T t)"
    and "task_state x = K_DELETED \<longleftrightarrow> task_state (T t) = K_DELETED"
  shows "eff_prio B (T(t := x)) u = eff_prio B T u"
proof (rule eff_prio_cong)
  show "waiters B (T(t := x)) u = waiters B T u" using assms by (simp add: waiters_upd)
  then show "prio ((T(t := x)) w) = prio (T w)" if "w \<in> waiters B (T(t := x)) u" for w
    using that assms(1) by auto
qed (use assms in simp)

text \<open>The effect of a changed waiter on its owner.\<close>

lemma eff_prio_upd_owner:
  assumes "t \<in> waiters B T u" and "u \<noteq> t" and "mutex_list x = mutex_list (T t)"
    and "task_state x = K_DELETED \<longleftrightarrow> task_state (T t) = K_DELETED"
  shows "k \<le> eff_prio B (T(t := x)) u \<longleftrightarrow>
    k \<le> prio x \<and> k \<le> b_prio (T u) \<and> (\<forall>w \<in> waiters B T u - {t}. k \<le> prio (T w))"
  using assms by (auto simp: le_eff_prio waiters_upd)

lemma eff_prio_split:
  assumes "t \<in> waiters B T u"
  shows "k \<le> eff_prio B T u \<longleftrightarrow>
    k \<le> prio (T t) \<and> k \<le> b_prio (T u) \<and> (\<forall>w \<in> waiters B T u - {t}. k \<le> prio (T w))"
  using assms by (auto simp: le_eff_prio)

text \<open>The three cases of the loop: raised, possibly lowered, unaffected.\<close>

lemma eff_prio_raise:
  assumes "t \<in> waiters B T u" and "u \<noteq> t" and "prio x < eff_prio B T u"
    and "mutex_list x = mutex_list (T t)"
    and "task_state x = K_DELETED \<longleftrightarrow> task_state (T t) = K_DELETED"
  shows "eff_prio B (T(t := x)) u = prio x"
proof (rule nat_eq_if_le)
  fix k
  show "k \<le> eff_prio B (T(t := x)) u \<longleftrightarrow> k \<le> prio x"
    using eff_prio_upd_owner [OF assms(1,2,4,5), of k] eff_prio_split [OF assms(1), of k] assms(3)
    by (meson le_trans less_imp_le)
qed

lemma eff_prio_keep:
  assumes "t \<in> waiters B T u" and "u \<noteq> t" and "eff_prio B T u \<le> prio x"
    and "eff_prio B T u \<noteq> prio (T t)"
    and "mutex_list x = mutex_list (T t)"
    and "task_state x = K_DELETED \<longleftrightarrow> task_state (T t) = K_DELETED"
  shows "eff_prio B (T(t := x)) u = eff_prio B T u"
proof -
  let ?e = "eff_prio B T u" and ?e' = "eff_prio B (T(t := x)) u"
  have "?e \<le> prio (T t)" using eff_prio_split [OF assms(1), of ?e] by simp
  with assms(4) have lt: "?e < prio (T t)" by simp
  have "?e \<le> ?e'"
    using eff_prio_upd_owner [OF assms(1,2,5,6), of ?e] eff_prio_split [OF assms(1), of ?e] assms(3)
    by simp
  moreover have "\<not> Suc ?e \<le> ?e'"
    using eff_prio_upd_owner [OF assms(1,2,5,6), of "Suc ?e"]
      eff_prio_split [OF assms(1), of "Suc ?e"] lt by auto
  ultimately show ?thesis by simp
qed

section \<open>The loop restores the equation\<close>

definition pi_ok_but :: "ptr set \<Rightarrow> ptr set \<Rightarrow> kstate \<Rightarrow> bool" where
  "pi_ok_but Y X s \<longleftrightarrow> lists_ok s \<and> mx_ok_but Y (mutexes s) (blks s) (tasks s)
     \<and> inh_ok_but X (blks s) (tasks s)"

abbreviation pi_ok :: "kstate \<Rightarrow> bool" where
  "pi_ok \<equiv> pi_ok_but {} {}"

text \<open>
  The loop invariant: everything is right except that \<open>t\<close> still has its old priority, and
  \<open>p\<close> is the priority it must get.
\<close>

definition chain_ok_but :: "ptr set \<Rightarrow> kstate \<Rightarrow> ptr \<Rightarrow> nat \<Rightarrow> bool" where
  "chain_ok_but Y s t p \<longleftrightarrow> pi_ok_but Y {t} s \<and> p = eff_prio (blks s) (tasks s) t
     \<and> prio (tasks s t) \<noteq> RHINO_IDLE_PRI \<and> p < RHINO_IDLE_PRI
     \<and> task_state (tasks s t) \<noteq> K_SEED \<and> task_state (tasks s t) \<noteq> K_DELETED"

abbreviation chain_ok :: "kstate \<Rightarrow> ptr \<Rightarrow> nat \<Rightarrow> bool" where
  "chain_ok \<equiv> chain_ok_but {}"

text \<open>Only priorities, and the places they give in the lists, change.\<close>

definition pri_frame :: "kstate \<Rightarrow> kstate \<Rightarrow> bool" where
  "pri_frame s s' \<longleftrightarrow>
     s' = s\<lparr>g_ready_queue := g_ready_queue s', tasks := tasks s', blks := blks s'\<rparr>
     \<and> (\<forall>u. tasks s' u = (tasks s u)\<lparr>prio := prio (tasks s' u)\<rparr>)
     \<and> blk_sim (blks s) (blks s')"

lemma pri_frameI:
  assumes "s' = s\<lparr>g_ready_queue := a, tasks := b, blks := c\<rparr>"
    and "\<And>u. b u = (tasks s u)\<lparr>prio := prio (b u)\<rparr>" and "blk_sim (blks s) c"
  shows "pri_frame s s'"
  using assms(2,3) by (simp add: pri_frame_def assms(1))

lemma pri_frameD:
  assumes "pri_frame s s'"
  shows "task_state (tasks s' u) = task_state (tasks s u)" "b_prio (tasks s' u) = b_prio (tasks s u)"
    "mutex_list (tasks s' u) = mutex_list (tasks s u)" "blk_obj (tasks s' u) = blk_obj (tasks s u)"
    "blk_state (tasks s' u) = blk_state (tasks s u)"
    "set (blk_list (blks s' ob)) = set (blk_list (blks s ob))"
    "blk_policy (blks s' ob) = blk_policy (blks s ob)" "obj_type (blks s' ob) = obj_type (blks s ob)"
proof -
  obtain q where "tasks s' u = (tasks s u)\<lparr>prio := q\<rparr>"
    using assms unfolding pri_frame_def by blast
  then show "task_state (tasks s' u) = task_state (tasks s u)" "b_prio (tasks s' u) = b_prio (tasks s u)"
    "mutex_list (tasks s' u) = mutex_list (tasks s u)" "blk_obj (tasks s' u) = blk_obj (tasks s u)"
    "blk_state (tasks s' u) = blk_state (tasks s u)"
    by simp_all
qed (use assms in \<open>simp_all add: pri_frame_def blk_sim_def\<close>)

lemma pri_frame_held: "pri_frame s s' \<Longrightarrow> held (tasks s') = held (tasks s)"
  by (simp add: held_def pri_frameD fun_eq_iff)

lemma pri_frame_refl: "pri_frame s s"
  by (simp add: pri_frame_def)

lemma pri_frame_trans:
  assumes "pri_frame r s" and "pri_frame s t"
  shows "pri_frame r t"
proof -
  obtain a b c where t: "t = s\<lparr>g_ready_queue := a, tasks := b, blks := c\<rparr>"
    using assms(2) unfolding pri_frame_def by blast
  obtain a' b' c' where s: "s = r\<lparr>g_ready_queue := a', tasks := b', blks := c'\<rparr>"
    using assms(1) unfolding pri_frame_def by blast
  have "t = r\<lparr>g_ready_queue := g_ready_queue t, tasks := tasks t, blks := blks t\<rparr>"
    unfolding t s by simp
  moreover have "tasks t u = (tasks r u)\<lparr>prio := prio (tasks t u)\<rparr>" for u
  proof -
    have "tasks t u = (tasks s u)\<lparr>prio := prio (tasks t u)\<rparr>"
      "tasks s u = (tasks r u)\<lparr>prio := prio (tasks s u)\<rparr>"
      using assms by (simp_all add: pri_frame_def)
    then have "tasks t u = (tasks r u)\<lparr>prio := prio (tasks s u)\<rparr>\<lparr>prio := prio (tasks t u)\<rparr>"
      by metis
    then show ?thesis by simp
  qed
  ultimately show ?thesis
    using assms blk_sim_trans unfolding pri_frame_def by blast
qed

lemma rdy_ok_new_prio:
  assumes "rdy_ok rq T" and "rdy (T t)" and "p < RHINO_CONFIG_PRI_MAX" and "u \<noteq> t" "rdy (T u)"
  shows "rdy_ok (ready_list_add_head (ready_list_rm rq t (prio (T t))) t p) (T(t := (T t)\<lparr>prio := p\<rparr>))"
    and "rdy_ok (ready_list_add_tail (ready_list_rm rq t (prio (T t))) t p) (T(t := (T t)\<lparr>prio := p\<rparr>))"
proof -
  let ?y = "(T t)\<lparr>task_state := K_SUSPENDED\<rparr>"
  have "rdy_ok (ready_list_rm rq t (prio (T t))) (T(t := ?y))"
    using assms(4,5) by (intro rdy_ok_rm [OF assms(1,2) refl, of _ u]) (simp_all add: rdy_def)
  from rdy_ok_add_head [OF this, of t "(T t)\<lparr>prio := p\<rparr>" p]
    rdy_ok_add_tail [OF this, of t "(T t)\<lparr>prio := p\<rparr>" p]
  show "rdy_ok (ready_list_add_head (ready_list_rm rq t (prio (T t))) t p) (T(t := (T t)\<lparr>prio := p\<rparr>))"
    and "rdy_ok (ready_list_add_tail (ready_list_rm rq t (prio (T t))) t p) (T(t := (T t)\<lparr>prio := p\<rparr>))"
    using assms(2,3) by (simp_all add: rdy_def)
qed

text \<open>A task that waits for nothing: its new priority concerns nobody else.\<close>

lemma inh_ok_not_pending:
  assumes "blk_ok B T" and "mx_ok_but Y M B T" and "inh_ok_but {t} B T" and "\<not> pending (T t)"
    and "p = eff_prio B T t"
  shows "inh_ok B (T(t := (T t)\<lparr>prio := p\<rparr>))"
proof -
  have n: "t \<notin> waiters B T u" for u
    using waiter_owner(1) [OF assms(1,2)] assms(4) by blast
  have "eff_prio B (T(t := (T t)\<lparr>prio := p\<rparr>)) u = eff_prio B T u" for u
    using n by (intro eff_prio_upd_other) simp_all
  then show ?thesis
    using assms(3,5) by (simp add: inh_ok_but_def)
qed

lemma step_not_pending:
  assumes c: "chain_ok_but Y s t p" and np: "\<not> pending (tasks s t)" and ne: "prio (tasks s t) \<noteq> p"
    and st: "task_pri_change_step s t p = (r, s')"
  shows "r = Inr (NULL, p) \<and> pi_ok_but Y {} s' \<and> pri_frame s s'"
proof -
  note ok = c [unfolded chain_ok_but_def pi_ok_but_def]
  note l = lists_okD [OF conjunct1 [OF conjunct1 [OF ok]]]
  have mx: "mx_ok_but Y (mutexes s) (blks s) (tasks s)" and inh: "inh_ok_but {t} (blks s) (tasks s)"
    and p: "p = eff_prio (blks s) (tasks s) t" and pb: "p < RHINO_IDLE_PRI"
    and ni: "prio (tasks s t) \<noteq> RHINO_IDLE_PRI"
    and ns: "task_state (tasks s t) \<noteq> K_SEED" "task_state (tasks s t) \<noteq> K_DELETED"
    using ok by simp_all
  let ?x = "(tasks s t)\<lparr>prio := p\<rparr>"
  have pm: "p < RHINO_CONFIG_PRI_MAX" using pb by (simp add: RHINO_IDLE_PRI_def)
  have i: "inh_ok (blks s) ((tasks s)(t := ?x))"
    by (rule inh_ok_not_pending [OF l(2) mx inh np p])
  have m: "mx_ok_but Y (mutexes s) (blks s) ((tasks s)(t := ?x))"
    using ok np by (intro mx_ok_same [OF mx]) (simp_all add: pending_def)
  have b: "blk_ok (blks s) ((tasks s)(t := ?x))"
    using np by (intro blk_ok_same [OF l(2)]) (simp_all add: pending_def)
  have k: "tick_ok (g_tick_head s) ((tasks s)(t := ?x))"
    using l(3) by (intro tick_ok_same [OF l(3)]) (auto simp: tick_ok_def task_kinds)
  have q: "prio_ok ((tasks s)(t := ?x))"
    using pb prio_ok_less_idle(2) [OF l(4) ni] by (intro prio_ok_upd [OF l(4) ni]) simp_all
  show ?thesis
  proof (cases "rdy (tasks s t)")
    case True
    then have kr: "task_state (tasks s t) = K_RDY" by (simp add: rdy_def)
    obtain u where u: "u \<noteq> t" "rdy (tasks s u)" using prio_ok_other [OF l(4) ni] .
    note rq = rdy_ok_new_prio [OF l(1) True pm u]
    let ?rq = "ready_list_rm (g_ready_queue s) t (prio (tasks s t))"
    let ?rq' = "if t = g_active_task s then ready_list_add_head ?rq t p
                else ready_list_add_tail ?rq t p"
    have s': "s' = s\<lparr>g_ready_queue := ?rq', tasks := (tasks s)(t := ?x)\<rparr>"
      and r: "r = Inr (NULL, p)"
      using st ne kr by (auto simp: task_pri_change_step_def Let_def)
    have "rdy_ok ?rq' ((tasks s)(t := ?x))" using rq by (cases "t = g_active_task s") simp_all
    with i m b k q show ?thesis
      by (simp add: r s' pi_ok_but_def lists_ok_def pri_frame_def)
  next
    case False
    have "task_state (tasks s t) = K_SLEEP \<or> task_state (tasks s t) = K_SUSPENDED
        \<or> task_state (tasks s t) = K_SLEEP_SUSPENDED"
      using np False ns unfolding task_kinds by (cases "task_state (tasks s t)") simp_all
    then have "task_pri_change_step s t p = (Inr (NULL, p), s\<lparr>tasks := (tasks s)(t := ?x)\<rparr>)"
      using ne by (auto simp: task_pri_change_step_def)
    with st have s': "s' = s\<lparr>tasks := (tasks s)(t := ?x)\<rparr>" and r: "r = Inr (NULL, p)"
      by simp_all
    have "rdy_ok (g_ready_queue s) ((tasks s)(t := ?x))"
      using False by (intro rdy_ok_same [OF l(1)]) (simp_all add: rdy_def)
    with i m b k q show ?thesis
      by (simp add: r s' pi_ok_but_def lists_ok_def pri_frame_def)
  qed
qed

lemma pend_list_reorder_hdr [simp]:
  "blk_policy (blks (pend_list_reorder s t) ob) = blk_policy (blks s ob)"
  "obj_type (blks (pend_list_reorder s t) ob) = obj_type (blks s ob)"
  by (simp_all add: pend_list_reorder_def pend_list_add_def Let_def)

lemma pend_list_reorder_frame:
  "pend_list_reorder s t = s\<lparr>blks := blks (pend_list_reorder s t)\<rparr>"
  by (simp add: pend_list_reorder_def pend_list_add_def Let_def)

lemma reorder_lists_ok:
  assumes ok: "lists_ok s" and p: "pending (tasks s t)" and pb: "p < RHINO_IDLE_PRI"
    and s1: "s1 = pend_list_reorder (set_task t (\<lambda>t. t\<lparr>prio := p\<rparr>) s) t"
  shows "lists_ok s1" and "blk_sim (blks s) (blks s1)"
    and "s1 = s\<lparr>tasks := (tasks s)(t := (tasks s t)\<lparr>prio := p\<rparr>), blks := blks s1\<rparr>"
proof -
  note l = lists_okD [OF ok]
  let ?x = "(tasks s t)\<lparr>prio := p\<rparr>" and ?s = "set_task t (\<lambda>t. t\<lparr>prio := p\<rparr>) s"
  have "s1 = ?s\<lparr>blks := blks s1\<rparr>"
    unfolding s1 by (rule pend_list_reorder_frame)
  then obtain b where "s1 = ?s\<lparr>blks := b\<rparr>" by blast
  then have eq: "s1 = s\<lparr>tasks := (tasks s)(t := ?x), blks := b\<rparr>" and b: "b = blks s1"
    by (simp_all)
  then show e: "s1 = s\<lparr>tasks := (tasks s)(t := (tasks s t)\<lparr>prio := p\<rparr>), blks := blks s1\<rparr>" by simp
  have nr: "\<not> rdy (tasks s t)" using p by (auto simp: task_kinds)
  have ni: "prio (tasks s t) \<noteq> RHINO_IDLE_PRI" by (rule prio_ok_not_rdy [OF l(4) nr])
  have bl: "blk_ok (blks s1) ((tasks s)(t := ?x))"
    unfolding s1
    by (rule blk_ok_pend_list_reorder) (use l(2) p in \<open>simp_all add: pending_def\<close>)
  have "set (blk_list (blks s1 ob)) = set (blk_list (blks s ob))" for ob
    using blk_ok_mem [OF bl, of _ ob] blk_ok_mem [OF l(2), of _ ob]
    by (auto simp: pending_def split: if_splits)
  then show "blk_sim (blks s) (blks s1)" by (simp add: blk_sim_def s1)
  have "rdy_ok (g_ready_queue s) ((tasks s)(t := ?x))"
    using nr by (intro rdy_ok_same [OF l(1)]) (simp_all add: rdy_def)
  moreover have "tick_ok (g_tick_head s) ((tasks s)(t := ?x))"
    using l(3) by (intro tick_ok_same [OF l(3)]) (auto simp: tick_ok_def task_kinds)
  moreover have "prio_ok ((tasks s)(t := ?x))"
    using pb prio_ok_less_idle(2) [OF l(4) ni] by (intro prio_ok_upd [OF l(4) ni]) simp_all
  ultimately show "lists_ok s1" using bl by (simp add: lists_ok_def eq)
qed

lemma step_pending:
  assumes c: "chain_ok s t p" and pd: "pending (tasks s t)" and ne: "prio (tasks s t) \<noteq> p"
    and st: "task_pri_change_step s t p = (r, s')"
  shows "\<exists>own p'. r = Inr (own, p') \<and> pri_frame s s'
           \<and> (if own = NULL then pi_ok s' else chain_ok s' own p')"
proof -
  note ok = c [unfolded chain_ok_but_def pi_ok_but_def]
  have mx: "mx_ok (mutexes s) (blks s) (tasks s)" and inh: "inh_ok_but {t} (blks s) (tasks s)"
    and p: "p = eff_prio (blks s) (tasks s) t" and pb: "p < RHINO_IDLE_PRI" and ls: "lists_ok s"
    using ok by simp_all
  note l = lists_okD [OF ls]
  let ?x = "(tasks s t)\<lparr>prio := p\<rparr>" and ?ob = "blk_obj (tasks s t)"
  define T where "T = (tasks s)(t := ?x)"
  define s1 where "s1 = pend_list_reorder (set_task t (\<lambda>t. t\<lparr>prio := p\<rparr>) s) t"
  note re = reorder_lists_ok [OF ls pd pb s1_def]
  obtain B where s1: "s1 = s\<lparr>tasks := T, blks := B\<rparr>" and sim: "blk_sim (blks s) B"
    using re(2,3) unfolding T_def by blast
  have mx1: "mx_ok (mutexes s) (blks s) T"
    unfolding T_def using mx ok pd
    by (intro mx_ok_same [OF mx]) (auto simp: mx_ok_but_def pending_def)
  have m1: "mx_ok (mutexes s) B T" by (rule mx_ok_sim [OF mx1 sim])
  have e1: "eff_prio B T u = eff_prio (blks s) T u" for u
    by (rule eff_prio_cong) (simp_all add: waiters_sim [OF sim])
  have other: "eff_prio (blks s) T u = eff_prio (blks s) (tasks s) u"
    if "t \<notin> waiters (blks s) (tasks s) u" for u
    unfolding T_def using that by (intro eff_prio_upd_other) simp_all
  have self: "t \<notin> waiters (blks s) (tasks s) t"
    using waiter_owner(4) [OF l(2) mx] by blast
  have st1: "task_state (T u) = task_state (tasks s u)" for u by (simp add: T_def)
  have fr: "pri_frame s s1" using sim by (simp add: pri_frame_def s1 T_def)
  have bl: "blk_ok B T" using lists_okD(2) [OF re(1)] by (simp add: s1)
  show ?thesis
  proof (cases "obj_type (blks s ?ob) = RHINO_MUTEX_OBJ_TYPE")
    case False
    then have "t \<notin> waiters (blks s) (tasks s) u" for u
      using waiter_owner(2) [OF l(2) mx] by blast
    then have ee: "eff_prio B T u = eff_prio (blks s) (tasks s) u" for u
      by (simp add: e1 other)
    have "inh_ok B T"
      unfolding inh_ok_but_def ee st1 using inh_okD [OF inh] p by (auto simp: T_def)
    with re(1) m1 have "pi_ok s1" by (simp add: pi_ok_but_def s1)
    moreover have "r = Inr (NULL, p) \<and> s' = s1"
      using st ne pd False
      by (auto simp: task_pri_change_step_def pending_def Let_def s1_def)
    ultimately show ?thesis using fr by simp
  next
    case True
    let ?o = "mutex_task (mutexes s ?ob)"
    note ow = owner_of_waiter [OF l(2) mx pd True]
    have ot: "?o \<noteq> t" using ow(2) self by metis
    have oo: "?o \<noteq> NULL" "task_state (tasks s ?o) \<noteq> K_SEED" "b_prio (tasks s ?o) \<noteq> RHINO_IDLE_PRI"
      using mx ow(1) unfolding mx_ok_but_def by blast+
    have od: "task_state (tasks s ?o) \<noteq> K_DELETED"
      using ow(1) by (auto simp: held_def)
    have oi: "prio (tasks s ?o) \<noteq> RHINO_IDLE_PRI"
      using oo(3) l(4) by (auto simp: prio_ok_def)
    have po: "prio (tasks s ?o) = eff_prio (blks s) (tasks s) ?o"
      using inh_okD [OF inh] ot od by simp
    have To: "T ?o = tasks s ?o" "prio (T t) = p" using ot by (simp_all add: T_def)
    have inh1: "inh_ok_but {?o} B T"
      unfolding inh_ok_but_def
    proof (intro allI impI)
      fix u
      assume u: "u \<notin> {?o} \<and> task_state (T u) \<noteq> K_DELETED"
      then have "t \<notin> waiters (blks s) (tasks s) u"
        using waiter_owner(3) [OF l(2) mx] by blast
      then show "prio (T u) = eff_prio B T u"
        using inh_okD [OF inh, of u] u p by (cases "u = t") (simp_all add: e1 other st1 To(2), simp add: T_def)
    qed
    have look: "mutex_pri_look s1 ?o NULL = (eff_prio B T ?o, s1)"
      using mutex_pri_look_NULL [of s1 _ ?o] bl m1 od by (simp add: s1 st1)
    have E: "eff_prio B T ?o < RHINO_IDLE_PRI"
      using eff_prio_le(1) [of B T ?o] prio_ok_less_idle(2) [OF l(4) oi] To(1) by simp
    have chain: "chain_ok s1 ?o (eff_prio B T ?o)"
      unfolding chain_ok_but_def pi_ok_but_def
      using re(1) m1 inh1 E oi oo(2) od by (simp add: s1 st1 To(1))
    have pi: "pi_ok s1" if "prio (tasks s ?o) = eff_prio B T ?o"
    proof -
      have "inh_ok B T"
        unfolding inh_ok_but_def using inh_okD [OF inh1] that To(1) by (metis empty_iff singletonD)
      with re(1) m1 show ?thesis by (simp add: pi_ok_but_def s1)
    qed
    have step: "task_pri_change_step s t p =
        (if prio (T ?o) > p then (Inr (?o, p), s1)
         else if prio (T ?o) = prio (tasks s t) then
           if eff_prio B T ?o \<noteq> prio (T ?o) then (Inr (?o, eff_prio B T ?o), s1)
           else (Inr (NULL, eff_prio B T ?o), s1)
         else (Inr (NULL, p), s1))"
    proof -
      have f: "tasks s1 = T" "mutexes s1 = mutexes s" "blk_obj (T t) = ?ob"
        "obj_type (blks s1 ?ob) = RHINO_MUTEX_OBJ_TYPE"
        using True sim by (simp_all add: s1 T_def blk_sim_def)
      show ?thesis
        using pd ne To(2) unfolding pending_def
        by (elim disjE)
          (simp_all add: task_pri_change_step_def s1_def [symmetric] f look True Let_def)
    qed
    show ?thesis
    proof (cases "prio (T ?o) > p")
      case True
      with ow(2) ot po To have "eff_prio B T ?o = p"
        unfolding e1 unfolding T_def by (subst eff_prio_raise) simp_all
      with chain True step st fr oo(1) show ?thesis by simp
    next
      case False
      note up = this
      show ?thesis
      proof (cases "prio (T ?o) = prio (tasks s t)")
        case True
        with up step st fr oo(1) chain pi To(1) show ?thesis
          by (cases "eff_prio B T ?o = prio (T ?o)") auto
      next
        case False
        with up ow(2) ot po To have "eff_prio B T ?o = eff_prio (blks s) (tasks s) ?o"
          unfolding e1 unfolding T_def by (intro eff_prio_keep) simp_all
        with False up step st fr pi po show ?thesis by simp
      qed
    qed
  qed
qed

lemma chain_done:
  assumes "chain_ok_but Y s t p" and "prio (tasks s t) = p"
  shows "pi_ok_but Y {} s"
  using assms unfolding chain_ok_but_def pi_ok_but_def inh_ok_but_def
  by (metis empty_iff singletonD)

lemma task_pri_change_loop:
  assumes "chain_ok s t p"
  shows "\<exists>s'. task_pri_change s t p = (RHINO_SUCCESS, s') \<and> pi_ok s' \<and> pri_frame s s'"
  using assms
proof (induction s t p rule: task_pri_change.induct)
  case (1 s t p)
  obtain r s' where st: "task_pri_change_step s t p = (r, s')" by fastforce
  consider "prio (tasks s t) = p" | "prio (tasks s t) \<noteq> p" "\<not> pending (tasks s t)"
    | "prio (tasks s t) \<noteq> p" "pending (tasks s t)" by blast
  then show ?case
  proof cases
    case 1
    with chain_done [OF "1.prems"] show ?thesis
      by (subst task_pri_change.simps) (simp add: task_pri_change_step_def pri_frame_refl)
  next
    case 2
    with step_not_pending [OF "1.prems" 2(2,1) st] st show ?thesis
      by (subst task_pri_change.simps) simp
  next
    case 3
    from step_pending [OF "1.prems" 3(2,1) st] obtain own p' where
      n: "r = Inr (own, p')" "pri_frame s s'" "if own = NULL then pi_ok s' else chain_ok s' own p'"
      by blast
    show ?thesis
    proof (cases "own = NULL")
      case True
      with n st show ?thesis by (subst task_pri_change.simps) simp
    next
      case False
      with "1.IH" [OF st [symmetric] n(1) refl] n(3) obtain s'' where
        "task_pri_change s' own p' = (RHINO_SUCCESS, s'')" "pi_ok s''" "pri_frame s' s''"
        by auto
      with n st False show ?thesis
        by (subst task_pri_change.simps) (auto intro: pri_frame_trans)
    qed
  qed
qed

lemma task_pri_change_not_pending:
  assumes c: "chain_ok_but Y s t p" and np: "\<not> pending (tasks s t)"
  shows "\<exists>s'. task_pri_change s t p = (RHINO_SUCCESS, s') \<and> pi_ok_but Y {} s' \<and> pri_frame s s'"
proof (cases "prio (tasks s t) = p")
  case True
  with chain_done [OF c] show ?thesis
    by (subst task_pri_change.simps) (simp add: task_pri_change_step_def pri_frame_refl)
next
  case False
  obtain r s' where st: "task_pri_change_step s t p = (r, s')" by fastforce
  with step_not_pending [OF c np False st] show ?thesis
    by (subst task_pri_change.simps) simp
qed

lemma mutex_pri_limit_look:
  "mutex_rel \<notin> set ms \<Longrightarrow>
   mutex_pri_limit_loop s ms pri high = fst (mutex_pri_look_loop s mutex_rel ms pri high)"
  by (induction ms arbitrary: pri high) (auto simp: Let_def split_beta)

text \<open>\<^verbatim>\<open>mutex_pri_limit\<close>: the priority the task would have with the new base priority.\<close>

lemma mutex_pri_limit_eq:
  assumes ok: "blk_ok (blks s) (tasks s)" "mx_ok_but Y (mutexes s) (blks s) (tasks s)"
    and live: "task_state (tasks s t) \<noteq> K_DELETED"
  shows "mutex_pri_limit s t p = eff_prio (blks s) ((tasks s)(t := (tasks s t)\<lparr>b_prio := p\<rparr>)) t"
proof -
  let ?ms = "mutex_list (tasks s t)" and ?T = "(tasks s)(t := (tasks s t)\<lparr>b_prio := p\<rparr>)"
  have m: "set ?ms = set (held (tasks s) t)" using live by (simp add: held_def)
  then have n: "NULL \<notin> set ?ms" using mx_ok_held(1) [OF ok(2)] by blast
  have w: "waiters (blks s) ?T t = waiters (blks s) (tasks s) t"
    by (rule fun_cong [OF waiters_upd]) simp_all
  have ww: "waiters (blks s) (tasks s) t = (\<Union>m \<in> set ?ms. set (blk_list (blks s m)))"
    using m by (simp add: waiters_def)
  have "snd (mutex_pri_look_loop s NULL ?ms p p) = removeAll NULL ?ms
    \<and> (k \<le> fst (mutex_pri_look_loop s NULL ?ms p p) \<longleftrightarrow>
        k \<le> p \<and> (\<forall>m \<in> set ?ms - {NULL}. \<forall>w \<in> set (blk_list (blks s m)). k \<le> prio (tasks s w)))" for k
    using blk_ok_sorted [OF ok(1)] mx_ok_held(5) [OF ok(2)] m
    by (intro mutex_pri_look_loop_eq) auto
  then have "k \<le> mutex_pri_limit s t p \<longleftrightarrow> k \<le> eff_prio (blks s) ?T t" for k
    using n by (simp add: mutex_pri_limit_def mutex_pri_limit_look [OF n] le_eff_prio w ww) auto
  then show ?thesis by (rule nat_eq_if_le)
qed

text \<open>
  \<^verbatim>\<open>mutex_release\<close>: the task loses the mutex and gets the priority that is left to it. The
  state without the mutex may be wrong at the task only.
\<close>

lemma mutex_release_ok:
  assumes pri: "\<And>m. m \<in> set (held (tasks s) t) \<Longrightarrow> blk_policy (blks s m) = BLK_POLICY_PRI"
    and s2: "s2 = s\<lparr>tasks := (tasks s)(t := (tasks s t)
               \<lparr>mutex_list := removeAll mutex_rel (mutex_list (tasks s t))\<rparr>)\<rparr>"
    and ok: "pi_ok_but Y {t} s2"
    and t: "task_state (tasks s t) \<noteq> K_DELETED" "task_state (tasks s t) \<noteq> K_SEED"
      "prio (tasks s t) \<noteq> RHINO_IDLE_PRI"
    and Y: "Y = {} \<or> \<not> pending (tasks s t)"
  shows "pi_ok_but Y {} (mutex_release s t mutex_rel) \<and> pri_frame s2 (mutex_release s t mutex_rel)"
proof -
  let ?p = "eff_prio (blks s2) (tasks s2) t"
  let ?x = "(tasks s t)\<lparr>mutex_list := removeAll mutex_rel (mutex_list (tasks s t))\<rparr>"
  have l: "lists_ok s2" using ok by (simp add: pi_ok_but_def)
  have "blk_ok (blks s) (tasks s)"
  proof -
    have "blk_ok (blks s2) ((tasks s2)(t := tasks s t))"
      by (rule blk_ok_same [OF lists_okD(2) [OF l]]) (simp_all add: s2 pending_def)
    then show ?thesis by (simp add: s2)
  qed
  then have look: "mutex_pri_look s t mutex_rel = (?p, s2)"
    using mutex_pri_look_eq [OF _ pri t(1), where mutex_rel = mutex_rel] by (simp add: Let_def s2)
  have "b_prio (tasks s2 t) < RHINO_IDLE_PRI"
    using prio_ok_less_idle(2) [OF lists_okD(4) [OF l], of t] t(3) by (simp add: s2)
  then have "?p < RHINO_IDLE_PRI" using eff_prio_le(1) [of "blks s2" "tasks s2" t] by simp
  then have c: "chain_ok_but Y s2 t ?p"
    using ok t by (simp add: chain_ok_but_def) (simp add: s2)
  have "\<exists>s'. task_pri_change s2 t ?p = (RHINO_SUCCESS, s') \<and> pi_ok_but Y {} s' \<and> pri_frame s2 s'"
    using Y
  proof
    assume "Y = {}"
    with c task_pri_change_loop [of s2 t ?p] show ?thesis by simp
  next
    assume "\<not> pending (tasks s t)"
    then have "\<not> pending (tasks s2 t)" by (simp add: s2 pending_def)
    with task_pri_change_not_pending [OF c] show ?thesis by simp
  qed
  then show ?thesis
    using chain_done [OF c] by (auto simp: mutex_release_def look pri_frame_refl)
qed

section \<open>Waiting tasks come and go\<close>

lemma mx_ok_rm: "mx_ok_but Y M B T \<Longrightarrow> mx_ok_but Y M (blk_list_rm t B) T"
  by (auto simp: mx_ok_but_def)

lemma waiters_rm:
  "u \<noteq> t \<Longrightarrow> waiters (blk_list_rm t B) (T(t := x)) u = waiters B T u - {t}"
  by (auto simp: waiters_def held_def)

lemma eff_prio_rm_other:
  assumes "u \<noteq> t" and "t \<notin> waiters B T u"
  shows "eff_prio (blk_list_rm t B) (T(t := x)) u = eff_prio B T u"
  using assms by (intro eff_prio_cong) (auto simp: waiters_rm)

lemma eff_prio_rm_owner:
  assumes "u \<noteq> t" and "t \<in> waiters B T u" and "eff_prio B T u \<noteq> prio (T t)"
  shows "eff_prio (blk_list_rm t B) (T(t := x)) u = eff_prio B T u"
proof -
  let ?e = "eff_prio B T u" and ?e' = "eff_prio (blk_list_rm t B) (T(t := x)) u"
  have *: "k \<le> ?e' \<longleftrightarrow> k \<le> b_prio (T u) \<and> (\<forall>w \<in> waiters B T u - {t}. k \<le> prio (T w))" for k
    using assms(1) by (simp add: le_eff_prio waiters_rm)
  have "?e < prio (T t)" using eff_prio_le(2) [OF assms(2)] assms(3) by simp
  then have "\<not> Suc ?e \<le> ?e'"
    using * [of "Suc ?e"] eff_prio_split [OF assms(2), of "Suc ?e"] by auto
  moreover have "?e \<le> ?e'" using * [of ?e] eff_prio_split [OF assms(2), of ?e] by simp
  ultimately show ?thesis by simp
qed

lemma eff_prio_rm_self:
  assumes "t \<notin> waiters B T t" and "b_prio x = b_prio (T t)" and "mutex_list x = mutex_list (T t)"
    and "task_state x = K_DELETED \<longleftrightarrow> task_state (T t) = K_DELETED"
  shows "eff_prio (blk_list_rm t B) (T(t := x)) t = eff_prio B T t"
proof -
  have "waiters (blk_list_rm t B) (T(t := x)) t = waiters B T t - {t}"
    using assms(3,4) by (auto simp: waiters_def held_upd)
  with assms show ?thesis by (intro eff_prio_cong) auto
qed

text \<open>
  A task leaves its waiting list: the equation can fail at most at the owner of the mutex it
  waited for, and only if the owner ran at its priority. \<open>Z\<close> exempts a task that is being
  deleted.
\<close>

lemma inh_ok_rm:
  assumes bl: "blk_ok B T" and mx: "mx_ok_but Y M B T" and inh: "inh_ok_but Z B T"
    and Z: "Z \<subseteq> {t}" and pd: "pending (T t)"
    and x: "prio x = prio (T t)" "b_prio x = b_prio (T t)" "mutex_list x = mutex_list (T t)"
      "task_state x = K_DELETED \<or> t \<notin> Z"
  defines "own \<equiv> mutex_task (M (blk_obj (T t)))"
  shows "inh_ok_but {own} (blk_list_rm t B) (T(t := x))"
    and "(\<And>u. t \<in> waiters B T u \<Longrightarrow> prio (T u) \<noteq> prio (T t)) \<Longrightarrow>
         inh_ok (blk_list_rm t B) (T(t := x))"
proof -
  have nd: "task_state (T t) \<noteq> K_DELETED" using pd by (auto simp: pending_def)
  have self: "t \<notin> waiters B T t" using waiter_owner(4) [OF bl mx] by blast
  have t: "prio x = eff_prio (blk_list_rm t B) (T(t := x)) t" if "task_state x \<noteq> K_DELETED"
  proof -
    have "t \<notin> Z" using that x(4) by simp
    with inh nd have "prio (T t) = eff_prio B T t" by (auto intro: inh_okD)
    with that nd show ?thesis using eff_prio_rm_self [OF self x(2,3)] x(1) by simp
  qed
  have other: "prio (T u) = eff_prio (blk_list_rm t B) (T(t := x)) u"
    if "u \<noteq> t" "task_state (T u) \<noteq> K_DELETED"
      "t \<in> waiters B T u \<Longrightarrow> prio (T u) \<noteq> prio (T t)" for u
  proof -
    have "prio (T u) = eff_prio B T u" using inh that(1,2) Z by (auto intro: inh_okD)
    with that show ?thesis
      using eff_prio_rm_other [of u t B T x] eff_prio_rm_owner [of u t B T x] by metis
  qed
  show "inh_ok_but {own} (blk_list_rm t B) (T(t := x))"
    unfolding inh_ok_but_def own_def
    using t other waiter_owner(3) [OF bl mx] by auto
  assume "\<And>u. t \<in> waiters B T u \<Longrightarrow> prio (T u) \<noteq> prio (T t)"
  then show "inh_ok (blk_list_rm t B) (T(t := x))"
    unfolding inh_ok_but_def using t other by auto
qed

text \<open>\<^verbatim>\<open>mutex_task_pri_reset\<close> on such a state repairs the owner.\<close>

lemma mutex_task_pri_reset_ok:
  assumes ls: "lists_ok s" and mx: "mx_ok (mutexes s) (blks s) (tasks s)"
    and m: "obj_type (blks s ob) = RHINO_MUTEX_OBJ_TYPE \<Longrightarrow>
        ob \<in> set (held (tasks s) (mutex_task (mutexes s ob)))
        \<and> inh_ok_but {mutex_task (mutexes s ob)} (blks s) (tasks s)"
    and n: "obj_type (blks s ob) \<noteq> RHINO_MUTEX_OBJ_TYPE
        \<or> prio (tasks s (mutex_task (mutexes s ob))) \<noteq> prio (tasks s t) \<Longrightarrow>
        inh_ok (blks s) (tasks s)"
    and ob: "ob = blk_obj (tasks s t)"
  shows "pi_ok (mutex_task_pri_reset s t) \<and> pri_frame s (mutex_task_pri_reset s t)"
proof (cases "obj_type (blks s ob) \<noteq> RHINO_MUTEX_OBJ_TYPE
        \<or> prio (tasks s (mutex_task (mutexes s ob))) \<noteq> prio (tasks s t)")
  case True
  with n ls mx show ?thesis
    by (auto simp: mutex_task_pri_reset_def pi_ok_but_def pri_frame_refl Let_def ob)
next
  case False
  let ?o = "mutex_task (mutexes s ob)"
  have h: "ob \<in> set (held (tasks s) ?o)" and inh: "inh_ok_but {?o} (blks s) (tasks s)"
    using False m by simp_all
  note mo = mx_ok_held [OF mx h]
  have "NULL \<notin> set (held (tasks s) ?o)" using mx_ok_held(1) [OF mx] by blast
  then have "removeAll NULL (mutex_list (tasks s ?o)) = mutex_list (tasks s ?o)"
    using mo(8) by (simp add: held_def)
  then have s2: "s = s\<lparr>tasks := (tasks s)(?o := (tasks s ?o)
               \<lparr>mutex_list := removeAll NULL (mutex_list (tasks s ?o))\<rparr>)\<rparr>"
    by simp
  have "prio (tasks s ?o) \<noteq> RHINO_IDLE_PRI"
    using mo(6) lists_okD(4) [OF ls] by (auto simp: prio_ok_def)
  with mutex_release_ok [OF mx_ok_held(5) [OF mx] s2, where Y = "{}"] ls mx inh mo
  have "pi_ok (mutex_release s ?o NULL) \<and> pri_frame s (mutex_release s ?o NULL)"
    by (simp add: pi_ok_but_def)
  with False show ?thesis
    by (simp add: mutex_task_pri_reset_def ob)
qed

section \<open>Waking and blocking under the whole invariant\<close>

lemma wake_task_simps [simp]:
  "tasks (wake_task b s t) = (tasks s)(t := woken b (tasks s t))"
  "blks (wake_task b s t) = blk_list_rm t (blks s)"
  "mutexes (wake_task b s t) = mutexes s" "g_active_task (wake_task b s t) = g_active_task s"
  "g_sched_lock (wake_task b s t) = g_sched_lock s" "sems (wake_task b s t) = sems s"
  "g_intrpt_nested_level (wake_task b s t) = g_intrpt_nested_level s"
  "queues (wake_task b s t) = queues s" "bufqs (wake_task b s t) = bufqs s"
  "events (wake_task b s t) = events s" "umem (wake_task b s t) = umem s"
  "bmem (wake_task b s t) = bmem s" "g_tick_count (wake_task b s t) = g_tick_count s"
  "g_sys_stat (wake_task b s t) = g_sys_stat s" "g_kobj_list (wake_task b s t) = g_kobj_list s"
  by (simp_all add: wake_task_def)

lemma woken_not_deleted [simp]: "task_state (woken b x) \<noteq> K_DELETED" "task_state (woken b x) \<noteq> K_SEED"
  by simp_all

lemma mx_ok_wake:
  assumes "mx_ok_but Y M B T" and "pending (T t)"
  shows "mx_ok_but Y M (blk_list_rm t B) (T(t := woken b (T t)))"
proof -
  have "task_state (T t) \<noteq> K_DELETED" using assms(2) by (auto simp: pending_def)
  then show ?thesis
    by (intro mx_ok_same mx_ok_rm assms(1)) (simp_all split: if_splits)
qed

text \<open>Waking a task that waits for something nobody owns.\<close>

lemma wake_pi_ok:
  assumes ok: "pi_ok_but Y {} s" and pd: "pending (tasks s t)"
    and free: "\<And>u. t \<notin> waiters (blks s) (tasks s) u"
  shows "pi_ok_but Y {} (wake_task b s t)"
proof -
  have ls: "lists_ok s" and mx: "mx_ok_but Y (mutexes s) (blks s) (tasks s)"
    and inh: "inh_ok (blks s) (tasks s)"
    using ok by (simp_all add: pi_ok_but_def)
  have "inh_ok (blk_list_rm t (blks s)) ((tasks s)(t := woken b (tasks s t)))"
    by (rule inh_ok_rm(2) [OF lists_okD(2) [OF ls] mx inh _ pd]) (use free in simp_all)
  with lists_ok_wake_task [OF ls pd] mx_ok_wake [OF mx pd] show ?thesis
    by (simp add: pi_ok_but_def)
qed

lemma not_mutex_not_waiter:
  assumes "pi_ok_but Y X s" and "obj_type (blks s (blk_obj (tasks s t))) \<noteq> RHINO_MUTEX_OBJ_TYPE"
  shows "t \<notin> waiters (blks s) (tasks s) u"
  using assms waiter_owner(2) unfolding pi_ok_but_def by (metis lists_okD(2))

lemma wake_pi_ok_not_mutex:
  assumes "pi_ok s" and "pending (tasks s t)"
    and "obj_type (blks s (blk_obj (tasks s t))) \<noteq> RHINO_MUTEX_OBJ_TYPE"
  shows "pi_ok (wake_task b s t)"
  using wake_pi_ok [OF assms(1,2)] not_mutex_not_waiter [OF assms(1,3)] by blast

text \<open>The first task of the waiting list of an object.\<close>

lemma first_waiter:
  assumes "blk_ok B T" and "blk_list (B ob) \<noteq> []"
  shows "first (blk_list (B ob)) \<in> set (blk_list (B ob))"
    and "pending (T (first (blk_list (B ob))))" and "blk_obj (T (first (blk_list (B ob)))) = ob"
proof -
  show "first (blk_list (B ob)) \<in> set (blk_list (B ob))"
    using assms(2) by (rule first_in_set)
  then show "pending (T (first (blk_list (B ob))))" "blk_obj (T (first (blk_list (B ob)))) = ob"
    using assms(1) by (simp_all add: blk_ok_mem)
qed

section \<open>Handing a mutex over\<close>

text \<open>The mutex \<open>m\<close>, owned by nobody, goes to the task \<open>w\<close>, which does not wait any more.\<close>

lemma take_mutex_ok:
  assumes ok: "pi_ok_but (insert m Y) {} s" and ty: "obj_type (blks s m) = RHINO_MUTEX_OBJ_TYPE"
    and free: "\<And>t. m \<notin> set (held (tasks s) t)" and m: "m \<noteq> NULL"
    and w: "\<not> pending (tasks s w)" "w \<noteq> NULL" "task_state (tasks s w) \<noteq> K_SEED"
      "task_state (tasks s w) \<noteq> K_DELETED" "prio (tasks s w) \<noteq> RHINO_IDLE_PRI"
    and best: "\<And>v. v \<in> set (blk_list (blks s m)) \<Longrightarrow> prio (tasks s w) \<le> prio (tasks s v)"
    and M: "mutex_task (M m) = w" "\<And>k. k \<noteq> m \<Longrightarrow> mutex_task (M k) = mutex_task (mutexes s k)"
  shows "pi_ok_but (Y - {m}) {} (set_task w (mutex_list_update (\<lambda>ms. m # ms)) (s\<lparr>mutexes := M\<rparr>))"
proof -
  let ?T = "(tasks s)(w := mutex_list_update (\<lambda>ms. m # ms) (tasks s w))"
  have ls: "lists_ok s" and mx: "mx_ok_but (insert m Y) (mutexes s) (blks s) (tasks s)"
    and inh: "inh_ok (blks s) (tasks s)"
    using ok by (simp_all add: pi_ok_but_def)
  note l = lists_okD [OF ls]
  have hd: "held ?T u = (if u = w then m # held (tasks s) w else held (tasks s) u)" for u
    using w(4) by (simp add: held_def)
  have tk: "tick_ok (g_tick_head s) ?T"
    using l(3) by (intro tick_ok_same [OF l(3)]) (auto simp: tick_ok_def task_kinds)
  have "rdy_ok (g_ready_queue s) ?T" by (rule rdy_ok_same [OF l(1)]) (simp_all add: rdy_def)
  moreover have "blk_ok (blks s) ?T" by (rule blk_ok_same [OF l(2)]) (simp_all add: pending_def)
  moreover have "prio_ok ?T" using w(5) by (intro prio_ok_same [OF l(4)]) simp_all
  ultimately have L: "lists_ok (set_task w (mutex_list_update (\<lambda>ms. m # ms)) (s\<lparr>mutexes := M\<rparr>))"
    using tk by (simp add: lists_ok_def)
  have b: "b_prio (tasks s w) \<noteq> RHINO_IDLE_PRI" using w(5) l(4) by (auto simp: prio_ok_def)
  have mh: "k \<noteq> m" if "k \<in> set (held (tasks s) u)" for k u using that free by blast
  have X: "mx_ok_but (Y - {m}) M (blks s) ?T"
    unfolding mx_ok_but_def
  proof (intro conjI allI impI)
    fix u
    show "distinct (held ?T u)" using mx free by (simp add: hd mx_ok_but_def)
  next
    fix k
    assume "obj_type (blks s k) = RHINO_MUTEX_OBJ_TYPE"
    then show "blk_policy (blks s k) = BLK_POLICY_PRI" using mx by (simp add: mx_ok_but_def)
  next
    fix k
    assume k: "obj_type (blks s k) = RHINO_MUTEX_OBJ_TYPE \<and> k \<notin> Y - {m}
        \<and> (blk_list (blks s k) \<noteq> [] \<or> mutex_task (M k) \<noteq> NULL)"
    show "k \<in> set (held ?T (mutex_task (M k)))"
    proof (cases "k = m")
      case False
      with k M have "k \<in> set (held (tasks s) (mutex_task (mutexes s k)))"
        by (intro mx_ok_owned [OF mx]) auto
      with M(2) [OF False] show ?thesis by (auto simp: hd)
    qed (simp add: hd M)
  next
    fix u k
    assume "k \<in> set (held ?T u)"
    then consider "k = m" "u = w" | "k \<in> set (held (tasks s) u)"
      by (auto simp: hd split: if_splits)
    then have "k \<noteq> NULL \<and> u \<noteq> NULL \<and> task_state (?T u) \<noteq> K_SEED \<and> b_prio (?T u) \<noteq> RHINO_IDLE_PRI
      \<and> mutex_task (M k) = u \<and> obj_type (blks s k) = RHINO_MUTEX_OBJ_TYPE
      \<and> (pending (?T u) \<longrightarrow> blk_obj (?T u) \<noteq> k)"
    proof cases
      case 1
      with w m b ty M show ?thesis by (simp add: pending_def)
    next
      case 2
      have "u \<noteq> w \<Longrightarrow> ?T u = tasks s u" by simp
      with mx_ok_held [OF mx 2] mh [OF 2] M w show ?thesis
        by (cases "u = w") (simp_all add: pending_def)
    qed
    then show "k \<noteq> NULL" "u \<noteq> NULL" "task_state (?T u) \<noteq> K_SEED" "b_prio (?T u) \<noteq> RHINO_IDLE_PRI"
      "mutex_task (M k) = u" "obj_type (blks s k) = RHINO_MUTEX_OBJ_TYPE"
      "pending (?T u) \<Longrightarrow> blk_obj (?T u) \<noteq> k"
      by simp_all
  qed
  have I: "inh_ok (blks s) ?T"
    unfolding inh_ok_but_def
  proof (intro allI impI)
    fix u
    assume "u \<notin> {} \<and> task_state (?T u) \<noteq> K_DELETED"
    then have u: "task_state (tasks s u) \<noteq> K_DELETED" by (simp split: if_splits)
    have p: "prio (?T v) = prio (tasks s v)" "b_prio (?T v) = b_prio (tasks s v)" for v by simp_all
    have e: "prio (tasks s u) = eff_prio (blks s) (tasks s) u" using inh u by (simp add: inh_ok_but_def)
    show "prio (?T u) = eff_prio (blks s) ?T u"
    proof (cases "u = w")
      case False
      then have "waiters (blks s) ?T u = waiters (blks s) (tasks s) u" by (simp add: waiters_def hd)
      then show ?thesis using e p by (simp add: eff_prio_def)
    next
      case True
      have ww: "waiters (blks s) ?T w = set (blk_list (blks s m)) \<union> waiters (blks s) (tasks s) w"
        by (simp add: waiters_def hd)
      have "k \<le> prio (tasks s w) \<longleftrightarrow> k \<le> eff_prio (blks s) ?T w" for k
        using e True le_eff_prio [of k "blks s" "tasks s" w] best order_trans
        unfolding le_eff_prio [of k "blks s" ?T w] ww p by auto
      then show ?thesis using nat_eq_if_le p True by metis
    qed
  qed
  from L X I show ?thesis by (simp add: pi_ok_but_def)
qed

section \<open>Blocking\<close>

lemma mx_ok_weaken: "mx_ok_but Y M B T \<Longrightarrow> Y \<subseteq> Y' \<Longrightarrow> mx_ok_but Y' M B T"
  unfolding mx_ok_but_def by blast

lemma mx_ok_M: "(\<And>k. mutex_task (M' k) = mutex_task (M k)) \<Longrightarrow> mx_ok_but Y M' B T = mx_ok_but Y M B T"
  by (simp add: mx_ok_but_def)

lemma mx_ok_enqueue:
  assumes "mx_ok_but Y M B T"
    and "obj_type (B ob) = RHINO_MUTEX_OBJ_TYPE \<Longrightarrow> ob \<in> set (held T (mutex_task (M ob)))"
    and "blk_policy b = blk_policy (B ob)" "obj_type b = obj_type (B ob)"
  shows "mx_ok_but Y M (B(ob := b)) T"
  using assms unfolding mx_ok_but_def by auto

lemma mx_ok_block:
  assumes mx: "mx_ok_but Y M B T" and r: "rdy (T a)"
    and ob: "obj_type (B ob) = RHINO_MUTEX_OBJ_TYPE \<Longrightarrow> ob \<in> set (held T (mutex_task (M ob)))"
    and n: "ob \<notin> set (held T a)"
    and b: "blk_policy b = blk_policy (B ob)" "obj_type b = obj_type (B ob)"
  shows "mx_ok_but Y M (B(ob := b)) (T(a := blocked ob now d (T a)))"
proof -
  have s: "mx_ok_but Y M B (T(a := blocked ob now d (T a)))"
    using r n by (intro mx_ok_same [OF mx]) (simp_all add: rdy_def)
  have "held (T(a := blocked ob now d (T a))) = held T"
    using r by (intro held_upd) (simp_all add: rdy_def)
  with ob b show ?thesis by (intro mx_ok_enqueue [OF s]) simp_all
qed

lemma waiters_block:
  assumes "rdy (T a)"
  shows "waiters (B(ob := enqueue_blk s a (B ob))) (T(a := blocked ob now d (T a))) u
      = waiters B T u \<union> (if ob \<in> set (held T u) then {a} else {})"
proof -
  have "held (T(a := blocked ob now d (T a))) = held T"
    using assms by (intro held_upd) (simp_all add: rdy_def)
  then show ?thesis by (auto simp: waiters_def split: if_splits)
qed

lemma eff_prio_block:
  assumes "rdy (T a)"
  shows "k \<le> eff_prio (B(ob := enqueue_blk s a (B ob))) (T(a := blocked ob now d (T a))) u
    \<longleftrightarrow> k \<le> eff_prio B T u \<and> (ob \<in> set (held T u) \<longrightarrow> k \<le> prio (T a))"
  using assms by (auto simp: le_eff_prio waiters_block)

text \<open>Blocking on something that is not a mutex leaves the equation alone.\<close>

lemma block_pi_ok:
  assumes ok: "pi_ok s" and r: "rdy (tasks s a)" and ni: "prio (tasks s a) \<noteq> RHINO_IDLE_PRI"
    and ob: "obj_type (blks s ob) \<noteq> RHINO_MUTEX_OBJ_TYPE"
  shows "pi_ok (pend_to_blk_obj s ob a d)"
proof -
  have ls: "lists_ok s" and mx: "mx_ok (mutexes s) (blks s) (tasks s)"
    and inh: "inh_ok (blks s) (tasks s)"
    using ok by (simp_all add: pi_ok_but_def)
  have nh: "ob \<notin> set (held (tasks s) u)" for u using mx_ok_held(4) [OF mx] ob by blast
  let ?B = "(blks s)(ob := enqueue_blk s a (blks s ob))"
  let ?T = "(tasks s)(a := blocked ob (g_tick_count s) d (tasks s a))"
  have e: "eff_prio ?B ?T u = eff_prio (blks s) (tasks s) u" for u
    by (rule nat_eq_if_le) (simp add: eff_prio_block [where T = "tasks s", OF r] nh)
  have p: "prio (?T u) = prio (tasks s u)" and st: "task_state (?T u) = K_DELETED \<longleftrightarrow> task_state (tasks s u) = K_DELETED" for u
    using r by (simp_all add: rdy_def)
  have "inh_ok ?B ?T" using inh by (simp add: inh_ok_but_def e p st del: fun_upd_apply)
  moreover have "mx_ok (mutexes s) ?B ?T"
    using ob by (intro mx_ok_block [OF mx r]) (simp_all add: nh)
  ultimately show ?thesis
    using lists_ok_block [OF ls r ni, of ob d] by (simp add: pi_ok_but_def pend_to_blk_obj_eq)
qed

text \<open>Blocking on a mutex, once the owner has been given the better of the two priorities.\<close>

lemma block_mutex_ok:
  assumes ls: "lists_ok s" and mx: "mx_ok (mutexes s) (blks s) (tasks s)"
    and inh: "inh_ok_but {own} (blks s) (tasks s)"
    and r: "rdy (tasks s a)" and ni: "prio (tasks s a) \<noteq> RHINO_IDLE_PRI"
    and m: "m \<in> set (held (tasks s) own)" "a \<noteq> own"
    and p: "prio (tasks s own) = min (eff_prio (blks s) (tasks s) own) (prio (tasks s a))"
  shows "pi_ok (pend_to_blk_obj s m a d)"
proof -
  note mh = mx_ok_held [OF mx m(1)]
  let ?B = "(blks s)(m := enqueue_blk s a (blks s m))"
  let ?T = "(tasks s)(a := blocked m (g_tick_count s) d (tasks s a))"
  have other: "m \<notin> set (held (tasks s) u)" if "u \<noteq> own" for u
    using mx_ok_held(3) [OF mx, of m u] mh(3) that by auto
  have "eff_prio ?B ?T u = (if u = own then min (eff_prio (blks s) (tasks s) u) (prio (tasks s a))
      else eff_prio (blks s) (tasks s) u)" for u
    using m(1) other by (intro nat_eq_if_le) (simp add: eff_prio_block [where T = "tasks s", OF r])
  note e = this
  have pp: "prio (?T u) = prio (tasks s u)" and st: "task_state (?T u) = K_DELETED \<longleftrightarrow> task_state (tasks s u) = K_DELETED" for u
    using r by (simp_all add: rdy_def)
  have "inh_ok ?B ?T"
    using inh p by (simp add: inh_ok_but_def e pp st del: fun_upd_apply)
  moreover have "mx_ok (mutexes s) ?B ?T"
    using other [OF m(2)] mh(3) m(1) by (intro mx_ok_block [OF mx r]) simp_all
  ultimately show ?thesis
    using lists_ok_block [OF ls r ni, of m d] by (simp add: pi_ok_but_def pend_to_blk_obj_eq)
qed

section \<open>Emptying a waiting list\<close>

text \<open>What the list operations of the kernel may change.\<close>

definition list_frame :: "kstate \<Rightarrow> kstate \<Rightarrow> bool" where
  "list_frame s s' \<longleftrightarrow>
     (\<exists>rq B L T. s' = s\<lparr>g_ready_queue := rq, blks := B, g_tick_head := L, tasks := T\<rparr>)"

lemma list_frame_refl [simp]: "list_frame s s"
proof -
  have "s = s\<lparr>g_ready_queue := g_ready_queue s, blks := blks s, g_tick_head := g_tick_head s,
      tasks := tasks s\<rparr>" by simp
  then show ?thesis unfolding list_frame_def by blast
qed

lemma list_frame_trans:
  assumes "list_frame r s" and "list_frame s t"
  shows "list_frame r t"
proof -
  obtain rq B L T where t: "t = s\<lparr>g_ready_queue := rq, blks := B, g_tick_head := L, tasks := T\<rparr>"
    using assms(2) unfolding list_frame_def by blast
  obtain rq' B' L' T' where
    s: "s = r\<lparr>g_ready_queue := rq', blks := B', g_tick_head := L', tasks := T'\<rparr>"
    using assms(1) unfolding list_frame_def by blast
  have "t = r\<lparr>g_ready_queue := rq, blks := B, g_tick_head := L, tasks := T\<rparr>"
    unfolding t s by simp
  then show ?thesis unfolding list_frame_def by blast
qed

lemma list_frame_wake: "list_frame s (wake_task b s t)"
  unfolding list_frame_def wake_task_def by (intro exI) (rule refl)

lemma list_frame_block: "list_frame s (pend_to_blk_obj s ob t d)"
  unfolding list_frame_def pend_to_blk_obj_eq by (intro exI) (rule refl)

lemma list_frame_pri:
  assumes "pri_frame s s'"
  shows "list_frame s s'"
proof -
  obtain a b c where "s' = s\<lparr>g_ready_queue := a, tasks := b, blks := c\<rparr>"
    using assms unfolding pri_frame_def by blast
  then have "s' = s\<lparr>g_ready_queue := a, blks := c, g_tick_head := g_tick_head s, tasks := b\<rparr>"
    by simp
  then show ?thesis unfolding list_frame_def by blast
qed

lemma list_frameD:
  assumes "list_frame s s'"
  shows "mutexes s' = mutexes s" "sems s' = sems s" "queues s' = queues s" "bufqs s' = bufqs s"
    "events s' = events s" "umem s' = umem s" "bmem s' = bmem s" "g_active_task s' = g_active_task s"
    "g_sched_lock s' = g_sched_lock s" "g_intrpt_nested_level s' = g_intrpt_nested_level s"
    "g_sys_stat s' = g_sys_stat s" "g_tick_count s' = g_tick_count s" "g_kobj_list s' = g_kobj_list s"
    "k_errs s' = k_errs s" "g_idle_task_spawned s' = g_idle_task_spawned s"
    "g_preferred_ready_task s' = g_preferred_ready_task s"
  using assms by (auto simp: list_frame_def)

lemma pend_rm_loop_ok:
  assumes "pi_ok s" and "obj_type (blks s ob) \<noteq> RHINO_MUTEX_OBJ_TYPE"
    and "length (blk_list (blks s ob)) = n"
  shows "pi_ok (pend_rm_loop n s ob) \<and> list_frame s (pend_rm_loop n s ob)
    \<and> (\<forall>t. tasks (pend_rm_loop n s ob) t
         = (if t \<in> set (blk_list (blks s ob)) then woken BLK_DEL (tasks s t) else tasks s t))
    \<and> (\<forall>o'. blks (pend_rm_loop n s ob) o'
         = (if o' = ob then (blks s ob)\<lparr>blk_list := []\<rparr> else blks s o'))"
  using assms
proof (induction n arbitrary: s)
  case 0
  then show ?case by simp
next
  case (Suc n)
  have bl: "blk_ok (blks s) (tasks s)" using Suc.prems(1) by (auto simp: pi_ok_but_def lists_ok_def)
  from Suc.prems(3) obtain t ts where l: "blk_list (blks s ob) = t # ts"
    by (cases "blk_list (blks s ob)") auto
  have pd: "pending (tasks s t)" and tob: "blk_obj (tasks s t) = ob"
    using first_waiter [OF bl, of ob] l by simp_all
  have d: "t \<notin> set ts" using blk_ok_distinct [OF bl, of ob] l by simp
  let ?s = "wake_task BLK_DEL s t"
  have eq: "pend_rm_loop (Suc n) s ob = pend_rm_loop n ?s ob"
    using l by (simp add: pend_task_rm_eq [OF pd])
  have ob: "blk_list (blks ?s ob) = ts" using l d by simp
  have oth: "blks ?s o' = blks s o'" if "o' \<noteq> ob" for o'
  proof -
    have "t \<notin> set (blk_list (blks s o'))" using tob that blk_ok_mem [OF bl] by auto
    then show ?thesis by (simp add: removeAll_id)
  qed
  have "pi_ok ?s" using wake_pi_ok_not_mutex [OF Suc.prems(1) pd] Suc.prems(2) tob by simp
  then have IH: "pi_ok (pend_rm_loop n ?s ob)" "list_frame ?s (pend_rm_loop n ?s ob)"
    "\<And>u. tasks (pend_rm_loop n ?s ob) u
         = (if u \<in> set ts then woken BLK_DEL (tasks ?s u) else tasks ?s u)"
    "\<And>o'. blks (pend_rm_loop n ?s ob) o'
         = (if o' = ob then (blks ?s ob)\<lparr>blk_list := []\<rparr> else blks ?s o')"
    using Suc.IH [of ?s] Suc.prems(2,3) l ob d by (simp_all del: fun_upd_apply)
  show ?case
  proof (intro conjI allI)
    show "pi_ok (pend_rm_loop (Suc n) s ob)" using IH(1) eq by simp
    show "list_frame s (pend_rm_loop (Suc n) s ob)"
      using list_frame_trans [OF list_frame_wake IH(2)] eq by simp
    show "tasks (pend_rm_loop (Suc n) s ob) u
         = (if u \<in> set (blk_list (blks s ob)) then woken BLK_DEL (tasks s u) else tasks s u)" for u
      unfolding eq IH(3) using d by (simp add: l)
    show "blks (pend_rm_loop (Suc n) s ob) o'
         = (if o' = ob then (blks s ob)\<lparr>blk_list := []\<rparr> else blks s o')" for o'
      unfolding eq IH(4) using oth by simp
  qed
qed

lemmas pend_rm_all_ok = pend_rm_loop_ok [OF _ _ refl, folded pend_rm_all_def]

section \<open>The kernel invariant\<close>

definition kern_ok :: "kstate \<Rightarrow> bool" where
  "kern_ok s \<longleftrightarrow> pi_ok s \<and> act_ok s"

lemma pi_ok_core_sched [simp]: "pi_ok_but Y X (core_sched s) = pi_ok_but Y X s"
  by (simp add: pi_ok_but_def)

lemma kern_ok_core_sched:
  assumes "pi_ok s"
    and "g_intrpt_nested_level s > 0 \<or> g_sched_lock s > 0 \<Longrightarrow> act_safe s"
  shows "kern_ok (core_sched s)"
proof -
  have "lists_ok s" using assms(1) by (simp add: pi_ok_but_def)
  with assms act_ok_core_sched [of s] show ?thesis by (simp add: kern_ok_def)
qed

lemma kern_okD:
  assumes "kern_ok s"
  shows "pi_ok s" "act_ok s" "lists_ok s" "mx_ok (mutexes s) (blks s) (tasks s)"
    "inh_ok (blks s) (tasks s)" "g_active_task s \<noteq> NULL" "act_safe s"
proof -
  show "pi_ok s" and a: "act_ok s" using assms by (simp_all add: kern_ok_def)
  then show "lists_ok s" and "mx_ok (mutexes s) (blks s) (tasks s)" "inh_ok (blks s) (tasks s)"
    by (simp_all add: pi_ok_but_def)
  show "g_active_task s \<noteq> NULL" "act_safe s" using a by (simp_all add: act_ok_def act_safe_def)
qed

text \<open>In task context the running task is ready.\<close>

lemma kern_ok_caller: "kern_ok s \<Longrightarrow> g_intrpt_nested_level s = 0 \<Longrightarrow> rdy (tasks s (g_active_task s))"
  using kern_okD(7) [of s] by (simp add: act_safe_def)

text \<open>The end of an operation that gives the CPU away: the lists have changed, rescheduling follows.\<close>

lemma kern_ok_resched:
  assumes ok: "kern_ok s" and pi: "pi_ok s'" and fr: "list_frame s s'"
    and r: "rdy (tasks s (g_active_task s)) \<Longrightarrow>
      g_intrpt_nested_level s > 0 \<or> g_sched_lock s > 0 \<Longrightarrow> rdy (tasks s' (g_active_task s))"
  shows "kern_ok (core_sched s')"
  using pi
proof (rule kern_ok_core_sched)
  note f = list_frameD [OF fr]
  assume "g_intrpt_nested_level s' > 0 \<or> g_sched_lock s' > 0"
  with r kern_okD(7) [OF ok] show "act_safe s'" by (auto simp: act_safe_def f)
qed

text \<open>The invariant through the branches of an operation.\<close>

lemma kern_ok_if:
  "(c \<Longrightarrow> kern_ok (snd a)) \<Longrightarrow> (\<not> c \<Longrightarrow> kern_ok (snd b)) \<Longrightarrow> kern_ok (snd (if c then a else b))"
  by simp

text \<open>States that differ in the semaphores, queues and other data only.\<close>

lemma lists_ok_cong:
  "g_ready_queue s' = g_ready_queue s \<Longrightarrow> tasks s' = tasks s \<Longrightarrow> blks s' = blks s \<Longrightarrow>
   g_tick_head s' = g_tick_head s \<Longrightarrow> lists_ok s' = lists_ok s"
  by (simp add: lists_ok_def)

lemma pi_ok_cong:
  "g_ready_queue s' = g_ready_queue s \<Longrightarrow> tasks s' = tasks s \<Longrightarrow> blks s' = blks s \<Longrightarrow>
   g_tick_head s' = g_tick_head s \<Longrightarrow> mutexes s' = mutexes s \<Longrightarrow> pi_ok_but Y X s' = pi_ok_but Y X s"
  by (simp add: pi_ok_but_def lists_ok_def)

lemma kern_ok_cong:
  "g_ready_queue s' = g_ready_queue s \<Longrightarrow> tasks s' = tasks s \<Longrightarrow> blks s' = blks s \<Longrightarrow>
   g_tick_head s' = g_tick_head s \<Longrightarrow> mutexes s' = mutexes s \<Longrightarrow>
   g_active_task s' = g_active_task s \<Longrightarrow> g_sched_lock s' = g_sched_lock s \<Longrightarrow>
   g_intrpt_nested_level s' = g_intrpt_nested_level s \<Longrightarrow> kern_ok s' = kern_ok s"
  using pi_ok_cong [of s' s] by (simp add: kern_ok_def act_ok_def act_safe_def)

end
