(* ===== verification/Example_State.thy ===== *)
theory Example_State
  imports PrioInherit
begin

text \<open>
  A concrete kernel state that satisfies the kernel invariant, on which the properties of the
  operations are instantiated. Task 1 is the idle task; task 2 runs and holds the mutex 101, for
  which task 4 waits with a timeout; task 3 is ready and holds the mutex 100; task 5 waits for
  the semaphore 200; task 6 sleeps; task 7 is suspended; tasks 8 and 9 wait for flags of the event
  500, one for any of two and to clear them, the other for all of two; task 10 waits for the queue
  300 and task 11 for the buffer queue 400. The semaphore 201 has units left, and nobody waits for
  the queue 301 and the buffer queue 401.
\<close>

definition ex_tcb :: ktask_t where
  "ex_tcb = zero_task\<lparr>task_mm_alloc_flag := K_OBJ_STATIC_ALLOC\<rparr>"

definition ex_tasks :: "ptr \<Rightarrow> ktask_t" where
  "ex_tasks = (\<lambda>_. zero_task)
     (1 := ex_tcb\<lparr>task_state := K_RDY, prio := 61, b_prio := 61\<rparr>,
      2 := ex_tcb\<lparr>task_state := K_RDY, prio := 10, b_prio := 10, mutex_list := [101]\<rparr>,
      3 := ex_tcb\<lparr>task_state := K_RDY, prio := 20, b_prio := 20, mutex_list := [100]\<rparr>,
      4 := ex_tcb\<lparr>task_state := K_PEND, prio := 30, b_prio := 30, blk_obj := 101,
             tick_head := True, tick_match := 150, tick_remain := 50\<rparr>,
      5 := ex_tcb\<lparr>task_state := K_PEND, prio := 40, b_prio := 40, blk_obj := 200\<rparr>,
      6 := ex_tcb\<lparr>task_state := K_SLEEP, prio := 25, b_prio := 25, tick_head := True,
             tick_match := 101, tick_remain := 30\<rparr>,
      7 := ex_tcb\<lparr>task_state := K_SUSPENDED, prio := 26, b_prio := 26, suspend_count := 1\<rparr>,
      8 := ex_tcb\<lparr>task_state := K_PEND, prio := 45, b_prio := 45, blk_obj := 500,
             pend_option := 1, pend_flags := 5, pend_info := 900\<rparr>,
      9 := ex_tcb\<lparr>task_state := K_PEND, prio := 46, b_prio := 46, blk_obj := 500,
             pend_option := 2, pend_flags := 6, pend_info := 904\<rparr>,
      10 := ex_tcb\<lparr>task_state := K_PEND, prio := 47, b_prio := 47, blk_obj := 300\<rparr>,
      11 := ex_tcb\<lparr>task_state := K_PEND, prio := 48, b_prio := 48, blk_obj := 400\<rparr>)"

definition ex_obj :: "kobj_type_t \<Rightarrow> ptr list \<Rightarrow> blk_obj_t" where
  "ex_obj ty l = \<lparr>blk_list = l, blk_policy = BLK_POLICY_PRI, obj_type = ty\<rparr>"

definition ex_blks :: "ptr \<Rightarrow> blk_obj_t" where
  "ex_blks = (\<lambda>_. ex_obj RHINO_OBJ_TYPE_NONE [])
     (100 := ex_obj RHINO_MUTEX_OBJ_TYPE [],
      101 := ex_obj RHINO_MUTEX_OBJ_TYPE [4],
      102 := ex_obj RHINO_MUTEX_OBJ_TYPE [],
      200 := ex_obj RHINO_SEM_OBJ_TYPE [5],
      201 := ex_obj RHINO_SEM_OBJ_TYPE [],
      300 := ex_obj RHINO_QUEUE_OBJ_TYPE [10],
      301 := ex_obj RHINO_QUEUE_OBJ_TYPE [],
      400 := ex_obj RHINO_BUF_QUEUE_OBJ_TYPE [11],
      401 := ex_obj RHINO_BUF_QUEUE_OBJ_TYPE [],
      500 := ex_obj RHINO_EVENT_OBJ_TYPE [8, 9])"

definition ex_mutexes :: "ptr \<Rightarrow> kmutex_t" where
  "ex_mutexes = (\<lambda>_. \<lparr>mutex_task = NULL, owner_nested = 0, mutex_mm_alloc_flag = K_OBJ_STATIC_ALLOC\<rparr>)
     (100 := \<lparr>mutex_task = 3, owner_nested = 1, mutex_mm_alloc_flag = K_OBJ_STATIC_ALLOC\<rparr>,
      101 := \<lparr>mutex_task = 2, owner_nested = 1, mutex_mm_alloc_flag = K_OBJ_STATIC_ALLOC\<rparr>)"

definition ex_rq :: runqueue_t where
  "ex_rq = \<lparr>cur_list_item = (\<lambda>_. [])(10 := [2], 20 := [3], 61 := [1]),
     task_bit_map = krhino_bitmap_set (krhino_bitmap_set (krhino_bitmap_set [0, 0] 61) 20) 10,
     highest_pri = 10, rq_ub = False\<rparr>"

definition ex_rb :: k_ringbuf_t where
  "ex_rb = ringbuf_init (replicate 16 0) RINGBUF_TYPE_FIX 4"

definition ex_state :: kstate where
  "ex_state = \<lparr>g_sys_stat = RHINO_RUNNING, g_idle_task_spawned = True, g_ready_queue = ex_rq,
     g_sched_lock = 0, g_intrpt_nested_level = 0, g_preferred_ready_task = 2, g_active_task = 2,
     g_tick_count = 100, g_tick_head = [6, 4],
     g_kobj_list = \<lparr>kobj_task_head = [1, 2, 3, 4, 5, 6, 7, 8, 9, 10, 11], kobj_mutex_head = [100, 101, 102], kobj_mblkpool_head = [],
       kobj_sem_head = [200, 201], kobj_queue_head = [300, 301], kobj_event_head = [500],
       kobj_buf_queue_head = [400, 401]\<rparr>,
     tasks = ex_tasks, blks = ex_blks,
     sems = (\<lambda>_. \<lparr>count = 0, peak_count = 0, sem_mm_alloc_flag = K_OBJ_STATIC_ALLOC\<rparr>)
       (201 := \<lparr>count = 3, peak_count = 3, sem_mm_alloc_flag = K_OBJ_STATIC_ALLOC\<rparr>),
     mutexes = ex_mutexes,
     queues = (\<lambda>_. \<lparr>q_ringbuf = ex_rb, q_start = 1000, q_size = 4, q_cur_num = 0, q_peak_num = 0,
       queue_mm_alloc_flag = K_OBJ_STATIC_ALLOC\<rparr>),
     bufqs = (\<lambda>_. \<lparr>bq_ringbuf = ex_rb, max_msg_size = 4, bq_cur_num = 0, bq_peak_num = 0,
       min_free_buf_size = 16, buf_queue_mm_alloc_flag = K_OBJ_STATIC_ALLOC\<rparr>),
     events = (\<lambda>_. \<lparr>flags = 0, event_mm_alloc_flag = K_OBJ_STATIC_ALLOC\<rparr>),
     mblk_pools = (\<lambda>_. \<lparr>pool_end = 0, pool_start = NULL, pool_blk_size = 0, blk_avail = 0, blk_whole = 0,
       avail_list = NULL\<rparr>),
     g_timer_head = [], g_timer_count = 0,
     timers = (\<lambda>_. \<lparr>to_head = False, timer_cb = NULL, timer_cb_arg = NULL, timer_match = 0, timer_remain = 0,
       init_count = 0, round_ticks = 0, timer_obj_type = RHINO_OBJ_TYPE_NONE, timer_state = TIMER_DEACTIVE,
       timer_mm_alloc_flag = K_OBJ_NO_ALLOC\<rparr>),
     mm_heads = (\<lambda>_. \<lparr>regioninfo = NULL, fix_pool = NULL, used_size = 0, maxused_size = 0, free_size = 0,
       alloc_times = (\<lambda>_. 0), free_bitmap = 0, freelist = (\<lambda>_. NULL)\<rparr>), g_kmm_head = NULL,
     umem = (\<lambda>_. 0), bmem = (\<lambda>_. []), k_errs = []\<rparr>"

lemmas ex_defs = ex_state_def ex_tasks_def ex_blks_def ex_obj_def ex_mutexes_def ex_tcb_def zero_task_def

lemma ex_rq_wf: "rq_wf ex_rq"
proof -
  have z: "\<not> bm_test [0, 0] p" for p by (simp add: bm_test_Cons)
  have bm: "bm_test (task_bit_map ex_rq) p \<longleftrightarrow> p = 10 \<or> p = 20 \<or> p = 61" for p
    by (simp add: ex_rq_def bm_test_set z)
  have l: "cur_list_item ex_rq p = (if p = 10 then [2] else if p = 20 then [3]
      else if p = 61 then [1] else [])" for p
    by (simp add: ex_rq_def)
  have f: "length (task_bit_map ex_rq) = 2" "highest_pri ex_rq = 10" by (simp_all add: ex_rq_def)
  show ?thesis
    unfolding rq_wf_def bm l f RHINO_CONFIG_PRI_MAX_def by simp
qed

lemma ex_rdy_ok: "rdy_ok ex_rq ex_tasks"
  unfolding rdy_ok_def
  by (intro conjI ex_rq_wf) (auto simp: ex_rq_def ex_tasks_def ex_tcb_def zero_task_def rdy_def)

lemma ex_blk_ok: "blk_ok ex_blks ex_tasks"
  by (auto simp: blk_ok_def ex_blks_def ex_obj_def ex_tasks_def ex_tcb_def zero_task_def pending_def)

lemma ex_tick_ok: "tick_ok [6, 4] ex_tasks"
  by (auto simp: tick_ok_def ex_tasks_def ex_tcb_def zero_task_def task_kinds)

lemma ex_prio_ok: "prio_ok ex_tasks"
proof -
  have "\<exists>t. prio (ex_tasks t) = RHINO_IDLE_PRI"
    by (rule exI [of _ 1]) (simp add: ex_tasks_def RHINO_IDLE_PRI_def RHINO_CONFIG_PRI_MAX_def)
  then show ?thesis
    unfolding prio_ok_def
    by (intro conjI; (assumption)?)
      (auto simp: ex_tasks_def ex_tcb_def zero_task_def rdy_def RHINO_IDLE_PRI_def RHINO_CONFIG_PRI_MAX_def)
qed

lemma ex_held: "held ex_tasks = (\<lambda>_. [])(2 := [101], 3 := [100])"
  by (auto simp: held_def ex_tasks_def ex_tcb_def zero_task_def)

lemma ex_mx_ok: "mx_ok ex_mutexes ex_blks ex_tasks"
  unfolding mx_ok_but_def ex_held
  by (auto simp: ex_mutexes_def ex_blks_def ex_obj_def ex_tasks_def ex_tcb_def zero_task_def pending_def
      RHINO_IDLE_PRI_def RHINO_CONFIG_PRI_MAX_def)

lemma ex_inh_ok: "inh_ok ex_blks ex_tasks"
proof -
  have "waiters ex_blks ex_tasks t = (if t = 2 then {4} else {})" for t
    by (simp add: waiters_def ex_held) (simp add: ex_blks_def ex_obj_def)
  then show ?thesis
    unfolding inh_ok_but_def eff_prio_def
    by (simp add: ex_tasks_def ex_tcb_def zero_task_def)
qed

lemma ex_kern_ok: "kern_ok ex_state"
proof -
  have "lists_ok ex_state"
    using ex_rdy_ok ex_blk_ok ex_tick_ok ex_prio_ok by (simp add: lists_ok_def ex_state_def)
  moreover have "act_ok ex_state"
    by (simp add: act_ok_def act_safe_def ex_state_def ex_rq_def rdy_def ex_tasks_def ex_tcb_def zero_task_def)
  ultimately show ?thesis
    using ex_mx_ok ex_inh_ok by (simp add: kern_ok_def pi_ok_but_def) (simp add: ex_state_def)
qed

text \<open>What the instances need to know about the state.\<close>

lemma ex_active [simp]: "g_active_task ex_state = 2" "g_sched_lock ex_state = 0"
  "g_intrpt_nested_level ex_state = 0" "g_sys_stat ex_state = RHINO_RUNNING"
  "g_tick_count ex_state = 100"
  by (simp_all add: ex_state_def)

lemma ex_proj:
  "tasks ex_state = ex_tasks" "blks ex_state = ex_blks" "mutexes ex_state = ex_mutexes"
  "g_tick_head ex_state = [6, 4]" "g_ready_queue ex_state = ex_rq"
  by (simp_all add: ex_state_def)

lemmas ex_eval = ex_proj ex_tasks_def ex_blks_def ex_obj_def ex_mutexes_def ex_tcb_def
  zero_task_def RHINO_IDLE_PRI_def RHINO_CONFIG_PRI_MAX_def

lemma ex_caller: "prio (tasks ex_state (g_active_task ex_state)) \<noteq> RHINO_IDLE_PRI"
  by (simp add: ex_state_def ex_tasks_def RHINO_IDLE_PRI_def RHINO_CONFIG_PRI_MAX_def)

lemma WAIT_FOREVER_not_NO_WAIT [simp]: "RHINO_WAIT_FOREVER \<noteq> RHINO_NO_WAIT"
  by (simp add: RHINO_WAIT_FOREVER_def)

end
