(* ===== verification/Mutex.thy ===== *)
theory Mutex
  imports Example_State
begin

text \<open>
  \<^verbatim>\<open>kernel/rhino/core/k_mutex.c\<close>: creation, deletion, locking and unlocking of mutexes.
  Priority inheritance itself is in theory \<open>PrioInherit\<close>.

  \<^verbatim>\<open>krhino_mutex_lock\<close> is split where the caller may lose the CPU: \<open>None\<close> says that it blocked and
  was switched out, and \<open>krhino_mutex_lock_resume\<close> is what it does when it runs again.
\<close>

definition mutex_create :: "kstate \<Rightarrow> ptr \<Rightarrow> ptr \<Rightarrow> alloc_flag_t \<Rightarrow> kstat \<times> kstate" where
  "mutex_create s mutex name mm_alloc_flag =
     (if mutex = NULL then (RHINO_NULL_PTR, s)
      else if name = NULL then (RHINO_NULL_PTR, s)
      else
        let s = set_blk mutex (\<lambda>b. b\<lparr>blk_list := [], blk_policy := BLK_POLICY_PRI\<rparr>) s;
            s = set_mutex mutex (\<lambda>m. m\<lparr>mutex_task := NULL, mutex_mm_alloc_flag := mm_alloc_flag\<rparr>) s;
            s = g_kobj_list_update (kobj_mutex_head_update (\<lambda>l. l @ [mutex])) s;
            s = set_blk mutex (\<lambda>b. b\<lparr>obj_type := RHINO_MUTEX_OBJ_TYPE\<rparr>) s
        in (RHINO_SUCCESS, s))"

definition krhino_mutex_create :: "kstate \<Rightarrow> ptr \<Rightarrow> ptr \<Rightarrow> kstat \<times> kstate" where
  "krhino_mutex_create s mutex name = mutex_create s mutex name K_OBJ_STATIC_ALLOC"

definition krhino_mutex_del :: "kstate \<Rightarrow> ptr \<Rightarrow> kstat \<times> kstate" where
  "krhino_mutex_del s mutex =
     (if mutex = NULL then (RHINO_NULL_PTR, s)
      else if g_intrpt_nested_level s > 0 then (RHINO_NOT_CALLED_BY_INTRPT, s)
      else if obj_type (blks s mutex) \<noteq> RHINO_MUTEX_OBJ_TYPE then (RHINO_KOBJ_TYPE_ERR, s)
      else if mutex_mm_alloc_flag (mutexes s mutex) \<noteq> K_OBJ_STATIC_ALLOC
        then (RHINO_KOBJ_DEL_ERR, s)
      else
        let s = set_blk mutex (\<lambda>b. b\<lparr>obj_type := RHINO_OBJ_TYPE_NONE\<rparr>) s;
            s = (if mutex_task (mutexes s mutex) \<noteq> NULL
                 then mutex_release s (mutex_task (mutexes s mutex)) mutex else s);
            s = pend_rm_all s mutex;
            s = g_kobj_list_update (kobj_mutex_head_update (removeAll mutex)) s
        in (RHINO_SUCCESS, core_sched s))"

definition krhino_mutex_lock :: "kstate \<Rightarrow> ptr \<Rightarrow> tick \<Rightarrow> kstat option \<times> kstate" where
  "krhino_mutex_lock s mutex ticks =
     (if mutex = NULL then (Some RHINO_NULL_PTR, s)
      else if g_sys_stat s = RHINO_STOPPED then (Some RHINO_SUCCESS, s)
      else if g_intrpt_nested_level s > 0 then (Some RHINO_NOT_CALLED_BY_INTRPT, s)
      else if obj_type (blks s mutex) \<noteq> RHINO_MUTEX_OBJ_TYPE then (Some RHINO_KOBJ_TYPE_ERR, s)
      else if g_active_task s = mutex_task (mutexes s mutex) then
        (if owner_nested (mutexes s mutex) = - 1
         then (Some RHINO_MUTEX_NESTED_OVF, k_err_proc s RHINO_MUTEX_NESTED_OVF)
         else (Some RHINO_MUTEX_OWNER_NESTED,
               set_mutex mutex (owner_nested_update (\<lambda>n. n + 1)) s))
      else
        let owner = mutex_task (mutexes s mutex)
        in if owner = NULL then
             let s = set_mutex mutex (\<lambda>m. m\<lparr>mutex_task := g_active_task s\<rparr>) s;
                 s = set_task (g_active_task s) (mutex_list_update (\<lambda>ms. mutex # ms)) s;
                 s = set_mutex mutex (\<lambda>m. m\<lparr>owner_nested := 1\<rparr>) s
             in (Some RHINO_SUCCESS, s)
           else if ticks = RHINO_NO_WAIT then (Some RHINO_NO_PEND_WAIT, s)
           else if g_sched_lock s > 0 then (Some RHINO_SCHED_DISABLE, s)
           else
             let s = (if prio (tasks s (g_active_task s)) < prio (tasks s owner)
                      then snd (task_pri_change s owner (prio (tasks s (g_active_task s)))) else s);
                 s = pend_to_blk_obj s mutex (g_active_task s) ticks
             in (None, core_sched s))"

definition krhino_mutex_lock_resume :: "kstate \<Rightarrow> kstat \<times> kstate" where
  "krhino_mutex_lock_resume s = pend_state_end_proc s (g_active_task s)"

definition krhino_mutex_unlock :: "kstate \<Rightarrow> ptr \<Rightarrow> kstat \<times> kstate" where
  "krhino_mutex_unlock s mutex =
     (if mutex = NULL then (RHINO_NULL_PTR, s)
      else if g_sys_stat s = RHINO_STOPPED then (RHINO_SUCCESS, s)
      else if g_intrpt_nested_level s > 0 then (RHINO_NOT_CALLED_BY_INTRPT, s)
      else if obj_type (blks s mutex) \<noteq> RHINO_MUTEX_OBJ_TYPE then (RHINO_KOBJ_TYPE_ERR, s)
      else if g_active_task s \<noteq> mutex_task (mutexes s mutex)
        then (RHINO_MUTEX_NOT_RELEASED_BY_OWNER, s)
      else
        let s = set_mutex mutex (owner_nested_update (\<lambda>n. n - 1)) s
        in if owner_nested (mutexes s mutex) > 0 then (RHINO_MUTEX_OWNER_NESTED, s)
           else
             let s = mutex_release s (g_active_task s) mutex
             in if blk_list (blks s mutex) = []
                then (RHINO_SUCCESS, set_mutex mutex (\<lambda>m. m\<lparr>mutex_task := NULL\<rparr>) s)
                else
                  let task = first (blk_list (blks s mutex));
                      s = pend_task_wakeup s task;
                      s = set_mutex mutex (\<lambda>m. m\<lparr>mutex_task := task\<rparr>) s;
                      s = set_task task (mutex_list_update (\<lambda>ms. mutex # ms)) s;
                      s = set_mutex mutex (\<lambda>m. m\<lparr>owner_nested := 1\<rparr>) s
                  in (RHINO_SUCCESS, core_sched s))"

section \<open>Raising the owner before blocking\<close>

text \<open>
  The caller raises the owner first and enters the waiting list afterwards, so that during the
  raise the equation fails at the owner. A raise never reads base priorities: lowering the
  owner's base priority to the new priority makes the equation hold without changing what the
  loop does.
\<close>

definition set_b_prio :: "ptr \<Rightarrow> nat \<Rightarrow> kstate \<Rightarrow> kstate" where
  "set_b_prio u b = set_task u (\<lambda>t. t\<lparr>b_prio := b\<rparr>)"

lemma set_b_prio_simps [simp]:
  "prio (tasks (set_b_prio u b s) t) = prio (tasks s t)"
  "task_state (tasks (set_b_prio u b s) t) = task_state (tasks s t)"
  "blk_obj (tasks (set_b_prio u b s) t) = blk_obj (tasks s t)"
  "mutex_list (tasks (set_b_prio u b s) t) = mutex_list (tasks s t)"
  "blks (set_b_prio u b s) = blks s" "mutexes (set_b_prio u b s) = mutexes s"
  "g_active_task (set_b_prio u b s) = g_active_task s"
  "blks_update f (set_b_prio u b s) = set_b_prio u b (blks_update f s)"
  "g_ready_queue_update g (set_b_prio u b s) = set_b_prio u b (g_ready_queue_update g s)"
  by (simp_all add: set_b_prio_def)

lemma set_b_prio_comm [simp]:
  "set_task t (\<lambda>t. t\<lparr>prio := p\<rparr>) (set_b_prio u b s) = set_b_prio u b (set_task t (\<lambda>t. t\<lparr>prio := p\<rparr>) s)"
  unfolding set_b_prio_def by (rule kstate.equality) (simp_all add: fun_eq_iff)

lemma set_b_prio_err [simp]: "k_err_proc (set_b_prio u b s) e = set_b_prio u b (k_err_proc s e)"
  by (simp add: set_b_prio_def k_err_proc_def)

lemma set_b_prio_reorder [simp]:
  "pend_list_reorder (set_b_prio u b s) t = set_b_prio u b (pend_list_reorder s t)"
  by (simp add: pend_list_reorder_def pend_list_add_def Let_def)

lemma raise_step_b_prio:
  assumes "p < prio (tasks s t)"
  shows "task_pri_change_step (set_b_prio u b s) t p
     = apsnd (set_b_prio u b) (task_pri_change_step s t p)"
  using assms by (cases "task_state (tasks s t)") (auto simp: task_pri_change_step_def Let_def)

lemma raise_b_prio:
  assumes "p < prio (tasks s t)"
  shows "task_pri_change (set_b_prio u b s) t p = apsnd (set_b_prio u b) (task_pri_change s t p)"
  using assms
proof (induction s t p rule: task_pri_change.induct)
  case (1 s t p)
  note step = raise_step_b_prio [OF "1.prems", of u b]
  obtain r s' where st: "task_pri_change_step s t p = (r, s')" by fastforce
  show ?case
  proof (cases r)
    case (Inl e)
    with st step show ?thesis
      by (subst (1 2) task_pri_change.simps) simp
  next
    case (Inr n)
    obtain own p' where n: "n = (own, p')" by fastforce
    show ?thesis
    proof (cases "own = NULL")
      case True
      with Inr n st step show ?thesis by (subst (1 2) task_pri_change.simps) simp
    next
      case False
      note nx = task_pri_change_step_next [OF st [unfolded Inr n] False]
      have "p' < prio (tasks s' own)"
        using nx "1.prems" by (cases "p < prio (tasks s' own)") simp_all
      with "1.IH" [OF st [symmetric] Inr n [symmetric]] False
      have "task_pri_change (set_b_prio u b s') own p'
          = apsnd (set_b_prio u b) (task_pri_change s' own p')" by simp
      with Inr n st step False show ?thesis
        by (subst (1 2) task_pri_change.simps) simp
    qed
  qed
qed

text \<open>A raise changes the tasks that are worse than the new priority, and nobody else.\<close>

lemma task_pri_change_step_prio:
  assumes "task_pri_change_step s t p = (r, s')"
  shows "prio (tasks s' u) = (if u = t then prio (tasks s' t) else prio (tasks s u))"
    and "prio (tasks s' t) = p \<or> prio (tasks s' t) = prio (tasks s t)"
  using assms
  by (cases "task_state (tasks s t)",
      simp_all add: task_pri_change_step_def mutex_pri_look_def k_err_proc_def Let_def split_beta,
      auto split: if_splits)+

lemma raise_only_worse:
  assumes "p < prio (tasks s t)" and "prio (tasks s u) \<le> p"
  shows "prio (tasks (snd (task_pri_change s t p)) u) = prio (tasks s u)"
  using assms
proof (induction s t p rule: task_pri_change.induct)
  case (1 s t p)
  obtain r s' where st: "task_pri_change_step s t p = (r, s')" by fastforce
  have "u \<noteq> t" using "1.prems" by auto
  then have u: "prio (tasks s' u) = prio (tasks s u)"
    using task_pri_change_step_prio(1) [OF st, of u] by simp
  show ?case
  proof (cases r)
    case (Inl e)
    with st u show ?thesis by (subst task_pri_change.simps) simp
  next
    case (Inr n)
    obtain own p' where n: "n = (own, p')" by fastforce
    show ?thesis
    proof (cases "own = NULL")
      case True
      with Inr n st u show ?thesis by (subst task_pri_change.simps) simp
    next
      case False
      note nx = task_pri_change_step_next [OF st [unfolded Inr n] False]
      have "p' < prio (tasks s' own) \<and> p' = p"
        using nx "1.prems" by (cases "p < prio (tasks s' own)") simp_all
      with "1.IH" [OF st [symmetric] Inr n [symmetric] False] u "1.prems"
      have "prio (tasks (snd (task_pri_change s' own p')) u) = prio (tasks s u)" by simp
      with Inr n st False show ?thesis by (subst task_pri_change.simps) simp
    qed
  qed
qed

lemma set_b_prio_ok:
  assumes ls: "lists_ok s" and u: "prio (tasks s u) \<noteq> RHINO_IDLE_PRI" "task_state (tasks s u) \<noteq> K_SEED"
    and b: "b < RHINO_IDLE_PRI"
  shows "lists_ok (set_b_prio u b s)"
    and "mx_ok (mutexes s) (blks s) (tasks s) \<Longrightarrow> mx_ok (mutexes s) (blks s) (tasks (set_b_prio u b s))"
    and "inh_ok_but {u} (blks s) (tasks s) \<Longrightarrow> inh_ok_but {u} (blks s) (tasks (set_b_prio u b s))"
    and "k \<le> eff_prio (blks s) (tasks (set_b_prio u b s)) u
      \<longleftrightarrow> k \<le> b \<and> (\<forall>w \<in> waiters (blks s) (tasks s) u. k \<le> prio (tasks s w))"
proof -
  note l = lists_okD [OF ls]
  let ?x = "(tasks s u)\<lparr>b_prio := b\<rparr>"
  have T: "tasks (set_b_prio u b s) = (tasks s)(u := ?x)"
    and r: "g_ready_queue (set_b_prio u b s) = g_ready_queue s"
      "g_tick_head (set_b_prio u b s) = g_tick_head s"
    by (simp_all add: set_b_prio_def)
  have "rdy_ok (g_ready_queue s) ((tasks s)(u := ?x))"
    by (rule rdy_ok_same [OF l(1)]) (simp_all add: rdy_def)
  moreover have "blk_ok (blks s) ((tasks s)(u := ?x))"
    by (rule blk_ok_same [OF l(2)]) (simp_all add: pending_def)
  moreover have "tick_ok (g_tick_head s) ((tasks s)(u := ?x))"
    using l(3) by (intro tick_ok_same [OF l(3)]) (auto simp: tick_ok_def task_kinds)
  moreover have "prio_ok ((tasks s)(u := ?x))"
    using u b prio_ok_less_idle(1) [OF l(4) u(1)] by (intro prio_ok_upd [OF l(4)]) simp_all
  ultimately show "lists_ok (set_b_prio u b s)" by (simp add: lists_ok_def T r)
  show "mx_ok (mutexes s) (blks s) (tasks (set_b_prio u b s))"
    if mx: "mx_ok (mutexes s) (blks s) (tasks s)"
    unfolding T using b u mx_ok_held(9) [OF mx]
    by (intro mx_ok_same [OF mx]) (auto simp: pending_def)
  have w: "waiters (blks s) (tasks (set_b_prio u b s)) = waiters (blks s) (tasks s)"
    unfolding T by (rule waiters_upd) simp_all
  then show "k \<le> eff_prio (blks s) (tasks (set_b_prio u b s)) u
      \<longleftrightarrow> k \<le> b \<and> (\<forall>w \<in> waiters (blks s) (tasks s) u. k \<le> prio (tasks s w))"
    unfolding le_eff_prio w set_b_prio_simps by (simp add: T)
  have e: "eff_prio (blks s) (tasks (set_b_prio u b s)) v = eff_prio (blks s) (tasks s) v" if "v \<noteq> u" for v
    by (rule eff_prio_cong) (use that in \<open>simp_all add: w, simp add: T\<close>)
  show "inh_ok_but {u} (blks s) (tasks (set_b_prio u b s))" if "inh_ok_but {u} (blks s) (tasks s)"
    using that unfolding inh_ok_but_def set_b_prio_simps by (auto simp: e)
qed

text \<open>The state before the caller enters the waiting list.\<close>

lemma raise_owner_ok:
  assumes ok: "pi_ok s" and m: "m \<in> set (held (tasks s) own)"
    and p: "p < prio (tasks s own)" and s': "s' = snd (task_pri_change s own p)"
  shows "lists_ok s'" "mx_ok (mutexes s') (blks s') (tasks s')" "inh_ok_but {own} (blks s') (tasks s')"
    "prio (tasks s' own) = min (eff_prio (blks s') (tasks s') own) p" "pri_frame s s'"
proof -
  let ?g = "set_b_prio own p s" and ?b = "b_prio (tasks s own)"
  have ls: "lists_ok s" and mx: "mx_ok (mutexes s) (blks s) (tasks s)"
    and inh: "inh_ok (blks s) (tasks s)"
    using ok by (simp_all add: pi_ok_but_def)
  note mh = mx_ok_held [OF mx m] and l = lists_okD [OF ls]
  have oi: "prio (tasks s own) \<noteq> RHINO_IDLE_PRI" using mh(6) l(4) by (auto simp: prio_ok_def)
  note li = prio_ok_less_idle [OF l(4) oi]
  have pb: "p < RHINO_IDLE_PRI" using p li(1) by simp
  note g = set_b_prio_ok [OF ls oi mh(7) pb]
  have eo: "prio (tasks s own) = eff_prio (blks s) (tasks s) own"
    using inh mh(8) by (simp add: inh_ok_but_def)
  have inh1: "inh_ok_but {own} (blks s) (tasks s)" using inh by (simp add: inh_ok_but_def)
  have W: "p < prio (tasks s w)" if "w \<in> waiters (blks s) (tasks s) own" for w
    using eff_prio_le(2) [OF that] p eo by simp
  have "p = eff_prio (blks s) (tasks ?g) own"
    by (rule nat_eq_if_le) (unfold g(4), use W in fastforce)
  then have "chain_ok ?g own p"
    using g(1) g(2) [OF mx] g(3) [OF inh1] oi pb mh(7,8)
    by (simp add: chain_ok_but_def pi_ok_but_def)
  from task_pri_change_loop [OF this] obtain g' where
    c: "task_pri_change ?g own p = (RHINO_SUCCESS, g')" and g': "pi_ok g'" and fr: "pri_frame ?g g'"
    by blast
  have gs: "g' = set_b_prio own p s'"
    using raise_b_prio [OF p, of own p] c s' by (cases "task_pri_change s own p") simp
  have "set_b_prio own ?b s = s" by (simp add: set_b_prio_def)
  then have sb: "s' = set_b_prio own ?b s'"
    using raise_b_prio [OF p, of own ?b] s' by (cases "task_pri_change s own p") simp
  have sg: "s' = set_b_prio own ?b g'"
    unfolding gs by (subst sb) (simp add: set_b_prio_def comp_def)
  show fr': "pri_frame s s'"
  proof -
    obtain a c d where g1: "g' = ?g\<lparr>g_ready_queue := a, tasks := c, blks := d\<rparr>"
      and c: "\<And>u. c u = (tasks ?g u)\<lparr>prio := prio (c u)\<rparr>" and d: "blk_sim (blks ?g) d"
      using fr unfolding pri_frame_def by (metis kstate.select_convs kstate.simps)
    show ?thesis
    proof (rule pri_frameI)
      show "s' = s\<lparr>g_ready_queue := a, tasks := c(own := (c own)\<lparr>b_prio := ?b\<rparr>), blks := d\<rparr>"
        unfolding sg g1 by (simp add: set_b_prio_def)
      show "(c(own := (c own)\<lparr>b_prio := ?b\<rparr>)) u
          = (tasks s u)\<lparr>prio := prio ((c(own := (c own)\<lparr>b_prio := ?b\<rparr>)) u)\<rparr>" for u
      proof (cases "u = own")
        case True
        have "c own = (tasks s own)\<lparr>b_prio := p, prio := prio (c own)\<rparr>"
          using c [of own] by (simp add: set_b_prio_def)
        then obtain q where "c own = (tasks s own)\<lparr>b_prio := p, prio := q\<rparr>" by blast
        then show ?thesis by (simp add: True)
      qed (use c [of u] in \<open>simp add: set_b_prio_def\<close>)
    qed (use d in simp)
  qed
  have ls': "lists_ok g'" and mx': "mx_ok (mutexes g') (blks g') (tasks g')"
    and inh': "inh_ok (blks g') (tasks g')"
    using g' by (simp_all add: pi_ok_but_def)
  have og: "prio (tasks g' own) \<noteq> RHINO_IDLE_PRI" "task_state (tasks g' own) \<noteq> K_SEED"
    "task_state (tasks g' own) \<noteq> K_DELETED"
  proof -
    have "b_prio (tasks g' own) = p" using pri_frameD(2) [OF fr] by (simp add: set_b_prio_def)
    then show "prio (tasks g' own) \<noteq> RHINO_IDLE_PRI"
      using lists_okD(4) [OF ls'] pb by (auto simp: prio_ok_def)
  qed (use pri_frameD(1) [OF fr] mh in simp_all)
  note h = set_b_prio_ok [OF ls' og(1,2) li(2), folded sg]
  have B: "blks s' = blks g'" "mutexes s' = mutexes g'" by (simp_all add: sg)
  show "lists_ok s'" by (rule h(1))
  show "mx_ok (mutexes s') (blks s') (tasks s')" using h(2) [OF mx'] by (simp only: B)
  show "inh_ok_but {own} (blks s') (tasks s')"
    using h(3) inh' by (simp add: B inh_ok_but_def)
  show "prio (tasks s' own) = min (eff_prio (blks s') (tasks s') own) p"
  proof (rule nat_eq_if_le)
    fix k
    have "prio (tasks s' own) = eff_prio (blks g') (tasks g') own"
      using inh' og(3) unfolding sg set_b_prio_simps by (simp add: inh_ok_but_def)
    moreover have "b_prio (tasks g' own) = p" using pri_frameD(2) [OF fr] by (simp add: set_b_prio_def)
    moreover have "p \<le> ?b" using p eo eff_prio_le(1) [of "blks s" "tasks s" own] by simp
    ultimately show "k \<le> prio (tasks s' own) \<longleftrightarrow> k \<le> min (eff_prio (blks s') (tasks s') own) p"
      using h(4) [of k] le_eff_prio [of k "blks g'" "tasks g'" own] by (auto simp: B)
  qed
qed

section \<open>Taking a mutex out of a chain\<close>

text \<open>
  The state \<^verbatim>\<open>mutex_release\<close> starts its priority search from: the mutex \<open>m\<close>, possibly no longer a
  mutex, is out of the chain of its owner.
\<close>

lemma drop_mutex_ok:
  assumes ok: "pi_ok s"
    and own: "obj_type (blks s m) = RHINO_MUTEX_OBJ_TYPE \<Longrightarrow> mutex_task (mutexes s m) = own"
    and B: "blks s2 = (blks s)(m := (blks s m)\<lparr>obj_type := ty\<rparr>)"
    and T: "tasks s2 = (tasks s)(own := (tasks s own)
              \<lparr>mutex_list := removeAll m (mutex_list (tasks s own))\<rparr>)"
    and M: "\<And>k. mutex_task (mutexes s2 k) = mutex_task (mutexes s k)"
    and r: "g_ready_queue s2 = g_ready_queue s" "g_tick_head s2 = g_tick_head s"
    and Y: "Y = {m} \<or> ty \<noteq> RHINO_MUTEX_OBJ_TYPE"
    and pol: "ty = RHINO_MUTEX_OBJ_TYPE \<Longrightarrow> obj_type (blks s m) = RHINO_MUTEX_OBJ_TYPE"
  shows "pi_ok_but Y {own} s2" and "\<And>t. m \<notin> set (held (tasks s2) t)"
    and "\<And>t. t \<noteq> own \<Longrightarrow> held (tasks s2) t = held (tasks s) t"
proof -
  have ls: "lists_ok s" and mx: "mx_ok (mutexes s) (blks s) (tasks s)"
    and inh: "inh_ok (blks s) (tasks s)"
    using ok by (simp_all add: pi_ok_but_def)
  note l = lists_okD [OF ls]
  let ?x = "(tasks s own)\<lparr>mutex_list := removeAll m (mutex_list (tasks s own))\<rparr>"
  let ?T = "(tasks s)(own := ?x)"
  have hd: "held (tasks s2) t = (if t = own then removeAll m (held (tasks s) own) else held (tasks s) t)" for t
    by (simp add: held_def T)
  then show "\<And>t. t \<noteq> own \<Longrightarrow> held (tasks s2) t = held (tasks s) t" by simp
  have mo: "t = own" if "m \<in> set (held (tasks s) t)" for t
    using mx_ok_held(3,4) [OF mx that] own by simp
  then show nm: "m \<notin> set (held (tasks s2) t)" for t
    by (auto simp: hd)
  have sub: "k \<in> set (held (tasks s) t) \<and> k \<noteq> m" if "k \<in> set (held (tasks s2) t)" for k t
    using that nm [of t] by (auto simp: hd split: if_splits)
  have "rdy_ok (g_ready_queue s) ?T" by (rule rdy_ok_same [OF l(1)]) (simp_all add: rdy_def)
  moreover have "blk_ok ((blks s)(m := (blks s m)\<lparr>obj_type := ty\<rparr>)) ?T"
    by (intro blk_ok_hdr blk_ok_same [OF l(2)]) (simp_all add: pending_def)
  moreover have "tick_ok (g_tick_head s) ?T"
    using l(3) by (intro tick_ok_same [OF l(3)]) (auto simp: tick_ok_def task_kinds)
  moreover have "prio_ok ?T" using l(4) by (intro prio_ok_same [OF l(4)]) (auto simp: prio_ok_def rdy_def)
  ultimately have L: "lists_ok s2" by (simp add: lists_ok_def T B r)
  have st: "task_state (tasks s2 t) = task_state (tasks s t)" "b_prio (tasks s2 t) = b_prio (tasks s t)"
    "prio (tasks s2 t) = prio (tasks s t)" "blk_obj (tasks s2 t) = blk_obj (tasks s t)"
    "pending (tasks s2 t) = pending (tasks s t)" for t
    by (simp_all add: T pending_def)
  have bl: "blk_list (blks s2 k) = blk_list (blks s k)" "blk_policy (blks s2 k) = blk_policy (blks s k)"
    "k \<noteq> m \<Longrightarrow> obj_type (blks s2 k) = obj_type (blks s k)" for k
    by (simp_all add: B)
  have X: "mx_ok_but Y (mutexes s2) (blks s2) (tasks s2)"
    unfolding mx_ok_but_def st M
  proof (intro conjI allI impI)
    show "distinct (held (tasks s2) t)" for t
      using mx by (simp add: hd mx_ok_but_def distinct_removeAll)
  next
    fix k
    assume k: "obj_type (blks s2 k) = RHINO_MUTEX_OBJ_TYPE"
    then show "blk_policy (blks s2 k) = BLK_POLICY_PRI"
      using mx pol unfolding bl mx_ok_but_def by (cases "k = m") (auto simp: B)
  next
    fix k
    assume k: "obj_type (blks s2 k) = RHINO_MUTEX_OBJ_TYPE \<and> k \<notin> Y
        \<and> (blk_list (blks s2 k) \<noteq> [] \<or> mutex_task (mutexes s k) \<noteq> NULL)"
    have km: "k \<noteq> m" using k Y by (auto simp: B)
    have "k \<in> set (held (tasks s) (mutex_task (mutexes s k)))"
      using k bl [of k] km by (intro mx_ok_owned [OF mx]) auto
    with km show "k \<in> set (held (tasks s2) (mutex_task (mutexes s k)))" by (auto simp: hd)
  next
    fix t k
    assume "k \<in> set (held (tasks s2) t)"
    note k = sub [OF this]
    note h = mx_ok_held [OF mx conjunct1 [OF k]]
    show "k \<noteq> NULL" "t \<noteq> NULL" "task_state (tasks s t) \<noteq> K_SEED" "b_prio (tasks s t) \<noteq> RHINO_IDLE_PRI"
      "mutex_task (mutexes s k) = t" by (rule h)+
    show "obj_type (blks s2 k) = RHINO_MUTEX_OBJ_TYPE" using h(4) bl(3) k by simp
    show "blk_obj (tasks s t) \<noteq> k" if "pending (tasks s t)" using h(9) that by simp
  qed
  have "inh_ok_but {own} (blks s2) (tasks s2)"
    unfolding inh_ok_but_def st
  proof (intro allI impI)
    fix t
    assume t: "t \<notin> {own} \<and> task_state (tasks s t) \<noteq> K_DELETED"
    then have "waiters (blks s2) (tasks s2) t = waiters (blks s) (tasks s) t"
      by (simp add: waiters_def hd bl)
    then have "eff_prio (blks s2) (tasks s2) t = eff_prio (blks s) (tasks s) t"
      by (simp add: eff_prio_def st)
    then show "prio (tasks s t) = eff_prio (blks s2) (tasks s2) t"
      using inh t by (simp add: inh_ok_but_def)
  qed
  with L X show "pi_ok_but Y {own} s2" by (simp add: pi_ok_but_def)
qed

section \<open>Locking\<close>

lemma mutexes_update_const: "mutexes_update f s = s\<lparr>mutexes := f (mutexes s)\<rparr>"
  by simp

lemma lock_free_ok:
  assumes ok: "kern_ok s" and i0: "g_intrpt_nested_level s = 0" and ni: "prio (tasks s (g_active_task s)) \<noteq> RHINO_IDLE_PRI"
    and m: "m \<noteq> NULL" "obj_type (blks s m) = RHINO_MUTEX_OBJ_TYPE" "mutex_task (mutexes s m) = NULL"
    and M: "mutex_task (M m) = g_active_task s"
      "\<And>k. k \<noteq> m \<Longrightarrow> mutex_task (M k) = mutex_task (mutexes s k)"
  shows "kern_ok (set_task (g_active_task s) (mutex_list_update (\<lambda>ms. m # ms)) (s\<lparr>mutexes := M\<rparr>))"
proof -
  note k = kern_okD [OF ok]
  let ?a = "g_active_task s"
  have free: "m \<notin> set (held (tasks s) t)" for t
    using mx_ok_held(2,3) [OF k(4), of m t] m(3) by auto
  have "blk_list (blks s m) = []"
    using mx_ok_owned [OF k(4) m(2)] free by auto
  moreover have "pi_ok_but {m} {} s"
    using k(1) mx_ok_weaken [of "{}" _ _ _ "{m}"] by (simp add: pi_ok_but_def)
  ultimately have "pi_ok_but ({m} - {m}) {} (set_task ?a (mutex_list_update (\<lambda>ms. m # ms)) (s\<lparr>mutexes := M\<rparr>))"
    using kern_ok_caller [OF ok i0] k(6) ni m free M by (intro take_mutex_ok) (auto simp: task_kinds)
  moreover have "act_ok (set_task ?a (mutex_list_update (\<lambda>ms. m # ms)) (s\<lparr>mutexes := M\<rparr>))"
    using k(2) by (simp add: act_ok_def act_safe_def rdy_def)
  ultimately show ?thesis by (simp add: kern_ok_def)
qed

text \<open>The state in which the caller has blocked: the owner is raised, the caller waits.\<close>

definition lock_block :: "kstate \<Rightarrow> ptr \<Rightarrow> tick \<Rightarrow> kstate" where
  "lock_block s m d =
     (let own = mutex_task (mutexes s m);
          s = (if prio (tasks s (g_active_task s)) < prio (tasks s own)
               then snd (task_pri_change s own (prio (tasks s (g_active_task s)))) else s)
      in pend_to_blk_obj s m (g_active_task s) d)"

lemma pri_frame_rdy: "pri_frame s s' \<Longrightarrow> rdy (tasks s' t) = rdy (tasks s t)"
  by (simp add: rdy_def pri_frameD)

lemma lock_block_ok:
  assumes ok: "kern_ok s" and i0: "g_intrpt_nested_level s = 0" and ni: "prio (tasks s (g_active_task s)) \<noteq> RHINO_IDLE_PRI"
    and m: "obj_type (blks s m) = RHINO_MUTEX_OBJ_TYPE" "mutex_task (mutexes s m) \<noteq> NULL"
      "g_active_task s \<noteq> mutex_task (mutexes s m)"
  shows "pi_ok (lock_block s m d)" and "list_frame s (lock_block s m d)"
    and "task_state (tasks (lock_block s m d) (g_active_task s)) = K_PEND"
    and "blk_obj (tasks (lock_block s m d) (g_active_task s)) = m"
    and "prio (tasks (lock_block s m d) (mutex_task (mutexes s m))) \<le> prio (tasks s (g_active_task s))"
proof -
  note k = kern_okD [OF ok]
  let ?a = "g_active_task s" and ?o = "mutex_task (mutexes s m)"
  have mh: "m \<in> set (held (tasks s) ?o)" using m by (intro mx_ok_owned [OF k(4)]) auto
  define s1 where "s1 = (if prio (tasks s ?a) < prio (tasks s ?o)
      then snd (task_pri_change s ?o (prio (tasks s ?a))) else s)"
  have eq0: "lock_block s m d = pend_to_blk_obj s1 m (g_active_task s1) d"
    by (simp add: lock_block_def s1_def Let_def)
  have r: "rdy (tasks s ?a)" by (rule kern_ok_caller [OF ok i0])
  have H: "lists_ok s1 \<and> mx_ok (mutexes s1) (blks s1) (tasks s1) \<and> inh_ok_but {?o} (blks s1) (tasks s1)
    \<and> prio (tasks s1 ?o) = min (eff_prio (blks s1) (tasks s1) ?o) (prio (tasks s ?a)) \<and> pri_frame s s1
    \<and> prio (tasks s1 ?a) = prio (tasks s ?a)"
  proof (cases "prio (tasks s ?a) < prio (tasks s ?o)")
    case True
    then have s1: "s1 = snd (task_pri_change s ?o (prio (tasks s ?a)))" by (simp add: s1_def)
    note R = raise_owner_ok [OF k(1) mh True s1]
    show ?thesis
      using R raise_only_worse [OF True order_refl] by (simp add: s1)
  next
    case False
    then have s1: "s1 = s" by (simp add: s1_def)
    have "prio (tasks s ?o) = eff_prio (blks s) (tasks s) ?o"
      using k(5) mx_ok_held(8) [OF k(4) mh] by (simp add: inh_ok_but_def)
    moreover have "inh_ok_but {?o} (blks s) (tasks s)"
      using k(5) by (simp add: inh_ok_but_def)
    ultimately show ?thesis
      using k(3,4) False unfolding s1 by (simp add: pri_frame_refl)
  qed
  have frs: "pri_frame s s1" using H by blast
  note fr = pri_frameD [OF frs]
  have lf: "list_frame s s1" using H by (blast intro: list_frame_pri)
  have eq: "lock_block s m d = pend_to_blk_obj s1 m ?a d"
    using eq0 list_frameD(8) [OF lf] by simp
  have r1: "rdy (tasks s1 ?a)" using r fr(1) [of ?a] by (simp add: rdy_def)
  have mh1: "m \<in> set (held (tasks s1) ?o)" 
    using mh by (simp only: pri_frame_held [OF frs])
  show "pi_ok (lock_block s m d)"
    unfolding eq
    by (rule block_mutex_ok [OF _ _ _ r1 _ mh1 m(3)]) (use H ni in simp_all)
  show "list_frame s (lock_block s m d)"
    unfolding eq by (rule list_frame_trans [OF lf list_frame_block])
  show "task_state (tasks (lock_block s m d) ?a) = K_PEND" "blk_obj (tasks (lock_block s m d) ?a) = m"
    unfolding eq by (simp_all add: pend_to_blk_obj_eq)
  show "prio (tasks (lock_block s m d) ?o) \<le> prio (tasks s ?a)"
    unfolding eq using H m(3) by (simp add: pend_to_blk_obj_eq)
qed

lemma krhino_mutex_lock_block:
  assumes "m \<noteq> NULL" "g_sys_stat s \<noteq> RHINO_STOPPED" "g_intrpt_nested_level s = 0"
    "obj_type (blks s m) = RHINO_MUTEX_OBJ_TYPE" "g_active_task s \<noteq> mutex_task (mutexes s m)"
    "mutex_task (mutexes s m) \<noteq> NULL" "d \<noteq> RHINO_NO_WAIT" "g_sched_lock s = 0"
  shows "krhino_mutex_lock s m d = (None, core_sched (lock_block s m d))"
  using assms by (simp add: krhino_mutex_lock_def lock_block_def Let_def)

lemma krhino_mutex_lock_free:
  assumes "m \<noteq> NULL" "g_sys_stat s \<noteq> RHINO_STOPPED" "g_intrpt_nested_level s = 0"
    "obj_type (blks s m) = RHINO_MUTEX_OBJ_TYPE" "g_active_task s \<noteq> NULL"
    "mutex_task (mutexes s m) = NULL"
  shows "krhino_mutex_lock s m d = (Some RHINO_SUCCESS,
    set_task (g_active_task s) (mutex_list_update (\<lambda>ms. m # ms))
      (s\<lparr>mutexes := (mutexes s)(m := (mutexes s m)\<lparr>mutex_task := g_active_task s, owner_nested := 1\<rparr>)\<rparr>))"
  using assms by (simp add: krhino_mutex_lock_def Let_def)

lemma k_err_proc_frame [simp]:
  "tasks (k_err_proc s e) = tasks s" "blks (k_err_proc s e) = blks s"
  "mutexes (k_err_proc s e) = mutexes s" "g_ready_queue (k_err_proc s e) = g_ready_queue s"
  "g_tick_head (k_err_proc s e) = g_tick_head s" "g_active_task (k_err_proc s e) = g_active_task s"
  "g_sched_lock (k_err_proc s e) = g_sched_lock s"
  "g_intrpt_nested_level (k_err_proc s e) = g_intrpt_nested_level s"
  by (simp_all add: k_err_proc_def)

lemma kern_ok_err [simp]: "kern_ok (k_err_proc s e) = kern_ok s"
  by (rule kern_ok_cong) simp_all

lemma kern_ok_owner_nested [simp]:
  "kern_ok (set_mutex m (owner_nested_update f) s) = kern_ok s"
proof -
  have "mx_ok_but Y ((mutexes s)(m := owner_nested_update f (mutexes s m))) B T = mx_ok_but Y (mutexes s) B T"
    for Y B T by (rule mx_ok_M) simp
  then show ?thesis by (simp add: kern_ok_def act_ok_def act_safe_def pi_ok_but_def lists_ok_def)
qed

lemma krhino_mutex_lock_ok:
  assumes ok: "kern_ok s" and ni: "prio (tasks s (g_active_task s)) \<noteq> RHINO_IDLE_PRI"
  shows "kern_ok (snd (krhino_mutex_lock s m d))"
proof -
  note k = kern_okD [OF ok]
  show ?thesis
    unfolding krhino_mutex_lock_def Let_def
    apply (intro kern_ok_if)
    apply (simp_all only: snd_conv ok kern_ok_err kern_ok_owner_nested)
    subgoal premises p
      using lock_free_ok [OF ok not_gr_zero_word [OF p(3)] ni p(1) notnotD [OF p(4)] p(6), of "(mutexes s)(m := (mutexes s m)
          \<lparr>mutex_task := g_active_task s\<rparr>)"]
      by (simp add: mutexes_update_const [of "\<lambda>M. M(m := mutex_task_update (\<lambda>_. g_active_task s) (M m))"])
    subgoal premises p
    proof -
      have l0: "g_sched_lock s = 0" "g_intrpt_nested_level s = 0"
        using p(3,8) by (simp_all add: word_neq_0_conv [symmetric])
      have o: "g_active_task s \<noteq> mutex_task (mutexes s m)" "obj_type (blks s m) = RHINO_MUTEX_OBJ_TYPE"
        using p by simp_all
      note L = lock_block_ok [OF ok l0(2) ni o(2) p(6) o(1), of d]
      have "kern_ok (core_sched (lock_block s m d))"
        using L(1) l0 list_frameD(9,10) [OF L(2)] by (intro kern_ok_core_sched) simp_all
      then show ?thesis by (simp add: lock_block_def Let_def)
    qed
    done
qed

section \<open>Unlocking\<close>

lemma pi_ok_owner_nested [simp]:
  "pi_ok_but Y X (set_mutex m (owner_nested_update f) s) = pi_ok_but Y X s"
proof -
  have "mx_ok_but Y ((mutexes s)(m := owner_nested_update f (mutexes s m))) B T = mx_ok_but Y (mutexes s) B T"
    for Y B T by (rule mx_ok_M) simp
  then show ?thesis by (simp add: pi_ok_but_def lists_ok_def)
qed

text \<open>After \<^verbatim>\<open>mutex_release\<close> by the owner, which runs.\<close>

lemma release_by_owner_ok:
  assumes ok: "kern_ok s" and i0: "g_intrpt_nested_level s = 0" and ni: "prio (tasks s (g_active_task s)) \<noteq> RHINO_IDLE_PRI"
    and m: "obj_type (blks s m) = RHINO_MUTEX_OBJ_TYPE" "g_active_task s = mutex_task (mutexes s m)"
  defines "s1 \<equiv> mutex_release s (g_active_task s) m"
  shows "pi_ok_but {m} {} s1" and "\<And>t. m \<notin> set (held (tasks s1) t)" and "list_frame s s1"
    and "\<And>t. task_state (tasks s1 t) = task_state (tasks s t)"
    and "\<And>k. set (blk_list (blks s1 k)) = set (blk_list (blks s k))"
    and "\<And>k. obj_type (blks s1 k) = obj_type (blks s k)"
    and "\<And>t. b_prio (tasks s1 t) = b_prio (tasks s t)"
    and "blk_list (blks s m) = [] \<Longrightarrow>
      s1 = set_task (g_active_task s) (\<lambda>t. t\<lparr>mutex_list := removeAll m (mutex_list t)\<rparr>) s"
proof -
  note k = kern_okD [OF ok]
  let ?a = "g_active_task s"
  let ?x = "(tasks s ?a)\<lparr>mutex_list := removeAll m (mutex_list (tasks s ?a))\<rparr>"
  define s2 where "s2 = s\<lparr>tasks := (tasks s)(?a := ?x)\<rparr>"
  have a: "task_state (tasks s ?a) = K_RDY" using kern_ok_caller [OF ok i0] by (simp add: rdy_def)
  have "(blks s m)\<lparr>obj_type := RHINO_MUTEX_OBJ_TYPE\<rparr> = blks s m"
    using m(1) by simp
  then have B: "blks s2 = (blks s)(m := (blks s m)\<lparr>obj_type := RHINO_MUTEX_OBJ_TYPE\<rparr>)"
    by (simp add: s2_def)
  note D = drop_mutex_ok [OF k(1) _ B, of ?a "{m}"]
  have D1: "pi_ok_but {m} {?a} s2" "m \<notin> set (held (tasks s2) t)" for t
    by (rule D; simp add: s2_def m)+
  have pol: "blk_policy (blks s j) = BLK_POLICY_PRI" if "j \<in> set (held (tasks s) ?a)" for j
    using mx_ok_held(5) [OF k(4) that] .
  have R: "pi_ok_but {m} {} s1 \<and> pri_frame s2 s1"
    unfolding s1_def
    by (rule mutex_release_ok [OF pol s2_def D1(1)]) (use a ni in \<open>simp_all add: pending_def\<close>)
  then show "pi_ok_but {m} {} s1" by simp
  note F = pri_frameD [OF conjunct2 [OF R]]
  show "m \<notin> set (held (tasks s1) t)" for t
    using D1(2) [of t] by (simp add: pri_frame_held [OF conjunct2 [OF R]])
  have "s2 = s\<lparr>g_ready_queue := g_ready_queue s, blks := blks s, g_tick_head := g_tick_head s,
      tasks := (tasks s)(?a := ?x)\<rparr>"
    by (simp add: s2_def)
  then have "list_frame s s2" unfolding list_frame_def by blast
  then show "list_frame s s1"
    using R by (blast intro: list_frame_trans list_frame_pri)
  show "task_state (tasks s1 t) = task_state (tasks s t)" "b_prio (tasks s1 t) = b_prio (tasks s t)" for t
    by (simp_all add: F) (simp_all add: s2_def)
  show "set (blk_list (blks s1 j)) = set (blk_list (blks s j))" "obj_type (blks s1 j) = obj_type (blks s j)" for j
    by (simp_all add: F) (simp_all add: s2_def)
  assume e: "blk_list (blks s m) = []"
  have "waiters (blks s) (tasks s2) ?a = waiters (blks s) (tasks s) ?a"
    using e by (auto simp: waiters_def held_def s2_def)
  then have "eff_prio (blks s) (tasks s2) ?a = eff_prio (blks s) (tasks s) ?a"
    by (intro eff_prio_cong) (simp_all add: s2_def)
  also have "\<dots> = prio (tasks s ?a)" using k(5) a by (simp add: inh_ok_but_def)
  finally have "eff_prio (blks s) (tasks s2) ?a = prio (tasks s2 ?a)" by (simp add: s2_def)
  moreover have "mutex_pri_look s ?a m = (eff_prio (blks s) (tasks s2) ?a, s2)"
    using mutex_pri_look_eq [OF lists_okD(2) [OF k(3)] pol, where mutex_rel = m] a
    by (simp add: Let_def s2_def)
  ultimately have "s1 = s2" by (simp add: s1_def mutex_release_def)
  then show "s1 = set_task ?a (\<lambda>t. t\<lparr>mutex_list := removeAll m (mutex_list t)\<rparr>) s"
    by (simp add: s2_def)
qed

text \<open>A mutex nobody waits for becomes free.\<close>

lemma mx_ok_set_free:
  assumes "mx_ok_but {m} M B T" and "blk_list (B m) = []" and "\<And>t. m \<notin> set (held T t)"
  shows "mx_ok (M(m := (M m)\<lparr>mutex_task := NULL\<rparr>)) B T"
proof -
  have "k \<noteq> m" if "k \<in> set (held T t)" for k t using assms(3) that by blast
  with assms show ?thesis unfolding mx_ok_but_def by auto
qed

text \<open>The first waiter gets the mutex.\<close>

definition hand_over :: "kstate \<Rightarrow> ptr \<Rightarrow> kstate" where
  "hand_over s m =
     (let w = first (blk_list (blks s m));
          s = wake_task BLK_FINISH s w;
          s = set_mutex m (\<lambda>x. x\<lparr>mutex_task := w\<rparr>) s
      in set_task w (mutex_list_update (\<lambda>ms. m # ms)) s)"

lemma hand_over_ok:
  assumes ok: "pi_ok_but (insert m Y) {} s" and ty: "obj_type (blks s m) = RHINO_MUTEX_OBJ_TYPE"
    and free: "\<And>t. m \<notin> set (held (tasks s) t)" and m: "m \<noteq> NULL" and ne: "blk_list (blks s m) \<noteq> []"
  shows "pi_ok_but (Y - {m}) {} (hand_over s m)"
proof -
  let ?w = "first (blk_list (blks s m))" and ?s = "wake_task BLK_FINISH s (first (blk_list (blks s m)))"
  have ls: "lists_ok s" and mx: "mx_ok_but (insert m Y) (mutexes s) (blks s) (tasks s)"
    using ok by (simp_all add: pi_ok_but_def)
  note l = lists_okD [OF ls] and w = first_waiter [OF lists_okD(2) [OF ls] ne]
  have pol: "blk_policy (blks s m) = BLK_POLICY_PRI" using mx ty by (simp add: mx_ok_but_def)
  have nw: "?w \<notin> waiters (blks s) (tasks s) u" for u
    using w(3) free l(2) by (auto simp: waiters_def blk_ok_mem)
  have nr: "\<not> rdy (tasks s ?w)" using w(2) by (auto simp: task_kinds)
  have wn: "?w \<noteq> NULL" using w(2) l(4) by (auto simp: prio_ok_def pending_def)
  have "pi_ok_but (insert m Y) {} ?s" using ok w(2) nw by (rule wake_pi_ok)
  then have "pi_ok_but (Y - {m}) {} (set_task ?w (mutex_list_update (\<lambda>ms. m # ms))
      (?s\<lparr>mutexes := (mutexes s)(m := (mutexes s m)\<lparr>mutex_task := ?w\<rparr>)\<rparr>))"
  proof (rule take_mutex_ok)
    show "m \<notin> set (held (tasks ?s) t)" for t
      using free [of t] w(2) by (auto simp: held_def pending_def split: if_splits)
    show "prio (tasks ?s ?w) \<le> prio (tasks ?s v)" if "v \<in> set (blk_list (blks ?s m))" for v
      using that sorted_map_first [OF blk_ok_sorted [OF l(2) pol]] by auto
    show "prio (tasks ?s ?w) \<noteq> RHINO_IDLE_PRI" using prio_ok_not_rdy [OF l(4) nr] by simp
  qed (use ty m wn in \<open>simp_all split: if_splits\<close>)
  then show ?thesis
    by (simp add: hand_over_def Let_def mutexes_update_const [of "\<lambda>M. M(m := mutex_task_update (\<lambda>_. ?w) (M m))"])
qed

lemma krhino_mutex_unlock_ok:
  assumes ok0: "kern_ok s" and ni0: "prio (tasks s (g_active_task s)) \<noteq> RHINO_IDLE_PRI"
  shows "kern_ok (snd (krhino_mutex_unlock s m))"
proof -
  define s0 where "s0 = set_mutex m (owner_nested_update (\<lambda>n. n - 1)) s"
  have ok: "kern_ok s0" using ok0 by (simp add: s0_def)
  let ?a = "g_active_task s0" and ?s1 = "mutex_release s0 (g_active_task s0) m"
  have ni: "prio (tasks s0 ?a) \<noteq> RHINO_IDLE_PRI" using ni0 by (simp add: s0_def)
  note k = kern_okD [OF ok]
  show ?thesis
    unfolding krhino_mutex_unlock_def Let_def s0_def [symmetric]
    apply (intro kern_ok_if)
    apply (simp_all only: snd_conv ok0 ok)
    subgoal premises p
    proof -
      have i0: "g_intrpt_nested_level s0 = 0" using not_gr_zero_word [OF p(3)] by (simp add: s0_def)
      have m: "obj_type (blks s0 m) = RHINO_MUTEX_OBJ_TYPE" "?a = mutex_task (mutexes s0 m)"
        using p by (simp_all add: s0_def)
      note R = release_by_owner_ok [OF ok i0 ni m]
      have e: "blk_list (blks s0 m) = []"
        using p(7) R(5) [of m] by simp
      note s1 = R(8) [OF e]
      have "mx_ok_but {m} (mutexes ?s1) (blks ?s1) (tasks ?s1)"
        using R(1) by (simp add: pi_ok_but_def)
      from mx_ok_set_free [OF this] p R(2)
      have "mx_ok ((mutexes ?s1)(m := (mutexes ?s1 m)\<lparr>mutex_task := NULL\<rparr>)) (blks ?s1) (tasks ?s1)"
        by blast
      with R(1) have "pi_ok (set_mutex m (\<lambda>x. x\<lparr>mutex_task := NULL\<rparr>) ?s1)"
        by (simp add: pi_ok_but_def lists_ok_def)
      moreover have "act_ok (set_mutex m (\<lambda>x. x\<lparr>mutex_task := NULL\<rparr>) ?s1)"
        using k(2) unfolding s1 by (simp add: act_ok_def act_safe_def rdy_def)
      ultimately show ?thesis by (simp add: kern_ok_def)
    qed
    subgoal premises p
    proof -
      have i0: "g_intrpt_nested_level s0 = 0" using not_gr_zero_word [OF p(3)] by (simp add: s0_def)
      have m: "obj_type (blks s0 m) = RHINO_MUTEX_OBJ_TYPE" "?a = mutex_task (mutexes s0 m)"
        using p by (simp_all add: s0_def)
      note R = release_by_owner_ok [OF ok i0 ni m]
      let ?w = "first (blk_list (blks ?s1 m))"
      have ls: "lists_ok ?s1" using R(1) by (simp add: pi_ok_but_def)
      note w = first_waiter [OF lists_okD(2) [OF ls] p(7)]
      have wa: "?w \<noteq> ?a"
        using w(2) R(4) [of ?a] kern_ok_caller [OF ok i0] by (auto simp: task_kinds)
      have "pi_ok (hand_over ?s1 m)"
        using hand_over_ok [of m "{}" ?s1] R m(1) p(1,7) by simp
      moreover have "rdy (tasks (hand_over ?s1 m) ?a)"
        using wa kern_ok_caller [OF ok i0] R(4) [of ?a] by (simp add: hand_over_def Let_def rdy_def)
      moreover have "g_active_task (hand_over ?s1 m) = ?a"
        using list_frameD(8) [OF R(3)] by (simp add: hand_over_def Let_def)
      moreover have "lists_ok (hand_over ?s1 m)" using calculation(1) by (simp add: pi_ok_but_def)
      ultimately have "kern_ok (core_sched (set_mutex m (\<lambda>x. x\<lparr>owner_nested := 1\<rparr>) (hand_over ?s1 m)))"
        using k(6) by (intro kern_ok_core_sched) (simp_all add: act_safe_def rdy_def)
      then show ?thesis
        by (simp add: hand_over_def Let_def pend_task_wakeup_eq [OF w(2)])
    qed
    done
qed

section \<open>Deletion and creation\<close>

lemma pi_ok_kobj [simp]: "pi_ok_but Y X (g_kobj_list_update f s) = pi_ok_but Y X s"
  by (simp add: pi_ok_but_def lists_ok_def)

lemma pend_rm_all_rdy:
  assumes "pi_ok s" and "obj_type (blks s ob) \<noteq> RHINO_MUTEX_OBJ_TYPE" and "rdy (tasks s t)"
  shows "rdy (tasks (pend_rm_all s ob) t)"
proof -
  have "t \<notin> set (blk_list (blks s ob))"
    using assms(1,3) by (auto simp: pi_ok_but_def lists_ok_def blk_ok_mem task_kinds)
  with pend_rm_all_ok [OF assms(1,2)] assms(3) show ?thesis by simp
qed

text \<open>The state in which the mutex is none any more and its owner has been reset.\<close>

definition mutex_retire :: "kstate \<Rightarrow> ptr \<Rightarrow> kstate" where
  "mutex_retire s m =
     (let s = set_blk m (\<lambda>b. b\<lparr>obj_type := RHINO_OBJ_TYPE_NONE\<rparr>) s
      in if mutex_task (mutexes s m) \<noteq> NULL then mutex_release s (mutex_task (mutexes s m)) m else s)"

lemma mutex_retire_ok:
  assumes ok: "kern_ok s" and m: "obj_type (blks s m) = RHINO_MUTEX_OBJ_TYPE"
  defines "s1 \<equiv> mutex_retire s m"
  shows "pi_ok s1" and "list_frame s s1" and "\<And>t. rdy (tasks s1 t) = rdy (tasks s t)"
    and "obj_type (blks s1 m) = RHINO_OBJ_TYPE_NONE"
    and "set (blk_list (blks s1 m)) = set (blk_list (blks s m))"
proof -
  note k = kern_okD [OF ok]
  let ?o = "mutex_task (mutexes s m)"
  define s0 where "s0 = set_blk m (\<lambda>b. b\<lparr>obj_type := RHINO_OBJ_TYPE_NONE\<rparr>) s"
  have s1_def: "s1 = (if mutex_task (mutexes s0 m) \<noteq> NULL
                 then mutex_release s0 (mutex_task (mutexes s0 m)) m else s0)"
    unfolding \<open>s1 \<equiv> mutex_retire s m\<close> by (simp add: mutex_retire_def s0_def)
  have l0: "list_frame s s0"
  proof -
    have "s0 = s\<lparr>g_ready_queue := g_ready_queue s, blks := blks s0, g_tick_head := g_tick_head s,
        tasks := tasks s\<rparr>" by (simp add: s0_def)
    then show ?thesis unfolding list_frame_def by blast
  qed
  let ?x = "(tasks s0 ?o)\<lparr>mutex_list := removeAll m (mutex_list (tasks s0 ?o))\<rparr>"
  define s2 where "s2 = s0\<lparr>tasks := (tasks s0)(?o := ?x)\<rparr>"
  have D: "pi_ok_but {} {?o} s2"
    by (rule drop_mutex_ok(1) [OF k(1), where ty = RHINO_OBJ_TYPE_NONE])
      (simp_all add: s2_def s0_def)
  have "pi_ok s1 \<and> list_frame s s1 \<and> (\<forall>t. rdy (tasks s1 t) = rdy (tasks s t))
    \<and> obj_type (blks s1 m) = RHINO_OBJ_TYPE_NONE
    \<and> set (blk_list (blks s1 m)) = set (blk_list (blks s m))"
  proof (cases "?o = NULL")
    case True
    have nh: "m \<notin> set (held (tasks s) t)" for t
      using mx_ok_held(2,3) [OF k(4), of m t] True by auto
    have "task_state (tasks s NULL) = K_SEED" using k(3) by (simp add: lists_ok_def prio_ok_def)
    with nh [of NULL] have "m \<notin> set (mutex_list (tasks s NULL))" by (simp add: held_def)
    then have "s2 = s0" by (simp add: s2_def s0_def True fun_upd_idem)
    with D have "lists_ok s0" "mx_ok (mutexes s0) (blks s0) (tasks s0)"
      by (simp_all add: pi_ok_but_def)
    moreover have bl: "blk_list (blks s0 j) = blk_list (blks s j)" and T: "tasks s0 = tasks s" for j
      by (simp_all add: s0_def)
    then have "waiters (blks s0) (tasks s0) = waiters (blks s) (tasks s)"
      by (intro ext) (simp only: waiters_def bl T)
    then have "inh_ok (blks s0) (tasks s0)"
      using k(5) by (simp add: inh_ok_but_def eff_prio_def T)
    ultimately have "pi_ok s0" by (simp add: pi_ok_but_def)
    moreover have "s1 = s0" using True by (simp add: s1_def s0_def)
    ultimately show ?thesis using l0 by simp (simp add: s0_def)
  next
    case False
    have oh: "m \<in> set (held (tasks s) ?o)" using m False by (intro mx_ok_owned [OF k(4)]) auto
    note h = mx_ok_held [OF k(4) oh]
    have oi: "prio (tasks s ?o) \<noteq> RHINO_IDLE_PRI"
      using h(6) lists_okD(4) [OF k(3)] by (auto simp: prio_ok_def)
    have s1: "s1 = mutex_release s0 ?o m" using False by (simp add: s1_def s0_def)
    have pol: "blk_policy (blks s0 j) = BLK_POLICY_PRI" if "j \<in> set (held (tasks s0) ?o)" for j
      using mx_ok_held(5) [OF k(4), of j ?o] that by (auto simp: s0_def)
    have R: "pi_ok_but {} {} s1 \<and> pri_frame s2 s1"
      unfolding s1 by (rule mutex_release_ok [OF pol s2_def D]) (use h oi in \<open>simp_all add: s0_def\<close>)
    note F = pri_frameD [OF conjunct2 [OF R]]
    have "s2 = s0\<lparr>g_ready_queue := g_ready_queue s0, blks := blks s0, g_tick_head := g_tick_head s0,
        tasks := tasks s2\<rparr>" by (simp add: s2_def)
    then have "list_frame s0 s2" unfolding list_frame_def by blast
    then have "list_frame s s1"
      using R l0 by (blast intro: list_frame_trans list_frame_pri)
    moreover have "rdy (tasks s1 t) = rdy (tasks s t)" for t
      by (simp add: rdy_def F) (simp add: s2_def s0_def)
    moreover have "obj_type (blks s1 m) = RHINO_OBJ_TYPE_NONE"
      "set (blk_list (blks s1 m)) = set (blk_list (blks s m))"
      by (simp_all add: F) (simp_all add: s2_def s0_def)
    ultimately show ?thesis using R by simp
  qed
  then show "pi_ok s1" "list_frame s s1" "rdy (tasks s1 t) = rdy (tasks s t)"
    "obj_type (blks s1 m) = RHINO_OBJ_TYPE_NONE"
    "set (blk_list (blks s1 m)) = set (blk_list (blks s m))" for t
    by simp_all
qed

lemma krhino_mutex_del_ok:
  assumes ok: "kern_ok s"
  shows "kern_ok (snd (krhino_mutex_del s m))"
  unfolding krhino_mutex_del_def Let_def
  apply (intro kern_ok_if)
  apply (simp_all only: snd_conv ok)
  subgoal premises p
  proof -
    let ?s1 = "mutex_retire s m"
    note D = mutex_retire_ok [OF ok notnotD [OF p(3)]]
    have nm: "obj_type (blks ?s1 m) \<noteq> RHINO_MUTEX_OBJ_TYPE" using D(4) by simp
    note R = pend_rm_all_ok [OF D(1) nm]
    have "kern_ok (core_sched (pend_rm_all ?s1 m))"
      using R D pend_rm_all_rdy [OF D(1) nm]
      by (intro kern_ok_resched [OF ok]) (auto intro: list_frame_trans)
    then have "kern_ok (core_sched (g_kobj_list_update (kobj_mutex_head_update (removeAll m))
        (pend_rm_all ?s1 m)))"
      by (subst kern_ok_cong [where s = "core_sched (pend_rm_all ?s1 m)"]) (simp_all add: core_sched_active)
    then show ?thesis by (simp only: mutex_retire_def Let_def)
  qed
  done

text \<open>
  The memory handed to \<^verbatim>\<open>krhino_mutex_create\<close> must not be a kernel object that is in use: nobody
  waits for it, and it is not a mutex.
\<close>

lemma krhino_mutex_create_ok:
  assumes ok: "kern_ok s" and fresh: "obj_type (blks s m) \<noteq> RHINO_MUTEX_OBJ_TYPE" "blk_list (blks s m) = []"
  shows "kern_ok (snd (krhino_mutex_create s m name))"
proof -
  note k = kern_okD [OF ok]
  let ?b = "(blks s m)\<lparr>blk_list := [], blk_policy := BLK_POLICY_PRI, obj_type := RHINO_MUTEX_OBJ_TYPE\<rparr>"
  let ?B = "(blks s)(m := ?b)"
  let ?M = "(mutexes s)(m := (mutexes s m)\<lparr>mutex_task := NULL, mutex_mm_alloc_flag := K_OBJ_STATIC_ALLOC\<rparr>)"
  have nh: "m \<notin> set (held (tasks s) t)" for t
    using mx_ok_held(4) [OF k(4), of m t] fresh(1) by blast
  have hm: "j \<noteq> m" if "j \<in> set (held (tasks s) t)" for j t using that nh by blast
  have "mx_ok ?M ?B (tasks s)"
    using k(4) hm unfolding mx_ok_but_def by auto
  moreover have "waiters ?B (tasks s) = waiters (blks s) (tasks s)"
    using hm by (auto simp: waiters_def fun_eq_iff)
  then have "inh_ok ?B (tasks s)" using k(5) by (simp add: inh_ok_but_def eff_prio_def)
  moreover have "blk_ok ?B (tasks s)"
    using fresh(2) lists_okD(2) [OF k(3)] by (intro blk_ok_hdr) simp_all
  ultimately have "pi_ok (s\<lparr>blks := ?B, mutexes := ?M\<rparr>)"
    using lists_okD [OF k(3)] by (simp add: pi_ok_but_def lists_ok_def)
  moreover have "act_ok (s\<lparr>blks := ?B, mutexes := ?M\<rparr>)"
    using k(2) by (simp add: act_ok_def act_safe_def)
  ultimately have K: "kern_ok (s\<lparr>blks := ?B, mutexes := ?M\<rparr>)" by (simp add: kern_ok_def)
  show ?thesis
    unfolding krhino_mutex_create_def mutex_create_def Let_def
    by (intro kern_ok_if; simp only: snd_conv ok)
      (rule iffD2 [OF kern_ok_cong K]; simp)
qed

section \<open>What the operations do\<close>

text \<open>C19: \<^verbatim>\<open>krhino_mutex_lock\<close> keeps the kernel invariant: list placement, the inheritance
  equation for every task along the chain of owners, and the choice of the running task.\<close>

theorem mutex_lock_inv:
  assumes "kern_ok s" and "prio (tasks s (g_active_task s)) \<noteq> RHINO_IDLE_PRI"
  shows "kern_ok (snd (krhino_mutex_lock s mutex ticks))"
  using assms by (rule krhino_mutex_lock_ok)

theorem mutex_lock_inv_witness: "kern_ok (snd (krhino_mutex_lock ex_state 100 20))"
  by (rule mutex_lock_inv [OF ex_kern_ok ex_caller])

text \<open>\<^verbatim>\<open>krhino_mutex_unlock\<close> keeps the kernel invariant.\<close>

theorem mutex_unlock_inv:
  assumes "kern_ok s" and "prio (tasks s (g_active_task s)) \<noteq> RHINO_IDLE_PRI"
  shows "kern_ok (snd (krhino_mutex_unlock s mutex))"
  using assms by (rule krhino_mutex_unlock_ok)

theorem mutex_unlock_inv_witness: "kern_ok (snd (krhino_mutex_unlock ex_state 101))"
  by (rule mutex_unlock_inv [OF ex_kern_ok ex_caller])

text \<open>C21: A contended lock blocks the caller on the mutex and leaves the owner at least as
  urgent as the caller, and the CPU goes to another task.\<close>

theorem mutex_lock_blocks:
  assumes "kern_ok s" and "prio (tasks s (g_active_task s)) \<noteq> RHINO_IDLE_PRI"
    and "m \<noteq> NULL" "g_sys_stat s \<noteq> RHINO_STOPPED" "g_intrpt_nested_level s = 0"
    and "obj_type (blks s m) = RHINO_MUTEX_OBJ_TYPE" "g_active_task s \<noteq> mutex_task (mutexes s m)"
    and "mutex_task (mutexes s m) \<noteq> NULL" "d \<noteq> RHINO_NO_WAIT" "g_sched_lock s = 0"
  shows "\<exists>s'. krhino_mutex_lock s m d = (None, s')
    \<and> task_state (tasks s' (g_active_task s)) = K_PEND
    \<and> g_active_task s \<in> set (blk_list (blks s' m))
    \<and> prio (tasks s' (mutex_task (mutexes s m))) \<le> prio (tasks s (g_active_task s))
    \<and> mutex_task (mutexes s' m) = mutex_task (mutexes s m)
    \<and> g_active_task s' \<noteq> g_active_task s"
proof -
  let ?l = "lock_block s m d"
  note L = lock_block_ok [OF assms(1,5,2,6,8,7), of d]
  note F = list_frameD [OF L(2)]
  have ls: "lists_ok ?l" using L(1) by (simp add: pi_ok_but_def)
  have in_list: "g_active_task s \<in> set (blk_list (blks ?l m))"
    using blk_ok_mem [OF lists_okD(2) [OF ls], of "g_active_task s" m] L(3,4) by (simp add: pending_def)
  have "kern_ok (core_sched ?l)"
    using L(1) F assms(5,10) by (intro kern_ok_core_sched) simp_all
  from kern_ok_caller [OF this] have "rdy (tasks ?l (g_active_task (core_sched ?l)))"
    using F(10) assms(5) by simp
  then have "g_active_task (core_sched ?l) \<noteq> g_active_task s"
    using L(3) by (auto simp: rdy_def)
  then show ?thesis
    using in_list L(3,5) F(1) by (simp add: krhino_mutex_lock_block [OF assms(3-6,7,8-10)])
qed

theorem mutex_lock_blocks_witness:
  "\<exists>s'. krhino_mutex_lock ex_state 100 RHINO_WAIT_FOREVER = (None, s')
    \<and> task_state (tasks s' 2) = K_PEND \<and> 2 \<in> set (blk_list (blks s' 100))
    \<and> prio (tasks s' 3) \<le> 10 \<and> mutex_task (mutexes s' 100) = 3 \<and> g_active_task s' \<noteq> 2"
  using mutex_lock_blocks [OF ex_kern_ok ex_caller, of 100 RHINO_WAIT_FOREVER]
  by (simp add: ex_defs)

text \<open>C20: Releasing a mutex for the last time hands it to the first, that is most urgent, of the
  waiting tasks, which becomes its owner with nesting depth one and does not wait any more.\<close>

theorem mutex_unlock_hands_over:
  assumes "kern_ok s" and "prio (tasks s (g_active_task s)) \<noteq> RHINO_IDLE_PRI"
    and "m \<noteq> NULL" "g_sys_stat s \<noteq> RHINO_STOPPED" "g_intrpt_nested_level s = 0"
    and "obj_type (blks s m) = RHINO_MUTEX_OBJ_TYPE" "g_active_task s = mutex_task (mutexes s m)"
    and "owner_nested (mutexes s m) = 1" and "blk_list (blks s m) \<noteq> []"
  shows "\<exists>w s'. krhino_mutex_unlock s m = (RHINO_SUCCESS, s')
    \<and> w \<in> set (blk_list (blks s m))
    \<and> (\<forall>v \<in> set (blk_list (blks s m)). prio (tasks s' w) \<le> prio (tasks s' v))
    \<and> mutex_task (mutexes s' m) = w \<and> owner_nested (mutexes s' m) = 1
    \<and> \<not> pending (tasks s' w) \<and> blk_state (tasks s' w) = BLK_FINISH
    \<and> m \<in> set (mutex_list (tasks s' w)) \<and> m \<notin> set (mutex_list (tasks s' (g_active_task s)))"
proof -
  define s0 where "s0 = set_mutex m (owner_nested_update (\<lambda>n. n - 1)) s"
  let ?a = "g_active_task s0" and ?s1 = "mutex_release s0 (g_active_task s0) m"
  let ?w = "first (blk_list (blks ?s1 m))"
  have ok: "kern_ok s0" using assms(1) by (simp add: s0_def)
  have ni: "prio (tasks s0 ?a) \<noteq> RHINO_IDLE_PRI" using assms(2) by (simp add: s0_def)
  have m: "obj_type (blks s0 m) = RHINO_MUTEX_OBJ_TYPE" "?a = mutex_task (mutexes s0 m)"
    using assms(6,7) by (simp_all add: s0_def)
  have i0: "g_intrpt_nested_level s0 = 0" using assms(5) by (simp add: s0_def)
  note R = release_by_owner_ok [OF ok i0 ni m]
  have a: "?a = g_active_task s" by (simp add: s0_def)
  have bs: "set (blk_list (blks ?s1 m)) = set (blk_list (blks s m))" using R(5) [of m] by (simp add: s0_def)
  have ne: "blk_list (blks ?s1 m) \<noteq> []" using assms(9) bs by auto
  have ls: "lists_ok ?s1" using R(1) by (simp add: pi_ok_but_def)
  note bl = lists_okD(2) [OF ls]
  note w = first_waiter [OF bl ne]
  have pol: "blk_policy (blks ?s1 m) = BLK_POLICY_PRI"
    using R(1) R(6) [of m] m(1) by (simp add: pi_ok_but_def mx_ok_but_def)
  have wa: "?w \<noteq> ?a" using w(2) R(4) [of ?a] kern_ok_caller [OF ok i0] by (auto simp: task_kinds)
  have le: "prio (tasks ?s1 ?w) \<le> prio (tasks ?s1 v)" if "v \<in> set (blk_list (blks s m))" for v
    using that sorted_map_first [OF blk_ok_sorted [OF bl pol]] bs by auto
  have am: "m \<notin> set (mutex_list (tasks ?s1 ?a))"
    using R(2) [of ?a] R(4) [of ?a] kern_ok_caller [OF ok i0] by (simp add: held_def rdy_def)
  have n0: "owner_nested (mutexes s0 m) = 0" using assms(8) by (simp add: s0_def)
  define s' where "s' = set_mutex m (\<lambda>x. x\<lparr>owner_nested := 1\<rparr>) (hand_over ?s1 m)"
  have "krhino_mutex_unlock s m = (RHINO_SUCCESS, core_sched s')"
    using assms(3-9) ne unfolding krhino_mutex_unlock_def Let_def s'_def
    by (simp add: hand_over_def Let_def pend_task_wakeup_eq [OF w(2)] s0_def [symmetric] n0)
  moreover have "tasks s' v = (if v = ?w then (woken BLK_FINISH (tasks ?s1 ?w))
      \<lparr>mutex_list := m # mutex_list (tasks ?s1 ?w)\<rparr> else tasks ?s1 v)" for v
    by (simp add: s'_def hand_over_def Let_def)
  moreover have "mutex_task (mutexes s' m) = ?w" "owner_nested (mutexes s' m) = 1"
    by (simp_all add: s'_def hand_over_def Let_def)
  ultimately show ?thesis
    using w(1) bs le am wa a
    by (intro exI [of _ ?w] exI [of _ "core_sched s'"]) (simp add: pending_def)
qed

theorem mutex_unlock_hands_over_witness:
  "\<exists>w s'. krhino_mutex_unlock ex_state 101 = (RHINO_SUCCESS, s') \<and> w = 4
    \<and> mutex_task (mutexes s' 101) = w \<and> owner_nested (mutexes s' 101) = 1
    \<and> \<not> pending (tasks s' w) \<and> 101 \<in> set (mutex_list (tasks s' w))"
  using mutex_unlock_hands_over [OF ex_kern_ok ex_caller, of 101]
  by (auto simp: ex_defs)

end
