(* ===== verification/Leave_Wait.thy ===== *)
theory Leave_Wait
  imports Mutex
begin

text \<open>
  What a timeout (\<^verbatim>\<open>tick_list_update\<close>), an aborted wait (\<^verbatim>\<open>krhino_task_wait_abort\<close>) and the
  deletion of a waiting task (\<^verbatim>\<open>krhino_task_del\<close>) have in common: a pending task leaves its
  waiting list without getting what it waits for, and the owner of the mutex it waited for, if
  any, falls back to the priority that is left to it. The invariant is proved for that step
  once.
\<close>

lemma rq_add_tasks [simp]:
  "(\<And>u. prio (f (tasks s) u) = prio (tasks s u)) \<Longrightarrow> rq_add (tasks_update f s) t = rq_add s t"
  by (rule rq_add_cong) simp_all

text \<open>The fields of a task in a fixed order.\<close>

lemma ktask_order:
  "x\<lparr>task_state := a, tick_head := b\<rparr> = x\<lparr>tick_head := b, task_state := a\<rparr>"
  "x\<lparr>blk_state := c, task_state := a\<rparr> = x\<lparr>task_state := a, blk_state := c\<rparr>"
  "x\<lparr>blk_state := c, tick_head := b\<rparr> = x\<lparr>tick_head := b, blk_state := c\<rparr>"
  by (rule ktask_t.equality; simp)+

definition leave_wait :: "task_stat_t \<Rightarrow> blk_state_t \<Rightarrow> kstate \<Rightarrow> ptr \<Rightarrow> kstate" where
  "leave_wait st b s t =
     s\<lparr>g_ready_queue := (if st = K_RDY then rq_add s t else g_ready_queue s),
       blks := blk_list_rm t (blks s),
       g_tick_head := (if tick_head (tasks s t) then removeAll t (g_tick_head s)
                       else g_tick_head s),
       tasks := (tasks s)(t := (tasks s t)\<lparr>tick_head := False, task_state := st, blk_state := b\<rparr>)\<rparr>"

lemma leave_wait_simps [simp]:
  "tasks (leave_wait st b s t)
     = (tasks s)(t := (tasks s t)\<lparr>tick_head := False, task_state := st, blk_state := b\<rparr>)"
  "blks (leave_wait st b s t) = blk_list_rm t (blks s)"
  "mutexes (leave_wait st b s t) = mutexes s"
  by (simp_all add: leave_wait_def)

lemma list_frame_leave: "list_frame s (leave_wait st b s t)"
  unfolding list_frame_def leave_wait_def by blast

lemma lists_ok_leave:
  assumes ok: "lists_ok s" and p: "pending (tasks s t)"
    and st: "st \<in> {K_RDY, K_SUSPENDED, K_DELETED}"
  shows "lists_ok (leave_wait st b s t)"
proof -
  note l = lists_okD [OF ok]
  let ?x = "(tasks s t)\<lparr>tick_head := False, task_state := st, blk_state := b\<rparr>"
  let ?T = "(tasks s)(t := ?x)"
  have np: "\<not> pending ?x" "\<not> sleeping ?x" "rdy ?x \<longleftrightarrow> st = K_RDY" and nr: "\<not> rdy (tasks s t)"
    using st p by (auto simp: task_kinds)
  have ni: "prio (tasks s t) \<noteq> RHINO_IDLE_PRI" using nr prio_ok_not_rdy [OF l(4)] by simp
  have "rdy_ok (if st = K_RDY then rq_add s t else g_ready_queue s) ?T"
  proof (cases "st = K_RDY")
    case True
    with np nr prio_ok_bound [OF l(4)] show ?thesis by (simp add: rdy_ok_rq_add [OF l(1)])
  next
    case False
    with np nr show ?thesis by (simp add: rdy_ok_same [OF l(1)])
  qed
  moreover have "blk_ok (blk_list_rm t (blks s)) ?T" using np by (intro blk_ok_rm [OF l(2)]) simp
  moreover have "tick_ok (if tick_head (tasks s t) then removeAll t (g_tick_head s) else g_tick_head s) ?T"
    using tick_ok_rm [OF l(3), of ?x t] np(1,2) tick_ok_rm_absent [OF l(3), of t]
    by (cases "tick_head (tasks s t)") (simp_all del: fun_upd_apply)
  moreover have "prio_ok ?T"
    using prio_ok_less_idle [OF l(4) ni] ni p by (intro prio_ok_upd [OF l(4)]) (auto simp: pending_def)
  ultimately show ?thesis by (simp add: lists_ok_def leave_wait_def)
qed

lemma mx_ok_leave:
  assumes mx: "mx_ok_but Y M B T" and st: "st \<in> {K_RDY, K_SUSPENDED, K_DELETED}"
    and del: "st = K_DELETED \<Longrightarrow> mutex_list (T t) = []" and p: "pending (T t)"
  shows "mx_ok_but Y M (blk_list_rm t B) (T(t := (T t)\<lparr>tick_head := False, task_state := st, blk_state := b\<rparr>))"
proof -
  let ?x = "(T t)\<lparr>tick_head := False, task_state := st, blk_state := b\<rparr>"
  have hd: "held (T(t := ?x)) = held T" using del p by (auto simp: held_def fun_eq_iff pending_def)
  have "mx_ok_but Y M B (T(t := ?x))"
    using mx st unfolding mx_ok_but_def hd by (auto simp: pending_def)
  then show ?thesis by (rule mx_ok_rm)
qed

lemma leave_wait_reset:
  fixes b :: blk_state_t
  assumes ok: "pi_ok s" and p: "pending (tasks s t)"
    and st: "st \<in> {K_RDY, K_SUSPENDED, K_DELETED}"
    and del: "st = K_DELETED \<Longrightarrow> mutex_list (tasks s t) = []"
  defines "s1 \<equiv> leave_wait st b s t"
  shows "lists_ok s1" "mx_ok (mutexes s1) (blks s1) (tasks s1)"
    "obj_type (blks s1 (blk_obj (tasks s1 t))) = RHINO_MUTEX_OBJ_TYPE \<Longrightarrow>
      blk_obj (tasks s1 t) \<in> set (held (tasks s1) (mutex_task (mutexes s1 (blk_obj (tasks s1 t)))))
      \<and> inh_ok_but {mutex_task (mutexes s1 (blk_obj (tasks s1 t)))} (blks s1) (tasks s1)"
    "obj_type (blks s1 (blk_obj (tasks s1 t))) \<noteq> RHINO_MUTEX_OBJ_TYPE
      \<or> prio (tasks s1 (mutex_task (mutexes s1 (blk_obj (tasks s1 t))))) \<noteq> prio (tasks s1 t) \<Longrightarrow>
      inh_ok (blks s1) (tasks s1)"
proof -
  have ls: "lists_ok s" and mx: "mx_ok (mutexes s) (blks s) (tasks s)" and inh: "inh_ok (blks s) (tasks s)"
    using ok by (simp_all add: pi_ok_but_def)
  note bl = lists_okD(2) [OF ls]
  let ?x = "(tasks s t)\<lparr>tick_head := False, task_state := st, blk_state := b\<rparr>"
  let ?o = "blk_obj (tasks s t)"
  have hd: "held ((tasks s)(t := ?x)) = held (tasks s)"
    using del p by (auto simp: held_def fun_eq_iff pending_def)
  show "lists_ok s1" unfolding s1_def by (rule lists_ok_leave [OF ls p st])
  show mx1: "mx_ok (mutexes s1) (blks s1) (tasks s1)"
    unfolding s1_def leave_wait_simps by (rule mx_ok_leave [OF mx st del p])
  note I = inh_ok_rm [OF bl mx inh, of t ?x]
  have I1: "inh_ok_but {mutex_task (mutexes s ?o)} (blk_list_rm t (blks s)) ((tasks s)(t := ?x))"
    by (rule I(1)) (use p in simp_all)
  have ob: "blk_obj (tasks s1 t) = ?o" "obj_type (blks s1 ?o) = obj_type (blks s ?o)"
    "mutex_task (mutexes s1 ?o) = mutex_task (mutexes s ?o)" "prio (tasks s1 u) = prio (tasks s u)" for u
    by (simp_all add: s1_def)
  show "blk_obj (tasks s1 t) \<in> set (held (tasks s1) (mutex_task (mutexes s1 (blk_obj (tasks s1 t)))))
      \<and> inh_ok_but {mutex_task (mutexes s1 (blk_obj (tasks s1 t)))} (blks s1) (tasks s1)"
    if "obj_type (blks s1 (blk_obj (tasks s1 t))) = RHINO_MUTEX_OBJ_TYPE"
    using that I1 owner_of_waiter(1) [OF bl mx p] unfolding ob by (simp add: s1_def hd)
  show "inh_ok (blks s1) (tasks s1)"
    if n: "obj_type (blks s1 (blk_obj (tasks s1 t))) \<noteq> RHINO_MUTEX_OBJ_TYPE
      \<or> prio (tasks s1 (mutex_task (mutexes s1 (blk_obj (tasks s1 t))))) \<noteq> prio (tasks s1 t)"
  proof -
    have "prio (tasks s u) \<noteq> prio (tasks s t)" if "t \<in> waiters (blks s) (tasks s) u" for u
      using waiter_owner [OF bl mx that] n unfolding ob by auto
    then have "inh_ok (blk_list_rm t (blks s)) ((tasks s)(t := ?x))"
      by (intro I(2)) (use p in simp_all)
    then show ?thesis by (simp add: s1_def)
  qed
qed

text \<open>The whole step for a task that lives on.\<close>

definition end_wait :: "task_stat_t \<Rightarrow> blk_state_t \<Rightarrow> kstate \<Rightarrow> ptr \<Rightarrow> kstate" where
  "end_wait st b s t =
     set_task t (\<lambda>x. x\<lparr>blk_obj := NULL\<rparr>) (mutex_task_pri_reset (leave_wait st b s t) t)"

lemma pi_ok_task_same:
  assumes ok: "pi_ok_but Y X s" and "prio x = prio (tasks s t)" "b_prio x = b_prio (tasks s t)"
    "mutex_list x = mutex_list (tasks s t)" "task_state x = task_state (tasks s t)"
    "tick_head x = tick_head (tasks s t)" and "pending x \<Longrightarrow> blk_obj x = blk_obj (tasks s t)"
  shows "pi_ok_but Y X (s\<lparr>tasks := (tasks s)(t := x)\<rparr>)"
proof -
  have ls: "lists_ok s" and mx: "mx_ok_but Y (mutexes s) (blks s) (tasks s)"
    and inh: "inh_ok_but X (blks s) (tasks s)"
    using ok by (simp_all add: pi_ok_but_def)
  note l = lists_okD [OF ls] and a = assms(2-)
  have k: "pending x = pending (tasks s t)" "rdy x = rdy (tasks s t)" "sleeping x = sleeping (tasks s t)"
    using a by (simp_all add: task_kinds)
  let ?T = "(tasks s)(t := x)"
  have "rdy_ok (g_ready_queue s) ?T" using a k by (intro rdy_ok_same [OF l(1)]) simp_all
  moreover have "blk_ok (blks s) ?T" using a k by (intro blk_ok_same [OF l(2)]) simp_all
  moreover have "tick_ok (g_tick_head s) ?T"
    using l(3) a k by (intro tick_ok_same [OF l(3)]) (auto simp: tick_ok_def)
  moreover have "prio_ok ?T"
    using l(4) a k by (intro prio_ok_same [OF l(4)]) (auto simp: prio_ok_def)
  moreover have "mutex_list (tasks s t) = []" if "task_state x = K_SEED"
    using mx_ok_held(7) [OF mx, of "first (mutex_list (tasks s t))" t] that a
      first_in_set [of "mutex_list (tasks s t)"] by (auto simp: held_def)
  then have "mx_ok_but Y (mutexes s) (blks s) ?T"
    using a k mx_ok_held(9) [OF mx, of _ t] by (intro mx_ok_same [OF mx]) auto
  moreover have "prio (?T u) = prio (tasks s u)" "b_prio (?T u) = b_prio (tasks s u)"
    "task_state (?T u) = task_state (tasks s u)" for u using a by simp_all
  then have "inh_ok_but X (blks s) ?T"
    using inh a waiters_upd [of x "tasks s" t "blks s"]
    unfolding inh_ok_but_def eff_prio_def by simp
  ultimately show ?thesis by (simp add: pi_ok_but_def lists_ok_def)
qed

lemma end_wait_ok:
  assumes ok: "pi_ok s" and p: "pending (tasks s t)" and st: "st \<in> {K_RDY, K_SUSPENDED}"
  shows "pi_ok (end_wait st b s t)" and "list_frame s (end_wait st b s t)"
    and "\<And>u. u \<noteq> t \<Longrightarrow> rdy (tasks (end_wait st b s t) u) = rdy (tasks s u)"
    and "\<And>u. task_state (tasks (end_wait st b s t) u) = (if u = t then st else task_state (tasks s u))"
    and "blk_state (tasks (end_wait st b s t) t) = b"
proof -
  let ?s1 = "leave_wait st b s t"
  have st3: "st \<in> {K_RDY, K_SUSPENDED, K_DELETED}" using st by auto
  have L: "lists_ok ?s1" "mx_ok (mutexes ?s1) (blks ?s1) (tasks ?s1)"
    using leave_wait_reset(1,2) [OF ok p st3] st by auto
  note L3 = leave_wait_reset(3) [OF ok p st3] and L4 = leave_wait_reset(4) [OF ok p st3]
  have R: "pi_ok (mutex_task_pri_reset ?s1 t) \<and> pri_frame ?s1 (mutex_task_pri_reset ?s1 t)"
    by (rule mutex_task_pri_reset_ok [OF L _ _ refl]) (rule L3 L4; use st in auto)+
  let ?s2 = "mutex_task_pri_reset ?s1 t"
  note F = pri_frameD [OF conjunct2 [OF R]]
  have np: "\<not> pending (tasks ?s2 t)" using F(1) [of t] st by (auto simp: pending_def)
  have eq: "end_wait st b s t = ?s2\<lparr>tasks := (tasks ?s2)(t := (tasks ?s2 t)\<lparr>blk_obj := NULL\<rparr>)\<rparr>"
    by (simp add: end_wait_def)
  show "pi_ok (end_wait st b s t)"
    unfolding eq using R np by (intro pi_ok_task_same) (auto simp: pending_def)
  show ts: "task_state (tasks (end_wait st b s t) u) = (if u = t then st else task_state (tasks s u))" for u
    unfolding eq using F(1) [of u] by (cases "u = t") simp_all
  then show "u \<noteq> t \<Longrightarrow> rdy (tasks (end_wait st b s t) u) = rdy (tasks s u)" for u
    by (simp add: rdy_def)
  show "blk_state (tasks (end_wait st b s t) t) = b" unfolding eq using F(5) [of t] by simp
  have "list_frame s ?s2"
    using R by (blast intro: list_frame_trans list_frame_leave list_frame_pri)
  moreover have "list_frame ?s2 (end_wait st b s t)"
  proof -
    have "end_wait st b s t = ?s2\<lparr>g_ready_queue := g_ready_queue ?s2, blks := blks ?s2,
        g_tick_head := g_tick_head ?s2, tasks := (tasks ?s2)(t := (tasks ?s2 t)\<lparr>blk_obj := NULL\<rparr>)\<rparr>"
      unfolding eq by simp
    then show ?thesis unfolding list_frame_def by blast
  qed
  ultimately show "list_frame s (end_wait st b s t)" by (rule list_frame_trans)
qed

lemma end_wait_tasks:
  assumes ok: "pi_ok s" and p: "pending (tasks s t)" and st: "st \<in> {K_RDY, K_SUSPENDED}"
  shows "tasks (end_wait st b s t) u = (if u = t
      then (tasks s t)\<lparr>tick_head := False, task_state := st, blk_state := b, blk_obj := NULL,
             prio := prio (tasks (end_wait st b s t) t)\<rparr>
      else (tasks s u)\<lparr>prio := prio (tasks (end_wait st b s t) u)\<rparr>)"
    and "g_tick_head (end_wait st b s t)
      = (if tick_head (tasks s t) then removeAll t (g_tick_head s) else g_tick_head s)"
proof -
  let ?s1 = "leave_wait st b s t"
  have st3: "st \<in> {K_RDY, K_SUSPENDED, K_DELETED}" using st by auto
  have L: "lists_ok ?s1" "mx_ok (mutexes ?s1) (blks ?s1) (tasks ?s1)"
    using leave_wait_reset(1,2) [OF ok p st3] st by auto
  note L3 = leave_wait_reset(3) [OF ok p st3] and L4 = leave_wait_reset(4) [OF ok p st3]
  have "pi_ok (mutex_task_pri_reset ?s1 t) \<and> pri_frame ?s1 (mutex_task_pri_reset ?s1 t)"
    by (rule mutex_task_pri_reset_ok [OF L _ _ refl]) (rule L3 L4; use st in auto)+
  then have F: "tasks (mutex_task_pri_reset ?s1 t) u = (tasks ?s1 u)\<lparr>prio := prio (tasks (mutex_task_pri_reset ?s1 t) u)\<rparr>"
    and k: "\<exists>a b c. mutex_task_pri_reset ?s1 t = ?s1\<lparr>g_ready_queue := a, tasks := b, blks := c\<rparr>" for u
    unfolding pri_frame_def by blast+
  show "tasks (end_wait st b s t) u = (if u = t
      then (tasks s t)\<lparr>tick_head := False, task_state := st, blk_state := b, blk_obj := NULL,
             prio := prio (tasks (end_wait st b s t) t)\<rparr>
      else (tasks s u)\<lparr>prio := prio (tasks (end_wait st b s t) u)\<rparr>)"
  proof (cases "u = t")
    case True
    have "\<exists>q. tasks (mutex_task_pri_reset ?s1 t) t = (tasks ?s1 t)\<lparr>prio := q\<rparr>" using F by blast
    then obtain q where q: "tasks (mutex_task_pri_reset ?s1 t) t = (tasks ?s1 t)\<lparr>prio := q\<rparr>" ..
    show ?thesis by (rule ktask_t.equality) (simp_all add: end_wait_def q True)
  next
    case False
    have "tasks (end_wait st b s t) u = tasks (mutex_task_pri_reset ?s1 t) u" "tasks ?s1 u = tasks s u"
      using False by (simp_all add: end_wait_def)
    with F [of u] False show ?thesis by simp
  qed
  from k have "g_tick_head (mutex_task_pri_reset ?s1 t) = g_tick_head ?s1" by (elim exE) (rule ssubst, assumption, simp)
  then show "g_tick_head (end_wait st b s t)
      = (if tick_head (tasks s t) then removeAll t (g_tick_head s) else g_tick_head s)"
    by (simp add: end_wait_def leave_wait_def)
qed

section \<open>Tasks that change place without waiting for anybody\<close>

text \<open>
  A live task moves between the ready lists, the tick list and nowhere, keeping its priorities,
  its mutexes and whether it is pending: sleeping, suspending, resuming, waking from sleep.
\<close>

lemma pi_ok_move:
  assumes ok: "pi_ok s" and x: "prio x = prio (tasks s t)" "b_prio x = b_prio (tasks s t)"
      "mutex_list x = mutex_list (tasks s t)" "pending x = pending (tasks s t)"
      "pending x \<Longrightarrow> blk_obj x = blk_obj (tasks s t)"
    and live: "task_state x \<notin> {K_SEED, K_DELETED}" "task_state (tasks s t) \<notin> {K_SEED, K_DELETED}"
    and idle: "prio (tasks s t) = RHINO_IDLE_PRI \<Longrightarrow> rdy x"
    and rq: "rdy_ok rq ((tasks s)(t := x))" and tk: "tick_ok L ((tasks s)(t := x))"
  shows "pi_ok (s\<lparr>g_ready_queue := rq, g_tick_head := L, tasks := (tasks s)(t := x)\<rparr>)"
    and "list_frame s (s\<lparr>g_ready_queue := rq, g_tick_head := L, tasks := (tasks s)(t := x)\<rparr>)"
proof -
  have ls: "lists_ok s" and mx: "mx_ok (mutexes s) (blks s) (tasks s)"
    and inh: "inh_ok (blks s) (tasks s)"
    using ok by (simp_all add: pi_ok_but_def)
  note l = lists_okD [OF ls]
  let ?T = "(tasks s)(t := x)" and ?s = "s\<lparr>g_ready_queue := rq, g_tick_head := L, tasks := (tasks s)(t := x)\<rparr>"
  have "blk_ok (blks s) ?T" using x by (intro blk_ok_same [OF l(2)]) simp_all
  moreover have "prio_ok ?T" using x live idle by (intro prio_ok_same [OF l(4)]) simp_all
  ultimately have L: "lists_ok ?s" using rq tk by (simp add: lists_ok_def)
  have "mx_ok (mutexes s) (blks s) ?T"
    using x live mx_ok_held(9) [OF mx, of _ t] by (intro mx_ok_same [OF mx]) auto
  moreover have "prio (?T u) = prio (tasks s u)" "b_prio (?T u) = b_prio (tasks s u)"
    "(task_state (?T u) = K_DELETED) = (task_state (tasks s u) = K_DELETED)" for u
    using x live by simp_all
  then have "inh_ok (blks s) ?T"
    using inh x live waiters_upd [of x "tasks s" t "blks s"]
    unfolding inh_ok_but_def eff_prio_def by simp
  ultimately show "pi_ok ?s" using L by (simp add: pi_ok_but_def)
  have "?s = s\<lparr>g_ready_queue := rq, blks := blks s, g_tick_head := L, tasks := ?T\<rparr>" by simp
  then show "list_frame s ?s" unfolding list_frame_def by blast
qed

text \<open>A task that is not ready any more.\<close>

lemma rdy_ok_unready:
  assumes ls: "lists_ok s" and r: "rdy (tasks s t)" and ni: "prio (tasks s t) \<noteq> RHINO_IDLE_PRI"
    and x: "\<not> rdy x"
  shows "rdy_ok (ready_list_rm (g_ready_queue s) t (prio (tasks s t))) ((tasks s)(t := x))"
proof -
  note l = lists_okD [OF ls]
  obtain u where "u \<noteq> t" "rdy (tasks s u)" using prio_ok_other [OF l(4) ni] .
  then show ?thesis using rdy_ok_rm [OF l(1) r refl x] by simp
qed

text \<open>A task that becomes ready.\<close>

lemma rdy_ok_ready:
  assumes ls: "lists_ok s" and n: "\<not> rdy (tasks s t)" and x: "rdy x" "prio x = prio (tasks s t)"
  shows "rdy_ok (rq_add s t) ((tasks s)(t := x))"
proof -
  note l = lists_okD [OF ls]
  show ?thesis using n x prio_ok_bound [OF l(4)] by (simp add: rdy_ok_rq_add [OF l(1)])
qed

text \<open>A task that stays where it is, neither ready before nor after.\<close>

lemma pi_ok_retask:
  assumes ok: "pi_ok s" and x: "prio x = prio (tasks s t)" "b_prio x = b_prio (tasks s t)"
      "mutex_list x = mutex_list (tasks s t)" "pending x = pending (tasks s t)"
      "pending x \<Longrightarrow> blk_obj x = blk_obj (tasks s t)" "sleeping x = sleeping (tasks s t)"
      "tick_head x = tick_head (tasks s t)" "rdy x = rdy (tasks s t)"
    and live: "task_state x \<notin> {K_SEED, K_DELETED}" "task_state (tasks s t) \<notin> {K_SEED, K_DELETED}"
  shows "pi_ok (s\<lparr>tasks := (tasks s)(t := x)\<rparr>)"
    and "list_frame s (s\<lparr>tasks := (tasks s)(t := x)\<rparr>)"
proof -
  have ls: "lists_ok s" using ok by (simp add: pi_ok_but_def)
  note l = lists_okD [OF ls]
  have "rdy_ok (g_ready_queue s) ((tasks s)(t := x))" using x by (intro rdy_ok_same [OF l(1)]) simp_all
  moreover have "tick_ok (g_tick_head s) ((tasks s)(t := x))"
    using x l(3) by (intro tick_ok_same [OF l(3)]) (auto simp: tick_ok_def)
  moreover have "prio (tasks s t) = RHINO_IDLE_PRI \<Longrightarrow> rdy x" using x l(4) by (auto simp: prio_ok_def)
  ultimately have "pi_ok (s\<lparr>g_ready_queue := g_ready_queue s, g_tick_head := g_tick_head s, tasks := (tasks s)(t := x)\<rparr>)"
    "list_frame s (s\<lparr>g_ready_queue := g_ready_queue s, g_tick_head := g_tick_head s, tasks := (tasks s)(t := x)\<rparr>)"
    using x live by (intro pi_ok_move [OF ok]; simp)+
  then show "pi_ok (s\<lparr>tasks := (tasks s)(t := x)\<rparr>)" "list_frame s (s\<lparr>tasks := (tasks s)(t := x)\<rparr>)"
    by simp_all
qed

text \<open>The place of a task that is made ready, or unready.\<close>

lemma pi_ok_make_ready:
  assumes ok: "pi_ok s" and x: "prio x = prio (tasks s t)" "b_prio x = b_prio (tasks s t)"
      "mutex_list x = mutex_list (tasks s t)" "\<not> tick_head x" "task_state x = K_RDY"
    and live: "task_state (tasks s t) \<in> {K_SUSPENDED, K_SLEEP, K_SLEEP_SUSPENDED}"
    and L: "L = (if tick_head (tasks s t) then removeAll t (g_tick_head s) else g_tick_head s)"
  shows "pi_ok (s\<lparr>g_ready_queue := rq_add s t, g_tick_head := L, tasks := (tasks s)(t := x)\<rparr>)"
    and "list_frame s (s\<lparr>g_ready_queue := rq_add s t, g_tick_head := L, tasks := (tasks s)(t := x)\<rparr>)"
proof -
  have ls: "lists_ok s" using ok by (simp add: pi_ok_but_def)
  note l = lists_okD [OF ls]
  have n: "\<not> rdy (tasks s t)" "\<not> pending (tasks s t)" "rdy x" "\<not> pending x" "\<not> sleeping x"
    using live x by (auto simp: task_kinds)
  have "rdy_ok (rq_add s t) ((tasks s)(t := x))" using n x by (intro rdy_ok_ready [OF ls]) simp_all
  moreover have "tick_ok L ((tasks s)(t := x))"
    unfolding L using tick_ok_rm [OF l(3), of x t] n x tick_ok_rm_absent [OF l(3), of t]
    by (cases "tick_head (tasks s t)") (simp_all del: fun_upd_apply)
  ultimately show "pi_ok (s\<lparr>g_ready_queue := rq_add s t, g_tick_head := L, tasks := (tasks s)(t := x)\<rparr>)"
    "list_frame s (s\<lparr>g_ready_queue := rq_add s t, g_tick_head := L, tasks := (tasks s)(t := x)\<rparr>)"
    using n x live by (intro pi_ok_move [OF ok]; auto)+
qed

end
