(* ===== verification/Task.thy ===== *)
theory Task
  imports Leave_Wait
begin

text \<open>
  \<^verbatim>\<open>kernel/rhino/core/k_task.c\<close>: creation of tasks, sleeping, yielding, suspending and resuming,
  changing priorities and aborting a wait. \<^verbatim>\<open>task_pri_change\<close> is in theory \<open>PrioInherit\<close>, the
  deletion of tasks in \<open>Task_Del\<close>. Every operation keeps the kernel invariant.
\<close>

section \<open>Creation\<close>

definition task_create ::
    "kstate \<Rightarrow> ptr \<Rightarrow> ptr \<Rightarrow> nat \<Rightarrow> tick \<Rightarrow> ptr \<Rightarrow> u32 \<Rightarrow> ptr \<Rightarrow> u8 \<Rightarrow> alloc_flag_t \<Rightarrow> u8
      \<Rightarrow> kstat \<times> kstate" where
  "task_create s task name pri ticks stack_buf stack_sz entry autorun mm_alloc_flag cpu =
     (if task = NULL then (RHINO_NULL_PTR, s)
      else if name = NULL then (RHINO_NULL_PTR, s)
      else if entry = NULL then (RHINO_NULL_PTR, s)
      else if stack_buf = NULL then (RHINO_NULL_PTR, s)
      else if stack_sz = 0 then (RHINO_TASK_INV_STACK_SIZE, s)
      else if pri \<ge> RHINO_CONFIG_PRI_MAX then (RHINO_BEYOND_MAX_PRI, s)
      else if g_intrpt_nested_level s > 0 then (RHINO_NOT_CALLED_BY_INTRPT, s)
      else if pri = RHINO_IDLE_PRI \<and> g_idle_task_spawned s then (RHINO_IDLE_TASK_EXIST, s)
      else
        let s = (if pri = RHINO_IDLE_PRI then s\<lparr>g_idle_task_spawned := True\<rparr> else s);
            s = set_task task (\<lambda>_. zero_task) s;
            s = set_task task (\<lambda>t. t\<lparr>time_total :=
                  (if ticks > 0 then ucast ticks else RHINO_CONFIG_TIME_SLICE_DEFAULT)\<rparr>) s;
            s = set_task task (\<lambda>t. t\<lparr>task_time_slice := time_total t, sched_policy := KSCHED_RR\<rparr>) s;
            s = (if autorun > 0 then set_task task (\<lambda>t. t\<lparr>task_state := K_RDY\<rparr>) s
                 else set_task task (\<lambda>t. t\<lparr>task_state := K_SUSPENDED, suspend_count := 1\<rparr>) s);
            s = set_task task (\<lambda>t. t\<lparr>prio := pri, b_prio := pri, stack_size := stack_sz,
                  task_mm_alloc_flag := mm_alloc_flag, cpu_num := cpu\<rparr>) s;
            s = g_kobj_list_update (kobj_task_head_update (\<lambda>l. l @ [task])) s
        in if autorun > 0 then
             let s = g_ready_queue_update
                       (\<lambda>rq. ready_list_add_tail rq task (prio (tasks s task))) s
             in if g_sys_stat s = RHINO_RUNNING then (RHINO_SUCCESS, core_sched s)
                else (RHINO_SUCCESS, s)
           else (RHINO_SUCCESS, s))"

definition krhino_task_create ::
    "kstate \<Rightarrow> ptr \<Rightarrow> ptr \<Rightarrow> nat \<Rightarrow> tick \<Rightarrow> ptr \<Rightarrow> u32 \<Rightarrow> ptr \<Rightarrow> u8 \<Rightarrow> kstat \<times> kstate" where
  "krhino_task_create s task name pri ticks stack_buf stack_sz entry autorun =
     task_create s task name pri ticks stack_buf stack_sz entry autorun K_OBJ_STATIC_ALLOC 0"

section \<open>The running task gives the CPU away\<close>

definition krhino_task_sleep :: "kstate \<Rightarrow> tick \<Rightarrow> kstat option \<times> kstate" where
  "krhino_task_sleep s ticks =
     (if ticks = 0 then (Some RHINO_INV_PARAM, s)
      else if g_intrpt_nested_level s > 0 then (Some RHINO_NOT_CALLED_BY_INTRPT, s)
      else if g_sched_lock s > 0 then (Some RHINO_SCHED_DISABLE, s)
      else
        let s = set_task (g_active_task s) (\<lambda>t. t\<lparr>task_state := K_SLEEP\<rparr>) s;
            s = tick_list_insert s (g_active_task s) ticks;
            s = g_ready_list_rm s (g_active_task s)
        in (None, core_sched s))"

definition krhino_task_sleep_resume :: "kstate \<Rightarrow> kstat \<times> kstate" where
  "krhino_task_sleep_resume s = pend_state_end_proc s (g_active_task s)"

definition krhino_task_yield :: "kstate \<Rightarrow> kstat \<times> kstate" where
  "krhino_task_yield s =
     (let s = g_ready_queue_update
                (\<lambda>rq. ready_list_head_to_tail rq (prio (tasks s (g_active_task s)))) s
      in (RHINO_SUCCESS, core_sched s))"

definition krhino_cur_task_get :: "kstate \<Rightarrow> ptr" where
  "krhino_cur_task_get s = g_active_task s"

section \<open>Suspending and resuming\<close>

definition task_suspend :: "kstate \<Rightarrow> ptr \<Rightarrow> kstat \<times> kstate" where
  "task_suspend s task =
     (if task = g_active_task s \<and> g_sched_lock s > 0 then (RHINO_SCHED_DISABLE, s)
      else
        case task_state (tasks s task) of
          K_RDY \<Rightarrow>
            let s = set_task task (\<lambda>t. t\<lparr>suspend_count := 1\<rparr>) s;
                s = set_task task (\<lambda>t. t\<lparr>task_state := K_SUSPENDED\<rparr>) s;
                s = g_ready_list_rm s task
            in (RHINO_SUCCESS, core_sched s)
        | K_SLEEP \<Rightarrow> (RHINO_SUCCESS, core_sched
            (set_task task (\<lambda>t. t\<lparr>suspend_count := 1, task_state := K_SLEEP_SUSPENDED\<rparr>) s))
        | K_PEND \<Rightarrow> (RHINO_SUCCESS, core_sched
            (set_task task (\<lambda>t. t\<lparr>suspend_count := 1, task_state := K_PEND_SUSPENDED\<rparr>) s))
        | K_SEED \<Rightarrow> (RHINO_INV_TASK_STATE, s)
        | K_DELETED \<Rightarrow> (RHINO_INV_TASK_STATE, s)
        | _ \<Rightarrow>
            if suspend_count (tasks s task) = - 1 then (RHINO_SUSPENDED_COUNT_OVF, s)
            else (RHINO_SUCCESS, core_sched
              (set_task task (\<lambda>t. t\<lparr>suspend_count := suspend_count t + 1\<rparr>) s)))"

definition krhino_task_suspend :: "kstate \<Rightarrow> ptr \<Rightarrow> kstat \<times> kstate" where
  "krhino_task_suspend s task =
     (if task = NULL then (RHINO_NULL_PTR, s)
      else if prio (tasks s task) = RHINO_IDLE_PRI then (RHINO_TASK_SUSPEND_NOT_ALLOWED, s)
      else task_suspend s task)"

definition task_resume :: "kstate \<Rightarrow> ptr \<Rightarrow> kstat \<times> kstate" where
  "task_resume s task =
     (case task_state (tasks s task) of
        K_SUSPENDED \<Rightarrow>
          let s = set_task task (\<lambda>t. t\<lparr>suspend_count := suspend_count t - 1\<rparr>) s;
              s = (if suspend_count (tasks s task) = 0 then
                     let s = set_task task (\<lambda>t. t\<lparr>task_state := K_RDY\<rparr>) s
                     in ready_list_add s task
                   else s)
          in (RHINO_SUCCESS, core_sched s)
      | K_SLEEP_SUSPENDED \<Rightarrow>
          let s = set_task task (\<lambda>t. t\<lparr>suspend_count := suspend_count t - 1\<rparr>) s;
              s = (if suspend_count (tasks s task) = 0
                   then set_task task (\<lambda>t. t\<lparr>task_state := K_SLEEP\<rparr>) s else s)
          in (RHINO_SUCCESS, core_sched s)
      | K_PEND_SUSPENDED \<Rightarrow>
          let s = set_task task (\<lambda>t. t\<lparr>suspend_count := suspend_count t - 1\<rparr>) s;
              s = (if suspend_count (tasks s task) = 0
                   then set_task task (\<lambda>t. t\<lparr>task_state := K_PEND\<rparr>) s else s)
          in (RHINO_SUCCESS, core_sched s)
      | K_SEED \<Rightarrow> (RHINO_INV_TASK_STATE, s)
      | K_DELETED \<Rightarrow> (RHINO_INV_TASK_STATE, s)
      | _ \<Rightarrow> (RHINO_TASK_NOT_SUSPENDED, s))"

definition krhino_task_resume :: "kstate \<Rightarrow> ptr \<Rightarrow> kstat \<times> kstate" where
  "krhino_task_resume s task =
     (if task = NULL then (RHINO_NULL_PTR, s) else task_resume s task)"

section \<open>Priorities\<close>

definition krhino_task_pri_change :: "kstate \<Rightarrow> ptr \<Rightarrow> nat \<Rightarrow> ptr \<Rightarrow> kstat \<times> kstate" where
  "krhino_task_pri_change s task pri old_pri =
     (if task = NULL then (RHINO_NULL_PTR, s)
      else if old_pri = NULL then (RHINO_NULL_PTR, s)
      else if prio (tasks s task) \<ge> RHINO_IDLE_PRI then (RHINO_PRI_CHG_NOT_ALLOWED, s)
      else if pri \<ge> RHINO_IDLE_PRI then (RHINO_PRI_CHG_NOT_ALLOWED, s)
      else if task_state (tasks s task) = K_DELETED then (RHINO_INV_TASK_STATE, s)
      else if g_intrpt_nested_level s > 0 then (RHINO_NOT_CALLED_BY_INTRPT, s)
      else
        let pri_limit = mutex_pri_limit s task pri;
            s = set_task task (\<lambda>t. t\<lparr>b_prio := pri\<rparr>) s;
            pri = pri_limit;
            s = umem_update (\<lambda>M. M(old_pri := of_nat (prio (tasks s task)))) s;
            (error, s) = task_pri_change s task pri
        in if error \<noteq> RHINO_SUCCESS then (error, s) else (RHINO_SUCCESS, core_sched s))"

section \<open>Aborting a wait\<close>

text \<open>The branch of \<^verbatim>\<open>krhino_task_wait_abort\<close> for a pending task.\<close>

definition pend_abort :: "kstate \<Rightarrow> ptr \<Rightarrow> kstate" where
  "pend_abort s task =
     (let s = tick_list_rm s task;
          s = blks_update (blk_list_rm task) s;
          s = ready_list_add s task;
          s = set_task task (\<lambda>t. t\<lparr>task_state := K_RDY\<rparr>) s;
          s = set_task task (\<lambda>t. t\<lparr>blk_state := BLK_ABORT\<rparr>) s;
          s = mutex_task_pri_reset s task
      in set_task task (\<lambda>t. t\<lparr>blk_obj := NULL\<rparr>) s)"

definition krhino_task_wait_abort :: "kstate \<Rightarrow> ptr \<Rightarrow> kstat \<times> kstate" where
  "krhino_task_wait_abort s task =
     (if task = NULL then (RHINO_NULL_PTR, s)
      else if g_intrpt_nested_level s > 0 then (RHINO_NOT_CALLED_BY_INTRPT, s)
      else
        case task_state (tasks s task) of
          K_RDY \<Rightarrow> (RHINO_SUCCESS, core_sched s)
        | K_SUSPENDED \<Rightarrow>
            let s = set_task task (\<lambda>t. t\<lparr>task_state := K_RDY\<rparr>) s;
                s = ready_list_add s task
            in (RHINO_SUCCESS, core_sched s)
        | K_SEED \<Rightarrow> (RHINO_INV_TASK_STATE, s)
        | K_DELETED \<Rightarrow> (RHINO_INV_TASK_STATE, s)
        | K_PEND \<Rightarrow> (RHINO_SUCCESS, core_sched (pend_abort s task))
        | K_PEND_SUSPENDED \<Rightarrow> (RHINO_SUCCESS, core_sched (pend_abort s task))
        | _ \<Rightarrow>
            let s = tick_list_rm s task;
                s = ready_list_add s task;
                s = set_task task (\<lambda>t. t\<lparr>task_state := K_RDY\<rparr>) s;
                s = set_task task (\<lambda>t. t\<lparr>blk_state := BLK_ABORT\<rparr>) s
            in (RHINO_SUCCESS, core_sched s))"

section \<open>Scheduling parameters and user data\<close>

definition krhino_task_time_slice_set :: "kstate \<Rightarrow> ptr \<Rightarrow> u32 \<Rightarrow> kstat \<times> kstate" where
  "krhino_task_time_slice_set s task new_slice =
     (if task = NULL then (RHINO_NULL_PTR, s)
      else if g_intrpt_nested_level s > 0 then (RHINO_NOT_CALLED_BY_INTRPT, s)
      else
        let s = set_task task (\<lambda>t. t\<lparr>time_total :=
                  (if new_slice > 0 then new_slice else RHINO_CONFIG_TIME_SLICE_DEFAULT)\<rparr>) s
        in (RHINO_SUCCESS, set_task task (\<lambda>t. t\<lparr>task_time_slice := time_total t\<rparr>) s))"

definition krhino_sched_policy_set :: "kstate \<Rightarrow> ptr \<Rightarrow> u8 \<Rightarrow> kstat \<times> kstate" where
  "krhino_sched_policy_set s task policy =
     (if task = NULL then (RHINO_NULL_PTR, s)
      else if policy \<noteq> KSCHED_FIFO \<and> policy \<noteq> KSCHED_RR then (RHINO_INV_SCHED_WAY, s)
      else if g_intrpt_nested_level s > 0 then (RHINO_NOT_CALLED_BY_INTRPT, s)
      else (RHINO_SUCCESS, set_task task (\<lambda>t. t\<lparr>sched_policy := policy\<rparr>) s))"

definition krhino_sched_policy_get :: "kstate \<Rightarrow> ptr \<Rightarrow> ptr \<Rightarrow> kstat \<times> kstate" where
  "krhino_sched_policy_get s task policy =
     (if task = NULL then (RHINO_NULL_PTR, s)
      else if policy = NULL then (RHINO_NULL_PTR, s)
      else if g_intrpt_nested_level s > 0 then (RHINO_NOT_CALLED_BY_INTRPT, s)
      else (RHINO_SUCCESS, umem_update (\<lambda>M. M(policy := ucast (sched_policy (tasks s task)))) s))"

definition RHINO_CONFIG_TASK_INFO_NUM :: nat where
  "RHINO_CONFIG_TASK_INFO_NUM = 2"

definition krhino_task_info_set :: "kstate \<Rightarrow> ptr \<Rightarrow> nat \<Rightarrow> ptr \<Rightarrow> kstat \<times> kstate" where
  "krhino_task_info_set s task idx info =
     (if task = NULL then (RHINO_NULL_PTR, s)
      else if idx \<ge> RHINO_CONFIG_TASK_INFO_NUM then (RHINO_INV_PARAM, s)
      else (RHINO_SUCCESS, set_task task (user_info_update (\<lambda>u. u(idx := info))) s))"

definition krhino_task_info_get :: "kstate \<Rightarrow> ptr \<Rightarrow> nat \<Rightarrow> ptr \<Rightarrow> kstat \<times> kstate" where
  "krhino_task_info_get s task idx info =
     (if task = NULL then (RHINO_NULL_PTR, s)
      else if info = NULL then (RHINO_NULL_PTR, s)
      else if idx \<ge> RHINO_CONFIG_TASK_INFO_NUM then (RHINO_INV_PARAM, s)
      else (RHINO_SUCCESS, umem_update (\<lambda>M. M(info := user_info (tasks s task) idx)) s))"

section \<open>The invariant\<close>

subsection \<open>Sleeping and yielding\<close>

text \<open>The state in which the running task has fallen asleep.\<close>

definition fall_asleep :: "kstate \<Rightarrow> tick \<Rightarrow> kstate" where
  "fall_asleep s ticks =
     (let a = g_active_task s;
          x = (tasks s a)\<lparr>task_state := K_SLEEP, tick_match := g_tick_count s + ticks,
                tick_remain := ticks\<rparr>
      in s\<lparr>g_ready_queue := ready_list_rm (g_ready_queue s) a (prio (tasks s a)),
           g_tick_head := insert_before
             (\<lambda>q. tick_match (((tasks s)(a := x)) q) - g_tick_count s > ticks) a (g_tick_head s),
           tasks := (tasks s)(a := x\<lparr>tick_head := True\<rparr>)\<rparr>)"

lemma krhino_task_sleep_eq:
  "krhino_task_sleep s ticks =
     (if ticks = 0 then (Some RHINO_INV_PARAM, s)
      else if g_intrpt_nested_level s > 0 then (Some RHINO_NOT_CALLED_BY_INTRPT, s)
      else if g_sched_lock s > 0 then (Some RHINO_SCHED_DISABLE, s)
      else (None, core_sched (fall_asleep s ticks)))"
proof -
  have "g_ready_list_rm (tick_list_insert (set_task (g_active_task s) (\<lambda>t. t\<lparr>task_state := K_SLEEP\<rparr>) s)
      (g_active_task s) ticks) (g_active_task s) = fall_asleep s ticks" if "ticks \<noteq> 0"
    using that by (simp add: fall_asleep_def tick_list_insert_def tick_list_pri_insert_def Let_def
        word_neq_0_conv [symmetric])
  moreover have "g_active_task (tick_list_insert s' t ticks) = g_active_task s'" for s' t
    by (simp add: tick_list_insert_def tick_list_pri_insert_def Let_def)
  ultimately show ?thesis by (simp add: krhino_task_sleep_def Let_def)
qed

lemma fall_asleep_ok:
  assumes ok: "kern_ok s" and i: "g_intrpt_nested_level s = 0"
    and ni: "prio (tasks s (g_active_task s)) \<noteq> RHINO_IDLE_PRI"
  shows "pi_ok (fall_asleep s ticks)" "list_frame s (fall_asleep s ticks)"
proof -
  note k = kern_okD [OF ok]
  have r: "rdy (tasks s (g_active_task s))" by (rule kern_ok_caller [OF ok i])
  have nt: "\<not> tick_head (tasks s (g_active_task s))"
    using lists_okD(3) [OF k(3)] r by (auto simp: tick_ok_def task_kinds)
  show "pi_ok (fall_asleep s ticks)" "list_frame s (fall_asleep s ticks)"
    unfolding fall_asleep_def Let_def using r ni nt
    by (intro pi_ok_move [OF k(1)] rdy_ok_unready [OF k(3)] tick_ok_add [OF lists_okD(3) [OF k(3)]];
      simp add: task_kinds)+
qed

lemma krhino_task_sleep_ok:
  assumes ok: "kern_ok s" and ni: "prio (tasks s (g_active_task s)) \<noteq> RHINO_IDLE_PRI"
  shows "kern_ok (snd (krhino_task_sleep s ticks))"
  unfolding krhino_task_sleep_eq
  apply (intro kern_ok_if)
     apply (simp_all only: snd_conv ok)
  subgoal premises p
  proof -
    have i: "g_intrpt_nested_level s = 0" "g_sched_lock s = 0" using p not_gr_zero_word by auto
    note F = fall_asleep_ok [OF ok i(1) ni, of ticks]
    show ?thesis using i list_frameD(9,10) [OF F(2)] by (intro kern_ok_core_sched [OF F(1)]) simp_all
  qed
  done

lemma krhino_task_yield_ok:
  assumes ok: "kern_ok s" and r: "rdy (tasks s (g_active_task s))"
  shows "kern_ok (snd (krhino_task_yield s))"
proof -
  note k = kern_okD [OF ok]
  let ?a = "g_active_task s"
  let ?s = "s\<lparr>g_ready_queue := ready_list_head_to_tail (g_ready_queue s) (prio (tasks s ?a)),
      g_tick_head := g_tick_head s, tasks := (tasks s)(?a := tasks s ?a)\<rparr>"
  have P: "pi_ok ?s" and F: "list_frame s ?s"
    using r lists_okD(1,3) [OF k(3)] by (intro pi_ok_move [OF k(1)]; simp add: rdy_ok_rotate task_kinds)+
  have "kern_ok (core_sched ?s)" by (rule kern_ok_resched [OF ok P F]) (use r in simp)
  moreover have "krhino_task_yield s = (RHINO_SUCCESS, core_sched ?s)"
    by (simp add: krhino_task_yield_def Let_def) (rule arg_cong [where f = core_sched], simp)
  ultimately show ?thesis by simp
qed

subsection \<open>Suspending and resuming\<close>

text \<open>What \<^verbatim>\<open>task_suspend\<close> and \<^verbatim>\<open>task_resume\<close> do to the lists and the task, before rescheduling.\<close>

definition suspended :: "kstate \<Rightarrow> ptr \<Rightarrow> kstate" where
  "suspended s t =
     (let x = tasks s t
      in case task_state x of
           K_RDY \<Rightarrow> s\<lparr>g_ready_queue := ready_list_rm (g_ready_queue s) t (prio x),
             tasks := (tasks s)(t := x\<lparr>suspend_count := 1, task_state := K_SUSPENDED\<rparr>)\<rparr>
         | K_SLEEP \<Rightarrow> s\<lparr>tasks := (tasks s)(t := x\<lparr>suspend_count := 1, task_state := K_SLEEP_SUSPENDED\<rparr>)\<rparr>
         | K_PEND \<Rightarrow> s\<lparr>tasks := (tasks s)(t := x\<lparr>suspend_count := 1, task_state := K_PEND_SUSPENDED\<rparr>)\<rparr>
         | _ \<Rightarrow> s\<lparr>tasks := (tasks s)(t := x\<lparr>suspend_count := suspend_count x + 1\<rparr>)\<rparr>)"

lemma task_suspend_eq:
  assumes "\<not> (t = g_active_task s \<and> g_sched_lock s > 0)" and "task_state (tasks s t) \<notin> {K_SEED, K_DELETED}"
  shows "task_suspend s t =
    (if task_state (tasks s t) \<in> {K_SUSPENDED, K_SLEEP_SUSPENDED, K_PEND_SUSPENDED} \<and> suspend_count (tasks s t) = - 1
     then (RHINO_SUSPENDED_COUNT_OVF, s) else (RHINO_SUCCESS, core_sched (suspended s t)))"
  using assms
  by (cases "task_state (tasks s t)") (auto simp: task_suspend_def suspended_def Let_def
      intro!: arg_cong [where f = core_sched])

lemma suspended_ok:
  assumes ok: "pi_ok s" and ni: "prio (tasks s t) \<noteq> RHINO_IDLE_PRI"
    and live: "task_state (tasks s t) \<notin> {K_SEED, K_DELETED}"
  shows "pi_ok (suspended s t) \<and> list_frame s (suspended s t)
    \<and> (\<forall>u. u \<noteq> t \<longrightarrow> tasks (suspended s t) u = tasks s u)"
proof (cases "rdy (tasks s t)")
  case True
  let ?x = "(tasks s t)\<lparr>suspend_count := 1, task_state := K_SUSPENDED\<rparr>"
  let ?s = "s\<lparr>g_ready_queue := ready_list_rm (g_ready_queue s) t (prio (tasks s t)),
      g_tick_head := g_tick_head s, tasks := (tasks s)(t := ?x)\<rparr>"
  have ls: "lists_ok s" using ok by (simp add: pi_ok_but_def)
  have nt: "\<not> tick_head (tasks s t)" using lists_okD(3) [OF ls] True by (auto simp: tick_ok_def task_kinds)
  have "tick_ok (g_tick_head s) ((tasks s)(t := ?x))"
    using nt by (intro tick_ok_same [OF lists_okD(3) [OF ls]]) (simp_all add: task_kinds)
  then have "pi_ok ?s" "list_frame s ?s"
    using True ni by (intro pi_ok_move [OF ok] rdy_ok_unready [OF ls]; simp add: task_kinds)+
  moreover have "suspended s t = ?s" using True by (simp add: suspended_def rdy_def Let_def)
  ultimately show ?thesis by simp
next
  case False
  define x where "x = tasks (suspended s t) t"
  have x: "suspended s t = s\<lparr>tasks := (tasks s)(t := x)\<rparr>" "prio x = prio (tasks s t)"
     "b_prio x = b_prio (tasks s t)" "mutex_list x = mutex_list (tasks s t)"
     "pending x = pending (tasks s t)" "blk_obj x = blk_obj (tasks s t)"
     "sleeping x = sleeping (tasks s t)" "tick_head x = tick_head (tasks s t)" "rdy x = rdy (tasks s t)"
     "task_state x \<notin> {K_SEED, K_DELETED}"
    using live False
    by (cases "task_state (tasks s t)"; simp add: suspended_def x_def Let_def task_kinds; fail)+
  show ?thesis
    unfolding x(1) using pi_ok_retask [OF ok x(2-5) _ x(7-10) live] x(6) by auto
qed

lemma task_suspend_ok:
  assumes ok: "kern_ok s" and ni: "prio (tasks s t) \<noteq> RHINO_IDLE_PRI"
  shows "kern_ok (snd (task_suspend s t))"
proof (cases "t = g_active_task s \<and> g_sched_lock s > 0 \<or> task_state (tasks s t) \<in> {K_SEED, K_DELETED}")
  case True
  with ok show ?thesis by (auto simp: task_suspend_def)
next
  case False
  note k = kern_okD [OF ok]
  note S = suspended_ok [OF k(1) ni]
  let ?s = "suspended s t"
  have S: "pi_ok ?s" "list_frame s ?s" "u \<noteq> t \<Longrightarrow> tasks ?s u = tasks s u" for u
    using S False by auto
  have "kern_ok (core_sched ?s)"
  proof (rule kern_ok_core_sched [OF S(1)])
    assume i: "g_intrpt_nested_level ?s > 0 \<or> g_sched_lock ?s > 0"
    show "act_safe ?s"
      using k(7) False i S(3) [of "g_active_task s"] list_frameD(8-10) [OF S(2)]
      by (cases "t = g_active_task s") (auto simp: act_safe_def word_neq_0_conv [symmetric])
  qed
  with ok False show ?thesis by (subst task_suspend_eq) auto
qed

text \<open>Resuming.\<close>

definition resumed :: "kstate \<Rightarrow> ptr \<Rightarrow> kstate" where
  "resumed s t =
     (let x = (tasks s t)\<lparr>suspend_count := suspend_count (tasks s t) - 1\<rparr>
      in if suspend_count x \<noteq> 0 then s\<lparr>tasks := (tasks s)(t := x)\<rparr>
         else case task_state x of
           K_SUSPENDED \<Rightarrow> s\<lparr>g_ready_queue := rq_add s t, tasks := (tasks s)(t := x\<lparr>task_state := K_RDY\<rparr>)\<rparr>
         | K_SLEEP_SUSPENDED \<Rightarrow> s\<lparr>tasks := (tasks s)(t := x\<lparr>task_state := K_SLEEP\<rparr>)\<rparr>
         | _ \<Rightarrow> s\<lparr>tasks := (tasks s)(t := x\<lparr>task_state := K_PEND\<rparr>)\<rparr>)"

lemma task_resume_eq:
  assumes "task_state (tasks s t) \<in> {K_SUSPENDED, K_SLEEP_SUSPENDED, K_PEND_SUSPENDED}"
  shows "task_resume s t = (RHINO_SUCCESS, core_sched (resumed s t))"
  using assms
  by (auto simp: task_resume_def resumed_def Let_def ready_list_add_eq intro!: arg_cong [where f = core_sched])

lemma resumed_ok:
  assumes ok: "pi_ok s"
    and st: "task_state (tasks s t) \<in> {K_SUSPENDED, K_SLEEP_SUSPENDED, K_PEND_SUSPENDED}"
  shows "pi_ok (resumed s t) \<and> list_frame s (resumed s t) \<and> (\<forall>u. u \<noteq> t \<longrightarrow> tasks (resumed s t) u = tasks s u)"
proof (cases "task_state (tasks s t) = K_SUSPENDED \<and> suspend_count (tasks s t) = 1")
  case True
  let ?x = "(tasks s t)\<lparr>suspend_count := suspend_count (tasks s t) - 1, task_state := K_RDY\<rparr>"
  have ls: "lists_ok s" using ok by (simp add: pi_ok_but_def)
  have nt: "\<not> tick_head (tasks s t)" using lists_okD(3) [OF ls] True by (auto simp: tick_ok_def task_kinds)
  have eq: "resumed s t = s\<lparr>g_ready_queue := rq_add s t, g_tick_head := g_tick_head s, tasks := (tasks s)(t := ?x)\<rparr>"
    using True by (simp add: resumed_def Let_def)
  show ?thesis
    unfolding eq using pi_ok_make_ready [OF ok, of ?x t "g_tick_head s"] True nt by simp
next
  case False
  let ?y = "(tasks s t)\<lparr>suspend_count := suspend_count (tasks s t) - 1\<rparr>"
  define x where "x = (if suspend_count ?y \<noteq> 0 then ?y
     else if task_state (tasks s t) = K_SLEEP_SUSPENDED then ?y\<lparr>task_state := K_SLEEP\<rparr>
     else ?y\<lparr>task_state := K_PEND\<rparr>)"
  have x: "resumed s t = s\<lparr>tasks := (tasks s)(t := x)\<rparr>" "prio x = prio (tasks s t)"
     "b_prio x = b_prio (tasks s t)" "mutex_list x = mutex_list (tasks s t)"
     "pending x = pending (tasks s t)" "blk_obj x = blk_obj (tasks s t)"
     "sleeping x = sleeping (tasks s t)" "tick_head x = tick_head (tasks s t)" "rdy x = rdy (tasks s t)"
     "task_state x \<notin> {K_SEED, K_DELETED}"
    using st False
    by (cases "task_state (tasks s t)"; simp add: resumed_def x_def task_kinds; fail)+
  have live: "task_state (tasks s t) \<notin> {K_SEED, K_DELETED}" using st by auto
  show ?thesis
    unfolding x(1) using pi_ok_retask [OF ok x(2-5) _ x(7-10) live] x(6) by auto
qed

lemma task_resume_ok:
  assumes ok: "kern_ok s"
  shows "kern_ok (snd (task_resume s t))"
proof (cases "task_state (tasks s t) \<in> {K_SUSPENDED, K_SLEEP_SUSPENDED, K_PEND_SUSPENDED}")
  case False
  with ok show ?thesis by (auto simp: task_resume_def split: task_stat_t.splits)
next
  case True
  note k = kern_okD [OF ok]
  note S = resumed_ok [OF k(1) True]
  have "kern_ok (core_sched (resumed s t))"
  proof (rule kern_ok_resched [OF ok])
    have "t \<noteq> g_active_task s" if "rdy (tasks s (g_active_task s))" using that True by (auto simp: rdy_def)
    then show "rdy (tasks (resumed s t) (g_active_task s))" if "rdy (tasks s (g_active_task s))"
      using that S by simp
  qed (use S in simp_all)
  with True show ?thesis by (simp add: task_resume_eq)
qed

subsection \<open>Changing a priority\<close>

lemma pri_change_start:
  assumes ok: "pi_ok s" and live: "task_state (tasks s t) \<notin> {K_SEED, K_DELETED}"
    and ni: "prio (tasks s t) \<noteq> RHINO_IDLE_PRI" and p: "pri < RHINO_IDLE_PRI"
    and s1: "s1 = s\<lparr>tasks := (tasks s)(t := (tasks s t)\<lparr>b_prio := pri\<rparr>), umem := U\<rparr>"
  shows "chain_ok s1 t (mutex_pri_limit s t pri)"
proof -
  have ls: "lists_ok s" and mx: "mx_ok (mutexes s) (blks s) (tasks s)" and inh: "inh_ok (blks s) (tasks s)"
    using ok by (simp_all add: pi_ok_but_def)
  note l = lists_okD [OF ls]
  let ?x = "(tasks s t)\<lparr>b_prio := pri\<rparr>"
  let ?T = "(tasks s)(t := ?x)"
  have "rdy_ok (g_ready_queue s) ?T" by (rule rdy_ok_same [OF l(1)]) (simp_all add: rdy_def)
  moreover have "blk_ok (blks s) ?T" by (rule blk_ok_same [OF l(2)]) (simp_all add: pending_def)
  moreover have "tick_ok (g_tick_head s) ?T"
    using l(3) by (intro tick_ok_same [OF l(3)]) (auto simp: tick_ok_def task_kinds)
  moreover have "prio_ok ?T"
    using live p ni prio_ok_less_idle(1) [OF l(4) ni] by (intro prio_ok_upd [OF l(4)]) simp_all
  ultimately have L: "lists_ok s1" by (simp add: lists_ok_def s1)
  have M: "mx_ok (mutexes s) (blks s) ?T"
    using live p mx_ok_held(9) [OF mx, of _ t] by (intro mx_ok_same [OF mx]) (auto simp: pending_def)
  have w: "waiters (blks s) ?T = waiters (blks s) (tasks s)" by (rule waiters_upd) simp_all
  have e: "eff_prio (blks s) ?T u = eff_prio (blks s) (tasks s) u" if "u \<noteq> t" for u
    by (rule eff_prio_cong) (use that in \<open>simp_all add: w\<close>)
  have I: "inh_ok_but {t} (blks s) ?T" using inh by (auto simp: inh_ok_but_def e)
  have q: "mutex_pri_limit s t pri = eff_prio (blks s) ?T t"
    by (rule mutex_pri_limit_eq [OF l(2) mx]) (use live in simp)
  have "eff_prio (blks s) ?T t < RHINO_IDLE_PRI"
    using eff_prio_le(1) [of "blks s" ?T t] p by simp
  with L M I q live ni show ?thesis by (simp add: chain_ok_but_def pi_ok_but_def s1)
qed

lemma krhino_task_pri_change_eq:
  assumes ok: "kern_ok s" and t: "t \<noteq> NULL" "old \<noteq> NULL" "prio (tasks s t) < RHINO_IDLE_PRI"
    "pri < RHINO_IDLE_PRI" "task_state (tasks s t) \<notin> {K_SEED, K_DELETED}"
    "g_intrpt_nested_level s = 0"
  shows "\<exists>s'. krhino_task_pri_change s t pri old = (RHINO_SUCCESS, core_sched s') \<and> pi_ok s'
    \<and> pri_frame (s\<lparr>tasks := (tasks s)(t := (tasks s t)\<lparr>b_prio := pri\<rparr>),
        umem := (umem s)(old := of_nat (prio (tasks s t)))\<rparr>) s'"
proof -
  let ?s1 = "s\<lparr>tasks := (tasks s)(t := (tasks s t)\<lparr>b_prio := pri\<rparr>),
        umem := (umem s)(old := of_nat (prio (tasks s t)))\<rparr>"
  have "chain_ok ?s1 t (mutex_pri_limit s t pri)"
    by (rule pri_change_start [OF kern_okD(1) [OF ok] t(5) _ t(4) refl]) (use t in simp)
  from task_pri_change_loop [OF this] obtain s' where
    "task_pri_change ?s1 t (mutex_pri_limit s t pri) = (RHINO_SUCCESS, s')" "pi_ok s'" "pri_frame ?s1 s'"
    by blast
  moreover have e: "umem_update (\<lambda>M. M(old := of_nat (prio (tasks s t)))) (set_task t (\<lambda>t. t\<lparr>b_prio := pri\<rparr>) s) = ?s1"
    by simp
  ultimately show ?thesis
    using t by (intro exI [of _ s']) (simp add: krhino_task_pri_change_def Let_def e)
qed

lemma krhino_task_pri_change_ok:
  assumes ok: "kern_ok s" and ns: "task_state (tasks s t) \<noteq> K_SEED"
  shows "kern_ok (snd (krhino_task_pri_change s t pri old))"
proof (cases "t \<noteq> NULL \<and> old \<noteq> NULL \<and> prio (tasks s t) < RHINO_IDLE_PRI \<and> pri < RHINO_IDLE_PRI
    \<and> task_state (tasks s t) \<noteq> K_DELETED \<and> g_intrpt_nested_level s = 0")
  case False
  with ok show ?thesis
    by (auto simp: krhino_task_pri_change_def word_neq_0_conv [symmetric])
next
  case True
  then obtain s' where s': "krhino_task_pri_change s t pri old = (RHINO_SUCCESS, core_sched s')" "pi_ok s'"
    and fr: "pri_frame (s\<lparr>tasks := (tasks s)(t := (tasks s t)\<lparr>b_prio := pri\<rparr>),
        umem := (umem s)(old := of_nat (prio (tasks s t)))\<rparr>) s'"
    using krhino_task_pri_change_eq [OF ok, of t old pri] ns by auto
  note k = kern_okD [OF ok]
  note F = list_frameD [OF list_frame_pri [OF fr]]
  have "act_safe s'"
    using k(7) pri_frameD(1) [OF fr, of "g_active_task s"] F
    by (cases "g_active_task s = t") (simp_all add: act_safe_def rdy_def)
  then show ?thesis unfolding s'(1) by (simp add: kern_ok_core_sched [OF s'(2)])
qed

subsection \<open>Aborting a wait\<close>

lemma pend_abort_eq: "pend_abort s t = end_wait K_RDY BLK_ABORT s t"
proof -
  have "set_task t (\<lambda>x. x\<lparr>blk_state := BLK_ABORT\<rparr>) (set_task t (\<lambda>x. x\<lparr>task_state := K_RDY\<rparr>)
      (ready_list_add (blks_update (blk_list_rm t) (tick_list_rm s t)) t)) = leave_wait K_RDY BLK_ABORT s t"
    by (simp add: leave_wait_def tick_list_rm_eq ready_list_add_eq)
  then show ?thesis unfolding pend_abort_def end_wait_def Let_def by simp
qed

text \<open>The state before rescheduling.\<close>

definition aborted :: "kstate \<Rightarrow> ptr \<Rightarrow> kstate" where
  "aborted s t =
     (let st = task_state (tasks s t)
      in if st = K_RDY then s
         else if st = K_PEND \<or> st = K_PEND_SUSPENDED then end_wait K_RDY BLK_ABORT s t
         else if st = K_SUSPENDED then
           s\<lparr>g_ready_queue := rq_add s t, tasks := (tasks s)(t := (tasks s t)\<lparr>task_state := K_RDY\<rparr>)\<rparr>
         else s\<lparr>g_ready_queue := rq_add s t,
           g_tick_head := (if tick_head (tasks s t) then removeAll t (g_tick_head s) else g_tick_head s),
           tasks := (tasks s)(t := (tasks s t)\<lparr>tick_head := False, task_state := K_RDY, blk_state := BLK_ABORT\<rparr>)\<rparr>)"

lemma krhino_task_wait_abort_eq:
  "krhino_task_wait_abort s t =
     (if t = NULL then (RHINO_NULL_PTR, s)
      else if g_intrpt_nested_level s > 0 then (RHINO_NOT_CALLED_BY_INTRPT, s)
      else if task_state (tasks s t) \<in> {K_SEED, K_DELETED} then (RHINO_INV_TASK_STATE, s)
      else (RHINO_SUCCESS, core_sched (aborted s t)))"
proof -
  note d = krhino_task_wait_abort_def aborted_def pend_abort_eq ready_list_add_eq Let_def
  show ?thesis
    by (cases "task_state (tasks s t)"; simp add: d tick_list_rm_eq;
      (intro conjI impI arg_cong [where f = core_sched] kstate.equality; simp)?)
qed

lemma aborted_ok:
  assumes ok: "pi_ok s" and live: "task_state (tasks s t) \<notin> {K_SEED, K_DELETED}"
  shows "pi_ok (aborted s t) \<and> list_frame s (aborted s t)
    \<and> (\<forall>u. task_state (tasks (aborted s t) u) = (if u = t then K_RDY else task_state (tasks s u)))
    \<and> (\<not> rdy (tasks s t) \<and> task_state (tasks s t) \<noteq> K_SUSPENDED \<longrightarrow> blk_state (tasks (aborted s t) t) = BLK_ABORT)"
proof (cases "pending (tasks s t)")
  case True
  then have "aborted s t = end_wait K_RDY BLK_ABORT s t" by (auto simp: aborted_def pending_def)
  then show ?thesis using end_wait_ok [OF ok True, where st = K_RDY and b = BLK_ABORT] by simp
next
  case np: False
  have ls: "lists_ok s" using ok by (simp add: pi_ok_but_def)
  show ?thesis
  proof (cases "rdy (tasks s t)")
    case True
    with ok show ?thesis by (simp add: aborted_def rdy_def)
  next
    case False
    let ?L = "if tick_head (tasks s t) then removeAll t (g_tick_head s) else g_tick_head s"
    define x where "x = tasks (aborted s t) t"
    have th: "task_state (tasks s t) = K_SUSPENDED \<Longrightarrow> \<not> tick_head (tasks s t)"
      using lists_okD(3) [OF ls] by (auto simp: tick_ok_def task_kinds)
    have st: "task_state (tasks s t) \<in> {K_SUSPENDED, K_SLEEP, K_SLEEP_SUSPENDED}"
      using np False live by (cases "task_state (tasks s t)") (simp_all add: task_kinds)
    have eq: "aborted s t = s\<lparr>g_ready_queue := rq_add s t, g_tick_head := ?L, tasks := (tasks s)(t := x)\<rparr>"
      using st th by (auto simp: aborted_def x_def Let_def)
    have x: "prio x = prio (tasks s t)" "b_prio x = b_prio (tasks s t)" "mutex_list x = mutex_list (tasks s t)"
      "\<not> tick_head x" "task_state x = K_RDY"
      "task_state (tasks s t) \<noteq> K_SUSPENDED \<Longrightarrow> blk_state x = BLK_ABORT"
      using st th by (auto simp: aborted_def x_def Let_def)
    show ?thesis
      unfolding eq using pi_ok_make_ready [OF ok x(1-5) st refl] x(5,6) by simp
  qed
qed

lemma krhino_task_wait_abort_ok:
  assumes ok: "kern_ok s"
  shows "kern_ok (snd (krhino_task_wait_abort s t))"
  unfolding krhino_task_wait_abort_eq
  apply (intro kern_ok_if)
     apply (simp_all only: snd_conv ok)
  subgoal premises p
    using aborted_ok [OF kern_okD(1) [OF ok] p(3)]
    by (intro kern_ok_resched [OF ok]) (auto simp: rdy_def)
  done

subsection \<open>Creation\<close>

text \<open>The control block \<^verbatim>\<open>task_create\<close> builds.\<close>

definition new_task :: "nat \<Rightarrow> tick \<Rightarrow> u32 \<Rightarrow> u8 \<Rightarrow> alloc_flag_t \<Rightarrow> u8 \<Rightarrow> ktask_t" where
  "new_task pri ticks stack_sz autorun mm_alloc_flag cpu =
     (let total = (if ticks > 0 then ucast ticks else RHINO_CONFIG_TIME_SLICE_DEFAULT)
      in zero_task\<lparr>time_total := total, task_time_slice := total, sched_policy := KSCHED_RR,
           task_state := (if autorun > 0 then K_RDY else K_SUSPENDED),
           suspend_count := (if autorun > 0 then 0 else 1), prio := pri, b_prio := pri,
           stack_size := stack_sz, task_mm_alloc_flag := mm_alloc_flag, cpu_num := cpu\<rparr>)"

lemma new_task_simps [simp]:
  "prio (new_task p k z r m c) = p" "b_prio (new_task p k z r m c) = p"
  "mutex_list (new_task p k z r m c) = []" "\<not> tick_head (new_task p k z r m c)"
  "task_state (new_task p k z r m c) = (if r > 0 then K_RDY else K_SUSPENDED)"
  by (simp_all add: new_task_def zero_task_def Let_def)

definition created :: "kstate \<Rightarrow> ptr \<Rightarrow> ktask_t \<Rightarrow> kstate" where
  "created s t x =
     s\<lparr>g_kobj_list := kobj_task_head_update (\<lambda>l. l @ [t]) (g_kobj_list s),
       g_ready_queue := (if rdy x then ready_list_add_tail (g_ready_queue s) t (prio x)
                         else g_ready_queue s),
       tasks := (tasks s)(t := x)\<rparr>"

lemma task_create_eq:
  assumes "t \<noteq> NULL" "name \<noteq> NULL" "entry \<noteq> NULL" "stack_buf \<noteq> NULL" "stack_sz \<noteq> 0" "pri < RHINO_IDLE_PRI"
    "g_intrpt_nested_level s = 0"
  shows "task_create s t name pri ticks stack_buf stack_sz entry autorun mm cpu =
    (RHINO_SUCCESS,
     if autorun > 0 \<and> g_sys_stat s = RHINO_RUNNING
     then core_sched (created s t (new_task pri ticks stack_sz autorun mm cpu))
     else created s t (new_task pri ticks stack_sz autorun mm cpu))"
proof -
  have p: "pri < RHINO_CONFIG_PRI_MAX" "pri \<noteq> RHINO_IDLE_PRI" using assms(6) by (auto simp: RHINO_IDLE_PRI_def)
  let ?total = "if ticks > 0 then ucast ticks else RHINO_CONFIG_TIME_SLICE_DEFAULT"
  let ?s1 = "set_task t (\<lambda>t. t\<lparr>time_total := ?total\<rparr>) (set_task t (\<lambda>_. zero_task) s)"
  let ?s2 = "set_task t (\<lambda>t. t\<lparr>task_time_slice := time_total t, sched_policy := KSCHED_RR\<rparr>) ?s1"
  let ?s3 = "if autorun > 0 then set_task t (\<lambda>t. t\<lparr>task_state := K_RDY\<rparr>) ?s2
                 else set_task t (\<lambda>t. t\<lparr>task_state := K_SUSPENDED, suspend_count := 1\<rparr>) ?s2"
  let ?s4 = "set_task t (\<lambda>t. t\<lparr>prio := pri, b_prio := pri, stack_size := stack_sz,
                  task_mm_alloc_flag := mm, cpu_num := cpu\<rparr>) ?s3"
  let ?x = "new_task pri ticks stack_sz autorun mm cpu"
  have s4: "?s4 = s\<lparr>tasks := (tasks s)(t := ?x)\<rparr>"
    by (cases "autorun > 0") (simp_all add: new_task_def Let_def zero_task_def)
  have c: "g_kobj_list_update (kobj_task_head_update (\<lambda>l. l @ [t])) (s\<lparr>tasks := (tasks s)(t := ?x)\<rparr>)
      = created s t ?x" if "\<not> autorun > 0"
    using that by (simp add: created_def rdy_def)
  have d: "g_ready_queue_update (\<lambda>rq. ready_list_add_tail rq t pri)
       (g_kobj_list_update (kobj_task_head_update (\<lambda>l. l @ [t])) (s\<lparr>tasks := (tasks s)(t := ?x)\<rparr>))
      = created s t ?x" if "autorun > 0"
    using that by (simp add: created_def rdy_def)
  have i: "(if pri = RHINO_IDLE_PRI then s\<lparr>g_idle_task_spawned := True\<rparr> else s) = s" using p by simp
  have q: "prio (tasks (g_kobj_list_update f (s\<lparr>tasks := (tasks s)(t := ?x)\<rparr>)) t) = pri" for f by simp
  show ?thesis
    using assms p c d unfolding task_create_def Let_def i s4 q
    by (cases "autorun > 0"; cases "g_sys_stat s = RHINO_RUNNING") (simp_all add: created_def)
qed

lemma created_ok:
  assumes ok: "pi_ok s" and t: "t \<noteq> NULL" "task_state (tasks s t) \<in> {K_SEED, K_DELETED}"
    and x: "task_state x \<in> {K_RDY, K_SUSPENDED}" "\<not> tick_head x" "mutex_list x = []"
      "b_prio x = prio x" "prio x < RHINO_IDLE_PRI"
  shows "pi_ok (created s t x)"
proof -
  have ls: "lists_ok s" and mx: "mx_ok (mutexes s) (blks s) (tasks s)" and inh: "inh_ok (blks s) (tasks s)"
    using ok by (simp_all add: pi_ok_but_def)
  note l = lists_okD [OF ls]
  let ?T = "(tasks s)(t := x)"
  have n: "\<not> rdy (tasks s t)" "\<not> pending (tasks s t)" "\<not> sleeping (tasks s t)" "\<not> pending x" "\<not> sleeping x"
    using t x by (auto simp: task_kinds)
  have th: "\<not> tick_head (tasks s t)" using l(3) n by (auto simp: tick_ok_def)
  have ni: "prio (tasks s t) \<noteq> RHINO_IDLE_PRI" using n prio_ok_not_rdy [OF l(4)] by simp
  have pm: "prio x < RHINO_CONFIG_PRI_MAX" using x by (simp add: RHINO_IDLE_PRI_def)
  have "rdy_ok (if rdy x then ready_list_add_tail (g_ready_queue s) t (prio x) else g_ready_queue s) ?T"
    using n pm rdy_ok_add_tail [OF l(1) n(1), of x] rdy_ok_same [OF l(1), of x t] by simp
  moreover have "blk_ok (blks s) ?T" using n by (intro blk_ok_same [OF l(2)]) simp_all
  moreover have "tick_ok (g_tick_head s) ?T"
    using n th x by (intro tick_ok_same [OF l(3)]) simp_all
  moreover have "prio_ok ?T" using x ni t by (intro prio_ok_upd [OF l(4)]) auto
  ultimately have L: "lists_ok (created s t x)" by (simp add: lists_ok_def created_def)
  have ht: "held (tasks s) t = []"
    using mx_ok_held(7,8) [OF mx, of "first (held (tasks s) t)" t] t(2)
      first_in_set [of "held (tasks s) t"] by auto
  have hd: "held ?T = held (tasks s)" using ht x by (auto simp: held_def fun_eq_iff)
  have M: "mx_ok (mutexes s) (blks s) ?T"
    using mx ht unfolding mx_ok_but_def hd by auto
  have w: "waiters (blks s) ?T = waiters (blks s) (tasks s)" by (simp add: waiters_def hd fun_eq_iff)
  have nw: "t \<notin> waiters (blks s) (tasks s) u" for u
    using n(2) l(2) by (auto simp: waiters_def blk_ok_mem)
  have "inh_ok (blks s) ?T"
    unfolding inh_ok_but_def
  proof (intro allI impI)
    fix u
    assume u: "u \<notin> {} \<and> task_state (?T u) \<noteq> K_DELETED"
    show "prio (?T u) = eff_prio (blks s) ?T u"
    proof (cases "u = t")
      case True
      have "waiters (blks s) ?T t = {}" by (simp add: w waiters_def ht)
      with True x show ?thesis by (simp add: eff_prio_def)
    next
      case False
      have "eff_prio (blks s) ?T u = eff_prio (blks s) (tasks s) u"
        by (rule eff_prio_cong) (use False w nw in auto)
      with False u inh show ?thesis by (simp add: inh_ok_but_def)
    qed
  qed
  with L M show ?thesis by (simp add: pi_ok_but_def created_def)
qed

text \<open>
  The control block must not be in use, and the idle task has been created before (by
  \<^verbatim>\<open>krhino_init\<close>).
\<close>

lemma krhino_task_create_ok:
  assumes ok: "kern_ok s" and t: "task_state (tasks s t) \<in> {K_SEED, K_DELETED}"
    and run: "g_sys_stat s = RHINO_RUNNING" "g_idle_task_spawned s"
  shows "kern_ok (snd (krhino_task_create s t name pri ticks stack_buf stack_sz entry autorun))"
proof (cases "t \<noteq> NULL \<and> name \<noteq> NULL \<and> entry \<noteq> NULL \<and> stack_buf \<noteq> NULL \<and> stack_sz \<noteq> 0
    \<and> pri < RHINO_IDLE_PRI \<and> g_intrpt_nested_level s = 0")
  case False
  then have "snd (krhino_task_create s t name pri ticks stack_buf stack_sz entry autorun) = s"
    using run by (auto simp: krhino_task_create_def task_create_def RHINO_IDLE_PRI_def word_neq_0_conv)
  with ok show ?thesis by simp
next
  case True
  note k = kern_okD [OF ok]
  define x where "x = new_task pri ticks stack_sz autorun K_OBJ_STATIC_ALLOC 0"
  have x: "task_state x \<in> {K_RDY, K_SUSPENDED}" "\<not> tick_head x" "mutex_list x = []"
      "b_prio x = prio x" "prio x < RHINO_IDLE_PRI" "rdy x \<longleftrightarrow> autorun > 0"
    using True by (simp_all add: x_def rdy_def)
  have P: "pi_ok (created s t x)" using t True x by (intro created_ok [OF k(1)]) auto
  have e: "snd (krhino_task_create s t name pri ticks stack_buf stack_sz entry autorun)
      = (if autorun > 0 then core_sched (created s t x) else created s t x)"
    using True run by (simp add: krhino_task_create_def task_create_eq x_def)
  have at: "g_active_task s \<noteq> t"
    using t kern_ok_caller [OF ok] True by (auto simp: rdy_def)
  have fr: "g_active_task (created s t x) = g_active_task s" "g_sched_lock (created s t x) = g_sched_lock s"
    "g_intrpt_nested_level (created s t x) = g_intrpt_nested_level s"
    "tasks (created s t x) (g_active_task s) = tasks s (g_active_task s)"
    "\<not> rdy x \<Longrightarrow> g_ready_queue (created s t x) = g_ready_queue s"
    using at by (simp_all add: created_def)
  have sf: "act_safe (created s t x)" using k(7) by (simp add: act_safe_def fr)
  show ?thesis
  proof (cases "autorun > 0")
    case True
    then show ?thesis unfolding e by (simp add: kern_ok_core_sched [OF P] sf)
  next
    case False
    then have "act_ok (created s t x)" using k(2) sf x(6) by (simp add: act_ok_def fr)
    then show ?thesis unfolding e using False P by (simp add: kern_ok_def)
  qed
qed

section \<open>What the operations do\<close>

text \<open>The ready lists after suspending and resuming a task: only its own place can be another.\<close>

lemma cur_list_rq_add:
  "cur_list_item (rq_add s t) p = (if p = prio (tasks s t)
     then (if prio (tasks s t) = prio (tasks s (g_active_task s)) then cur_list_item (g_ready_queue s) p @ [t]
           else t # cur_list_item (g_ready_queue s) p)
     else cur_list_item (g_ready_queue s) p)"
  by (simp add: rq_add_def)

lemma resumed_suspended_lists:
  assumes ls: "lists_ok s" and r: "rdy (tasks s t)"
  defines "s1 \<equiv> core_sched (suspended s t)"
  shows "t \<in> set (cur_list_item (g_ready_queue (resumed s1 t)) p) \<longleftrightarrow> p = prio (tasks s t)"
    "removeAll t (cur_list_item (g_ready_queue (resumed s1 t)) p) = removeAll t (cur_list_item (g_ready_queue s) p)"
proof -
  let ?p = "prio (tasks s t)"
  note mem = rdy_ok_mem [OF lists_okD(1) [OF ls], of t]
  have t: "t \<in> set (cur_list_item (g_ready_queue s) ?p)" using r by (simp add: mem)
  have "distinct (cur_list_item (g_ready_queue s) ?p)"
    using lists_okD(1) [OF ls] by (simp add: rdy_ok_def rq_wf_distinct)
  then have q: "cur_list_item (g_ready_queue s1) = (cur_list_item (g_ready_queue s))
      (?p := removeAll t (cur_list_item (g_ready_queue s) ?p))"
    using r t by (simp add: s1_def suspended_def rdy_def Let_def cur_list_rm)
  have x: "prio (tasks s1 t) = ?p" "task_state (tasks s1 t) = K_SUSPENDED" "suspend_count (tasks s1 t) = 1"
    using r by (simp_all add: s1_def suspended_def rdy_def Let_def)
  then have e: "g_ready_queue (resumed s1 t) = rq_add s1 t" by (simp add: resumed_def Let_def)
  show "t \<in> set (cur_list_item (g_ready_queue (resumed s1 t)) p) \<longleftrightarrow> p = ?p"
    unfolding e cur_list_rq_add x(1) q by (auto simp: mem)
  show "removeAll t (cur_list_item (g_ready_queue (resumed s1 t)) p) = removeAll t (cur_list_item (g_ready_queue s) p)"
    unfolding e cur_list_rq_add x(1) q by simp
qed

lemma resumed_suspended_not_rdy:
  assumes "\<not> rdy (tasks s t)" and "task_state (tasks s t) \<notin> {K_SEED, K_DELETED}"
  shows "g_ready_queue (suspended s t) = g_ready_queue s"
    and "task_state (tasks s t) = K_SUSPENDED \<Longrightarrow> suspend_count (tasks s t) \<noteq> 0 \<Longrightarrow>
      g_ready_queue (resumed (core_sched (suspended s t)) t) = g_ready_queue s"
    and "task_state (tasks s t) \<noteq> K_SUSPENDED \<Longrightarrow>
      g_ready_queue (resumed (core_sched (suspended s t)) t) = g_ready_queue s"
  using assms
  by (cases "task_state (tasks s t)"; simp add: suspended_def resumed_def rdy_def Let_def)+

text \<open>C34: Suspending nests: after a successful \<^verbatim>\<open>krhino_task_suspend\<close> one \<^verbatim>\<open>krhino_task_resume\<close> brings
  the whole kernel back. The task is in the state it was in, waiting, sleeping, ready or suspended as
  deep as before (its count is not 0 then, as the code has it); no other task has changed, and the
  waiting lists and the tick list are as they were. A task that was ready is on the ready list of its
  priority again, though maybe at another place, all others keep their order, and the invariant holds.\<close>

theorem suspend_resume_roundtrip:
  assumes ok: "kern_ok s" and run: "krhino_task_suspend s task = (RHINO_SUCCESS, s')"
    and cnt: "task_state (tasks s task) \<in> {K_SUSPENDED, K_SLEEP_SUSPENDED, K_PEND_SUSPENDED} \<Longrightarrow>
      suspend_count (tasks s task) \<noteq> 0"
  shows "\<exists>s''. krhino_task_resume s' task = (RHINO_SUCCESS, s'') \<and> kern_ok s''
    \<and> tasks s'' = (if task_state (tasks s task) \<in> {K_RDY, K_SLEEP, K_PEND}
        then (tasks s)(task := (tasks s task)\<lparr>suspend_count := 0\<rparr>) else tasks s)
    \<and> blks s'' = blks s \<and> g_tick_head s'' = g_tick_head s \<and> mutexes s'' = mutexes s
    \<and> (\<forall>p. (task \<in> set (cur_list_item (g_ready_queue s'') p) \<longleftrightarrow> task \<in> set (cur_list_item (g_ready_queue s) p))
        \<and> removeAll task (cur_list_item (g_ready_queue s'') p) = removeAll task (cur_list_item (g_ready_queue s) p))"
proof -
  have n: "task \<noteq> NULL" "prio (tasks s task) \<noteq> RHINO_IDLE_PRI" and ts: "task_suspend s task = (RHINO_SUCCESS, s')"
    using run by (auto simp: krhino_task_suspend_def split: if_splits)
  have a: "\<not> (task = g_active_task s \<and> g_sched_lock s > 0)" "task_state (tasks s task) \<notin> {K_SEED, K_DELETED}"
    using ts by (auto simp: task_suspend_def split: if_splits)
  have s': "s' = core_sched (suspended s task)"
    using ts unfolding task_suspend_eq [OF a] by (auto split: if_splits)
  have st: "task_state (tasks s' task) \<in> {K_SUSPENDED, K_SLEEP_SUSPENDED, K_PEND_SUSPENDED}"
    using a(2) unfolding s' by (cases "task_state (tasks s task)") (simp_all add: suspended_def Let_def)
  have r: "krhino_task_resume s' task = (RHINO_SUCCESS, core_sched (resumed s' task))"
    using n(1) by (simp add: krhino_task_resume_def task_resume_eq [OF st])
  have K: "kern_ok (core_sched (resumed s' task))"
    using task_resume_ok [OF task_suspend_ok [OF ok n(2)], of task] unfolding ts by (simp add: task_resume_eq [OF st])
  have T: "tasks (resumed s' task) = (if task_state (tasks s task) \<in> {K_RDY, K_SLEEP, K_PEND}
      then (tasks s)(task := (tasks s task)\<lparr>suspend_count := 0\<rparr>) else tasks s)"
    using a(2) cnt by (cases "task_state (tasks s task)") (simp_all add: s' resumed_def suspended_def Let_def fun_eq_iff)
  have F: "blks (resumed s' task) = blks s" "g_tick_head (resumed s' task) = g_tick_head s"
    "mutexes (resumed s' task) = mutexes s"
    using a(2) by (cases "task_state (tasks s task)"; simp add: s' resumed_def suspended_def Let_def)+
  have L: "(task \<in> set (cur_list_item (g_ready_queue (resumed s' task)) p) \<longleftrightarrow> task \<in> set (cur_list_item (g_ready_queue s) p))
      \<and> removeAll task (cur_list_item (g_ready_queue (resumed s' task)) p) = removeAll task (cur_list_item (g_ready_queue s) p)" for p
  proof (cases "rdy (tasks s task)")
    case True
    note ls = kern_okD(3) [OF ok]
    show ?thesis
      using resumed_suspended_lists [OF ls True, of p] True unfolding s' by (auto simp: rdy_ok_mem [OF lists_okD(1) [OF ls]])
  next
    case False
    then show ?thesis
      using resumed_suspended_not_rdy(2,3) [OF False a(2)] cnt unfolding s'
      by (cases "task_state (tasks s task) = K_SUSPENDED") simp_all
  qed
  show ?thesis using r K T F L by (intro exI [of _ "core_sched (resumed s' task)"]) simp
qed

theorem suspend_resume_roundtrip_witness:
  "\<exists>s' s''. krhino_task_suspend ex_state 3 = (RHINO_SUCCESS, s') \<and> task_state (tasks s' 3) = K_SUSPENDED
    \<and> krhino_task_resume s' 3 = (RHINO_SUCCESS, s'') \<and> 3 \<in> set (cur_list_item (g_ready_queue s'') 20)"
proof -
  have r: "krhino_task_suspend ex_state 3 = (RHINO_SUCCESS, core_sched (suspended ex_state 3))"
    by (simp add: krhino_task_suspend_def task_suspend_eq ex_eval)
  have "3 \<in> set (cur_list_item (g_ready_queue ex_state) 20)"
    using rdy_ok_mem [OF lists_okD(1) [OF kern_okD(3) [OF ex_kern_ok]], of 3 20] by (simp add: ex_eval rdy_def)
  moreover have "task_state (tasks ex_state 3) = K_RDY" by (simp add: ex_eval)
  moreover from this have "task_state (tasks (core_sched (suspended ex_state 3)) 3) = K_SUSPENDED"
    by (simp add: suspended_def Let_def)
  moreover obtain s'' where "krhino_task_resume (core_sched (suspended ex_state 3)) 3 = (RHINO_SUCCESS, s'')"
    "3 \<in> set (cur_list_item (g_ready_queue s'') 20) \<longleftrightarrow> 3 \<in> set (cur_list_item (g_ready_queue ex_state) 20)"
    using suspend_resume_roundtrip [OF ex_kern_ok r] calculation(2) by auto
  ultimately show ?thesis using r by blast
qed

text \<open>C33: \<^verbatim>\<open>krhino_task_pri_change\<close> reports the old priority, makes the new one the base priority of
  the task, and the task runs at it unless a waiter for one of its mutexes needs it to be more
  urgent; the invariant, with the inheritance equation for everybody along the chain, holds
  afterwards.\<close>

theorem pri_change_correct:
  assumes "kern_ok s" and "task \<noteq> NULL" "old_pri \<noteq> NULL" "prio (tasks s task) < RHINO_IDLE_PRI"
    and "pri < RHINO_IDLE_PRI" "task_state (tasks s task) \<notin> {K_SEED, K_DELETED}"
    and "g_intrpt_nested_level s = 0"
  shows "\<exists>s'. krhino_task_pri_change s task pri old_pri = (RHINO_SUCCESS, s') \<and> kern_ok s'
    \<and> b_prio (tasks s' task) = pri \<and> prio (tasks s' task) \<le> pri
    \<and> umem s' old_pri = of_nat (prio (tasks s task))
    \<and> (held (tasks s) task = [] \<longrightarrow> prio (tasks s' task) = pri)"
proof -
  from krhino_task_pri_change_eq [OF assms] obtain s' where
    s': "krhino_task_pri_change s task pri old_pri = (RHINO_SUCCESS, core_sched s')" "pi_ok s'"
    and fr: "pri_frame (s\<lparr>tasks := (tasks s)(task := (tasks s task)\<lparr>b_prio := pri\<rparr>),
        umem := (umem s)(old_pri := of_nat (prio (tasks s task)))\<rparr>) s'"
    by blast
  note F = pri_frameD [OF fr] and L = list_frameD [OF list_frame_pri [OF fr]]
  have "kern_ok (core_sched s')"
    using krhino_task_pri_change_ok [OF assms(1), of task pri old_pri] s'(1) assms(6) by simp
  moreover have "prio (tasks s' task) = eff_prio (blks s') (tasks s') task"
    using s'(2) F(1) [of task] assms(6) by (simp add: pi_ok_but_def inh_ok_but_def)
  moreover have "held (tasks s') task = held (tasks s) task"
    unfolding pri_frame_held [OF fr] by (simp add: held_def)
  ultimately show ?thesis
    using s'(1) F(2) [of task] L(6) eff_prio_le(1) [of "blks s'" "tasks s'" task]
    by (auto simp: eff_prio_def waiters_def)
qed

theorem pri_change_correct_witness:
  "\<exists>s'. krhino_task_pri_change ex_state 4 5 1 = (RHINO_SUCCESS, s') \<and> kern_ok s'
    \<and> b_prio (tasks s' 4) = 5 \<and> prio (tasks s' 4) = 5 \<and> umem s' 1 = 30"
  using pri_change_correct [OF ex_kern_ok, of 4 1 5]
  by (auto simp: ex_defs held_def RHINO_IDLE_PRI_def RHINO_CONFIG_PRI_MAX_def)

text \<open>C36: Aborting the wait of a task takes it off the list of the object and the tick list and
  makes it ready; when it runs again its call returns \<^verbatim>\<open>RHINO_BLK_ABORT\<close>.\<close>

theorem wait_abort_wakes:
  assumes "kern_ok s" and "krhino_task_wait_abort s task = (RHINO_SUCCESS, s')"
    and "pending (tasks s task) \<or> sleeping (tasks s task)"
  shows "kern_ok s' \<and> task_state (tasks s' task) = K_RDY
    \<and> (\<forall>ob. task \<notin> set (blk_list (blks s' ob))) \<and> task \<notin> set (g_tick_head s')
    \<and> fst (pend_state_end_proc s' task) = RHINO_BLK_ABORT"
proof -
  have live: "task_state (tasks s task) \<notin> {K_SEED, K_DELETED}" and s': "s' = core_sched (aborted s task)"
    using assms(2) unfolding krhino_task_wait_abort_eq by (auto split: if_splits)
  have ok': "kern_ok s'" using krhino_task_wait_abort_ok [OF assms(1), of task] assms(2) by simp
  note A = aborted_ok [OF kern_okD(1) [OF assms(1)] live]
  have st: "task_state (tasks s' task) = K_RDY" using A by (simp add: s')
  have n: "\<not> rdy (tasks s task)" "task_state (tasks s task) \<noteq> K_SUSPENDED"
    using assms(3) by (auto simp: task_kinds)
  have b: "blk_state (tasks s' task) = BLK_ABORT" using A n by (simp add: s')
  have k: "\<not> pending (tasks s' task)" "\<not> sleeping (tasks s' task)" using st by (simp_all add: task_kinds)
  note l = lists_okD [OF kern_okD(3) [OF ok']]
  show ?thesis
    using ok' st b k l(2,3) by (auto simp: blk_ok_mem tick_ok_def pend_state_end_proc_def)
qed

theorem wait_abort_wakes_witness:
  "let s' = snd (krhino_task_wait_abort ex_state 4)
   in kern_ok s' \<and> task_state (tasks s' 4) = K_RDY \<and> 4 \<notin> set (blk_list (blks s' 101))
     \<and> fst (pend_state_end_proc s' 4) = RHINO_BLK_ABORT"
proof -
  have "krhino_task_wait_abort ex_state 4 = (RHINO_SUCCESS, snd (krhino_task_wait_abort ex_state 4))"
    by (simp add: krhino_task_wait_abort_eq) (simp add: ex_defs)
  moreover have "pending (tasks ex_state 4) \<or> sleeping (tasks ex_state 4)" by (simp add: ex_defs pending_def)
  ultimately show ?thesis using wait_abort_wakes [OF ex_kern_ok] by (simp add: Let_def)
qed

end
