(* ===== verification/Task_Del.thy ===== *)
theory Task_Del
  imports Task
begin

text \<open>
  Deletion of tasks (\<^verbatim>\<open>task_mutex_free\<close> and \<^verbatim>\<open>krhino_task_del\<close> of \<^verbatim>\<open>k_task.c\<close>). A deleted task
  gives the mutexes it holds to their most urgent waiters and leaves every list it is on.

  While its mutexes go, the task that is being deleted is compared with a ghost of it that holds
  none and whose base priority is its current one: the inheritance equation holds for the ghost,
  and nothing the deletion does depends on the difference.
\<close>

section \<open>The operations\<close>

text \<open>
  The loop of \<^verbatim>\<open>task_mutex_free\<close> over the chain of the task. The chain itself is not cleared, so a
  deleted task keeps a stale one.
\<close>

fun task_mutex_free_loop :: "kstate \<Rightarrow> ptr list \<Rightarrow> kstate" where
  "task_mutex_free_loop s [] = s"
| "task_mutex_free_loop s (mutex # next_mutex) =
     (let s = (if blk_list (blks s mutex) \<noteq> [] then
                 let next_task = first (blk_list (blks s mutex));
                     s = pend_task_wakeup s next_task;
                     s = set_mutex mutex (\<lambda>m. m\<lparr>mutex_task := next_task\<rparr>) s
                 in set_task next_task (mutex_list_update (\<lambda>ms. mutex # ms)) s
               else set_mutex mutex (\<lambda>m. m\<lparr>mutex_task := NULL\<rparr>) s)
      in task_mutex_free_loop s next_mutex)"

definition task_mutex_free :: "kstate \<Rightarrow> ptr \<Rightarrow> kstate" where
  "task_mutex_free s task = task_mutex_free_loop s (mutex_list (tasks s task))"

text \<open>The switch of \<^verbatim>\<open>krhino_task_del\<close>, \<open>None\<close> for its default case.\<close>

definition task_del_switch :: "kstate \<Rightarrow> ptr \<Rightarrow> kstate option" where
  "task_del_switch s task =
     (case task_state (tasks s task) of
        K_RDY \<Rightarrow>
          let s = g_ready_list_rm s task
          in Some (set_task task (\<lambda>t. t\<lparr>task_state := K_DELETED\<rparr>) s)
      | K_SUSPENDED \<Rightarrow> Some (set_task task (\<lambda>t. t\<lparr>task_state := K_DELETED\<rparr>) s)
      | K_SEED \<Rightarrow> None
      | K_DELETED \<Rightarrow> None
      | K_SLEEP \<Rightarrow>
          let s = tick_list_rm s task
          in Some (set_task task (\<lambda>t. t\<lparr>task_state := K_DELETED\<rparr>) s)
      | K_SLEEP_SUSPENDED \<Rightarrow>
          let s = tick_list_rm s task
          in Some (set_task task (\<lambda>t. t\<lparr>task_state := K_DELETED\<rparr>) s)
      | _ \<Rightarrow>
          let s = tick_list_rm s task;
              s = blks_update (blk_list_rm task) s;
              s = set_task task (\<lambda>t. t\<lparr>task_state := K_DELETED\<rparr>) s
          in Some (mutex_task_pri_reset s task))"

definition krhino_task_del :: "kstate \<Rightarrow> ptr \<Rightarrow> kstat \<times> kstate" where
  "krhino_task_del s task =
     (if g_intrpt_nested_level s > 0 then (RHINO_NOT_CALLED_BY_INTRPT, s)
      else
        let task = (if task = NULL then g_active_task s else task)
        in if prio (tasks s task) = RHINO_IDLE_PRI then (RHINO_TASK_DEL_NOT_ALLOWED, s)
           else if task_mm_alloc_flag (tasks s task) \<noteq> K_OBJ_STATIC_ALLOC
             then (RHINO_KOBJ_DEL_ERR, s)
           else if task = g_active_task s \<and> g_sched_lock s > 0 then (RHINO_SCHED_DISABLE, s)
           else
             let s = task_mutex_free s task
             in case task_del_switch s task of
                  None \<Rightarrow> (RHINO_INV_TASK_STATE, s)
                | Some s \<Rightarrow>
                    let s = g_kobj_list_update (kobj_task_head_update (removeAll task)) s
                    in (RHINO_SUCCESS, core_sched s))"

section \<open>The ghost of a task\<close>

definition forget :: "ptr \<Rightarrow> kstate \<Rightarrow> kstate" where
  "forget t s = s\<lparr>tasks := (tasks s)(t := (tasks s t)\<lparr>mutex_list := [], b_prio := prio (tasks s t)\<rparr>)\<rparr>"

lemma forget_simps [simp]:
  "tasks (forget t s) = (tasks s)(t := (tasks s t)\<lparr>mutex_list := [], b_prio := prio (tasks s t)\<rparr>)"
  "blks (forget t s) = blks s" "mutexes (forget t s) = mutexes s"
  "g_ready_queue (forget t s) = g_ready_queue s" "g_tick_head (forget t s) = g_tick_head s"
  "g_active_task (forget t s) = g_active_task s"
  by (simp_all add: forget_def)

lemma forget_ok:
  assumes ok: "pi_ok s" and live: "task_state (tasks s t) \<noteq> K_DELETED" and ni: "prio (tasks s t) \<noteq> RHINO_IDLE_PRI"
  shows "pi_ok_but (set (mutex_list (tasks s t))) {} (forget t s)"
    and "\<And>m u. m \<in> set (mutex_list (tasks s t)) \<Longrightarrow> m \<notin> set (held (tasks (forget t s)) u)"
proof -
  have ls: "lists_ok s" and mx: "mx_ok (mutexes s) (blks s) (tasks s)" and inh: "inh_ok (blks s) (tasks s)"
    using ok by (simp_all add: pi_ok_but_def)
  note l = lists_okD [OF ls]
  let ?x = "(tasks s t)\<lparr>mutex_list := [], b_prio := prio (tasks s t)\<rparr>"
  let ?T = "(tasks s)(t := ?x)" and ?Y = "set (mutex_list (tasks s t))"
  have pb: "prio (tasks s t) < RHINO_IDLE_PRI" by (rule prio_ok_less_idle(1) [OF l(4) ni])
  have "rdy_ok (g_ready_queue s) ?T" by (rule rdy_ok_same [OF l(1)]) (simp_all add: rdy_def)
  moreover have "blk_ok (blks s) ?T" by (rule blk_ok_same [OF l(2)]) (simp_all add: pending_def)
  moreover have "tick_ok (g_tick_head s) ?T"
    using l(3) by (intro tick_ok_same [OF l(3)]) (auto simp: tick_ok_def task_kinds)
  moreover have "prio_ok ?T" using pb ni by (intro prio_ok_upd [OF l(4)]) (auto simp: l(4) [unfolded prio_ok_def])
  ultimately have L: "lists_ok (forget t s)" by (simp add: lists_ok_def)
  have hd: "held ?T u = (if u = t then [] else held (tasks s) u)" for u by (simp add: held_def)
  have ht: "held (tasks s) t = mutex_list (tasks s t)" using live by (simp add: held_def)
  have own: "u = t" if "m \<in> ?Y" "m \<in> set (held (tasks s) u)" for m u
    using mx_ok_held(3) [OF mx that(2)] mx_ok_held(3) [OF mx, of m t] that(1) ht by simp
  then show "m \<notin> set (held (tasks (forget t s)) u)" if "m \<in> ?Y" for m u
    using that by (auto simp: hd)
  have M: "mx_ok_but ?Y (mutexes s) (blks s) ?T"
  proof -
    have f: "b_prio (?T u) \<noteq> RHINO_IDLE_PRI" "task_state (?T u) = task_state (tasks s u)"
      "pending (?T u) = pending (tasks s u)" "blk_obj (?T u) = blk_obj (tasks s u)" if "b_prio (tasks s u) \<noteq> RHINO_IDLE_PRI" for u
      using that ni by (simp_all add: pending_def)
    have o: "m \<in> set (held ?T (mutex_task (mutexes s m)))"
      if "m \<in> set (held (tasks s) (mutex_task (mutexes s m)))" "m \<notin> ?Y" for m
      using that ht by (auto simp: hd)
    show ?thesis
      unfolding mx_ok_but_def
    proof (intro conjI allI impI)
      fix u m assume "m \<in> set (held ?T u)"
      then have m: "m \<in> set (held (tasks s) u)" by (simp add: hd split: if_splits)
      note h = mx_ok_held [OF mx m]
      show "m \<noteq> NULL" "u \<noteq> NULL" "mutex_task (mutexes s m) = u" "obj_type (blks s m) = RHINO_MUTEX_OBJ_TYPE"
        using h by simp_all
      show "task_state (?T u) \<noteq> K_SEED" "b_prio (?T u) \<noteq> RHINO_IDLE_PRI" using h f by simp_all
      show "blk_obj (?T u) \<noteq> m" if "pending (?T u)" using h(9) f [OF h(6)] that by simp
    next
      fix m assume "obj_type (blks s m) = RHINO_MUTEX_OBJ_TYPE \<and> m \<notin> ?Y
          \<and> (blk_list (blks s m) \<noteq> [] \<or> mutex_task (mutexes s m) \<noteq> NULL)"
      then show "m \<in> set (held ?T (mutex_task (mutexes s m)))"
        by (intro o mx_ok_owned [OF mx]) auto
    qed (use mx hd in \<open>auto simp: mx_ok_but_def\<close>)
  qed
  have wt: "waiters (blks s) ?T u = (if u = t then {} else waiters (blks s) (tasks s) u)" for u
    by (simp add: waiters_def hd)
  have "inh_ok (blks s) ?T"
    unfolding inh_ok_but_def
  proof (intro allI impI)
    fix u
    assume u: "u \<notin> {} \<and> task_state (?T u) \<noteq> K_DELETED"
    show "prio (?T u) = eff_prio (blks s) ?T u"
    proof (cases "u = t")
      case True
      then show ?thesis by (simp add: eff_prio_def wt)
    next
      case False
      have "eff_prio (blks s) ?T u = eff_prio (blks s) (tasks s) u"
        by (rule eff_prio_cong) (use False in \<open>auto simp: wt\<close>)
      with False u inh show ?thesis by (simp add: inh_ok_but_def)
    qed
  qed
  with L M show "pi_ok_but ?Y {} (forget t s)" by (simp add: pi_ok_but_def)
qed

text \<open>What differs between a deleted task and its ghost matters to nobody.\<close>

lemma dead_same:
  assumes T: "task_state (T t) = K_DELETED"
    and x: "task_state x = K_DELETED" "prio x = prio (T t)" "tick_head x = tick_head (T t)" "b_prio x < RHINO_IDLE_PRI"
  shows "rdy_ok rq T \<Longrightarrow> rdy_ok rq (T(t := x))" "blk_ok B T \<Longrightarrow> blk_ok B (T(t := x))"
    "tick_ok L T \<Longrightarrow> tick_ok L (T(t := x))" "prio_ok T \<Longrightarrow> prio_ok (T(t := x))"
    "held (T(t := x)) = held T"
    "mx_ok_but Y M B T \<Longrightarrow> mx_ok_but Y M B (T(t := x))"
    "inh_ok_but X B T \<Longrightarrow> inh_ok_but X B (T(t := x))"
proof -
  have n: "\<not> rdy x" "\<not> rdy (T t)" "\<not> pending x" "\<not> pending (T t)" "\<not> sleeping x" "\<not> sleeping (T t)"
    using T x by (simp_all add: task_kinds)
  show "rdy_ok rq (T(t := x))" if "rdy_ok rq T" using n by (intro rdy_ok_same [OF that]) simp_all
  show "blk_ok B (T(t := x))" if "blk_ok B T" using n by (intro blk_ok_same [OF that]) simp_all
  show "tick_ok L (T(t := x))" if "tick_ok L T"
    using n x that by (intro tick_ok_same [OF that]) (auto simp: tick_ok_def)
  show "prio_ok (T(t := x))" if "prio_ok T"
  proof -
    have "prio (T t) \<noteq> RHINO_IDLE_PRI" using that n prio_ok_not_rdy by blast
    then show ?thesis
      using x T prio_ok_less_idle(1) [OF that] by (intro prio_ok_upd [OF that]) auto
  qed
  show hd: "held (T(t := x)) = held T" using T x by (auto simp: held_def fun_eq_iff)
  have h0: "held T t = []" using T by (simp add: held_def)
  show "mx_ok_but Y M B (T(t := x))" if "mx_ok_but Y M B T"
    using that h0 unfolding mx_ok_but_def hd by auto
  have w: "waiters B (T(t := x)) = waiters B T" for B by (simp add: waiters_def hd fun_eq_iff)
  show "inh_ok_but X B (T(t := x))" if i: "inh_ok_but X B T"
    unfolding inh_ok_but_def
  proof (intro allI impI)
    fix u
    assume u: "u \<notin> X \<and> task_state ((T(t := x)) u) \<noteq> K_DELETED"
    then have ut: "u \<noteq> t" using x by auto
    have "eff_prio B (T(t := x)) u = eff_prio B T u"
      by (rule eff_prio_cong) (use ut w x in \<open>auto split: if_splits\<close>)
    with i u ut show "prio ((T(t := x)) u) = eff_prio B (T(t := x)) u" by (simp add: inh_ok_but_def)
  qed
qed

lemma forget_dead:
  assumes t: "task_state (tasks s t) = K_DELETED" and b: "b_prio (tasks s t) < RHINO_IDLE_PRI"
  shows "lists_ok (forget t s) \<Longrightarrow> lists_ok s"
    and "held (tasks (forget t s)) = held (tasks s)"
    and "mx_ok_but Y (mutexes s) (blks s) (tasks (forget t s)) \<Longrightarrow> mx_ok_but Y (mutexes s) (blks s) (tasks s)"
    and "inh_ok_but X (blks s) (tasks (forget t s)) \<Longrightarrow> inh_ok_but X (blks s) (tasks s)"
    and "pi_ok_but Y X (forget t s) \<Longrightarrow> pi_ok_but Y X s"
proof -
  have e: "(tasks (forget t s))(t := tasks s t) = tasks s" by simp
  have d: "task_state (tasks (forget t s) t) = K_DELETED" "prio (tasks s t) = prio (tasks (forget t s) t)"
    "tick_head (tasks s t) = tick_head (tasks (forget t s) t)" using t by simp_all
  note D = dead_same [where T = "tasks (forget t s)" and t = t and x = "tasks s t", OF d(1) t d(2,3) b, unfolded e]
  show 1: "lists_ok s" if "lists_ok (forget t s)"
    using D(1-4) lists_okD [OF that] unfolding lists_ok_def by auto
  show "held (tasks (forget t s)) = held (tasks s)" using D(5) by (simp only:)
  show 2: "mx_ok_but Y (mutexes s) (blks s) (tasks s)" if "mx_ok_but Y (mutexes s) (blks s) (tasks (forget t s))"
    using D(6) that .
  show 3: "inh_ok_but X (blks s) (tasks s)" if "inh_ok_but X (blks s) (tasks (forget t s))"
    using D(7) that .
  show "pi_ok_but Y X s" if "pi_ok_but Y X (forget t s)"
    using 1 2 3 that unfolding pi_ok_but_def by simp
qed

section \<open>Giving the mutexes away\<close>

definition pass_mutex :: "kstate \<Rightarrow> ptr \<Rightarrow> kstate" where
  "pass_mutex s m =
     (if blk_list (blks s m) \<noteq> [] then hand_over s m
      else set_mutex m (\<lambda>x. x\<lparr>mutex_task := NULL\<rparr>) s)"

lemma task_mutex_free_loop_Cons:
  assumes "blk_ok (blks s) (tasks s)"
  shows "task_mutex_free_loop s (m # ms) = task_mutex_free_loop (pass_mutex s m) ms"
proof (cases "blk_list (blks s m) = []")
  case True
  then show ?thesis by (simp add: pass_mutex_def)
next
  case False
  with first_waiter(2) [OF assms False] show ?thesis
    by (simp add: pass_mutex_def hand_over_def Let_def pend_task_wakeup_eq)
qed

lemma rq_add_forget [simp]: "rq_add (forget t s) w = rq_add s w"
  by (rule rq_add_cong) simp_all

lemma hand_over_forget:
  assumes "first (blk_list (blks s m)) \<noteq> t"
  shows "hand_over (forget t s) m = forget t (hand_over s m)"
proof -
  let ?w = "first (blk_list (blks s m))"
  have "wake_task b (forget t s) ?w = forget t (wake_task b s ?w)" for b
    using assms by (simp add: wake_task_def forget_def rq_add_forget [unfolded forget_def] fun_upd_twist)
  then show ?thesis
    using assms by (simp add: hand_over_def Let_def) (simp add: forget_def fun_upd_twist comp_def)
qed

lemma pass_mutex_forget:
  assumes "blk_ok (blks s) (tasks s)" and "t \<notin> set (blk_list (blks s m))"
  shows "pass_mutex (forget t s) m = forget t (pass_mutex s m)"
proof (cases "blk_list (blks s m) = []")
  case True
  then show ?thesis by (simp add: pass_mutex_def) (simp add: forget_def)
next
  case False
  then have "first (blk_list (blks s m)) \<noteq> t" using assms(2) first_in_set by metis
  with False show ?thesis by (simp add: pass_mutex_def hand_over_forget)
qed

lemma mx_ok_free_one:
  assumes "mx_ok_but (insert m Y) M B T" and "blk_list (B m) = []" and "\<And>t. m \<notin> set (held T t)"
  shows "mx_ok_but (Y - {m}) (M(m := (M m)\<lparr>mutex_task := NULL\<rparr>)) B T"
proof -
  have "k \<noteq> m" if "k \<in> set (held T t)" for k t using assms(3) that by blast
  with assms show ?thesis unfolding mx_ok_but_def by auto
qed

lemma pass_mutex_ok:
  assumes ok: "pi_ok_but (insert m Y) {} s" and m: "obj_type (blks s m) = RHINO_MUTEX_OBJ_TYPE" "m \<noteq> NULL"
    and free: "\<And>u. m \<notin> set (held (tasks s) u)"
  shows "pi_ok_but (Y - {m}) {} (pass_mutex s m)"
proof (cases "blk_list (blks s m) = []")
  case False
  then show ?thesis using hand_over_ok [OF ok m(1) free m(2)] by (simp add: pass_mutex_def)
next
  case True
  have "mx_ok_but (insert m Y) (mutexes s) (blks s) (tasks s)" using ok by (simp add: pi_ok_but_def)
  from mx_ok_free_one [OF this True free] ok True show ?thesis
    by (simp add: pass_mutex_def pi_ok_but_def lists_ok_def)
qed

text \<open>What giving a mutex away leaves alone.\<close>

definition pass_frame :: "kstate \<Rightarrow> kstate \<Rightarrow> bool" where
  "pass_frame s s' \<longleftrightarrow>
     g_active_task s' = g_active_task s \<and> g_sched_lock s' = g_sched_lock s
     \<and> g_intrpt_nested_level s' = g_intrpt_nested_level s \<and> g_sys_stat s' = g_sys_stat s
     \<and> (\<forall>u. rdy (tasks s u) \<longrightarrow> rdy (tasks s' u))
     \<and> (\<forall>m. obj_type (blks s' m) = obj_type (blks s m) \<and> set (blk_list (blks s' m)) \<subseteq> set (blk_list (blks s m)))"

lemma pass_frame_refl [simp]: "pass_frame s s" by (simp add: pass_frame_def)

lemma pass_frame_trans: "pass_frame r s \<Longrightarrow> pass_frame s t \<Longrightarrow> pass_frame r t"
  unfolding pass_frame_def by (elim conjE) (intro conjI allI impI; simp; blast)

lemma pass_mutex_frame:
  assumes "blk_ok (blks s) (tasks s)"
  shows "pass_frame s (pass_mutex s m)"
    and "t \<notin> set (blk_list (blks s m)) \<Longrightarrow> tasks (pass_mutex s m) t = tasks s t"
    and "k \<in> set (mutex_list (tasks (pass_mutex s m) u)) \<Longrightarrow> k = m \<or> k \<in> set (mutex_list (tasks s u))"
    and "task_state (tasks (pass_mutex s m) u) = K_DELETED \<longleftrightarrow> task_state (tasks s u) = K_DELETED"
    and "k \<noteq> m \<Longrightarrow> blk_list (blks (pass_mutex s m) k) = blk_list (blks s k)"
    and "mutexes (pass_mutex s m)
      = (mutexes s)(m := (mutexes s m)\<lparr>mutex_task := first (blk_list (blks s m))\<rparr>)"
proof -
  show "blk_list (blks (pass_mutex s m) k) = blk_list (blks s k)" if "k \<noteq> m"
  proof (cases "blk_list (blks s m) = []")
    case False
    with first_waiter(3) [OF assms, of m] that have "first (blk_list (blks s m)) \<notin> set (blk_list (blks s k))"
      using blk_ok_mem [OF assms] by auto
    with False show ?thesis by (simp add: pass_mutex_def hand_over_def Let_def)
  qed (simp add: pass_mutex_def)
  show "mutexes (pass_mutex s m) = (mutexes s)(m := (mutexes s m)\<lparr>mutex_task := first (blk_list (blks s m))\<rparr>)"
    by (simp add: pass_mutex_def hand_over_def Let_def)
  note w = first_waiter [OF assms, of m]
  show "pass_frame s (pass_mutex s m)"
  proof (cases "blk_list (blks s m) = []")
    case True
    then show ?thesis by (simp add: pass_frame_def pass_mutex_def)
  next
    case False
    have "\<not> rdy (tasks s (first (blk_list (blks s m))))" using w(2) [OF False] by (auto simp: task_kinds)
    with False show ?thesis by (simp add: pass_frame_def pass_mutex_def hand_over_def Let_def)
  qed
  show "tasks (pass_mutex s m) t = tasks s t" if "t \<notin> set (blk_list (blks s m))"
    using w(1) that by (auto simp: pass_mutex_def hand_over_def Let_def)
  show "k \<in> set (mutex_list (tasks (pass_mutex s m) u)) \<Longrightarrow> k = m \<or> k \<in> set (mutex_list (tasks s u))"
    by (auto simp: pass_mutex_def hand_over_def Let_def split: if_splits)
  show "task_state (tasks (pass_mutex s m) u) = K_DELETED \<longleftrightarrow> task_state (tasks s u) = K_DELETED"
    using w(2) by (auto simp: pass_mutex_def hand_over_def Let_def pending_def)
qed

lemma task_mutex_free_loop_ok:
  assumes "distinct ms" and "pi_ok_but (set ms) {} (forget t s)"
    and "\<And>m. m \<in> set ms \<Longrightarrow> m \<noteq> NULL \<and> obj_type (blks s m) = RHINO_MUTEX_OBJ_TYPE \<and> t \<notin> set (blk_list (blks s m))"
    and "\<And>m u. m \<in> set ms \<Longrightarrow> m \<notin> set (held (tasks (forget t s)) u)"
    and "blk_ok (blks s) (tasks s)"
  defines "s' \<equiv> task_mutex_free_loop s ms"
  shows "pi_ok (forget t s') \<and> tasks s' t = tasks s t \<and> pass_frame s s'
    \<and> mutexes s' = (\<lambda>m. if m \<in> set ms then (mutexes s m)\<lparr>mutex_task := first (blk_list (blks s m))\<rparr>
        else mutexes s m)"
  using assms(1-5) unfolding s'_def
proof (induction ms arbitrary: s)
  case Nil
  then show ?case by simp
next
  case (Cons m ms)
  let ?s1 = "pass_mutex s m"
  note bl = Cons.prems(5)
  have tm: "t \<notin> set (blk_list (blks s m))" using Cons.prems(3) by simp
  have fg: "forget t ?s1 = pass_mutex (forget t s) m"
    by (rule pass_mutex_forget [OF bl tm, symmetric])
  have gbl: "blk_ok (blks (forget t s)) (tasks (forget t s))"
    using Cons.prems(2) unfolding pi_ok_but_def lists_ok_def by blast
  have "pi_ok_but (set ms - {m}) {} (pass_mutex (forget t s) m)"
  proof (rule pass_mutex_ok)
    show "m \<notin> set (held (tasks (forget t s)) u)" for u by (rule Cons.prems(4)) simp
  qed (use Cons.prems(2,3) in simp_all)
  then have 2: "pi_ok_but (set ms) {} (forget t ?s1)"
    using Cons.prems(1) by (simp add: fg)
  note fr = pass_mutex_frame [OF bl, where m = m]
  have 3: "k \<noteq> NULL \<and> obj_type (blks ?s1 k) = RHINO_MUTEX_OBJ_TYPE \<and> t \<notin> set (blk_list (blks ?s1 k))"
    if "k \<in> set ms" for k
    using Cons.prems(3) [of k] that fr(1) unfolding pass_frame_def by auto
  have 4: "k \<notin> set (held (tasks (forget t ?s1)) u)" if "k \<in> set ms" for k u
  proof
    assume k: "k \<in> set (held (tasks (forget t ?s1)) u)"
    then have "k \<in> set (mutex_list (tasks (pass_mutex (forget t s) m) u))"
      and d: "task_state (tasks (pass_mutex (forget t s) m) u) \<noteq> K_DELETED"
      by (auto simp: held_def fg split: if_splits)
    from pass_mutex_frame(3) [OF gbl this(1)] pass_mutex_frame(4) [OF gbl] d
    have "k = m \<or> k \<in> set (held (tasks (forget t s)) u)" by (auto simp: held_def)
    moreover have "k \<notin> set (held (tasks (forget t s)) u)" by (rule Cons.prems(4)) (use that in simp)
    ultimately show False using Cons.prems(1) that by auto
  qed
  have t1: "tasks ?s1 t = tasks s t" by (rule fr(2) [OF tm])
  have "blk_ok (blks (forget t ?s1)) (tasks (forget t ?s1))"
    using 2 unfolding pi_ok_but_def lists_ok_def by blast
  then have "blk_ok (blks ?s1) ((tasks (forget t ?s1))(t := tasks ?s1 t))"
    by (intro blk_ok_same) (simp_all add: pending_def)
  then have 5: "blk_ok (blks ?s1) (tasks ?s1)" by simp
  have "pi_ok (forget t (task_mutex_free_loop ?s1 ms)) \<and> tasks (task_mutex_free_loop ?s1 ms) t = tasks ?s1 t
      \<and> pass_frame ?s1 (task_mutex_free_loop ?s1 ms)
      \<and> mutexes (task_mutex_free_loop ?s1 ms) = (\<lambda>k. if k \<in> set ms
          then (mutexes ?s1 k)\<lparr>mutex_task := first (blk_list (blks ?s1 k))\<rparr> else mutexes ?s1 k)"
    by (rule Cons.IH [OF _ 2 3 4 5]) (use Cons.prems(1) in simp_all)
  moreover have "blk_list (blks ?s1 k) = blk_list (blks s k)" if "k \<in> set ms" for k
    by (rule fr(5)) (use Cons.prems(1) that in auto)
  ultimately show ?case
    using t1 fr(1,6) pass_frame_trans Cons.prems(1)
    unfolding task_mutex_free_loop_Cons [OF bl] by (auto simp: fun_eq_iff)
qed

lemma task_mutex_free_ok:
  assumes ok: "pi_ok s" and live: "task_state (tasks s t) \<noteq> K_DELETED" and ni: "prio (tasks s t) \<noteq> RHINO_IDLE_PRI"
  defines "s' \<equiv> task_mutex_free s t"
  shows "pi_ok (forget t s')" "tasks s' t = tasks s t" "pass_frame s s'"
    "mutexes s' = (\<lambda>m. if m \<in> set (mutex_list (tasks s t))
       then (mutexes s m)\<lparr>mutex_task := first (blk_list (blks s m))\<rparr> else mutexes s m)"
proof -
  have ls: "lists_ok s" and mx: "mx_ok (mutexes s) (blks s) (tasks s)"
    using ok by (simp_all add: pi_ok_but_def)
  note F = forget_ok [OF ok live ni]
  have h: "held (tasks s) t = mutex_list (tasks s t)" using live by (simp add: held_def)
  have "distinct (mutex_list (tasks s t))" using mx h unfolding mx_ok_but_def by metis
  moreover have "m \<noteq> NULL \<and> obj_type (blks s m) = RHINO_MUTEX_OBJ_TYPE \<and> t \<notin> set (blk_list (blks s m))"
    if "m \<in> set (mutex_list (tasks s t))" for m
    using mx_ok_held(1,4,9) [OF mx, of m t] that lists_okD(2) [OF ls] by (auto simp: h blk_ok_mem)
  ultimately have "pi_ok (forget t s') \<and> tasks s' t = tasks s t \<and> pass_frame s s'
    \<and> mutexes s' = (\<lambda>m. if m \<in> set (mutex_list (tasks s t))
       then (mutexes s m)\<lparr>mutex_task := first (blk_list (blks s m))\<rparr> else mutexes s m)"
    unfolding s'_def task_mutex_free_def
    by (intro task_mutex_free_loop_ok F(1)) (use F(2) lists_okD(2) [OF ls] in auto)
  then show "pi_ok (forget t s')" "tasks s' t = tasks s t" "pass_frame s s'"
    "mutexes s' = (\<lambda>m. if m \<in> set (mutex_list (tasks s t))
       then (mutexes s m)\<lparr>mutex_task := first (blk_list (blks s m))\<rparr> else mutexes s m)" by simp_all
qed

section \<open>Leaving the lists\<close>

lemma depart_ok:
  assumes ok: "pi_ok g" and t: "task_state (tasks g t) \<in> {K_RDY, K_SUSPENDED, K_SLEEP, K_SLEEP_SUSPENDED}"
    and m: "mutex_list (tasks g t) = []" and ni: "prio (tasks g t) \<noteq> RHINO_IDLE_PRI"
    and x: "task_state x = K_DELETED" "\<not> tick_head x" "prio x = prio (tasks g t)" "b_prio x = b_prio (tasks g t)"
      "mutex_list x = []"
    and rq: "rq = (if rdy (tasks g t) then ready_list_rm (g_ready_queue g) t (prio (tasks g t)) else g_ready_queue g)"
    and L: "L = (if tick_head (tasks g t) then removeAll t (g_tick_head g) else g_tick_head g)"
  shows "pi_ok (g\<lparr>g_ready_queue := rq, g_tick_head := L, tasks := (tasks g)(t := x)\<rparr>)"
proof -
  have ls: "lists_ok g" and mx: "mx_ok (mutexes g) (blks g) (tasks g)" and inh: "inh_ok (blks g) (tasks g)"
    using ok by (simp_all add: pi_ok_but_def)
  note l = lists_okD [OF ls]
  let ?T = "(tasks g)(t := x)"
  have n: "\<not> pending (tasks g t)" "\<not> rdy x" "\<not> pending x" "\<not> sleeping x" using t x by (auto simp: task_kinds)
  have "rdy_ok rq ?T"
    using rdy_ok_unready [OF ls _ ni n(2)] rdy_ok_same [OF l(1), of x t] n(2) by (simp add: rq del: fun_upd_apply)
  moreover have "blk_ok (blks g) ?T" using n by (intro blk_ok_same [OF l(2)]) simp_all
  moreover have "tick_ok L ?T"
    unfolding L using tick_ok_rm [OF l(3) x(2) n(4), of t] tick_ok_rm_absent [OF l(3), of t]
    by (cases "tick_head (tasks g t)") (simp_all del: fun_upd_apply)
  moreover have "prio_ok ?T"
    using x t prio_ok_less_idle [OF l(4) ni] by (intro prio_ok_upd [OF l(4) ni]) auto
  ultimately have 1: "lists_ok (g\<lparr>g_ready_queue := rq, g_tick_head := L, tasks := ?T\<rparr>)"
    by (simp add: lists_ok_def)
  have ht: "held (tasks g) t = []" using m by (simp add: held_def)
  have hd: "held ?T = held (tasks g)" using ht x by (auto simp: held_def fun_eq_iff)
  have 2: "mx_ok (mutexes g) (blks g) ?T" using mx ht unfolding mx_ok_but_def hd by auto
  have w: "waiters (blks g) ?T = waiters (blks g) (tasks g)" by (simp add: waiters_def hd fun_eq_iff)
  have "inh_ok (blks g) ?T"
    unfolding inh_ok_but_def
  proof (intro allI impI)
    fix u
    assume u: "u \<notin> {} \<and> task_state (?T u) \<noteq> K_DELETED"
    then have ut: "u \<noteq> t" using x by auto
    have "eff_prio (blks g) ?T u = eff_prio (blks g) (tasks g) u"
      by (rule eff_prio_cong) (use ut w x in \<open>auto split: if_splits\<close>)
    with inh u ut show "prio (?T u) = eff_prio (blks g) ?T u" by (simp add: inh_ok_but_def)
  qed
  with 1 2 show ?thesis by (simp add: pi_ok_but_def)
qed

lemma list_frameI:
  assumes "s' = s\<lparr>g_ready_queue := rq, blks := B, g_tick_head := L, tasks := T\<rparr>"
  shows "list_frame s s'"
  unfolding list_frame_def using assms by blast

text \<open>A task that waits for nothing.\<close>

lemma task_del_switch_other:
  assumes g: "pi_ok (forget t s)" and ni: "prio (tasks s t) \<noteq> RHINO_IDLE_PRI" and b: "b_prio (tasks s t) < RHINO_IDLE_PRI"
    and t: "task_state (tasks s t) \<in> {K_RDY, K_SUSPENDED, K_SLEEP, K_SLEEP_SUSPENDED}"
  shows "\<exists>s'. task_del_switch s t = Some s' \<and> pi_ok s' \<and> list_frame s s'
    \<and> task_state (tasks s' t) = K_DELETED \<and> (\<forall>u. u \<noteq> t \<longrightarrow> task_state (tasks s' u) = task_state (tasks s u))"
proof -
  let ?rq = "if rdy (tasks s t) then ready_list_rm (g_ready_queue s) t (prio (tasks s t)) else g_ready_queue s"
  let ?L = "if tick_head (tasks s t) then removeAll t (g_tick_head s) else g_tick_head s"
  have ls: "lists_ok (forget t s)" using g by (simp add: pi_ok_but_def)
  have th: "tick_head (tasks s t) \<Longrightarrow> sleeping (tasks s t)"
    using t lists_okD(3) [OF ls] unfolding tick_ok_def by (auto simp: task_kinds dest!: spec [of _ t])
  define x where "x = (if sleeping (tasks s t) then (tasks s t)\<lparr>tick_head := False, task_state := K_DELETED\<rparr>
      else (tasks s t)\<lparr>task_state := K_DELETED\<rparr>)"
  let ?s' = "s\<lparr>g_ready_queue := ?rq, g_tick_head := ?L, tasks := (tasks s)(t := x)\<rparr>"
  have sw: "task_del_switch s t = Some ?s'"
  proof -
    have n: "\<not> sleeping (tasks s t) \<Longrightarrow> \<not> tick_head (tasks s t)" using th by blast
    show ?thesis
    proof (cases "sleeping (tasks s t)")
      case True
      then have "task_state (tasks s t) = K_SLEEP \<or> task_state (tasks s t) = K_SLEEP_SUSPENDED"
        by (simp add: sleeping_def)
      then show ?thesis
        by (elim disjE) (simp_all add: task_del_switch_def tick_list_rm_eq Let_def x_def rdy_def sleeping_def)
    next
      case False
      then have "task_state (tasks s t) = K_RDY \<or> task_state (tasks s t) = K_SUSPENDED"
        using t by (auto simp: sleeping_def)
      then show ?thesis
        using n [OF False] by (elim disjE) (simp_all add: task_del_switch_def Let_def x_def rdy_def sleeping_def)
    qed
  qed
  have x: "task_state x = K_DELETED" "\<not> tick_head x" "prio x = prio (tasks s t)" "b_prio x = b_prio (tasks s t)"
    using th by (auto simp: x_def)
  let ?y = "x\<lparr>mutex_list := [], b_prio := prio (tasks s t)\<rparr>"
  have "pi_ok ((forget t s)\<lparr>g_ready_queue := ?rq, g_tick_head := ?L, tasks := (tasks (forget t s))(t := ?y)\<rparr>)"
    by (rule depart_ok [OF g]) (use t ni x in \<open>simp_all add: rdy_def\<close>)
  moreover have "(forget t s)\<lparr>g_ready_queue := ?rq, g_tick_head := ?L, tasks := (tasks (forget t s))(t := ?y)\<rparr>
      = forget t ?s'"
    using x by (simp add: forget_def)
  ultimately have "pi_ok (forget t ?s')" by simp
  then have "pi_ok ?s'" by (rule forget_dead(5) [rotated 2]) (use x b in simp_all)
  moreover have "list_frame s ?s'" by (rule list_frameI [where B = "blks s"]) simp
  ultimately show ?thesis using sw x by (intro exI [of _ ?s']) simp
qed

text \<open>A waiting task: the owner of the mutex it waits for may fall back.\<close>

lemma task_del_switch_pending:
  assumes g: "pi_ok (forget t s)" and b: "b_prio (tasks s t) < RHINO_IDLE_PRI" and p: "pending (tasks s t)"
  shows "\<exists>s'. task_del_switch s t = Some s' \<and> pi_ok s' \<and> list_frame s s'
    \<and> task_state (tasks s' t) = K_DELETED \<and> (\<forall>u. u \<noteq> t \<longrightarrow> task_state (tasks s' u) = task_state (tasks s u))"
proof -
  let ?b = "blk_state (tasks s t)"
  let ?s1 = "leave_wait K_DELETED ?b s t" and ?g1 = "leave_wait K_DELETED ?b (forget t s) t"
  let ?s' = "mutex_task_pri_reset ?s1 t"
  have "(tasks s t)\<lparr>tick_head := False, task_state := K_DELETED, blk_state := ?b\<rparr>
      = (tasks s t)\<lparr>tick_head := False, task_state := K_DELETED\<rparr>" by simp
  then have "set_task t (\<lambda>x. x\<lparr>task_state := K_DELETED\<rparr>) (blks_update (blk_list_rm t) (tick_list_rm s t)) = ?s1"
    by (simp add: leave_wait_def tick_list_rm_eq)
  then have sw: "task_del_switch s t = Some ?s'"
    using p by (auto simp: task_del_switch_def pending_def Let_def)
  have com: "(tasks s t)\<lparr>tick_head := False, task_state := K_DELETED, mutex_list := [], b_prio := p\<rparr>
      = (tasks s t)\<lparr>mutex_list := [], b_prio := p, tick_head := False, task_state := K_DELETED\<rparr>" for p
    by (rule ktask_t.equality) simp_all
  have fg: "forget t ?s1 = ?g1" by (simp add: leave_wait_def forget_def com)
  note L = leave_wait_reset [OF g, of t K_DELETED ?b]
  have L: "lists_ok ?g1" "mx_ok (mutexes ?g1) (blks ?g1) (tasks ?g1)"
    "obj_type (blks ?g1 (blk_obj (tasks ?g1 t))) = RHINO_MUTEX_OBJ_TYPE \<Longrightarrow>
      blk_obj (tasks ?g1 t) \<in> set (held (tasks ?g1) (mutex_task (mutexes ?g1 (blk_obj (tasks ?g1 t)))))
      \<and> inh_ok_but {mutex_task (mutexes ?g1 (blk_obj (tasks ?g1 t)))} (blks ?g1) (tasks ?g1)"
    "obj_type (blks ?g1 (blk_obj (tasks ?g1 t))) \<noteq> RHINO_MUTEX_OBJ_TYPE
      \<or> prio (tasks ?g1 (mutex_task (mutexes ?g1 (blk_obj (tasks ?g1 t))))) \<noteq> prio (tasks ?g1 t) \<Longrightarrow>
      inh_ok (blks ?g1) (tasks ?g1)"
    using L p by (auto simp: pending_def)
  have s1: "task_state (tasks ?s1 t) = K_DELETED" "b_prio (tasks ?s1 t) < RHINO_IDLE_PRI" using b by simp_all
  note D = forget_dead [OF s1, unfolded fg]
  have e: "blk_obj (tasks ?g1 t) = blk_obj (tasks ?s1 t)" "blks ?g1 = blks ?s1" "mutexes ?g1 = mutexes ?s1"
    "prio (tasks ?g1 u) = prio (tasks ?s1 u)" for u
    by simp_all
  have R: "pi_ok ?s' \<and> pri_frame ?s1 ?s'"
  proof (rule mutex_task_pri_reset_ok [OF D(1) [OF L(1)] _ _ _ refl])
    show "mx_ok (mutexes ?s1) (blks ?s1) (tasks ?s1)" using L(2) D(3) unfolding e by blast
    show "blk_obj (tasks ?s1 t) \<in> set (held (tasks ?s1) (mutex_task (mutexes ?s1 (blk_obj (tasks ?s1 t)))))
      \<and> inh_ok_but {mutex_task (mutexes ?s1 (blk_obj (tasks ?s1 t)))} (blks ?s1) (tasks ?s1)"
      if "obj_type (blks ?s1 (blk_obj (tasks ?s1 t))) = RHINO_MUTEX_OBJ_TYPE"
      using L(3) D(2,4) that unfolding e by metis
    show "inh_ok (blks ?s1) (tasks ?s1)"
      if "obj_type (blks ?s1 (blk_obj (tasks ?s1 t))) \<noteq> RHINO_MUTEX_OBJ_TYPE
      \<or> prio (tasks ?s1 (mutex_task (mutexes ?s1 (blk_obj (tasks ?s1 t))))) \<noteq> prio (tasks ?s1 t)"
      using L(4) D(4) that unfolding e by blast
  qed
  note F = pri_frameD(1) [OF conjunct2 [OF R]]
  have "list_frame s ?s'" using R by (blast intro: list_frame_trans list_frame_leave list_frame_pri)
  with sw R F show ?thesis by (intro exI [of _ ?s']) simp
qed

section \<open>The invariant\<close>

lemma kern_ok_kobj [simp]: "kern_ok (core_sched (g_kobj_list_update f s)) = kern_ok (core_sched s)"
  by (rule kern_ok_cong) (simp_all add: core_sched_active)

lemma task_del_body_ok:
  assumes ok: "kern_ok s" and live: "task_state (tasks s t) \<notin> {K_SEED, K_DELETED}"
    and ni: "prio (tasks s t) \<noteq> RHINO_IDLE_PRI" and i: "g_intrpt_nested_level s = 0"
    and a: "\<not> (t = g_active_task s \<and> g_sched_lock s > 0)"
  shows "\<exists>s'. task_del_switch (task_mutex_free s t) t = Some s' \<and> kern_ok (core_sched s')
    \<and> task_state (tasks s' t) = K_DELETED \<and> list_frame (task_mutex_free s t) s'
    \<and> (\<forall>u. u \<noteq> t \<longrightarrow> task_state (tasks s' u) = task_state (tasks (task_mutex_free s t) u))"
proof -
  note k = kern_okD [OF ok]
  let ?s1 = "task_mutex_free s t"
  note F = task_mutex_free_ok [OF k(1) _ ni]
  have F: "pi_ok (forget t ?s1)" "tasks ?s1 t = tasks s t" "pass_frame s ?s1" using F live by auto
  have b: "b_prio (tasks ?s1 t) < RHINO_IDLE_PRI" "prio (tasks ?s1 t) \<noteq> RHINO_IDLE_PRI"
    using prio_ok_less_idle [OF lists_okD(4) [OF k(3)] ni] ni by (simp_all add: F(2))
  have "\<exists>s'. task_del_switch ?s1 t = Some s' \<and> pi_ok s' \<and> list_frame ?s1 s'
    \<and> task_state (tasks s' t) = K_DELETED \<and> (\<forall>u. u \<noteq> t \<longrightarrow> task_state (tasks s' u) = task_state (tasks ?s1 u))"
  proof (cases "pending (tasks s t)")
    case True
    then show ?thesis by (intro task_del_switch_pending [OF F(1) b(1)]) (simp add: F(2))
  next
    case False
    have "task_state (tasks s t) \<in> {K_RDY, K_SUSPENDED, K_SLEEP, K_SLEEP_SUSPENDED}"
      using live False by (cases "task_state (tasks s t)") (simp_all add: pending_def)
    then show ?thesis by (intro task_del_switch_other [OF F(1) b(2,1)]) (simp add: F(2))
  qed
  then obtain s' where s': "task_del_switch ?s1 t = Some s'" "pi_ok s'" "list_frame ?s1 s'"
    "task_state (tasks s' t) = K_DELETED" "\<forall>u. u \<noteq> t \<longrightarrow> task_state (tasks s' u) = task_state (tasks ?s1 u)"
    by blast
  have "kern_ok (core_sched s')"
  proof (rule kern_ok_core_sched [OF s'(2)])
    note fr = list_frameD(8-10) [OF s'(3)] and pf = F(3) [unfolded pass_frame_def]
    assume "g_intrpt_nested_level s' > 0 \<or> g_sched_lock s' > 0"
    then have "g_sched_lock s > 0" using i fr pf by simp
    then have "t \<noteq> g_active_task s" using a by auto
    then show "act_safe s'"
      using kern_ok_caller [OF ok i] k(6) s'(5) fr pf by (simp add: act_safe_def rdy_def)
  qed
  with s' show ?thesis by blast
qed

lemma task_mutex_free_Nil: "mutex_list (tasks s t) = [] \<Longrightarrow> task_mutex_free s t = s"
  by (simp add: task_mutex_free_def)

lemma krhino_task_del_ok:
  assumes ok: "kern_ok s" and live: "task_state (tasks s task) \<noteq> K_DELETED"
  shows "kern_ok (snd (krhino_task_del s task))"
proof -
  note k = kern_okD [OF ok]
  define t where "t = (if task = NULL then g_active_task s else task)"
  show ?thesis
    unfolding krhino_task_del_def Let_def t_def [symmetric]
    apply (intro kern_ok_if)
        apply (simp_all only: snd_conv ok)
    subgoal premises p
    proof -
      have i: "g_intrpt_nested_level s = 0" by (rule not_gr_zero_word [OF p(1)])
      have nd: "task_state (tasks s t) \<noteq> K_DELETED"
        using live kern_ok_caller [OF ok i] by (auto simp: t_def rdy_def)
      show ?thesis
      proof (cases "task_state (tasks s t) = K_SEED")
        case True
        have "held (tasks s) t = []"
          using mx_ok_held(7) [OF k(4), of "first (held (tasks s) t)" t] True
            first_in_set [of "held (tasks s) t"] by auto
        then have "mutex_list (tasks s t) = []" using nd by (simp add: held_def)
        with True ok show ?thesis by (simp add: task_mutex_free_Nil task_del_switch_def)
      next
        case False
        with task_del_body_ok [OF ok _ p(2) i p(4)] nd
        obtain s' where "task_del_switch (task_mutex_free s t) t = Some s'" "kern_ok (core_sched s')"
          by auto
        then show ?thesis by simp
      qed
    qed
    done
qed

section \<open>What deletion does\<close>

text \<open>C16: \<^verbatim>\<open>krhino_task_del\<close> keeps the kernel invariant whatever the task is doing, the mutexes it
  holds and the mutex it waits for included.\<close>

theorem task_del_inv:
  assumes "kern_ok s" and "task_state (tasks s task) \<noteq> K_DELETED"
  shows "kern_ok (snd (krhino_task_del s task))"
  using assms by (rule krhino_task_del_ok)

theorem task_del_inv_witness: "kern_ok (snd (krhino_task_del ex_state 4))"
  by (rule task_del_inv [OF ex_kern_ok]) (simp add: ex_defs)

text \<open>C35: A deleted task is on no list: no ready list, no waiting list, not the tick list, and it
  does not run.\<close>

theorem task_del_gone:
  assumes "kern_ok s" and "krhino_task_del s task = (RHINO_SUCCESS, s')" and "task \<noteq> NULL"
    and "task_state (tasks s task) \<noteq> K_DELETED"
  shows "task_state (tasks s' task) = K_DELETED
    \<and> (\<forall>p. task \<notin> set (cur_list_item (g_ready_queue s') p))
    \<and> (\<forall>ob. task \<notin> set (blk_list (blks s' ob))) \<and> task \<notin> set (g_tick_head s')
    \<and> task \<noteq> g_active_task s'"
proof -
  have i: "g_intrpt_nested_level s = 0" and ni: "prio (tasks s task) \<noteq> RHINO_IDLE_PRI"
    and a: "\<not> (task = g_active_task s \<and> g_sched_lock s > 0)"
    using assms(2,3) by (auto simp: krhino_task_del_def Let_def not_gr_zero_word split: if_splits)
  have "task_state (tasks s task) \<noteq> K_SEED"
  proof
    assume sd: "task_state (tasks s task) = K_SEED"
    have "held (tasks s) task = []"
      using mx_ok_held(7) [OF kern_okD(4) [OF assms(1)], of "first (held (tasks s) task)" task] sd
        first_in_set [of "held (tasks s) task"] by auto
    then have "mutex_list (tasks s task) = []" using assms(4) by (simp add: held_def)
    then show False
      using assms(2,3) sd by (auto simp: krhino_task_del_def task_del_switch_def task_mutex_free_Nil split: if_splits)
  qed
  with task_del_body_ok [OF assms(1) _ ni i a] assms(4) obtain s2 where
    s2: "task_del_switch (task_mutex_free s task) task = Some s2" "kern_ok (core_sched s2)"
      "task_state (tasks s2 task) = K_DELETED" "list_frame (task_mutex_free s task) s2"
    by auto
  have s': "s' = core_sched (g_kobj_list_update (kobj_task_head_update (removeAll task)) s2)"
    using assms(2,3) s2(1) by (auto simp: krhino_task_del_def Let_def split: if_splits)
  have ok': "kern_ok s'" using s2(2) by (simp add: s')
  have d: "task_state (tasks s' task) = K_DELETED" using s2(3) by (simp add: s')
  note l = lists_okD [OF kern_okD(3) [OF ok']]
  have "\<not> rdy (tasks s' task)" "\<not> pending (tasks s' task)" "\<not> sleeping (tasks s' task)"
    using d by (simp_all add: task_kinds)
  moreover have "g_intrpt_nested_level s' = 0"
    using i list_frameD(10) [OF s2(4)] task_mutex_free_ok(3) [OF kern_okD(1) [OF assms(1)] assms(4) ni]
    by (simp add: s' pass_frame_def)
  ultimately show ?thesis
    using d l(1-3) kern_ok_caller [OF ok'] by (auto simp: rdy_ok_mem blk_ok_mem tick_ok_def)
qed

theorem task_del_gone_witness:
  "task_state (tasks (snd (krhino_task_del ex_state 6)) 6) = K_DELETED
    \<and> 6 \<notin> set (g_tick_head (snd (krhino_task_del ex_state 6)))"
proof -
  have p: "25 \<noteq> RHINO_IDLE_PRI" by (simp add: RHINO_IDLE_PRI_def RHINO_CONFIG_PRI_MAX_def)
  have "fst (krhino_task_del ex_state 6) = RHINO_SUCCESS"
    using p by (simp add: krhino_task_del_def task_mutex_free_def task_del_switch_def tick_list_rm_def Let_def ex_defs)
  then show ?thesis
    using task_del_gone [OF ex_kern_ok, of 6 "snd (krhino_task_del ex_state 6)"]
    by (cases "krhino_task_del ex_state 6") (simp, simp add: ex_defs)
qed

text \<open>C37: Every mutex of a deleted task goes to the first of its waiters, or becomes free when it
  has none; other mutexes keep their owner. The nesting depth the deleted task had reached stays:
  the new owner has to unlock that many times, unlike after \<^verbatim>\<open>krhino_mutex_unlock\<close>, which sets the
  depth to one.\<close>

theorem task_del_passes_mutexes:
  assumes "kern_ok s" and "task_state (tasks s task) \<noteq> K_DELETED" and "prio (tasks s task) \<noteq> RHINO_IDLE_PRI"
  shows "mutexes (task_mutex_free s task) m =
    (if m \<in> set (mutex_list (tasks s task))
     then (mutexes s m)\<lparr>mutex_task := first (blk_list (blks s m))\<rparr> else mutexes s m)"
  using task_mutex_free_ok(4) [OF kern_okD(1) [OF assms(1)] assms(2,3)] by simp

theorem task_del_passes_mutexes_witness:
  "mutex_task (mutexes (task_mutex_free ex_state 2) 101) = 4
    \<and> mutex_task (mutexes (task_mutex_free ex_state 2) 100) = 3"
  using task_del_passes_mutexes [OF ex_kern_ok, of 2 101] task_del_passes_mutexes [OF ex_kern_ok, of 2 100]
  by (simp add: ex_defs RHINO_IDLE_PRI_def RHINO_CONFIG_PRI_MAX_def)

text \<open>C39: Deleting a task that is deleted already reports an error, but only after the stale chain
  of mutexes has been walked: a mutex the deleted task once held is taken from its present owner,
  and the running task can lock it although that owner has not released it, so that it is in the
  chains of both. The mutex is the only one in its chain here and the running task holds none, so
  \<^verbatim>\<open>mutex->mutex_list\<close> is \<^verbatim>\<open>NULL\<close> throughout and the lists are what the pointers of the code say.\<close>

theorem task_del_twice_steals_mutex:
  assumes "task_state (tasks s t) = K_DELETED" and "mutex_list (tasks s t) = [m]"
    and "task_mm_alloc_flag (tasks s t) = K_OBJ_STATIC_ALLOC" and "prio (tasks s t) \<noteq> RHINO_IDLE_PRI"
    and "t \<noteq> NULL" "t \<noteq> g_active_task s" "g_intrpt_nested_level s = 0" "g_sys_stat s \<noteq> RHINO_STOPPED"
    and "m \<noteq> NULL" "obj_type (blks s m) = RHINO_MUTEX_OBJ_TYPE" "blk_list (blks s m) = []"
    and "mutex_task (mutexes s m) = u" "mutex_list (tasks s u) = [m]" "u \<noteq> g_active_task s" "g_active_task s \<noteq> NULL"
    and "mutex_list (tasks s (g_active_task s)) = []"
  shows "\<exists>s' s''. krhino_task_del s t = (RHINO_INV_TASK_STATE, s')
    \<and> krhino_mutex_lock s' m ticks = (Some RHINO_SUCCESS, s'')
    \<and> mutex_task (mutexes s'' m) = g_active_task s
    \<and> mutex_list (tasks s'' (g_active_task s)) = [m] \<and> mutex_list (tasks s'' u) = [m]"
proof -
  let ?s' = "set_mutex m (\<lambda>x. x\<lparr>mutex_task := NULL\<rparr>) s"
  have "krhino_task_del s t = (RHINO_INV_TASK_STATE, ?s')"
    using assms by (simp add: krhino_task_del_def task_mutex_free_def task_del_switch_def)
  then show ?thesis
    using assms krhino_mutex_lock_free [of m ?s' ticks] by simp
qed

text \<open>Task 8 has been deleted and its chain left; task 3 has the mutex now; task 2 runs and holds none.\<close>

theorem task_del_twice_steals_mutex_witness:
  "\<exists>s' s''. krhino_task_del (set_task 2 (\<lambda>t. t\<lparr>mutex_list := []\<rparr>)
        (set_task 8 (\<lambda>_. ex_tcb\<lparr>task_state := K_DELETED, mutex_list := [100]\<rparr>) ex_state)) 8
      = (RHINO_INV_TASK_STATE, s')
    \<and> krhino_mutex_lock s' 100 0 = (Some RHINO_SUCCESS, s'') \<and> mutex_task (mutexes s'' 100) = 2
    \<and> mutex_list (tasks s'' 2) = [100] \<and> mutex_list (tasks s'' 3) = [100]"
  using task_del_twice_steals_mutex [of "set_task 2 (\<lambda>t. t\<lparr>mutex_list := []\<rparr>)
      (set_task 8 (\<lambda>_. ex_tcb\<lparr>task_state := K_DELETED, mutex_list := [100]\<rparr>) ex_state)" 8 100 3 0]
  by (simp add: ex_defs RHINO_IDLE_PRI_def RHINO_CONFIG_PRI_MAX_def)

end
