(* ===== verification/Tick.thy ===== *)
theory Tick
  imports Leave_Wait
begin

text \<open>
  The tick interrupt: \<^verbatim>\<open>tick_list_update\<close> of \<^verbatim>\<open>k_tick.c\<close> and \<^verbatim>\<open>k_time.c\<close>. (Insertion in and
  removal from the tick list are in theory \<open>Pend\<close>.)

  The loop compares signed differences and stops at the first task that is not due. It is shown
  to wake exactly the tasks whose time has come, provided that no timeout reaches \<open>2 ^ 63\<close> ticks
  (\<open>timers_ok\<close>), which every insertion of a shorter timeout and every update keeps. The
  conversions between ticks and milliseconds are shown to round as intended.
\<close>

section \<open>The operations\<close>

text \<open>One due task, the switch in the loop of \<^verbatim>\<open>tick_list_update\<close>.\<close>

definition tick_expire :: "kstate \<Rightarrow> ptr \<Rightarrow> kstate" where
  "tick_expire s p_tcb =
     (case task_state (tasks s p_tcb) of
        K_SLEEP \<Rightarrow>
          let s = set_task p_tcb (\<lambda>t. t\<lparr>blk_state := BLK_FINISH\<rparr>) s;
              s = set_task p_tcb (\<lambda>t. t\<lparr>task_state := K_RDY\<rparr>) s;
              s = tick_list_rm s p_tcb
          in ready_list_add s p_tcb
      | K_PEND \<Rightarrow>
          let s = tick_list_rm s p_tcb;
              s = blks_update (blk_list_rm p_tcb) s;
              s = ready_list_add s p_tcb;
              s = set_task p_tcb (\<lambda>t. t\<lparr>blk_state := BLK_TIMEOUT\<rparr>) s;
              s = set_task p_tcb (\<lambda>t. t\<lparr>task_state := K_RDY\<rparr>) s;
              s = mutex_task_pri_reset s p_tcb
          in set_task p_tcb (\<lambda>t. t\<lparr>blk_obj := NULL\<rparr>) s
      | K_PEND_SUSPENDED \<Rightarrow>
          let s = tick_list_rm s p_tcb;
              s = blks_update (blk_list_rm p_tcb) s;
              s = set_task p_tcb (\<lambda>t. t\<lparr>blk_state := BLK_TIMEOUT\<rparr>) s;
              s = set_task p_tcb (\<lambda>t. t\<lparr>task_state := K_SUSPENDED\<rparr>) s;
              s = mutex_task_pri_reset s p_tcb
          in set_task p_tcb (\<lambda>t. t\<lparr>blk_obj := NULL\<rparr>) s
      | K_SLEEP_SUSPENDED \<Rightarrow>
          let s = set_task p_tcb (\<lambda>t. t\<lparr>task_state := K_SUSPENDED\<rparr>) s;
              s = set_task p_tcb (\<lambda>t. t\<lparr>blk_state := BLK_FINISH\<rparr>) s
          in tick_list_rm s p_tcb
      | _ \<Rightarrow> k_err_proc s RHINO_SYS_FATAL_ERR)"

text \<open>
  The loop. It reads the link to the next task before it takes a task off the list, and no turn
  takes off another one, so it visits the list as it was at the start.
\<close>

fun tick_list_loop :: "kstate \<Rightarrow> ptr list \<Rightarrow> kstate" where
  "tick_list_loop s [] = s"
| "tick_list_loop s (p_tcb # iter_temp) =
     (if sint (tick_match (tasks s p_tcb) - g_tick_count s) \<le> 0
      then tick_list_loop (tick_expire s p_tcb) iter_temp
      else s)"

definition tick_list_update :: "kstate \<Rightarrow> tick \<Rightarrow> kstate" where
  "tick_list_update s ticks =
     (let s = s\<lparr>g_tick_count := g_tick_count s + ticks\<rparr>
      in tick_list_loop s (Kernel_State.g_tick_head s))"

definition krhino_tick_proc :: "kstate \<Rightarrow> kstate" where
  "krhino_tick_proc s = time_slice_update (tick_list_update s 1)"

section \<open>Time\<close>

definition krhino_sys_tick_get :: "kstate \<Rightarrow> tick" where
  "krhino_sys_tick_get s = g_tick_count s"

definition krhino_sys_time_get :: "kstate \<Rightarrow> 64 word" where
  "krhino_sys_time_get s = krhino_sys_tick_get s * 1000 div of_nat RHINO_CONFIG_TICKS_PER_SECOND"

definition krhino_ms_to_ticks :: "64 word \<Rightarrow> tick" where
  "krhino_ms_to_ticks ms =
     (let surplus = unat ms mod 1000;
          ticks = ms div 1000 * of_nat RHINO_CONFIG_TICKS_PER_SECOND;
          padding = 1000 div RHINO_CONFIG_TICKS_PER_SECOND;
          padding = (if padding > 0 then padding - 1 else 0)
      in ticks + of_nat ((surplus + padding) * RHINO_CONFIG_TICKS_PER_SECOND div 1000))"

definition krhino_ticks_to_ms :: "tick \<Rightarrow> 64 word" where
  "krhino_ticks_to_ms ticks =
     (let surplus = unat ticks mod RHINO_CONFIG_TICKS_PER_SECOND;
          time = ticks div of_nat RHINO_CONFIG_TICKS_PER_SECOND * 1000;
          padding = RHINO_CONFIG_TICKS_PER_SECOND div 1000;
          padding = (if padding > 0 then padding - 1 else 0)
      in time + of_nat ((surplus + padding) * 1000 div RHINO_CONFIG_TICKS_PER_SECOND))"

lemma unat_less_64: "unat (x :: 64 word) < 2 ^ 64"
  using unsigned_less [of x] by simp

lemma unat_of_nat_64: "n < 2 ^ 64 \<Longrightarrow> unat (of_nat n :: 64 word) = n"
  by (simp add: unat_of_nat take_bit_nat_eq_self)

lemma unat_ms_to_ticks: "unat (krhino_ms_to_ticks ms) = (unat ms + 9) div 10"
proof -
  have "krhino_ms_to_ticks ms
      = of_nat (unat ms div 1000 * 100 + (unat ms mod 1000 + 9) * 100 div 1000)"
    by (simp add: krhino_ms_to_ticks_def Let_def RHINO_CONFIG_TICKS_PER_SECOND_def word_arith_nat_div)
  moreover have "n div 1000 * 100 + (n mod 1000 + 9) * 100 div 1000 = (n + 9) div 10" for n :: nat
  proof -
    have "(n mod 1000 + 9) * 100 div 1000 = (n mod 1000 + 9) div 10" by simp
    moreover have "n = 1000 * (n div 1000) + n mod 1000" by simp
    then have "(n + 9) div 10 = (10 * (100 * (n div 1000)) + (n mod 1000 + 9)) div 10" by simp
    moreover have "\<dots> = 100 * (n div 1000) + (n mod 1000 + 9) div 10" by (rule div_mult_self4) simp
    ultimately show ?thesis by simp
  qed
  ultimately have "krhino_ms_to_ticks ms = of_nat ((unat ms + 9) div 10)" by (simp only:)
  moreover have "(unat ms + 9) div 10 < 2 ^ 64" using unat_less_64 [of ms] by simp
  ultimately show ?thesis by (simp only: unat_of_nat_64)
qed

lemma ticks_to_ms_eq: "krhino_ticks_to_ms ticks = of_nat (unat ticks * 10)"
proof -
  have "krhino_ticks_to_ms ticks
      = of_nat (unat ticks div 100 * 1000 + unat ticks mod 100 * 1000 div 100)"
    by (simp add: krhino_ticks_to_ms_def Let_def RHINO_CONFIG_TICKS_PER_SECOND_def word_arith_nat_div)
  moreover have "n div 100 * 1000 + n mod 100 * 1000 div 100 = n * 10" for n :: nat
  proof -
    have "n mod 100 * 1000 div 100 = n mod 100 * 10" by simp
    moreover have "n = 100 * (n div 100) + n mod 100" by simp
    ultimately show ?thesis by linarith
  qed
  ultimately show ?thesis by (simp only:)
qed

lemma unat_ticks_to_ms:
  assumes "unat ticks * 10 < 2 ^ 64"
  shows "unat (krhino_ticks_to_ms ticks) = unat ticks * 10"
  unfolding ticks_to_ms_eq by (rule unat_of_nat_64 [OF assms])

section \<open>One due task\<close>

text \<open>The states after a timeout.\<close>

definition expired_state :: "task_stat_t \<Rightarrow> task_stat_t" where
  "expired_state st = (if st = K_SLEEP \<or> st = K_PEND then K_RDY else K_SUSPENDED)"

definition expired_blk :: "task_stat_t \<Rightarrow> blk_state_t" where
  "expired_blk st = (if st = K_PEND \<or> st = K_PEND_SUSPENDED then BLK_TIMEOUT else BLK_FINISH)"

text \<open>What is not about priorities, for a set \<open>E\<close> of tasks that have expired.\<close>

definition expired_frame :: "ptr set \<Rightarrow> kstate \<Rightarrow> kstate \<Rightarrow> bool" where
  "expired_frame E s s' \<longleftrightarrow>
     list_frame s s' \<and> g_tick_head s' = filter (\<lambda>t. t \<notin> E) (g_tick_head s)
     \<and> (\<forall>t. tick_match (tasks s' t) = tick_match (tasks s t)
          \<and> task_state (tasks s' t) = (if t \<in> E then expired_state (task_state (tasks s t)) else task_state (tasks s t))
          \<and> blk_state (tasks s' t) = (if t \<in> E then expired_blk (task_state (tasks s t)) else blk_state (tasks s t)))"

lemma expired_frame_refl [simp]: "expired_frame {} s s" by (simp add: expired_frame_def)

lemma expired_frame_step:
  assumes "expired_frame {t} s s'" and "expired_frame E s' s''" and "t \<notin> E"
  shows "expired_frame (insert t E) s s''"
proof -
  note a = assms(1) [unfolded expired_frame_def] and b = assms(2) [unfolded expired_frame_def]
  have "list_frame s s''" using a b by (blast intro: list_frame_trans)
  moreover have "g_tick_head s'' = filter (\<lambda>u. u \<notin> insert t E) (g_tick_head s)"
    using a b by (simp add: conj_commute)
  moreover have "tick_match (tasks s'' u) = tick_match (tasks s u)
       \<and> task_state (tasks s'' u) = (if u \<in> insert t E then expired_state (task_state (tasks s u)) else task_state (tasks s u))
       \<and> blk_state (tasks s'' u) = (if u \<in> insert t E then expired_blk (task_state (tasks s u)) else blk_state (tasks s u))" for u
    using a b assms(3) by (cases "u = t") simp_all
  ultimately show ?thesis unfolding expired_frame_def by blast
qed

lemma filter_neq_removeAll: "filter (\<lambda>u. u \<noteq> t) xs = removeAll t xs"
  by (induction xs) auto

lemma tick_expire_pending:
  assumes "pending (tasks s t)"
  shows "tick_expire s t = end_wait (expired_state (task_state (tasks s t))) BLK_TIMEOUT s t"
proof -
  have r: "set_task t (\<lambda>x. x\<lparr>task_state := K_RDY\<rparr>) (set_task t (\<lambda>x. x\<lparr>blk_state := BLK_TIMEOUT\<rparr>)
      (ready_list_add (blks_update (blk_list_rm t) (tick_list_rm s t)) t)) = leave_wait K_RDY BLK_TIMEOUT s t"
    by (simp add: leave_wait_def tick_list_rm_eq ready_list_add_eq ktask_order)
  have u: "set_task t (\<lambda>x. x\<lparr>task_state := K_SUSPENDED\<rparr>) (set_task t (\<lambda>x. x\<lparr>blk_state := BLK_TIMEOUT\<rparr>)
      (blks_update (blk_list_rm t) (tick_list_rm s t))) = leave_wait K_SUSPENDED BLK_TIMEOUT s t"
    by (simp add: leave_wait_def tick_list_rm_eq ktask_order)
  show ?thesis
    using assms r u by (auto simp: tick_expire_def end_wait_def pending_def expired_state_def Let_def)
qed

lemma tick_expire_ok:
  assumes ok: "pi_ok s" and th: "tick_head (tasks s t)"
  shows "pi_ok (tick_expire s t) \<and> expired_frame {t} s (tick_expire s t)"
proof -
  have ls: "lists_ok s" using ok by (simp add: pi_ok_but_def)
  note tk = lists_okD(3) [OF ls]
  have ps: "pending (tasks s t) \<or> sleeping (tasks s t)" using tk th by (simp add: tick_ok_def)
  show ?thesis
  proof (cases "pending (tasks s t)")
    case True
    let ?st = "expired_state (task_state (tasks s t))"
    have st: "?st \<in> {K_RDY, K_SUSPENDED}" by (simp add: expired_state_def)
    have b: "expired_blk (task_state (tasks s t)) = BLK_TIMEOUT"
      using True by (auto simp: expired_blk_def pending_def)
    note E = end_wait_ok(1,2) [OF ok True st] and T = end_wait_tasks [OF ok True st, of BLK_TIMEOUT]
    have "tick_match (tasks (end_wait ?st BLK_TIMEOUT s t) u) = tick_match (tasks s u)
       \<and> task_state (tasks (end_wait ?st BLK_TIMEOUT s t) u) = (if u \<in> {t} then expired_state (task_state (tasks s u)) else task_state (tasks s u))
       \<and> blk_state (tasks (end_wait ?st BLK_TIMEOUT s t) u) = (if u \<in> {t} then expired_blk (task_state (tasks s u)) else blk_state (tasks s u))" for u
      by (subst (1 2 3) T(1)) (simp add: b)
    then show ?thesis
      using E th T(2) by (simp add: tick_expire_pending [OF True] expired_frame_def filter_neq_removeAll)
  next
    case np: False
    show ?thesis
    proof (cases "task_state (tasks s t) = K_SLEEP")
      case True
      let ?x = "(tasks s t)\<lparr>tick_head := False, task_state := K_RDY, blk_state := BLK_FINISH\<rparr>"
      let ?s = "s\<lparr>g_ready_queue := rq_add s t, g_tick_head := removeAll t (g_tick_head s), tasks := (tasks s)(t := ?x)\<rparr>"
      have "pi_ok ?s" "list_frame s ?s" using True th by (intro pi_ok_make_ready [OF ok]; simp)+
      moreover have "tick_expire s t = ?s"
        using True th by (simp add: tick_expire_def tick_list_rm_eq ready_list_add_eq Let_def ktask_order)
      ultimately show ?thesis
        using True by (simp add: expired_frame_def expired_state_def expired_blk_def filter_neq_removeAll)
    next
      case False
      then have st: "task_state (tasks s t) = K_SLEEP_SUSPENDED" using np ps by (simp add: sleeping_def)
      let ?x = "(tasks s t)\<lparr>tick_head := False, task_state := K_SUSPENDED, blk_state := BLK_FINISH\<rparr>"
      let ?s = "s\<lparr>g_ready_queue := g_ready_queue s, g_tick_head := removeAll t (g_tick_head s), tasks := (tasks s)(t := ?x)\<rparr>"
      have "rdy_ok (g_ready_queue s) ((tasks s)(t := ?x))"
        using st by (intro rdy_ok_same [OF lists_okD(1) [OF ls]]) (simp_all add: rdy_def)
      moreover have "tick_ok (removeAll t (g_tick_head s)) ((tasks s)(t := ?x))"
        by (rule tick_ok_rm [OF tk]) (simp_all add: sleeping_def)
      moreover have "prio (tasks s t) \<noteq> RHINO_IDLE_PRI"
        using prio_ok_not_rdy [OF lists_okD(4) [OF ls]] st by (simp add: rdy_def)
      ultimately have "pi_ok ?s" "list_frame s ?s" using st by (intro pi_ok_move [OF ok]; simp add: pending_def)+
      moreover have "tick_expire s t = ?s"
        using st th by (simp add: tick_expire_def tick_list_rm_eq Let_def ktask_order)
      ultimately show ?thesis
        using st by (simp add: expired_frame_def expired_state_def expired_blk_def filter_neq_removeAll)
    qed
  qed
qed

section \<open>The loop\<close>

lemma tick_list_loop_ok:
  assumes "pi_ok s" and "distinct ms" and "set ms \<subseteq> set (g_tick_head s)"
  shows "pi_ok (tick_list_loop s ms) \<and> expired_frame
    (set (takeWhile (\<lambda>t. sint (tick_match (tasks s t) - g_tick_count s) \<le> 0) ms)) s (tick_list_loop s ms)"
  using assms
proof (induction ms arbitrary: s)
  case Nil
  then show ?case by simp
next
  case (Cons t ms)
  show ?case
  proof (cases "sint (tick_match (tasks s t) - g_tick_count s) \<le> 0")
    case False
    with Cons.prems show ?thesis by simp
  next
    case True
    have "tick_head (tasks s t)"
      using Cons.prems by (auto simp: pi_ok_but_def lists_ok_def tick_ok_def)
    note E = tick_expire_ok [OF Cons.prems(1) this]
    let ?s = "tick_expire s t"
    let ?due = "\<lambda>s t. sint (tick_match (tasks s t) - g_tick_count s) \<le> 0"
    have m: "tick_match (tasks ?s u) = tick_match (tasks s u)" for u using E by (simp add: expired_frame_def)
    have c: "g_tick_count ?s = g_tick_count s"
      using E list_frameD(12) by (simp add: expired_frame_def)
    have "set ms \<subseteq> set (g_tick_head ?s)"
      using E Cons.prems(2,3) by (auto simp: expired_frame_def)
    then have "pi_ok (tick_list_loop ?s ms) \<and> expired_frame (set (takeWhile (?due ?s) ms)) ?s (tick_list_loop ?s ms)"
      using E Cons.prems(2) by (intro Cons.IH) simp_all
    moreover have "t \<notin> set (takeWhile (?due s) ms)" using Cons.prems(2) set_takeWhileD by fastforce
    ultimately show ?thesis
      using True E expired_frame_step [of t s ?s] by (simp add: m c)
  qed
qed

section \<open>The order of the tick list\<close>

definition remain :: "kstate \<Rightarrow> ptr \<Rightarrow> nat" where
  "remain s t = unat (tick_match (tasks s t) - g_tick_count s)"

definition timers_ok :: "kstate \<Rightarrow> bool" where
  "timers_ok s \<longleftrightarrow> sorted (map (remain s) (g_tick_head s))
     \<and> (\<forall>t \<in> set (g_tick_head s). 0 < remain s t \<and> remain s t < 2 ^ 63)"

lemma sint_small: "unat (a :: 64 word) < 2 ^ 63 \<Longrightarrow> sint a = int (unat a)"
proof -
  assume a: "unat a < 2 ^ 63"
  have u: "uint a = int (unat a)" by simp
  have "int (unat a) < int (2 ^ 63)" using a by (simp only: of_nat_less_iff)
  then have "uint a < 2 ^ 63" unfolding u by simp
  moreover have "0 \<le> uint a" by simp
  ultimately have "signed_take_bit 63 (uint a) = uint a" by (intro signed_take_bit_int_eq_self) linarith+
  then have "sint a = uint a" by (simp add: sint_uint)
  then show ?thesis by (simp only: u)
qed

lemma sint_diff:
  assumes "unat (a :: 64 word) < 2 ^ 63" and "unat b < 2 ^ 63"
  shows "sint (a - b) = int (unat a) - int (unat b)"
proof -
  have r: "int (unat a) < 2 ^ 63" "int (unat b) < 2 ^ 63"
    using sint_small [OF assms(1)] sint_small [OF assms(2)] sint_lt [of a] sint_lt [of b] by simp_all
  have "- (2 ^ 63) \<le> int (unat a) - int (unat b)" "int (unat a) - int (unat b) < 2 ^ 63"
    using r of_nat_0_le_iff [of "unat a"] of_nat_0_le_iff [of "unat b"] by linarith+
  note r = this
  have "sint (a - b) = signed_take_bit 63 (sint a - sint b)" by (simp add: sint_word_ariths)
  also have "\<dots> = int (unat a) - int (unat b)"
    unfolding sint_small [OF assms(1)] sint_small [OF assms(2)]
    using r by (intro signed_take_bit_int_eq_self) simp_all
  finally show ?thesis .
qed

lemma sint_large: "2 ^ 63 \<le> unat (a :: 64 word) \<Longrightarrow> sint a < 0"
proof (rule ccontr)
  assume a: "2 ^ 63 \<le> unat a" and "\<not> sint a < 0"
  then have s: "0 \<le> sint a" "sint a < 2 ^ 63" using sint_lt [of a] by simp_all
  have "uint a = take_bit 64 (sint a)" using uint_sint [of a] by simp
  also have "\<dots> = sint a" using s by (intro take_bit_int_eq_self) simp_all
  finally have "nat (uint a) < 2 ^ 63" using s by simp
  with a show False by simp
qed

lemma due_iff:
  assumes "remain s t < 2 ^ 63" and "unat ticks < 2 ^ 63"
  shows "sint (tick_match (tasks s t) - (g_tick_count s + ticks)) \<le> 0 \<longleftrightarrow> remain s t \<le> unat ticks"
proof -
  have "tick_match (tasks s t) - (g_tick_count s + ticks) = tick_match (tasks s t) - g_tick_count s - ticks"
    by simp
  then have "sint (tick_match (tasks s t) - (g_tick_count s + ticks)) = int (remain s t) - int (unat ticks)"
    using sint_diff [of "tick_match (tasks s t) - g_tick_count s" ticks] assms by (simp only: remain_def)
  then show ?thesis by linarith
qed

lemma unat_diff_le: "unat b \<le> unat (a :: 64 word) \<Longrightarrow> unat (a - b) = unat a - unat b"
  by (simp add: unat_sub word_le_nat_alt)

lemma sorted_takeWhile_filter:
  fixes f :: "'a \<Rightarrow> nat"
  shows "sorted (map f xs) \<Longrightarrow> takeWhile (\<lambda>x. f x \<le> c) xs = filter (\<lambda>x. f x \<le> c) xs"
proof (induction xs)
  case (Cons x xs)
  show ?case
  proof (cases "f x \<le> c")
    case False
    with Cons.prems have "\<not> f y \<le> c" if "y \<in> set xs" for y using that by fastforce
    with False show ?thesis by simp
  qed (use Cons in simp)
qed simp

lemma tick_list_update_ok:
  fixes ticks :: tick
  assumes ok: "pi_ok s"
  defines "s1 \<equiv> s\<lparr>g_tick_count := g_tick_count s + ticks\<rparr>"
  shows "pi_ok (tick_list_update s ticks)"
    and "expired_frame (set (takeWhile (\<lambda>t. sint (tick_match (tasks s t) - (g_tick_count s + ticks)) \<le> 0)
      (g_tick_head s))) s1 (tick_list_update s ticks)"
proof -
  have "pi_ok s1" unfolding s1_def by (rule iffD2 [OF pi_ok_cong ok]) simp_all
  moreover have "lists_ok s" using ok by (simp add: pi_ok_but_def)
  then have "distinct (g_tick_head s1)" by (simp add: s1_def lists_ok_def tick_ok_def)
  ultimately have "pi_ok (tick_list_loop s1 (g_tick_head s1)) \<and> expired_frame
    (set (takeWhile (\<lambda>t. sint (tick_match (tasks s1 t) - g_tick_count s1) \<le> 0) (g_tick_head s1))) s1
    (tick_list_loop s1 (g_tick_head s1))"
    by (rule tick_list_loop_ok) simp
  then show "pi_ok (tick_list_update s ticks)"
    "expired_frame (set (takeWhile (\<lambda>t. sint (tick_match (tasks s t) - (g_tick_count s + ticks)) \<le> 0)
      (g_tick_head s))) s1 (tick_list_update s ticks)"
    by (simp_all add: tick_list_update_def s1_def Let_def)
qed

lemma tick_list_update_exact:
  assumes ok: "pi_ok s" and tm: "timers_ok s" and tk: "unat ticks < 2 ^ 63"
  shows "expired_frame {t \<in> set (g_tick_head s). remain s t \<le> unat ticks}
    (s\<lparr>g_tick_count := g_tick_count s + ticks\<rparr>) (tick_list_update s ticks)"
    and "timers_ok (tick_list_update s ticks)"
proof -
  let ?s' = "tick_list_update s ticks" and ?E = "{t \<in> set (g_tick_head s). remain s t \<le> unat ticks}"
  have so: "sorted (map (remain s) (g_tick_head s))"
    and r: "\<And>t. t \<in> set (g_tick_head s) \<Longrightarrow> 0 < remain s t \<and> remain s t < 2 ^ 63"
    using tm by (auto simp: timers_ok_def)
  have "takeWhile (\<lambda>t. sint (tick_match (tasks s t) - (g_tick_count s + ticks)) \<le> 0) (g_tick_head s)
      = takeWhile (\<lambda>t. remain s t \<le> unat ticks) (g_tick_head s)"
    using r due_iff [OF _ tk] by (intro takeWhile_cong) auto
  then have "set (takeWhile (\<lambda>t. sint (tick_match (tasks s t) - (g_tick_count s + ticks)) \<le> 0) (g_tick_head s)) = ?E"
    using sorted_takeWhile_filter [OF so] by auto
  with tick_list_update_ok(2) [OF ok, of ticks]
  show F: "expired_frame ?E (s\<lparr>g_tick_count := g_tick_count s + ticks\<rparr>) ?s'" by simp
  then have L: "g_tick_head ?s' = filter (\<lambda>t. t \<notin> ?E) (g_tick_head s)"
    and m: "tick_match (tasks ?s' t) = tick_match (tasks s t)"
    and fr: "list_frame (s\<lparr>g_tick_count := g_tick_count s + ticks\<rparr>) ?s'" for t
    by (simp_all add: expired_frame_def)
  have c: "g_tick_count ?s' = g_tick_count s + ticks" using list_frameD(12) [OF fr] by simp
  have r': "remain ?s' t = remain s t - unat ticks" "unat ticks < remain s t" if "t \<in> set (g_tick_head ?s')" for t
  proof -
    show lt: "unat ticks < remain s t" using that by (auto simp: L)
    have "remain ?s' t = unat ((tick_match (tasks s t) - g_tick_count s) - ticks)"
      by (simp add: remain_def m c diff_diff_add)
    then show "remain ?s' t = remain s t - unat ticks"
      using lt unat_diff_le [of ticks "tick_match (tasks s t) - g_tick_count s"] by (simp add: remain_def)
  qed
  have "sorted (map (remain s) (g_tick_head ?s'))" unfolding L using so by (rule sorted_filter)
  then have "sorted (map (\<lambda>x. x - unat ticks) (map (remain s) (g_tick_head ?s')))"
    by (rule sorted_map_mono) (auto simp: mono_on_def)
  moreover have "map (\<lambda>x. x - unat ticks) (map (remain s) (g_tick_head ?s')) = map (remain ?s') (g_tick_head ?s')"
    using r'(1) by simp
  ultimately have "sorted (map (remain ?s') (g_tick_head ?s'))" by (simp only:)
  moreover have "0 < remain ?s' t \<and> remain ?s' t < 2 ^ 63" if t: "t \<in> set (g_tick_head ?s')" for t
  proof -
    have "t \<in> set (g_tick_head s)" using t by (simp add: L)
    with r [of t] r' [OF t] show ?thesis by auto
  qed
  ultimately show "timers_ok ?s'" by (simp add: timers_ok_def)
qed

text \<open>Waiting with a timeout below \<open>2 ^ 63\<close> keeps the order.\<close>

lemma timers_ok_insert:
  assumes tm: "timers_ok s" and t: "t \<notin> set (g_tick_head s)" and d: "0 < d" "unat d < 2 ^ 63"
    and m: "tick_match x = g_tick_count s + d"
    and s': "g_tick_head s' = insert_before (\<lambda>q. d < tick_match (((tasks s)(t := y)) q) - g_tick_count s) t (g_tick_head s)"
      "tasks s' = (tasks s)(t := x)" "g_tick_count s' = g_tick_count s"
  shows "timers_ok s'"
proof -
  have rt: "remain s' t = unat d" by (simp add: remain_def s' m)
  have ro: "remain s' q = remain s q" if "q \<noteq> t" for q using that by (simp add: remain_def s')
  have q: "q \<in> set (g_tick_head s) \<Longrightarrow> q \<noteq> t" for q using t by auto
  have "g_tick_head s' = insert_before (\<lambda>q. remain s' t < remain s' q) t (g_tick_head s)"
    unfolding s'(1) using q by (intro insert_before_cong) (auto simp: ro rt, simp_all add: remain_def word_less_nat_alt)
  moreover have "sorted (map (remain s') (g_tick_head s))"
    using tm q ro by (subst sorted_map_cong_set [where g = "remain s"]) (auto simp: timers_ok_def)
  ultimately have "sorted (map (remain s') (g_tick_head s'))" by (simp add: sorted_insert_before)
  moreover have "0 < remain s' q \<and> remain s' q < 2 ^ 63" if "q \<in> set (g_tick_head s')" for q
  proof (cases "q = t")
    case True
    with d show ?thesis by (simp add: rt word_neq_0_conv [symmetric] unat_gt_0)
  next
    case False
    with that have "q \<in> set (g_tick_head s)" by (simp add: s'(1))
    with tm False show ?thesis by (simp add: timers_ok_def ro)
  qed
  ultimately show ?thesis by (simp add: timers_ok_def)
qed

section \<open>The tick interrupt\<close>

lemma tick_list_update_kern:
  assumes ok: "kern_ok s" and i: "g_intrpt_nested_level s > 0"
  shows "kern_ok (tick_list_update s ticks)" and "g_intrpt_nested_level (tick_list_update s ticks) > 0"
proof -
  note k = kern_okD [OF ok] and T = tick_list_update_ok [OF kern_okD(1) [OF ok], of ticks]
  let ?s' = "tick_list_update s ticks" and ?a = "g_active_task s"
  have "list_frame (s\<lparr>g_tick_count := g_tick_count s + ticks\<rparr>) ?s'" using T(2) by (simp add: expired_frame_def)
  note F = list_frameD(8-10) [OF this, simplified]
  show "g_intrpt_nested_level ?s' > 0" using i F by simp
  have "rdy (tasks ?s' ?a)" if r: "rdy (tasks s ?a)"
  proof -
    have "\<not> tick_head (tasks s ?a)" using lists_okD(3) [OF k(3)] r by (auto simp: tick_ok_def task_kinds)
    then have "?a \<notin> set (g_tick_head s)" using lists_okD(3) [OF k(3)] by (simp add: tick_ok_mem)
    then have "?a \<notin> set (takeWhile P (g_tick_head s))" for P using set_takeWhileD by fastforce
    then show ?thesis using T(2) r by (simp add: expired_frame_def rdy_def)
  qed
  then have "act_ok ?s'" using k(7) i F by (auto simp: act_ok_def act_safe_def)
  then show "kern_ok ?s'" using T(1) by (simp add: kern_ok_def)
qed

lemma time_slice_update_kern:
  assumes ok: "kern_ok s" and i: "g_intrpt_nested_level s > 0"
  shows "kern_ok (time_slice_update s)"
proof -
  note k = kern_okD [OF ok]
  let ?p = "prio (tasks s (g_active_task s))"
  have act: "act_ok s'" if "g_active_task s' = g_active_task s" "g_intrpt_nested_level s' = g_intrpt_nested_level s"
    "g_sched_lock s' = g_sched_lock s" "\<And>u. rdy (tasks s' u) = rdy (tasks s u)" for s'
    using k(7) i that by (auto simp: act_ok_def act_safe_def)
  show ?thesis
  proof (cases "cur_list_item (g_ready_queue s) ?p = []")
    case True
    with ok show ?thesis by (simp add: time_slice_update_def is_ready_list_empty_def Let_def)
  next
    case False
    define t where "t = first (cur_list_item (g_ready_queue s) ?p)"
    have t: "rdy (tasks s t)" "prio (tasks s t) = ?p"
      using rdy_ok_mem [OF lists_okD(1) [OF k(3)], of t ?p] first_in_set [OF False] by (simp_all add: t_def)
    define s1 where "s1 = (if task_time_slice (tasks s t) > 0
      then set_task t (task_time_slice_update (\<lambda>n. n - 1)) s else s)"
    have P1: "pi_ok s1"
    proof (cases "task_time_slice (tasks s t) > 0")
      case True
      let ?y = "task_time_slice_update (\<lambda>n. n - 1) (tasks s t)"
      have "pi_ok (s\<lparr>tasks := (tasks s)(t := ?y)\<rparr>)" by (rule pi_ok_task_same [OF k(1)]) simp_all
      moreover have "set_task t (task_time_slice_update (\<lambda>n. n - 1)) s = s\<lparr>tasks := (tasks s)(t := ?y)\<rparr>" by simp
      ultimately show ?thesis using True unfolding s1_def by (simp only: if_True)
    qed (use k(1) in \<open>simp add: s1_def\<close>)
    have f: "rdy (tasks s1 u) = rdy (tasks s u)" "prio (tasks s1 u) = prio (tasks s u)"
      "g_ready_queue s1 = g_ready_queue s" "g_tick_head s1 = g_tick_head s"
      "g_active_task s1 = g_active_task s" "g_sched_lock s1 = g_sched_lock s"
      "g_intrpt_nested_level s1 = g_intrpt_nested_level s" for u
      by (simp_all add: rdy_def s1_def)
    have K1: "kern_ok s1" using P1 act [of s1] f by (simp add: kern_ok_def)
    have ls1: "lists_ok s1" using P1 by (simp add: pi_ok_but_def)
    define x where "x = (tasks s1 t)\<lparr>task_time_slice := time_total (tasks s1 t)\<rparr>"
    define s2 where "s2 = s1\<lparr>g_ready_queue := ready_list_head_to_tail (g_ready_queue s1) (prio (tasks s1 t)),
        g_tick_head := g_tick_head s1, tasks := (tasks s1)(t := x)\<rparr>"
    have st: "task_state (tasks s1 t) = K_RDY" using t(1) f(1) [of t] by (simp only: rdy_def)
    have x: "task_state x = K_RDY" "prio x = prio (tasks s1 t)" "b_prio x = b_prio (tasks s1 t)"
      "mutex_list x = mutex_list (tasks s1 t)" "tick_head x = tick_head (tasks s1 t)" "blk_obj x = blk_obj (tasks s1 t)"
      using st by (simp_all add: x_def)
    have "rdy_ok (ready_list_head_to_tail (g_ready_queue s1) (prio (tasks s1 t))) ((tasks s1)(t := x))"
      using st x by (intro rdy_ok_same [OF rdy_ok_rotate [OF lists_okD(1) [OF ls1]]]) (simp_all add: rdy_def)
    moreover have "tick_ok (g_tick_head s1) ((tasks s1)(t := x))"
      using st x lists_okD(3) [OF ls1]
      by (intro tick_ok_same [OF lists_okD(3) [OF ls1]]) (auto simp: tick_ok_def task_kinds)
    ultimately have P2: "pi_ok s2"
      unfolding s2_def using st x by (intro pi_ok_move [OF P1]) (simp_all add: task_kinds)
    have "rdy (tasks s2 u) = rdy (tasks s u)" for u
      using f(1) [of u] x t(1) by (simp add: rdy_def s2_def)
    moreover have "g_active_task s2 = g_active_task s" "g_sched_lock s2 = g_sched_lock s"
      "g_intrpt_nested_level s2 = g_intrpt_nested_level s" using f by (simp_all add: s2_def)
    ultimately have K2: "kern_ok s2" using P2 act [of s2] by (simp add: kern_ok_def)
    have s2: "set_task t (\<lambda>t. t\<lparr>task_time_slice := time_total t\<rparr>)
        (g_ready_queue_update (\<lambda>rq. ready_list_head_to_tail rq (prio (tasks s1 t))) s1) = s2"
      by (simp add: s2_def x_def)
    have "time_slice_update s = (if sched_policy (tasks s t) = KSCHED_FIFO then s
        else if length (cur_list_item (g_ready_queue s) ?p) = 1 then s
        else if task_time_slice (tasks s1 t) > 0 then s1 else s2)"
      using False unfolding time_slice_update_def is_ready_list_empty_def Let_def t_def [symmetric]
        s1_def [symmetric] s2 by simp
    then show ?thesis using ok K1 K2 by simp
  qed
qed

text \<open>The tick interrupt keeps the kernel invariant, whatever the tasks that time out were
  waiting for, priority inheritance included.\<close>

theorem tick_proc_inv:
  assumes "kern_ok s" and "g_intrpt_nested_level s > 0"
  shows "kern_ok (krhino_tick_proc s)"
  unfolding krhino_tick_proc_def
  by (rule time_slice_update_kern) (rule tick_list_update_kern [OF assms])+

theorem tick_proc_inv_witness:
  "kern_ok (krhino_tick_proc (ex_state\<lparr>g_intrpt_nested_level := 1\<rparr>))"
proof -
  have "kern_ok (ex_state\<lparr>g_intrpt_nested_level := 1\<rparr>)"
    using ex_kern_ok by (auto simp: kern_ok_def act_ok_def act_safe_def pi_ok_but_def lists_ok_def)
  then show ?thesis by (rule tick_proc_inv) simp
qed

section \<open>Timeouts are exact\<close>

text \<open>C17: When \<open>ticks\<close> ticks have passed, exactly the tasks whose remaining time is at most \<open>ticks\<close>
  leave the tick list: a sleeper is released, a waiter is told that it timed out, and a task
  that was suspended besides stays suspended. All others keep waiting, and their order by
  remaining time, on which the early exit of the loop relies, is kept.\<close>

theorem tick_list_update_wakes_exactly:
  assumes "kern_ok s" and "timers_ok s" and "unat ticks < 2 ^ 63"
  defines "s' \<equiv> tick_list_update s ticks"
  shows "timers_ok s' \<and> g_tick_count s' = g_tick_count s + ticks
    \<and> (\<forall>t. if t \<in> set (g_tick_head s) \<and> remain s t \<le> unat ticks
         then t \<notin> set (g_tick_head s')
           \<and> task_state (tasks s' t) = expired_state (task_state (tasks s t))
           \<and> blk_state (tasks s' t) = expired_blk (task_state (tasks s t))
         else (t \<in> set (g_tick_head s') \<longleftrightarrow> t \<in> set (g_tick_head s))
           \<and> task_state (tasks s' t) = task_state (tasks s t)
           \<and> blk_state (tasks s' t) = blk_state (tasks s t))"
proof -
  note E = tick_list_update_exact [OF kern_okD(1) [OF assms(1)] assms(2,3), folded s'_def]
  have "list_frame (s\<lparr>g_tick_count := g_tick_count s + ticks\<rparr>) s'" using E(1) by (simp add: expired_frame_def)
  from list_frameD(12) [OF this] E show ?thesis by (auto simp: expired_frame_def)
qed

lemma ex_timers_ok: "timers_ok ex_state"
  by (simp add: timers_ok_def remain_def ex_eval)

theorem tick_list_update_wakes_exactly_witness:
  "task_state (tasks (tick_list_update ex_state 1) 6) = K_RDY
    \<and> task_state (tasks (tick_list_update ex_state 1) 4) = K_PEND"
proof -
  note W = tick_list_update_wakes_exactly [OF ex_kern_ok ex_timers_ok, of 1]
  have "remain ex_state 6 = 1" "remain ex_state 4 = 50" by (simp_all add: remain_def ex_eval)
  then show ?thesis
    using conjunct2 [OF conjunct2 [OF W], THEN spec, of 6] conjunct2 [OF conjunct2 [OF W], THEN spec, of 4]
    by (simp add: ex_eval expired_state_def)
qed

text \<open>Blocking with a timeout below \<open>2 ^ 63\<close> ticks keeps the tick list ordered and every
  remaining time positive.\<close>

theorem blocking_keeps_timers_ok:
  assumes "kern_ok s" and "timers_ok s" and "rdy (tasks s t)" and "timed d \<Longrightarrow> unat d < 2 ^ 63"
  shows "timers_ok (pend_to_blk_obj s ob t d)"
proof (cases "timed d")
  case False
  then have "g_tick_head (pend_to_blk_obj s ob t d) = g_tick_head s"
    "tick_match (tasks (pend_to_blk_obj s ob t d) q) = tick_match (tasks s q)"
    "g_tick_count (pend_to_blk_obj s ob t d) = g_tick_count s" for q
    by (simp_all add: pend_to_blk_obj_eq)
  moreover from this have "remain (pend_to_blk_obj s ob t d) = remain s" by (simp add: remain_def fun_eq_iff)
  ultimately show ?thesis using assms(2) by (simp add: timers_ok_def)
next
  case True
  have "\<not> tick_head (tasks s t)"
    using lists_okD(3) [OF kern_okD(3) [OF assms(1)]] assms(3) by (auto simp: tick_ok_def task_kinds)
  then have "t \<notin> set (g_tick_head s)" using lists_okD(3) [OF kern_okD(3) [OF assms(1)]] by (simp add: tick_ok_mem)
  then show ?thesis
    using True assms(4)
    by (intro timers_ok_insert [OF assms(2), of t d "blocked ob (g_tick_count s) d (tasks s t)"])
      (simp_all add: pend_to_blk_obj_eq timed_def)
qed

theorem blocking_keeps_timers_ok_witness: "timers_ok (pend_to_blk_obj ex_state 200 2 7)"
  by (rule blocking_keeps_timers_ok [OF ex_kern_ok ex_timers_ok]) (simp_all add: ex_eval rdy_def)

text \<open>\<^verbatim>\<open>krhino_ms_to_ticks\<close> rounds up and never overflows; \<^verbatim>\<open>krhino_ticks_to_ms\<close> is exact as long as
  the result fits, so a number of ticks survives the way to milliseconds and back.\<close>

theorem ms_ticks_conversion:
  assumes "unat t * 10 < 2 ^ 64"
  shows "unat (krhino_ms_to_ticks ms) = (unat ms + 9) div 10
    \<and> unat (krhino_ticks_to_ms t) = unat t * 10 \<and> krhino_ms_to_ticks (krhino_ticks_to_ms t) = t"
proof -
  have "unat (krhino_ms_to_ticks (krhino_ticks_to_ms t)) = unat t"
    using assms by (simp add: unat_ms_to_ticks unat_ticks_to_ms)
  then have "krhino_ms_to_ticks (krhino_ticks_to_ms t) = t" by (simp only: word_unat_eq_iff)
  then show ?thesis using unat_ms_to_ticks unat_ticks_to_ms [OF assms] by blast
qed

theorem ms_ticks_conversion_witness:
  "unat (krhino_ms_to_ticks 25) = 3 \<and> krhino_ms_to_ticks (krhino_ticks_to_ms 1234) = 1234"
  using ms_ticks_conversion [of 1234 25] by simp

end
