(* ===== verification/Wait_Object.thy ===== *)
theory Wait_Object
  imports Leave_Wait
begin

text \<open>
  What semaphores, queues, buffer queues and events share: their creation and deletion, blocking
  the caller on them and waking one or all of the tasks that wait for them. None of them is a
  mutex, so priority inheritance is not concerned, and the kernel invariant is proved here once
  for all.

  The locale \<open>wait_object\<close> states the interface of an object that has something to give or has
  not (\<open>avail\<close>): from the two assumptions about \<open>avail\<close> it follows that blocking and waking keep
  tasks from waiting for an object that could serve them.
\<close>

section \<open>Waking all\<close>

text \<open>\<^verbatim>\<open>while\<close> tasks wait, \<^verbatim>\<open>pend_task_wakeup\<close> of the first: as many turns as tasks empty the list.\<close>

fun wake_loop :: "nat \<Rightarrow> kstate \<Rightarrow> ptr \<Rightarrow> kstate" where
  "wake_loop 0 s ob = s"
| "wake_loop (Suc n) s ob =
     (if blk_list (blks s ob) = [] then s
      else wake_loop n (pend_task_wakeup s (first (blk_list (blks s ob)))) ob)"

definition wake_all :: "kstate \<Rightarrow> ptr \<Rightarrow> kstate" where
  "wake_all s ob = wake_loop (length (blk_list (blks s ob))) s ob"

section \<open>The shared steps keep the kernel invariant\<close>

lemma kern_ok_data:
  assumes "kern_ok s" and "g_ready_queue s' = g_ready_queue s" "tasks s' = tasks s" "blks s' = blks s"
    "g_tick_head s' = g_tick_head s" "mutexes s' = mutexes s" "g_active_task s' = g_active_task s"
    "g_sched_lock s' = g_sched_lock s" "g_intrpt_nested_level s' = g_intrpt_nested_level s"
  shows "kern_ok s'"
  using assms kern_ok_cong by blast

lemma kern_ok_retask:
  assumes ok: "kern_ok s" and "prio x = prio (tasks s t)" "b_prio x = b_prio (tasks s t)"
    "mutex_list x = mutex_list (tasks s t)" "task_state x = task_state (tasks s t)"
    "tick_head x = tick_head (tasks s t)" and "pending x \<Longrightarrow> blk_obj x = blk_obj (tasks s t)"
  shows "kern_ok (s\<lparr>tasks := (tasks s)(t := x)\<rparr>)"
proof -
  have "pi_ok (s\<lparr>tasks := (tasks s)(t := x)\<rparr>)" by (rule pi_ok_task_same [OF kern_okD(1) [OF ok]]) fact+
  moreover have "rdy x = rdy (tasks s t)" using assms(5) by (simp add: task_kinds)
  then have "act_ok (s\<lparr>tasks := (tasks s)(t := x)\<rparr>)"
    using kern_okD(2) [OF ok] by (auto simp: act_ok_def act_safe_def)
  ultimately show ?thesis by (simp add: kern_ok_def)
qed

text \<open>Creation: the object must not be a mutex in use, and nobody may wait for it.\<close>

lemma obj_create_ok:
  assumes ok: "kern_ok s" and f: "obj_type (blks s ob) \<noteq> RHINO_MUTEX_OBJ_TYPE" "blk_list (blks s ob) = []"
    and b: "blk_list b = []" "obj_type b \<noteq> RHINO_MUTEX_OBJ_TYPE"
  shows "kern_ok (s\<lparr>blks := (blks s)(ob := b)\<rparr>)"
proof -
  note k = kern_okD [OF ok]
  let ?B = "(blks s)(ob := b)"
  have nh: "j \<noteq> ob" if "j \<in> set (held (tasks s) t)" for j t
    using mx_ok_held(4) [OF k(4) that] f(1) by auto
  have "mx_ok (mutexes s) ?B (tasks s)" using k(4) nh b(2) unfolding mx_ok_but_def by auto
  moreover have "waiters ?B (tasks s) = waiters (blks s) (tasks s)"
    using nh by (auto simp: waiters_def fun_eq_iff)
  then have "inh_ok ?B (tasks s)" using k(5) by (simp add: inh_ok_but_def eff_prio_def)
  moreover have "blk_ok ?B (tasks s)" using f(2) b(1) lists_okD(2) [OF k(3)] by (intro blk_ok_hdr) simp_all
  ultimately have "pi_ok (s\<lparr>blks := ?B\<rparr>)" using lists_okD [OF k(3)] by (simp add: pi_ok_but_def lists_ok_def)
  moreover have "act_ok (s\<lparr>blks := ?B\<rparr>)" using k(2) by (simp add: act_ok_def act_safe_def)
  ultimately show ?thesis by (simp add: kern_ok_def)
qed

text \<open>Deletion: the object loses its type, and all waiters are told.\<close>

definition obj_retire :: "kstate \<Rightarrow> ptr \<Rightarrow> kstate" where
  "obj_retire s ob = pend_rm_all (set_blk ob (\<lambda>b. b\<lparr>obj_type := RHINO_OBJ_TYPE_NONE\<rparr>) s) ob"

lemma set_type_ok:
  assumes ok: "pi_ok s" and ty: "obj_type (blks s ob) \<noteq> RHINO_MUTEX_OBJ_TYPE"
  shows "pi_ok (set_blk ob (\<lambda>b. b\<lparr>obj_type := RHINO_OBJ_TYPE_NONE\<rparr>) s)"
    and "list_frame s (set_blk ob (\<lambda>b. b\<lparr>obj_type := RHINO_OBJ_TYPE_NONE\<rparr>) s)"
proof -
  let ?B = "(blks s)(ob := (blks s ob)\<lparr>obj_type := RHINO_OBJ_TYPE_NONE\<rparr>)"
  have ls: "lists_ok s" and mx: "mx_ok (mutexes s) (blks s) (tasks s)" and inh: "inh_ok (blks s) (tasks s)"
    using ok by (simp_all add: pi_ok_but_def)
  have nh: "j \<noteq> ob" if "j \<in> set (held (tasks s) t)" for j t
    using mx_ok_held(4) [OF mx that] ty by auto
  have "mx_ok (mutexes s) ?B (tasks s)" using mx nh unfolding mx_ok_but_def by auto
  moreover have "waiters ?B (tasks s) = waiters (blks s) (tasks s)"
    using nh by (auto simp: waiters_def fun_eq_iff)
  then have "inh_ok ?B (tasks s)" using inh by (simp add: inh_ok_but_def eff_prio_def)
  moreover have "blk_ok ?B (tasks s)" using lists_okD(2) [OF ls] by (intro blk_ok_hdr) simp_all
  ultimately show "pi_ok (set_blk ob (\<lambda>b. b\<lparr>obj_type := RHINO_OBJ_TYPE_NONE\<rparr>) s)"
    using lists_okD [OF ls] by (simp add: pi_ok_but_def lists_ok_def)
  show "list_frame s (set_blk ob (\<lambda>b. b\<lparr>obj_type := RHINO_OBJ_TYPE_NONE\<rparr>) s)"
    unfolding list_frame_def
    by (rule exI [of _ "g_ready_queue s"], rule exI [of _ ?B], rule exI [of _ "g_tick_head s"],
        rule exI [of _ "tasks s"]) simp
qed

lemma obj_retire_ok:
  assumes ok: "kern_ok s" and ty: "obj_type (blks s ob) \<noteq> RHINO_MUTEX_OBJ_TYPE"
  defines "s' \<equiv> obj_retire s ob"
  shows "kern_ok (core_sched s')" and "list_frame s s'"
    and "tasks s' t = (if t \<in> set (blk_list (blks s ob)) then woken BLK_DEL (tasks s t) else tasks s t)"
    and "blk_list (blks s' o') = (if o' = ob then [] else blk_list (blks s o'))"
    and "obj_type (blks s' o') = (if o' = ob then RHINO_OBJ_TYPE_NONE else obj_type (blks s o'))"
proof -
  let ?s0 = "set_blk ob (\<lambda>b. b\<lparr>obj_type := RHINO_OBJ_TYPE_NONE\<rparr>) s"
  note k = kern_okD [OF ok] and S = set_type_ok [OF kern_okD(1) [OF ok] ty]
  note R = pend_rm_all_ok [OF S(1), of ob, simplified]
  show L: "list_frame s s'" using S(2) R unfolding s'_def obj_retire_def by (blast intro: list_frame_trans)
  show T: "tasks s' t = (if t \<in> set (blk_list (blks s ob)) then woken BLK_DEL (tasks s t) else tasks s t)" for t
    using R by (simp add: s'_def obj_retire_def)
  show "blk_list (blks s' o') = (if o' = ob then [] else blk_list (blks s o'))"
    "obj_type (blks s' o') = (if o' = ob then RHINO_OBJ_TYPE_NONE else obj_type (blks s o'))"
    using R by (simp_all add: s'_def obj_retire_def)
  show "kern_ok (core_sched s')"
  proof (rule kern_ok_resched [OF ok _ L])
    show "pi_ok s'" using R by (simp add: s'_def obj_retire_def)
    show "rdy (tasks s' (g_active_task s))" if "rdy (tasks s (g_active_task s))"
      using that lists_okD(2) [OF k(3)] by (auto simp: T blk_ok_mem task_kinds)
  qed
qed

text \<open>Blocking the caller.\<close>

lemma obj_block_ok:
  assumes ok: "kern_ok s" and ni: "prio (tasks s (g_active_task s)) \<noteq> RHINO_IDLE_PRI"
    and i: "g_intrpt_nested_level s = 0" "g_sched_lock s = 0"
    and ty: "obj_type (blks s ob) \<noteq> RHINO_MUTEX_OBJ_TYPE"
  shows "kern_ok (core_sched (pend_to_blk_obj s ob (g_active_task s) d))"
proof -
  note r = kern_ok_caller [OF ok i(1)]
  have "pi_ok (pend_to_blk_obj s ob (g_active_task s) d)" by (rule block_pi_ok [OF kern_okD(1) [OF ok] r ni ty])
  then show ?thesis
    using i list_frameD(9,10) [OF list_frame_block] by (intro kern_ok_core_sched) simp_all
qed

text \<open>Waking the first waiter, and waking all.\<close>

lemma obj_wake_ok:
  assumes ok: "kern_ok s" and p: "t \<in> set (blk_list (blks s ob))"
    and ty: "obj_type (blks s ob) \<noteq> RHINO_MUTEX_OBJ_TYPE"
  shows "kern_ok (core_sched (wake_task b s t))"
proof -
  note k = kern_okD [OF ok] and bl = blk_ok_mem [OF lists_okD(2) [OF kern_okD(3) [OF ok]]]
  have t: "pending (tasks s t)" "blk_obj (tasks s t) = ob" using p by (simp_all add: bl)
  show ?thesis
  proof (rule kern_ok_resched [OF ok _ list_frame_wake])
    show "pi_ok (wake_task b s t)" by (rule wake_pi_ok_not_mutex [OF k(1) t(1)]) (simp add: t(2) ty)
  qed (use t(1) in \<open>auto simp: task_kinds\<close>)
qed

lemma wake_loop_ok:
  assumes "pi_ok s" and "obj_type (blks s ob) \<noteq> RHINO_MUTEX_OBJ_TYPE"
    and "length (blk_list (blks s ob)) = n"
  shows "pi_ok (wake_loop n s ob) \<and> list_frame s (wake_loop n s ob)
    \<and> (\<forall>t. tasks (wake_loop n s ob) t
         = (if t \<in> set (blk_list (blks s ob)) then woken BLK_FINISH (tasks s t) else tasks s t))
    \<and> (\<forall>o'. blks (wake_loop n s ob) o'
         = (if o' = ob then (blks s ob)\<lparr>blk_list := []\<rparr> else blks s o'))"
  using assms
proof (induction n arbitrary: s)
  case 0
  then have "(blks s ob)\<lparr>blk_list := []\<rparr> = blks s ob" by (intro blk_obj_t.equality) simp_all
  with 0 show ?case by simp
next
  case (Suc n)
  have ls: "lists_ok s" using Suc.prems(1) by (simp add: pi_ok_but_def)
  note bl = lists_okD(2) [OF ls]
  obtain w ws where l: "blk_list (blks s ob) = w # ws" using Suc.prems(3) by (cases "blk_list (blks s ob)") auto
  have w: "pending (tasks s w)" "blk_obj (tasks s w) = ob" using blk_ok_mem [OF bl, of w ob] l by simp_all
  have d: "distinct (w # ws)" using blk_ok_distinct [OF bl, of ob] l by simp
  let ?s1 = "wake_task BLK_FINISH s w"
  have ok1: "pi_ok ?s1" by (rule wake_pi_ok_not_mutex [OF Suc.prems(1) w(1)]) (simp add: w(2) Suc.prems(2))
  have l1: "blk_list (blks ?s1 ob) = ws" using l d by simp
  have ty1: "obj_type (blks ?s1 ob) \<noteq> RHINO_MUTEX_OBJ_TYPE" using Suc.prems(2) by simp
  have n1: "length (blk_list (blks ?s1 ob)) = n" using l1 l Suc.prems(3) by simp
  note IH = Suc.IH [OF ok1 ty1 n1]
  have e: "wake_loop (Suc n) s ob = wake_loop n ?s1 ob" by (simp add: l pend_task_wakeup_eq [OF w(1)])
  have other: "blks ?s1 o' = blks s o'" if "o' \<noteq> ob" for o'
  proof -
    have "w \<notin> set (blk_list (blks s o'))" using w(2) that by (simp add: blk_ok_mem [OF bl])
    then show ?thesis by (intro blk_obj_t.equality) simp_all
  qed
  have this_ob: "(blks ?s1 ob)\<lparr>blk_list := []\<rparr> = (blks s ob)\<lparr>blk_list := []\<rparr>" by (intro blk_obj_t.equality) simp_all
  show ?case
    unfolding e using IH other this_ob l1 l d list_frame_wake [of s BLK_FINISH w]
    by (auto intro: list_frame_trans)
qed

lemmas wake_all_ok = wake_loop_ok [OF _ _ refl, folded wake_all_def]

lemma obj_wake_all_ok:
  assumes ok: "kern_ok s" and ty: "obj_type (blks s ob) \<noteq> RHINO_MUTEX_OBJ_TYPE"
  shows "kern_ok (core_sched (wake_all s ob))"
proof -
  note k = kern_okD [OF ok] and W = wake_all_ok [OF kern_okD(1) [OF ok] ty]
  show ?thesis
  proof (rule kern_ok_resched [OF ok])
    show "rdy (tasks (wake_all s ob) (g_active_task s))" if "rdy (tasks s (g_active_task s))"
      using that W lists_okD(2) [OF k(3)] by (auto simp: blk_ok_mem task_kinds)
  qed (use W in simp_all)
qed

section \<open>No lost wake-ups\<close>

text \<open>What a task said when it blocked: the option and the flags of \<^verbatim>\<open>krhino_event_get\<close>.\<close>

definition request :: "ktask_t \<Rightarrow> u8 \<times> u32" where
  "request x = (pend_option x, pend_flags x)"

lemma request_simps [simp]:
  "request (woken b x) = request x" "request (blocked ob c d x) = request x"
  "request (x\<lparr>msg := v\<rparr>) = request x" "request (x\<lparr>bq_msg_size := n\<rparr>) = request x"
  by (simp_all add: request_def woken_def blocked_def)

text \<open>No task waits for an object of type \<open>ty\<close> that could serve it.\<close>

definition no_lost :: "kobj_type_t \<Rightarrow> (kstate \<Rightarrow> ptr \<Rightarrow> ptr \<Rightarrow> bool) \<Rightarrow> kstate \<Rightarrow> bool" where
  "no_lost ty avail s \<longleftrightarrow>
     (\<forall>ob t. obj_type (blks s ob) = ty \<and> t \<in> set (blk_list (blks s ob)) \<longrightarrow> \<not> avail s ob t)"

text \<open>The idle task must not wait; a call that does not wait, or comes from an interrupt, cannot block.\<close>

definition may_wait :: "kstate \<Rightarrow> tick \<Rightarrow> bool" where
  "may_wait s d \<longleftrightarrow> d = RHINO_NO_WAIT \<or> g_intrpt_nested_level s > 0
     \<or> prio (tasks s (g_active_task s)) \<noteq> RHINO_IDLE_PRI"

lemma may_wait_task: "prio (tasks s (g_active_task s)) \<noteq> RHINO_IDLE_PRI \<Longrightarrow> may_wait s d"
  by (simp add: may_wait_def)

lemma may_waitD:
  "may_wait s d \<Longrightarrow> d \<noteq> RHINO_NO_WAIT \<Longrightarrow> g_intrpt_nested_level s = 0 \<Longrightarrow>
   prio (tasks s (g_active_task s)) \<noteq> RHINO_IDLE_PRI"
  by (simp add: may_wait_def)

locale wait_object =
  fixes ty :: kobj_type_t and avail :: "kstate \<Rightarrow> ptr \<Rightarrow> ptr \<Rightarrow> bool"
  assumes not_mutex: "ty \<noteq> RHINO_MUTEX_OBJ_TYPE" and not_none: "ty \<noteq> RHINO_OBJ_TYPE_NONE"
    and avail_frame: "list_frame s s' \<Longrightarrow> request (tasks s' t) = request (tasks s t)
      \<Longrightarrow> avail s' ob t = avail s ob t"
    and avail_sched: "avail (core_sched s) ob t = avail s ob t"
begin

lemma no_lost_sched [simp]: "no_lost ty avail (core_sched s) = no_lost ty avail s"
  by (simp add: no_lost_def avail_sched)

lemma no_lostD:
  "no_lost ty avail s \<Longrightarrow> obj_type (blks s ob) = ty \<Longrightarrow> t \<in> set (blk_list (blks s ob)) \<Longrightarrow> \<not> avail s ob t"
  by (simp add: no_lost_def)

text \<open>A caller that found nothing waits.\<close>

lemma block:
  assumes "no_lost ty avail s" and "\<not> avail s ob t"
  shows "no_lost ty avail (core_sched (pend_to_blk_obj s ob t d))"
proof -
  let ?s' = "pend_to_blk_obj s ob t d"
  have r: "request (tasks ?s' u) = request (tasks s u)" for u by (simp add: pend_to_blk_obj_eq)
  have b: "obj_type (blks ?s' o') = obj_type (blks s o')"
    "set (blk_list (blks ?s' o')) = (if o' = ob then insert t (set (blk_list (blks s ob))) else set (blk_list (blks s o')))"
    for o' by (simp_all add: pend_to_blk_obj_eq)
  show ?thesis
    unfolding no_lost_sched unfolding no_lost_def avail_frame [OF list_frame_block r] b
    using assms by (auto simp: no_lost_def split: if_splits)
qed

text \<open>Tasks leave waiting lists.\<close>

lemma shrink:
  assumes "no_lost ty avail s" and "list_frame s s'"
    and "\<And>o'. set (blk_list (blks s' o')) \<subseteq> set (blk_list (blks s o'))"
    and "\<And>o'. obj_type (blks s' o') = obj_type (blks s o') \<or> obj_type (blks s' o') = RHINO_OBJ_TYPE_NONE"
    and "\<And>t. request (tasks s' t) = request (tasks s t)"
  shows "no_lost ty avail s'"
  unfolding no_lost_def avail_frame [OF assms(2,5)]
proof (intro allI impI)
  fix ob t
  assume o: "obj_type (blks s' ob) = ty \<and> t \<in> set (blk_list (blks s' ob))"
  then have "t \<in> set (blk_list (blks s ob))" using assms(3) [of ob] by auto
  moreover have "obj_type (blks s ob) = ty" using o assms(4) [of ob] not_none by auto
  ultimately show "\<not> avail s ob t" using assms(1) by (simp add: no_lost_def)
qed

lemma wake:
  assumes "no_lost ty avail s"
  shows "no_lost ty avail (core_sched (wake_task b s t))"
  unfolding no_lost_sched by (rule shrink [OF assms list_frame_wake]) auto

lemma wake_all_waiters:
  assumes "no_lost ty avail s" and "kern_ok s" and "obj_type (blks s ob) \<noteq> RHINO_MUTEX_OBJ_TYPE"
  shows "no_lost ty avail (core_sched (wake_all s ob))"
  unfolding no_lost_sched
  using wake_all_ok [OF kern_okD(1) [OF assms(2)] assms(3)] by (intro shrink [OF assms(1)]) auto

lemma retire:
  assumes "no_lost ty avail s" and "kern_ok s" and "obj_type (blks s ob) \<noteq> RHINO_MUTEX_OBJ_TYPE"
  shows "no_lost ty avail (core_sched (obj_retire s ob))"
  unfolding no_lost_sched
  using obj_retire_ok(2-5) [OF assms(2,3)] by (intro shrink [OF assms(1)]) auto

text \<open>The stock of an object nobody waits for may change.\<close>

lemma restock:
  assumes "no_lost ty avail s" and "blks s' = blks s" and "blk_list (blks s ob) = []"
    and "\<And>o' t. o' \<noteq> ob \<Longrightarrow> avail s' o' t = avail s o' t"
  shows "no_lost ty avail s'"
  unfolding no_lost_def
proof (intro allI impI)
  fix o' t
  assume a: "obj_type (blks s' o') = ty \<and> t \<in> set (blk_list (blks s' o'))"
  with assms(2,3) have "o' \<noteq> ob" by auto
  with a assms show "\<not> avail s' o' t" by (simp add: no_lostD)
qed

text \<open>Something may be taken away at any time.\<close>

lemma take_away:
  assumes "no_lost ty avail s" and "blks s' = blks s"
    and "\<And>o' t. t \<in> set (blk_list (blks s o')) \<Longrightarrow> avail s' o' t \<Longrightarrow> avail s o' t"
  shows "no_lost ty avail s'"
  using assms by (auto simp: no_lost_def)

text \<open>A new object, with any stock, has no waiters.\<close>

lemma created:
  assumes "no_lost ty avail s" and "blks s' = (blks s)(ob := b)" and "blk_list b = []"
    and "\<And>o' t. o' \<noteq> ob \<Longrightarrow> avail s' o' t = avail s o' t"
  shows "no_lost ty avail s'"
  using assms(1,3,4) unfolding no_lost_def assms(2) by auto

text \<open>An object with something to give serves the caller at once: nobody is in front of it.\<close>

lemma nobody_waits:
  assumes "no_lost ty avail s" and "obj_type (blks s ob) = ty" and "\<And>t. avail s ob t"
  shows "blk_list (blks s ob) = []"
  using no_lostD [OF assms(1,2), of "first (blk_list (blks s ob))"] assms(3) first_in_set by blast

end

end
