(* ===== verification/Sem.thy ===== *)
theory Sem
  imports Wait_Object
begin

text \<open>
  Semaphores: \<^verbatim>\<open>kernel/rhino/core/k_sem.c\<close> and the semaphore of a task, \<^verbatim>\<open>k_task_sem.c\<close>.

  The kernel invariant is kept, and a semaphore never has units while tasks wait for it
  (\<open>sem_inv\<close>). Units are conserved: a unit that is given reaches the most urgent waiter or the
  counter.
\<close>

section \<open>The operations\<close>

definition sem_create :: "kstate \<Rightarrow> ptr \<Rightarrow> ptr \<Rightarrow> u32 \<Rightarrow> alloc_flag_t \<Rightarrow> kstat \<times> kstate" where
  "sem_create s sem name cnt mm_alloc_flag =
     (if sem = NULL then (RHINO_NULL_PTR, s)
      else if name = NULL then (RHINO_NULL_PTR, s)
      else
        let s = set_blk sem (\<lambda>b. b\<lparr>blk_list := []\<rparr>) s;
            s = set_sem sem (\<lambda>x. x\<lparr>count := cnt, peak_count := cnt\<rparr>) s;
            s = set_blk sem (\<lambda>b. b\<lparr>blk_policy := BLK_POLICY_PRI\<rparr>) s;
            s = set_sem sem (\<lambda>x. x\<lparr>sem_mm_alloc_flag := mm_alloc_flag\<rparr>) s;
            s = g_kobj_list_update (kobj_sem_head_update (\<lambda>l. l @ [sem])) s;
            s = set_blk sem (\<lambda>b. b\<lparr>obj_type := RHINO_SEM_OBJ_TYPE\<rparr>) s
        in (RHINO_SUCCESS, s))"

definition krhino_sem_create :: "kstate \<Rightarrow> ptr \<Rightarrow> ptr \<Rightarrow> u32 \<Rightarrow> kstat \<times> kstate" where
  "krhino_sem_create s sem name cnt = sem_create s sem name cnt K_OBJ_STATIC_ALLOC"

definition krhino_sem_del :: "kstate \<Rightarrow> ptr \<Rightarrow> kstat \<times> kstate" where
  "krhino_sem_del s sem =
     (if sem = NULL then (RHINO_NULL_PTR, s)
      else if g_intrpt_nested_level s > 0 then (RHINO_NOT_CALLED_BY_INTRPT, s)
      else if obj_type (blks s sem) \<noteq> RHINO_SEM_OBJ_TYPE then (RHINO_KOBJ_TYPE_ERR, s)
      else if sem_mm_alloc_flag (sems s sem) \<noteq> K_OBJ_STATIC_ALLOC then (RHINO_KOBJ_DEL_ERR, s)
      else
        let s = set_blk sem (\<lambda>b. b\<lparr>obj_type := RHINO_OBJ_TYPE_NONE\<rparr>) s;
            s = pend_rm_all s sem;
            s = g_kobj_list_update (kobj_sem_head_update (removeAll sem)) s
        in (RHINO_SUCCESS, core_sched s))"

definition WAKE_ONE_SEM :: u8 where "WAKE_ONE_SEM = 0"
definition WAKE_ALL_SEM :: u8 where "WAKE_ALL_SEM = 1"

definition sem_give :: "kstate \<Rightarrow> ptr \<Rightarrow> u8 \<Rightarrow> kstat \<times> kstate" where
  "sem_give s sem opt_wake_all =
     (if obj_type (blks s sem) \<noteq> RHINO_SEM_OBJ_TYPE then (RHINO_KOBJ_TYPE_ERR, s)
      else if blk_list (blks s sem) = [] then
        (if count (sems s sem) = - 1 then (RHINO_SEM_OVF, s)
         else
           let s = set_sem sem (count_update (\<lambda>n. n + 1)) s;
               s = (if count (sems s sem) > peak_count (sems s sem)
                    then set_sem sem (\<lambda>x. x\<lparr>peak_count := count x\<rparr>) s else s)
           in (RHINO_SUCCESS, s))
      else
        let s = (if opt_wake_all \<noteq> 0 then wake_all s sem
                 else pend_task_wakeup s (first (blk_list (blks s sem))))
        in (RHINO_SUCCESS, core_sched s))"

definition krhino_sem_give :: "kstate \<Rightarrow> ptr \<Rightarrow> kstat \<times> kstate" where
  "krhino_sem_give s sem =
     (if sem = NULL then (RHINO_NULL_PTR, s) else sem_give s sem WAKE_ONE_SEM)"

definition krhino_sem_give_all :: "kstate \<Rightarrow> ptr \<Rightarrow> kstat \<times> kstate" where
  "krhino_sem_give_all s sem =
     (if sem = NULL then (RHINO_NULL_PTR, s) else sem_give s sem WAKE_ALL_SEM)"

definition krhino_sem_take :: "kstate \<Rightarrow> ptr \<Rightarrow> tick \<Rightarrow> kstat option \<times> kstate" where
  "krhino_sem_take s sem ticks =
     (if sem = NULL then (Some RHINO_NULL_PTR, s)
      else if g_intrpt_nested_level s > 0 then (Some RHINO_NOT_CALLED_BY_INTRPT, s)
      else if obj_type (blks s sem) \<noteq> RHINO_SEM_OBJ_TYPE then (Some RHINO_KOBJ_TYPE_ERR, s)
      else if count (sems s sem) > 0
        then (Some RHINO_SUCCESS, set_sem sem (count_update (\<lambda>n. n - 1)) s)
      else if ticks = RHINO_NO_WAIT then (Some RHINO_NO_PEND_WAIT, s)
      else if g_sched_lock s > 0 then (Some RHINO_SCHED_DISABLE, s)
      else
        let s = pend_to_blk_obj s sem (g_active_task s) ticks
        in (None, core_sched s))"

definition krhino_sem_take_resume :: "kstate \<Rightarrow> kstat \<times> kstate" where
  "krhino_sem_take_resume s = pend_state_end_proc s (g_active_task s)"

definition krhino_sem_count_set :: "kstate \<Rightarrow> ptr \<Rightarrow> u32 \<Rightarrow> kstat \<times> kstate" where
  "krhino_sem_count_set s sem sem_count =
     (if sem = NULL then (RHINO_NULL_PTR, s)
      else if g_intrpt_nested_level s > 0 then (RHINO_NOT_CALLED_BY_INTRPT, s)
      else if obj_type (blks s sem) \<noteq> RHINO_SEM_OBJ_TYPE then (RHINO_KOBJ_TYPE_ERR, s)
      else if count (sems s sem) = 0 \<and> blk_list (blks s sem) \<noteq> [] then (RHINO_SEM_TASK_WAITING, s)
      else
        let s = set_sem sem (\<lambda>x. x\<lparr>count := sem_count\<rparr>) s;
            s = (if count (sems s sem) > peak_count (sems s sem)
                 then set_sem sem (\<lambda>x. x\<lparr>peak_count := count x\<rparr>) s else s)
        in (RHINO_SUCCESS, s))"

definition krhino_sem_count_get :: "kstate \<Rightarrow> ptr \<Rightarrow> ptr \<Rightarrow> kstat \<times> kstate" where
  "krhino_sem_count_get s sem cnt =
     (if sem = NULL then (RHINO_NULL_PTR, s)
      else if cnt = NULL then (RHINO_NULL_PTR, s)
      else (RHINO_SUCCESS, umem_update (\<lambda>M. M(cnt := count (sems s sem))) s))"

section \<open>The semaphore of a task\<close>

definition krhino_task_sem_create :: "kstate \<Rightarrow> ptr \<Rightarrow> ptr \<Rightarrow> ptr \<Rightarrow> u32 \<Rightarrow> kstat \<times> kstate" where
  "krhino_task_sem_create s task sem name cnt =
     (if task = NULL then (RHINO_NULL_PTR, s)
      else
        let (ret, s) = krhino_sem_create s sem name cnt
        in if ret = RHINO_SUCCESS then (ret, set_task task (\<lambda>t. t\<lparr>task_sem_obj := sem\<rparr>) s)
           else (ret, set_task task (\<lambda>t. t\<lparr>task_sem_obj := NULL\<rparr>) s))"

definition krhino_task_sem_del :: "kstate \<Rightarrow> ptr \<Rightarrow> kstat \<times> kstate" where
  "krhino_task_sem_del s task =
     (if task = NULL then (RHINO_NULL_PTR, s) else krhino_sem_del s (task_sem_obj (tasks s task)))"

definition krhino_task_sem_give :: "kstate \<Rightarrow> ptr \<Rightarrow> kstat \<times> kstate" where
  "krhino_task_sem_give s task =
     (if task = NULL then (RHINO_NULL_PTR, s) else krhino_sem_give s (task_sem_obj (tasks s task)))"

definition krhino_task_sem_take :: "kstate \<Rightarrow> tick \<Rightarrow> kstat option \<times> kstate" where
  "krhino_task_sem_take s ticks = krhino_sem_take s (task_sem_obj (tasks s (g_active_task s))) ticks"

definition krhino_task_sem_count_set :: "kstate \<Rightarrow> ptr \<Rightarrow> u32 \<Rightarrow> kstat \<times> kstate" where
  "krhino_task_sem_count_set s task cnt =
     (if task = NULL then (RHINO_NULL_PTR, s)
      else krhino_sem_count_set s (task_sem_obj (tasks s task)) cnt)"

definition krhino_task_sem_count_get :: "kstate \<Rightarrow> ptr \<Rightarrow> ptr \<Rightarrow> kstat \<times> kstate" where
  "krhino_task_sem_count_get s task cnt =
     (if task = NULL then (RHINO_NULL_PTR, s)
      else krhino_sem_count_get s (task_sem_obj (tasks s task)) cnt)"

section \<open>The invariants\<close>

definition sem_avail :: "kstate \<Rightarrow> ptr \<Rightarrow> ptr \<Rightarrow> bool" where
  "sem_avail s sem t \<longleftrightarrow> count (sems s sem) > 0"

interpretation sem: wait_object RHINO_SEM_OBJ_TYPE sem_avail
  by unfold_locales (simp_all add: sem_avail_def list_frameD)

abbreviation sem_inv :: "kstate \<Rightarrow> bool" where
  "sem_inv \<equiv> no_lost RHINO_SEM_OBJ_TYPE sem_avail"

text \<open>A unit goes to the first waiter, or to the counter.\<close>

lemma sem_give_wakes:
  assumes ok: "kern_ok s" and ty: "obj_type (blks s m) = RHINO_SEM_OBJ_TYPE" and ne: "blk_list (blks s m) \<noteq> []"
  shows "sem_give s m opt = (RHINO_SUCCESS,
    core_sched (if opt \<noteq> 0 then wake_all s m else wake_task BLK_FINISH s (first (blk_list (blks s m)))))"
  using first_waiter(2) [OF lists_okD(2) [OF kern_okD(3) [OF ok]] ne] ty ne
  by (simp add: sem_give_def pend_task_wakeup_eq)

lemma sem_give_ok:
  assumes ok: "kern_ok s" and nl: "sem_inv s"
  shows "kern_ok (snd (sem_give s m opt)) \<and> sem_inv (snd (sem_give s m opt))"
proof (cases "obj_type (blks s m) = RHINO_SEM_OBJ_TYPE")
  case False
  with ok nl show ?thesis by (simp add: sem_give_def)
next
  case ty: True
  then have nm: "obj_type (blks s m) \<noteq> RHINO_MUTEX_OBJ_TYPE" by simp
  show ?thesis
  proof (cases "blk_list (blks s m) = []")
    case False
    note w = first_waiter(1) [OF lists_okD(2) [OF kern_okD(3) [OF ok]] False]
    show ?thesis
      using obj_wake_ok [OF ok w nm] obj_wake_all_ok [OF ok nm] sem.wake [OF nl] sem.wake_all_waiters [OF nl ok nm]
      by (simp add: sem_give_wakes [OF ok ty False])
  next
    case True
    let ?s' = "snd (sem_give s m opt)"
    have f: "g_ready_queue ?s' = g_ready_queue s" "tasks ?s' = tasks s" "blks ?s' = blks s"
      "g_tick_head ?s' = g_tick_head s" "mutexes ?s' = mutexes s" "g_active_task ?s' = g_active_task s"
      "g_sched_lock ?s' = g_sched_lock s" "g_intrpt_nested_level ?s' = g_intrpt_nested_level s"
      using True by (simp_all add: sem_give_def Let_def)
    have "sems ?s' k = sems s k" if "k \<noteq> m" for k
      using True that by (simp add: sem_give_def Let_def)
    then have "sem_inv ?s'" by (intro sem.restock [OF nl f(3) True]) (simp add: sem_avail_def)
    moreover have "kern_ok ?s'" by (rule kern_ok_data [OF ok]) (rule f)+
    ultimately show ?thesis by simp
  qed
qed

lemma krhino_sem_take_ok:
  assumes ok: "kern_ok s" and mw: "may_wait s d" and nl: "sem_inv s"
  shows "kern_ok (snd (krhino_sem_take s m d)) \<and> sem_inv (snd (krhino_sem_take s m d))"
proof (cases "obj_type (blks s m) = RHINO_SEM_OBJ_TYPE \<and> g_intrpt_nested_level s = 0 \<and> g_sched_lock s = 0
    \<and> m \<noteq> NULL \<and> d \<noteq> RHINO_NO_WAIT \<and> count (sems s m) = 0")
  case True
  then have "krhino_sem_take s m d = (None, core_sched (pend_to_blk_obj s m (g_active_task s) d))"
    by (simp add: krhino_sem_take_def)
  moreover have "\<not> sem_avail s m (g_active_task s)" using True by (simp add: sem_avail_def)
  ultimately show ?thesis
    using obj_block_ok [OF ok may_waitD [OF mw], of m d] sem.block [OF nl, of m "g_active_task s" d] True by simp
next
  case False
  let ?s' = "set_sem m (count_update (\<lambda>n. n - 1)) s"
  have c: "snd (krhino_sem_take s m d) = s \<or> count (sems s m) > 0 \<and> snd (krhino_sem_take s m d) = ?s'"
    using False by (auto simp: krhino_sem_take_def word_neq_0_conv [symmetric])
  have "kern_ok ?s'" by (rule kern_ok_data [OF ok]) simp_all
  moreover have "sem_inv ?s'" if "count (sems s m) > 0"
    by (rule sem.take_away [OF nl]) (use that in \<open>auto simp: sem_avail_def split: if_splits\<close>)
  ultimately show ?thesis using c ok nl by auto
qed

lemma krhino_sem_del_ok:
  assumes ok: "kern_ok s" and nl: "sem_inv s"
  shows "kern_ok (snd (krhino_sem_del s m)) \<and> sem_inv (snd (krhino_sem_del s m))"
proof (cases "m \<noteq> NULL \<and> g_intrpt_nested_level s = 0 \<and> obj_type (blks s m) = RHINO_SEM_OBJ_TYPE
    \<and> sem_mm_alloc_flag (sems s m) = K_OBJ_STATIC_ALLOC")
  case False
  then have "snd (krhino_sem_del s m) = s" by (auto simp: krhino_sem_del_def word_neq_0_conv)
  with ok nl show ?thesis by simp
next
  case True
  then have nm: "obj_type (blks s m) \<noteq> RHINO_MUTEX_OBJ_TYPE" by simp
  have e: "snd (krhino_sem_del s m)
      = core_sched (g_kobj_list_update (kobj_sem_head_update (removeAll m)) (obj_retire s m))"
    using True by (simp add: krhino_sem_del_def obj_retire_def Let_def)
  have "sem_inv (core_sched (g_kobj_list_update f s')) = sem_inv (core_sched s')" for f s'
    unfolding sem.no_lost_sched by (simp add: no_lost_def sem_avail_def)
  moreover have "kern_ok (core_sched (g_kobj_list_update f s')) = kern_ok (core_sched s')" for f s'
    by (rule kern_ok_cong) (simp_all add: core_sched_active)
  ultimately show ?thesis
    unfolding e using obj_retire_ok(1) [OF ok nm] sem.retire [OF nl ok nm] by simp
qed

lemma krhino_sem_create_ok:
  assumes ok: "kern_ok s" and nl: "sem_inv s"
    and f: "obj_type (blks s m) \<noteq> RHINO_MUTEX_OBJ_TYPE" "blk_list (blks s m) = []"
  shows "kern_ok (snd (krhino_sem_create s m name c)) \<and> sem_inv (snd (krhino_sem_create s m name c))"
proof (cases "m = NULL \<or> name = NULL")
  case True
  with ok nl show ?thesis by (auto simp: krhino_sem_create_def sem_create_def)
next
  case False
  let ?b = "(blks s m)\<lparr>blk_list := [], blk_policy := BLK_POLICY_PRI, obj_type := RHINO_SEM_OBJ_TYPE\<rparr>"
  let ?s' = "snd (krhino_sem_create s m name c)"
  have B: "blks ?s' = (blks s)(m := ?b)" and S: "k \<noteq> m \<Longrightarrow> sems ?s' k = sems s k" for k
    using False by (simp_all add: krhino_sem_create_def sem_create_def Let_def)
  have "kern_ok (s\<lparr>blks := (blks s)(m := ?b)\<rparr>)" by (rule obj_create_ok [OF ok f]) simp_all
  then have "kern_ok ?s'"
    by (rule kern_ok_data) (use False in \<open>simp_all add: krhino_sem_create_def sem_create_def Let_def\<close>)
  moreover have "sem_inv ?s'" by (rule sem.created [OF nl B]) (simp_all add: sem_avail_def S)
  ultimately show ?thesis by simp
qed

lemma krhino_sem_count_set_ok:
  assumes ok: "kern_ok s" and nl: "sem_inv s"
  shows "kern_ok (snd (krhino_sem_count_set s m c)) \<and> sem_inv (snd (krhino_sem_count_set s m c))"
proof -
  let ?s' = "snd (krhino_sem_count_set s m c)"
  have f: "g_ready_queue ?s' = g_ready_queue s" "tasks ?s' = tasks s" "blks ?s' = blks s"
      "g_tick_head ?s' = g_tick_head s" "mutexes ?s' = mutexes s" "g_active_task ?s' = g_active_task s"
      "g_sched_lock ?s' = g_sched_lock s" "g_intrpt_nested_level ?s' = g_intrpt_nested_level s"
    by (simp_all add: krhino_sem_count_set_def Let_def)
  have S: "k \<noteq> m \<Longrightarrow> sems ?s' k = sems s k" for k by (simp add: krhino_sem_count_set_def Let_def)
  have "sem_inv ?s'"
  proof (cases "obj_type (blks s m) = RHINO_SEM_OBJ_TYPE \<and> blk_list (blks s m) \<noteq> []")
    case True
    then have "count (sems s m) = 0"
      using sem.no_lostD [OF nl, of m "hd (blk_list (blks s m))"]
      by (simp add: sem_avail_def word_neq_0_conv [symmetric])
    with True have "?s' = s" by (simp add: krhino_sem_count_set_def)
    with nl show ?thesis by simp
  next
    case False
    then have "sem_avail ?s' ob t = sem_avail s ob t"
      if "obj_type (blks s ob) = RHINO_SEM_OBJ_TYPE" "t \<in> set (blk_list (blks s ob))" for ob t
      using that S [of ob] by (cases "ob = m") (auto simp: sem_avail_def)
    then show ?thesis using nl unfolding no_lost_def f(3) by blast
  qed
  moreover have "kern_ok ?s'" by (rule kern_ok_data [OF ok]) (rule f)+
  ultimately show ?thesis by simp
qed

section \<open>What the operations do\<close>

text \<open>A unit given to a semaphore is never lost and never doubled: with tasks waiting, the most
  urgent of them gets it (its \<^verbatim>\<open>krhino_sem_take\<close> returns success) and the counter stays; with none,
  the counter grows by one, unless it is at its maximum, which is reported.\<close>

theorem sem_give_conserves:
  assumes "kern_ok s" and "sem \<noteq> NULL" and "obj_type (blks s sem) = RHINO_SEM_OBJ_TYPE"
    and "blk_policy (blks s sem) = BLK_POLICY_PRI"
  defines "s' \<equiv> snd (krhino_sem_give s sem)"
  shows "(if blk_list (blks s sem) = [] then
      (if count (sems s sem) = - 1 then fst (krhino_sem_give s sem) = RHINO_SEM_OVF \<and> s' = s
       else fst (krhino_sem_give s sem) = RHINO_SUCCESS \<and> count (sems s' sem) = count (sems s sem) + 1
         \<and> peak_count (sems s' sem) = max (peak_count (sems s sem)) (count (sems s sem) + 1) \<and> tasks s' = tasks s)
    else fst (krhino_sem_give s sem) = RHINO_SUCCESS \<and> sems s' = sems s
      \<and> (\<exists>w \<in> set (blk_list (blks s sem)).
          (\<forall>v \<in> set (blk_list (blks s sem)). prio (tasks s w) \<le> prio (tasks s v))
          \<and> blk_list (blks s' sem) = removeAll w (blk_list (blks s sem))
          \<and> fst (pend_state_end_proc s' w) = RHINO_SUCCESS \<and> \<not> pending (tasks s' w)
          \<and> (\<forall>u. u \<noteq> w \<longrightarrow> tasks s' u = tasks s u)))"
proof (cases "blk_list (blks s sem) = []")
  case True
  then show ?thesis
    using assms(2,3) by (simp add: s'_def krhino_sem_give_def sem_give_def Let_def max_def not_le)
      (auto dest: order.asym)
next
  case False
  note bl = lists_okD(2) [OF kern_okD(3) [OF assms(1)]]
  let ?w = "first (blk_list (blks s sem))"
  have e: "krhino_sem_give s sem = (RHINO_SUCCESS, core_sched (wake_task BLK_FINISH s ?w))"
    using assms(2) by (simp add: krhino_sem_give_def sem_give_wakes [OF assms(1,3) False] WAKE_ONE_SEM_def)
  have "?w \<in> set (blk_list (blks s sem))" by (rule first_waiter(1) [OF bl False])
  moreover have "prio (tasks s ?w) \<le> prio (tasks s v)" if "v \<in> set (blk_list (blks s sem))" for v
    using sorted_map_first [OF blk_ok_sorted [OF bl assms(4)]] that by simp
  ultimately show ?thesis
    using False by (auto simp: s'_def e pend_state_end_proc_def intro!: bexI [of _ ?w])
qed

theorem sem_give_conserves_witness:
  "(let s' = snd (krhino_sem_give ex_state 200)
    in blk_list (blks s' 200) = [] \<and> \<not> pending (tasks s' 5) \<and> fst (pend_state_end_proc s' 5) = RHINO_SUCCESS)
   \<and> count (sems (snd (krhino_sem_give ex_state 201)) 201) = 4"
  using sem_give_conserves [OF ex_kern_ok, of 200] sem_give_conserves [OF ex_kern_ok, of 201]
  by (simp add: ex_eval) (simp add: ex_state_def)

text \<open>C18: A semaphore never holds units while tasks wait for it, and no operation on semaphores
  breaks this or the kernel invariant.\<close>

theorem sem_no_lost_wakeup:
  assumes "kern_ok s" and "sem_inv s" and "prio (tasks s (g_active_task s)) \<noteq> RHINO_IDLE_PRI"
    and "s' \<in> {snd (krhino_sem_give s sem), snd (krhino_sem_give_all s sem), snd (krhino_sem_take s sem ticks),
      snd (krhino_sem_del s sem), snd (krhino_sem_count_set s sem n)}"
  shows "kern_ok s' \<and> sem_inv s'"
  using assms(4) sem_give_ok [OF assms(1,2)] krhino_sem_take_ok [OF assms(1) may_wait_task [OF assms(3)] assms(2)]
    krhino_sem_del_ok [OF assms(1,2)] krhino_sem_count_set_ok [OF assms(1,2)] assms(1,2)
  by (auto simp: krhino_sem_give_def krhino_sem_give_all_def)

lemma ex_sem_inv: "sem_inv ex_state"
  by (simp add: no_lost_def sem_avail_def ex_eval) (simp add: ex_state_def)

theorem sem_no_lost_wakeup_witness:
  "sem_inv (snd (krhino_sem_take ex_state 200 RHINO_WAIT_FOREVER))"
  using sem_no_lost_wakeup [OF ex_kern_ok ex_sem_inv ex_caller,
      where s' = "snd (krhino_sem_take ex_state 200 RHINO_WAIT_FOREVER)" and sem = 200
        and ticks = RHINO_WAIT_FOREVER] by simp

end
