(* ===== verification/Event.thy ===== *)
theory Event
  imports Wait_Object
begin

text \<open>
  Event flags: \<^verbatim>\<open>kernel/rhino/core/k_event.c\<close> and \<^verbatim>\<open>k_event.h\<close>.

  \<^verbatim>\<open>event_set\<close> walks the waiting list once and wakes every task whose condition the flags satisfy
  at that moment, before any of the woken tasks has its flags cleared. The main lemma,
  \<open>event_wake_loop_ok\<close>, says what one walk does; from it follow that exactly the satisfied
  tasks wake up and that no task waits whose condition holds (\<open>event_inv\<close>).
\<close>

section \<open>The operations\<close>

definition RHINO_FLAGS_AND_MASK :: u8 where "RHINO_FLAGS_AND_MASK = 0x2"
definition RHINO_FLAGS_CLEAR_MASK :: u8 where "RHINO_FLAGS_CLEAR_MASK = 0x1"
definition RHINO_AND :: u8 where "RHINO_AND = 0x02"
definition RHINO_AND_CLEAR :: u8 where "RHINO_AND_CLEAR = 0x03"
definition RHINO_OR :: u8 where "RHINO_OR = 0x00"
definition RHINO_OR_CLEAR :: u8 where "RHINO_OR_CLEAR = 0x01"

definition event_create :: "kstate \<Rightarrow> ptr \<Rightarrow> ptr \<Rightarrow> u32 \<Rightarrow> alloc_flag_t \<Rightarrow> kstat \<times> kstate" where
  "event_create s event name fl mm_alloc_flag =
     (if event = NULL then (RHINO_NULL_PTR, s)
      else if name = NULL then (RHINO_NULL_PTR, s)
      else
        let s = set_blk event (\<lambda>b. b\<lparr>blk_list := []\<rparr>) s;
            s = set_blk event (\<lambda>b. b\<lparr>blk_policy := BLK_POLICY_PRI\<rparr>) s;
            s = set_event event (\<lambda>e. e\<lparr>flags := fl, event_mm_alloc_flag := mm_alloc_flag\<rparr>) s;
            s = g_kobj_list_update (kobj_event_head_update (\<lambda>l. l @ [event])) s;
            s = set_blk event (\<lambda>b. b\<lparr>obj_type := RHINO_EVENT_OBJ_TYPE\<rparr>) s
        in (RHINO_SUCCESS, s))"

definition krhino_event_create :: "kstate \<Rightarrow> ptr \<Rightarrow> ptr \<Rightarrow> u32 \<Rightarrow> kstat \<times> kstate" where
  "krhino_event_create s event name fl = event_create s event name fl K_OBJ_STATIC_ALLOC"

definition krhino_event_del :: "kstate \<Rightarrow> ptr \<Rightarrow> kstat \<times> kstate" where
  "krhino_event_del s event =
     (if event = NULL then (RHINO_NULL_PTR, s)
      else if g_intrpt_nested_level s > 0 then (RHINO_NOT_CALLED_BY_INTRPT, s)
      else if obj_type (blks s event) \<noteq> RHINO_EVENT_OBJ_TYPE then (RHINO_KOBJ_TYPE_ERR, s)
      else if event_mm_alloc_flag (events s event) \<noteq> K_OBJ_STATIC_ALLOC then (RHINO_KOBJ_DEL_ERR, s)
      else
        let s = set_blk event (\<lambda>b. b\<lparr>obj_type := RHINO_OBJ_TYPE_NONE\<rparr>) s;
            s = pend_rm_all s event;
            s = set_event event (\<lambda>e. e\<lparr>flags := 0\<rparr>) s;
            s = g_kobj_list_update (kobj_event_head_update (removeAll event)) s
        in (RHINO_SUCCESS, core_sched s))"

text \<open>The test of \<^verbatim>\<open>krhino_event_get\<close> and \<^verbatim>\<open>event_set\<close>: all of the flags, or any of them.\<close>

definition event_status :: "u32 \<Rightarrow> u32 \<Rightarrow> u8 \<Rightarrow> bool" where
  "event_status cur fl opt =
     (if opt AND RHINO_FLAGS_AND_MASK \<noteq> 0 then cur AND fl = fl else cur AND fl > 0)"

definition krhino_event_get ::
  "kstate \<Rightarrow> ptr \<Rightarrow> u32 \<Rightarrow> u8 \<Rightarrow> ptr \<Rightarrow> tick \<Rightarrow> kstat option \<times> kstate" where
  "krhino_event_get s event fl opt actl_flags ticks =
     (if event = NULL then (Some RHINO_NULL_PTR, s)
      else if actl_flags = NULL then (Some RHINO_NULL_PTR, s)
      else if opt \<noteq> RHINO_AND \<and> opt \<noteq> RHINO_OR \<and> opt \<noteq> RHINO_AND_CLEAR \<and> opt \<noteq> RHINO_OR_CLEAR
      then (Some RHINO_NO_THIS_EVENT_OPT, s)
      else if g_intrpt_nested_level s > 0 then (Some RHINO_NOT_CALLED_BY_INTRPT, s)
      else if obj_type (blks s event) \<noteq> RHINO_EVENT_OBJ_TYPE then (Some RHINO_KOBJ_TYPE_ERR, s)
      else if event_status (flags (events s event)) fl opt then
        let s = umem_update (\<lambda>m. m(actl_flags := flags (events s event))) s;
            s = (if opt AND RHINO_FLAGS_CLEAR_MASK \<noteq> 0
                 then set_event event (\<lambda>e. e\<lparr>flags := flags e AND NOT fl\<rparr>) s else s)
        in (Some RHINO_SUCCESS, s)
      else if ticks = RHINO_NO_WAIT then (Some RHINO_NO_PEND_WAIT, s)
      else if g_sched_lock s > 0 then (Some RHINO_SCHED_DISABLE, s)
      else
        let s = set_task (g_active_task s)
                  (\<lambda>t. t\<lparr>pend_flags := fl, pend_info := actl_flags, pend_option := opt\<rparr>) s;
            s = pend_to_blk_obj s event (g_active_task s) ticks
        in (None, core_sched s))"

definition krhino_event_get_resume :: "kstate \<Rightarrow> kstat \<times> kstate" where
  "krhino_event_get_resume s = pend_state_end_proc s (g_active_task s)"

text \<open>One turn of the loop of \<^verbatim>\<open>event_set\<close>.\<close>

definition event_wake :: "kstate \<Rightarrow> ptr \<Rightarrow> u32 \<Rightarrow> ptr \<Rightarrow> kstate" where
  "event_wake s event cur_event_flags task =
     (if event_status cur_event_flags (pend_flags (tasks s task)) (pend_option (tasks s task)) then
        let s = umem_update (\<lambda>m. m(pend_info (tasks s task) := cur_event_flags)) s;
            s = pend_task_wakeup s task
        in if pend_option (tasks s task) AND RHINO_FLAGS_CLEAR_MASK \<noteq> 0
           then set_event event (\<lambda>e. e\<lparr>flags := flags e AND NOT (pend_flags (tasks s task))\<rparr>) s
           else s
      else s)"

text \<open>
  The loop reads the successor of a task before it wakes the task up, and only the task it looks
  at leaves the list, so it visits the tasks that were on the list at its start.
\<close>

fun event_wake_loop :: "kstate \<Rightarrow> ptr \<Rightarrow> u32 \<Rightarrow> ptr list \<Rightarrow> kstate" where
  "event_wake_loop s event cur [] = s"
| "event_wake_loop s event cur (t # ts) = event_wake_loop (event_wake s event cur t) event cur ts"

definition event_set :: "kstate \<Rightarrow> ptr \<Rightarrow> u32 \<Rightarrow> u8 \<Rightarrow> kstat \<times> kstate" where
  "event_set s event fl opt =
     (if obj_type (blks s event) \<noteq> RHINO_EVENT_OBJ_TYPE then (RHINO_KOBJ_TYPE_ERR, s)
      else if opt AND RHINO_FLAGS_AND_MASK \<noteq> 0 then
        (RHINO_SUCCESS, set_event event (\<lambda>e. e\<lparr>flags := flags e AND fl\<rparr>) s)
      else
        let s = set_event event (\<lambda>e. e\<lparr>flags := flags e OR fl\<rparr>) s;
            s = event_wake_loop s event (flags (events s event)) (blk_list (blks s event))
        in (RHINO_SUCCESS, core_sched s))"

definition krhino_event_set :: "kstate \<Rightarrow> ptr \<Rightarrow> u32 \<Rightarrow> u8 \<Rightarrow> kstat \<times> kstate" where
  "krhino_event_set s event fl opt =
     (if event = NULL then (RHINO_NULL_PTR, s)
      else if opt \<noteq> RHINO_AND \<and> opt \<noteq> RHINO_OR then (RHINO_NO_THIS_EVENT_OPT, s)
      else event_set s event fl opt)"

section \<open>One walk over the waiting list\<close>

text \<open>The tasks of a list whose condition holds for given flags, and the flags they consume.\<close>

definition served :: "(ptr \<Rightarrow> ktask_t) \<Rightarrow> u32 \<Rightarrow> ptr \<Rightarrow> bool" where
  "served T cur t \<longleftrightarrow> event_status cur (pend_flags (T t)) (pend_option (T t))"

definition consumed :: "(ptr \<Rightarrow> ktask_t) \<Rightarrow> u32 \<Rightarrow> ptr \<Rightarrow> nat \<Rightarrow> bool" where
  "consumed T cur t i \<longleftrightarrow>
     served T cur t \<and> pend_option (T t) AND RHINO_FLAGS_CLEAR_MASK \<noteq> 0 \<and> bit (pend_flags (T t)) i"

text \<open>What the walk leaves alone.\<close>

definition event_frame :: "kstate \<Rightarrow> kstate \<Rightarrow> bool" where
  "event_frame s s' \<longleftrightarrow> (\<exists>rq B L T E M.
     s' = s\<lparr>g_ready_queue := rq, blks := B, g_tick_head := L, tasks := T, events := E, umem := M\<rparr>)"

lemma event_frame_refl [simp]: "event_frame s s"
proof -
  have "s = s\<lparr>g_ready_queue := g_ready_queue s, blks := blks s, g_tick_head := g_tick_head s,
      tasks := tasks s, events := events s, umem := umem s\<rparr>" by simp
  then show ?thesis unfolding event_frame_def by blast
qed

lemma event_frame_trans:
  assumes "event_frame r s" and "event_frame s t"
  shows "event_frame r t"
proof -
  obtain a b c d e f where 1: "s = r\<lparr>g_ready_queue := a, blks := b, g_tick_head := c, tasks := d,
      events := e, umem := f\<rparr>" using assms(1) unfolding event_frame_def by blast
  obtain a' b' c' d' e' f' where "t = s\<lparr>g_ready_queue := a', blks := b', g_tick_head := c', tasks := d',
      events := e', umem := f'\<rparr>" using assms(2) unfolding event_frame_def by blast
  then have "t = r\<lparr>g_ready_queue := a', blks := b', g_tick_head := c', tasks := d',
      events := e', umem := f'\<rparr>" by (simp add: 1)
  then show ?thesis unfolding event_frame_def by blast
qed

lemma event_frameD:
  assumes "event_frame s s'"
  shows "mutexes s' = mutexes s" "sems s' = sems s" "queues s' = queues s" "bufqs s' = bufqs s"
    "bmem s' = bmem s" "g_active_task s' = g_active_task s"
    "g_sched_lock s' = g_sched_lock s" "g_intrpt_nested_level s' = g_intrpt_nested_level s"
    "g_sys_stat s' = g_sys_stat s" "g_tick_count s' = g_tick_count s" "g_kobj_list s' = g_kobj_list s"
    "k_errs s' = k_errs s" "g_idle_task_spawned s' = g_idle_task_spawned s"
  using assms by (auto simp: event_frame_def)

lemma event_wake_eq:
  assumes "pending (tasks s t)"
  shows "event_wake s ev cur t =
    (if served (tasks s) cur t then
       (wake_task BLK_FINISH s t)\<lparr>umem := (umem s)(pend_info (tasks s t) := cur),
         events := (if pend_option (tasks s t) AND RHINO_FLAGS_CLEAR_MASK \<noteq> 0
           then (events s)(ev := (events s ev)\<lparr>flags := flags (events s ev) AND NOT (pend_flags (tasks s t))\<rparr>)
           else events s)\<rparr>
     else s)"
proof -
  let ?u = "umem_update (\<lambda>m. m(pend_info (tasks s t) := cur)) s"
  have "pend_task_wakeup ?u t = wake_task BLK_FINISH ?u t" using assms by (simp add: pend_task_wakeup_eq)
  moreover have "wake_task BLK_FINISH ?u t
      = (wake_task BLK_FINISH s t)\<lparr>umem := (umem s)(pend_info (tasks s t) := cur)\<rparr>"
    by (simp add: wake_task_def rq_add_def)
  moreover have "pend_option (woken b x) = pend_option x" "pend_flags (woken b x) = pend_flags x" for b x
    by (simp_all add: woken_def)
  ultimately show ?thesis
    by (simp add: event_wake_def served_def Let_def wake_task_def)
qed

lemma event_wake_ok:
  fixes ev :: ptr and cur :: u32
  assumes ok: "pi_ok s" and p: "pending (tasks s t)"
    and ty: "obj_type (blks s (blk_obj (tasks s t))) \<noteq> RHINO_MUTEX_OBJ_TYPE"
  defines "s' \<equiv> event_wake s ev cur t"
  shows "pi_ok s'" and "event_frame s s'"
    and "tasks s' u = (if u = t \<and> served (tasks s) cur t then woken BLK_FINISH (tasks s t) else tasks s u)"
    and "blk_list (blks s' o') =
      (if served (tasks s) cur t then removeAll t (blk_list (blks s o')) else blk_list (blks s o'))"
    and "obj_type (blks s' o') = obj_type (blks s o')"
    and "umem s' q = (if served (tasks s) cur t \<and> q = pend_info (tasks s t) then cur else umem s q)"
    and "bit (flags (events s' e)) i \<longleftrightarrow> bit (flags (events s e)) i \<and> \<not> (e = ev \<and> consumed (tasks s) cur t i)"
proof -
  note eq = event_wake_eq [OF p, of ev cur, folded s'_def]
  have w: "pi_ok (wake_task BLK_FINISH s t)" by (rule wake_pi_ok_not_mutex [OF ok p ty])
  have "pi_ok ((wake_task BLK_FINISH s t)\<lparr>umem := f, events := g\<rparr>) = pi_ok (wake_task BLK_FINISH s t)" for f g
    by (rule pi_ok_cong) simp_all
  then show "pi_ok s'" using ok w by (simp add: eq)
  have f: "event_frame s (s\<lparr>g_ready_queue := a, blks := b, g_tick_head := c, tasks := d, events := g, umem := f\<rparr>)"
    for a b c d f g unfolding event_frame_def by (intro exI) (rule refl)
  have "(wake_task BLK_FINISH s t)\<lparr>umem := f, events := g\<rparr> =
      s\<lparr>g_ready_queue := (if task_state (tasks s t) = K_PEND then rq_add s t else g_ready_queue s),
       blks := blk_list_rm t (blks s),
       g_tick_head := (if tick_head (tasks s t) then removeAll t (g_tick_head s) else g_tick_head s),
       tasks := (tasks s)(t := woken BLK_FINISH (tasks s t)), events := g, umem := f\<rparr>" for f g
    unfolding wake_task_def by simp
  then show "event_frame s s'" by (simp only: eq f event_frame_refl simp_thms split: if_split)
  show "bit (flags (events s' e)) i \<longleftrightarrow> bit (flags (events s e)) i \<and> \<not> (e = ev \<and> consumed (tasks s) cur t i)"
    using bit_imp_le_length [of "flags (events s e)" i] by (auto simp: eq consumed_def bit_simps)
  show "tasks s' u = (if u = t \<and> served (tasks s) cur t then woken BLK_FINISH (tasks s t) else tasks s u)"
    "blk_list (blks s' o') =
      (if served (tasks s) cur t then removeAll t (blk_list (blks s o')) else blk_list (blks s o'))"
    "obj_type (blks s' o') = obj_type (blks s o')"
    "umem s' q = (if served (tasks s) cur t \<and> q = pend_info (tasks s t) then cur else umem s q)"
    by (simp_all add: eq)
qed

text \<open>The whole walk: all served tasks wake up, whatever those before them cleared.\<close>

lemma event_wake_loop_ok:
  fixes ev :: ptr and cur :: u32
  assumes "pi_ok s" and "obj_type (blks s ev) \<noteq> RHINO_MUTEX_OBJ_TYPE" and "distinct ts"
    and "set ts \<subseteq> set (blk_list (blks s ev))"
  shows "pi_ok (event_wake_loop s ev cur ts) \<and> event_frame s (event_wake_loop s ev cur ts)
    \<and> (\<forall>u. tasks (event_wake_loop s ev cur ts) u = (if u \<in> set ts \<and> served (tasks s) cur u
         then woken BLK_FINISH (tasks s u) else tasks s u))
    \<and> (\<forall>o'. blk_list (blks (event_wake_loop s ev cur ts) o')
         = filter (\<lambda>u. \<not> (u \<in> set ts \<and> served (tasks s) cur u)) (blk_list (blks s o')))
    \<and> (\<forall>o'. obj_type (blks (event_wake_loop s ev cur ts) o') = obj_type (blks s o'))
    \<and> (\<forall>q. umem (event_wake_loop s ev cur ts) q =
         (if \<exists>u\<in>set ts. served (tasks s) cur u \<and> q = pend_info (tasks s u) then cur else umem s q))
    \<and> (\<forall>e i. bit (flags (events (event_wake_loop s ev cur ts) e)) i \<longleftrightarrow>
         bit (flags (events s e)) i \<and> \<not> (e = ev \<and> (\<exists>u\<in>set ts. consumed (tasks s) cur u i)))"
  using assms
proof (induction ts arbitrary: s)
  case Nil
  then show ?case by simp
next
  case (Cons t ts)
  have bl: "blk_ok (blks s) (tasks s)" using Cons.prems(1) by (simp add: pi_ok_but_def lists_ok_def)
  have t: "pending (tasks s t)" "blk_obj (tasks s t) = ev" using Cons.prems(4) by (simp_all add: blk_ok_mem [OF bl])
  have ty: "obj_type (blks s (blk_obj (tasks s t))) \<noteq> RHINO_MUTEX_OBJ_TYPE" using Cons.prems(2) t(2) by simp
  let ?s1 = "event_wake s ev cur t"
  note W = event_wake_ok [OF Cons.prems(1) t(1) ty, of ev cur]
  have nt: "t \<notin> set ts" and d: "distinct ts" using Cons.prems(3) by simp_all
  have sub: "set ts \<subseteq> set (blk_list (blks ?s1 ev))" using Cons.prems(4) nt by (auto simp: W(4))
  have ty1: "obj_type (blks ?s1 ev) \<noteq> RHINO_MUTEX_OBJ_TYPE" using Cons.prems(2) by (simp add: W(5))
  note IH = Cons.IH [OF W(1) ty1 d sub]
  have same: "u \<in> set ts \<Longrightarrow> tasks ?s1 u = tasks s u" for u using nt by (auto simp: W(3))
  have srv: "u \<in> set ts \<Longrightarrow> served (tasks ?s1) cur u = served (tasks s) cur u"
    "u \<in> set ts \<Longrightarrow> consumed (tasks ?s1) cur u i = consumed (tasks s) cur u i" for u i
    by (simp_all add: served_def consumed_def same)
  let ?s' = "event_wake_loop s ev cur (t # ts)"
  have eq: "?s' = event_wake_loop ?s1 ev cur ts" by simp
  have "pi_ok ?s'" "event_frame s ?s'" using IH event_frame_trans [OF W(2)] unfolding eq by blast+
  moreover have "tasks ?s' u = (if u \<in> set (t # ts) \<and> served (tasks s) cur u
      then woken BLK_FINISH (tasks s u) else tasks s u)" for u
  proof (cases "u \<in> set ts")
    case True
    with IH nt same [OF True] srv(1) [OF True] show ?thesis unfolding eq by auto
  next
    case False
    then have "tasks ?s' u = tasks ?s1 u" using IH unfolding eq by simp
    then show ?thesis using False by (auto simp: W(3))
  qed
  moreover have "blk_list (blks ?s' o')
      = filter (\<lambda>u. \<not> (u \<in> set (t # ts) \<and> served (tasks s) cur u)) (blk_list (blks s o'))" for o'
  proof -
    have "blk_list (blks ?s' o') = filter (\<lambda>u. \<not> (u \<in> set ts \<and> served (tasks s) cur u))
        (if served (tasks s) cur t then removeAll t (blk_list (blks s o')) else blk_list (blks s o'))"
      using IH srv(1) unfolding eq W(4) by (auto intro: filter_cong)
    then show ?thesis by (auto simp: removeAll_filter_not_eq intro!: filter_cong)
  qed
  moreover have "obj_type (blks ?s' o') = obj_type (blks s o')" for o' using IH unfolding eq by (simp add: W(5))
  moreover have "umem ?s' q = (if \<exists>u\<in>set (t # ts). served (tasks s) cur u \<and> q = pend_info (tasks s u)
      then cur else umem s q)" for q
  proof -
    have "(\<exists>u\<in>set ts. served (tasks ?s1) cur u \<and> q = pend_info (tasks ?s1 u))
        \<longleftrightarrow> (\<exists>u\<in>set ts. served (tasks s) cur u \<and> q = pend_info (tasks s u))"
      by (intro bex_cong refl) (simp add: srv(1) same)
    then show ?thesis using IH unfolding eq by (auto simp: W(6))
  qed
  moreover have "bit (flags (events ?s' e)) i \<longleftrightarrow>
      bit (flags (events s e)) i \<and> \<not> (e = ev \<and> (\<exists>u\<in>set (t # ts). consumed (tasks s) cur u i))" for e i
  proof -
    have "(\<exists>u\<in>set ts. consumed (tasks ?s1) cur u i) \<longleftrightarrow> (\<exists>u\<in>set ts. consumed (tasks s) cur u i)"
      by (intro bex_cong refl) (simp add: srv(2))
    then show ?thesis using IH unfolding eq by (auto simp: W(7))
  qed
  ultimately show ?case by blast
qed

section \<open>The invariants\<close>

definition event_avail :: "kstate \<Rightarrow> ptr \<Rightarrow> ptr \<Rightarrow> bool" where
  "event_avail s ev t \<longleftrightarrow> served (tasks s) (flags (events s ev)) t"

interpretation event: wait_object RHINO_EVENT_OBJ_TYPE event_avail
  by unfold_locales (simp_all add: event_avail_def served_def request_def list_frameD)

abbreviation event_inv :: "kstate \<Rightarrow> bool" where
  "event_inv \<equiv> no_lost RHINO_EVENT_OBJ_TYPE event_avail"

text \<open>Clearing flags serves nobody.\<close>

lemma event_status_mono:
  assumes "event_status c fl opt" and "\<And>i. bit c i \<Longrightarrow> bit c' i"
  shows "event_status c' fl opt"
proof -
  have "c' AND fl = fl" if "c AND fl = fl"
    using that assms(2) by (metis (no_types, lifting) bit_and_iff bit_eqI)
  moreover have "c' AND fl \<noteq> 0" if nz: "c AND fl \<noteq> 0"
  proof -
    obtain i where "bit (c AND fl) i" using nz by (metis bit_eqI bit_0_eq bot_apply bot_bool_def)
    then have "bit (c' AND fl) i" using assms(2) by (simp add: bit_simps)
    then show ?thesis by auto
  qed
  ultimately show ?thesis using assms(1) by (simp add: event_status_def word_neq_0_conv [symmetric] split: if_splits)
qed

lemma event_set_walk:
  fixes fl :: u32 and opt :: u8
  assumes ok: "kern_ok s" and ty: "obj_type (blks s ev) = RHINO_EVENT_OBJ_TYPE"
    and o: "opt AND RHINO_FLAGS_AND_MASK = 0"
  defines "cur \<equiv> flags (events s ev) OR fl"
  defines "s' \<equiv> snd (event_set s ev fl opt)"
  shows "fst (event_set s ev fl opt) = RHINO_SUCCESS" and "kern_ok s'"
    and "tasks s' u = (if u \<in> set (blk_list (blks s ev)) \<and> served (tasks s) cur u
      then woken BLK_FINISH (tasks s u) else tasks s u)"
    and "blk_list (blks s' o') = (if o' = ev then filter (\<lambda>u. \<not> served (tasks s) cur u) (blk_list (blks s ev))
      else blk_list (blks s o'))"
    and "obj_type (blks s' o') = obj_type (blks s o')"
    and "umem s' q = (if \<exists>u\<in>set (blk_list (blks s ev)). served (tasks s) cur u \<and> q = pend_info (tasks s u)
      then cur else umem s q)"
    and "bit (flags (events s' e)) i \<longleftrightarrow> (if e = ev then bit cur i
        \<and> (\<forall>u\<in>set (blk_list (blks s ev)). \<not> consumed (tasks s) cur u i) else bit (flags (events s e)) i)"
proof -
  note k = kern_okD [OF ok] and bl = lists_okD(2) [OF kern_okD(3) [OF ok]]
  let ?l = "blk_list (blks s ev)"
  define s0 where "s0 = set_event ev (\<lambda>e. e\<lparr>flags := flags e OR fl\<rparr>) s"
  define s1 where "s1 = event_wake_loop s0 ev cur ?l"
  have S0: "tasks s0 = tasks s" "blks s0 = blks s" "umem s0 = umem s" by (simp_all add: s0_def)
  have E0: "bit (flags (events s0 e)) i \<longleftrightarrow> (if e = ev then bit cur i else bit (flags (events s e)) i)" for e i
    by (simp add: s0_def cur_def)
  have pi: "pi_ok s0" using k(1) pi_ok_cong [of s0 s] by (simp add: s0_def)
  have "obj_type (blks s0 ev) \<noteq> RHINO_MUTEX_OBJ_TYPE" "distinct ?l" "set ?l \<subseteq> set (blk_list (blks s0 ev))"
    using ty blk_ok_distinct [OF bl] by (simp_all add: S0)
  note W = event_wake_loop_ok [OF pi this, of cur, folded s1_def, unfolded S0 E0]
  have eq: "event_set s ev fl opt = (RHINO_SUCCESS, core_sched s1)"
    using ty o by (simp add: event_set_def s1_def s0_def cur_def Let_def)
  have F: "g_active_task s1 = g_active_task s" "g_sched_lock s1 = g_sched_lock s"
    "g_intrpt_nested_level s1 = g_intrpt_nested_level s"
    using W event_frameD(6-8) [of s0 s1] by (simp_all add: s0_def)
  have T: "tasks s1 u = (if u \<in> set ?l \<and> served (tasks s) cur u then woken BLK_FINISH (tasks s u) else tasks s u)"
    for u using W by simp
  show "fst (event_set s ev fl opt) = RHINO_SUCCESS" by (simp add: eq)
  have "kern_ok (core_sched s1)"
  proof (rule kern_ok_core_sched)
    show "pi_ok s1" using W by blast
    have "rdy (tasks s1 (g_active_task s))" if "rdy (tasks s (g_active_task s))"
      using that by (auto simp: T blk_ok_mem [OF bl] task_kinds)
    then show "act_safe s1" if "g_intrpt_nested_level s1 > 0 \<or> g_sched_lock s1 > 0"
      using that k(7) by (auto simp: act_safe_def F)
  qed
  then show "kern_ok s'" by (simp add: s'_def eq)
  show "tasks s' u = (if u \<in> set ?l \<and> served (tasks s) cur u then woken BLK_FINISH (tasks s u) else tasks s u)"
    by (simp add: s'_def eq T)
  have other: "filter (\<lambda>u. \<not> (u \<in> set ?l \<and> served (tasks s) cur u)) (blk_list (blks s o'))
      = blk_list (blks s o')" if "o' \<noteq> ev"
    using that by (intro filter_True) (auto simp: blk_ok_mem [OF bl])
  show "blk_list (blks s' o') = (if o' = ev then filter (\<lambda>u. \<not> served (tasks s) cur u) ?l
      else blk_list (blks s o'))"
    using W other by (auto simp: s'_def eq intro: filter_cong)
  show "obj_type (blks s' o') = obj_type (blks s o')" using W by (simp add: s'_def eq)
  have "umem s1 q = (if \<exists>u\<in>set ?l. served (tasks s) cur u \<and> q = pend_info (tasks s u) then cur else umem s q)"
    using W by blast
  then show "umem s' q = (if \<exists>u\<in>set ?l. served (tasks s) cur u \<and> q = pend_info (tasks s u) then cur else umem s q)"
    by (simp add: s'_def eq)
  have "bit (flags (events s1 e)) i \<longleftrightarrow> (if e = ev then bit cur i else bit (flags (events s e)) i)
      \<and> \<not> (e = ev \<and> (\<exists>u\<in>set ?l. consumed (tasks s) cur u i))" using W by blast
  then show "bit (flags (events s' e)) i \<longleftrightarrow> (if e = ev then bit cur i
        \<and> (\<forall>u\<in>set ?l. \<not> consumed (tasks s) cur u i) else bit (flags (events s e)) i)"
    by (auto simp: s'_def eq)
qed

lemma event_set_ok:
  assumes ok: "kern_ok s" and nl: "event_inv s"
  shows "kern_ok (snd (event_set s ev fl opt)) \<and> event_inv (snd (event_set s ev fl opt))"
proof (cases "obj_type (blks s ev) = RHINO_EVENT_OBJ_TYPE")
  case False
  with ok nl show ?thesis by (simp add: event_set_def)
next
  case ty: True
  show ?thesis
  proof (cases "opt AND RHINO_FLAGS_AND_MASK = 0")
    case False
    let ?s' = "set_event ev (\<lambda>e. e\<lparr>flags := flags e AND fl\<rparr>) s"
    have e: "snd (event_set s ev fl opt) = ?s'" using ty False by (simp add: event_set_def)
    have "event_status (flags (events s ev)) f p" if "event_status (flags (events s ev) AND fl) f p" for f p
      using that by (rule event_status_mono) (simp add: bit_simps)
    then have "event_inv ?s'"
      by (intro event.take_away [OF nl]) (auto simp: event_avail_def served_def split: if_splits)
    moreover have "kern_ok ?s'" by (rule kern_ok_data [OF ok]) simp_all
    ultimately show ?thesis by (simp add: e)
  next
    case True
    let ?s' = "snd (event_set s ev fl opt)"
    note W = event_set_walk [OF ok ty True]
    have "event_inv ?s'"
      unfolding no_lost_def
    proof (intro allI impI)
      fix ev' t
      assume "obj_type (blks ?s' ev') = RHINO_EVENT_OBJ_TYPE \<and> t \<in> set (blk_list (blks ?s' ev'))"
      then have ty': "obj_type (blks s ev') = RHINO_EVENT_OBJ_TYPE" and t: "t \<in> set (blk_list (blks s ev'))"
        and ns: "ev' = ev \<Longrightarrow> \<not> served (tasks s) (flags (events s ev) OR fl) t"
        by (auto simp: W(4,5) split: if_splits)
      have r: "served (tasks ?s') c t = served (tasks s) c t" for c
        by (simp add: W(3) served_def woken_def)
      have "\<not> served (tasks s) (flags (events ?s' ev')) t"
      proof
        assume sv: "served (tasks s) (flags (events ?s' ev')) t"
        have "served (tasks s) (if ev' = ev then flags (events s ev) OR fl else flags (events s ev')) t"
          using sv unfolding served_def by (rule event_status_mono) (auto simp: W(7) split: if_splits)
        then show False using ns nl ty' t by (auto simp: no_lost_def event_avail_def split: if_splits)
      qed
      then show "\<not> event_avail ?s' ev' t" by (simp add: event_avail_def r)
    qed
    with W(2) show ?thesis by simp
  qed
qed

lemma krhino_event_get_ok:
  assumes ok: "kern_ok s" and mw: "may_wait s d" and nl: "event_inv s"
  shows "kern_ok (snd (krhino_event_get s ev fl opt act d)) \<and> event_inv (snd (krhino_event_get s ev fl opt act d))"
proof -
  let ?a = "g_active_task s"
  let ?x = "(tasks s ?a)\<lparr>pend_flags := fl, pend_info := act, pend_option := opt\<rparr>"
  define s1 where "s1 = s\<lparr>tasks := (tasks s)(?a := ?x)\<rparr>"
  define s2 where "s2 = set_event ev (\<lambda>e. e\<lparr>flags := flags e AND NOT fl\<rparr>) (umem_update (\<lambda>m. m(act := flags (events s ev))) s)"
  define s3 where "s3 = umem_update (\<lambda>m. m(act := flags (events s ev))) s"
  have s1: "set_task ?a (\<lambda>t. t\<lparr>pend_flags := fl, pend_info := act, pend_option := opt\<rparr>) s = s1" by (simp add: s1_def)
  have act1: "g_active_task s1 = ?a" by (simp add: s1_def)
  consider (same) "snd (krhino_event_get s ev fl opt act d) = s"
    | (clear) "snd (krhino_event_get s ev fl opt act d) = s2"
    | (keep) "snd (krhino_event_get s ev fl opt act d) = s3"
    | (block) "snd (krhino_event_get s ev fl opt act d) = core_sched (pend_to_blk_obj s1 ev ?a d)"
        "g_intrpt_nested_level s = 0" "g_sched_lock s = 0" "obj_type (blks s ev) = RHINO_EVENT_OBJ_TYPE"
        "\<not> event_status (flags (events s ev)) fl opt" "d \<noteq> RHINO_NO_WAIT"
  proof (cases "ev = NULL \<or> act = NULL \<or> (opt \<noteq> RHINO_AND \<and> opt \<noteq> RHINO_OR \<and> opt \<noteq> RHINO_AND_CLEAR \<and> opt \<noteq> RHINO_OR_CLEAR)
      \<or> g_intrpt_nested_level s > 0 \<or> obj_type (blks s ev) \<noteq> RHINO_EVENT_OBJ_TYPE")
    case True
    then have "snd (krhino_event_get s ev fl opt act d) = s" unfolding krhino_event_get_def by auto
    then show thesis by (rule same)
  next
    case False
    then have g: "\<not> (opt \<noteq> RHINO_AND \<and> opt \<noteq> RHINO_OR \<and> opt \<noteq> RHINO_AND_CLEAR \<and> opt \<noteq> RHINO_OR_CLEAR)"
      "ev \<noteq> NULL" "act \<noteq> NULL" "\<not> g_intrpt_nested_level s > 0" "g_intrpt_nested_level s = 0"
      "obj_type (blks s ev) = RHINO_EVENT_OBJ_TYPE" by (simp_all add: not_gr_zero_word)
    show thesis
    proof (cases "event_status (flags (events s ev)) fl opt")
      case True
      then show thesis
        using clear keep
        by (cases "opt AND RHINO_FLAGS_CLEAR_MASK = 0")
          (simp_all only: krhino_event_get_def Let_def g if_False if_True simp_thms less_irrefl s2_def s3_def snd_conv)
    next
      case False
      then show thesis
        using same block g(5,6) False
        by (cases "d = RHINO_NO_WAIT"; cases "g_sched_lock s = 0")
          (simp_all only: krhino_event_get_def Let_def g if_False if_True simp_thms less_irrefl s1 act1 snd_conv
             word_neq_0_conv [symmetric])
    qed
  qed
  then show ?thesis
  proof cases
    case same
    with ok nl show ?thesis by simp
  next
    case keep
    have "kern_ok s3" by (rule kern_ok_data [OF ok]) (simp_all add: s3_def)
    moreover have "event_inv s3" by (rule event.take_away [OF nl]) (simp_all add: s3_def event_avail_def)
    ultimately show ?thesis by (simp add: keep)
  next
    case clear
    have "event_status (flags (events s ev)) f p" if "event_status (flags (events s ev) AND NOT fl) f p" for f p
      using that by (rule event_status_mono) (simp add: bit_simps)
    then have "event_inv s2"
      by (intro event.take_away [OF nl]) (auto simp: s2_def event_avail_def served_def split: if_splits)
    moreover have "kern_ok s2" by (rule kern_ok_data [OF ok]) (simp_all add: s2_def)
    ultimately show ?thesis by (simp add: clear)
  next
    case block
    have r: "rdy (tasks s ?a)" by (rule kern_ok_caller [OF ok block(2)])
    have k1: "kern_ok s1" unfolding s1_def by (rule kern_ok_retask [OF ok]) simp_all
    have "?a \<notin> set (blk_list (blks s o'))" for o'
      using r by (auto simp: blk_ok_mem [OF lists_okD(2) [OF kern_okD(3) [OF ok]]] task_kinds)
    then have n1: "event_inv s1"
      by (intro event.take_away [OF nl]) (auto simp: s1_def event_avail_def served_def split: if_splits)
    have "kern_ok (core_sched (pend_to_blk_obj s1 ev (g_active_task s1) d))"
      by (rule obj_block_ok [OF k1]) (use may_waitD [OF mw block(6,2)] block in \<open>simp_all add: s1_def\<close>)
    moreover have "event_inv (core_sched (pend_to_blk_obj s1 ev ?a d))"
      by (rule event.block [OF n1]) (use block in \<open>simp add: s1_def event_avail_def served_def\<close>)
    ultimately show ?thesis by (simp add: block(1)) (simp add: s1_def)
  qed
qed

lemma krhino_event_del_ok:
  assumes ok: "kern_ok s" and nl: "event_inv s"
  shows "kern_ok (snd (krhino_event_del s m)) \<and> event_inv (snd (krhino_event_del s m))"
proof (cases "m \<noteq> NULL \<and> g_intrpt_nested_level s = 0 \<and> obj_type (blks s m) = RHINO_EVENT_OBJ_TYPE
    \<and> event_mm_alloc_flag (events s m) = K_OBJ_STATIC_ALLOC")
  case False
  then have "snd (krhino_event_del s m) = s" by (auto simp: krhino_event_del_def word_neq_0_conv)
  with ok nl show ?thesis by simp
next
  case True
  then have nm: "obj_type (blks s m) \<noteq> RHINO_MUTEX_OBJ_TYPE" by simp
  let ?r = "obj_retire s m"
  let ?s2 = "set_event m (\<lambda>e. e\<lparr>flags := 0\<rparr>) ?r"
  have e: "snd (krhino_event_del s m)
      = core_sched (g_kobj_list_update (kobj_event_head_update (removeAll m)) ?s2)"
    using True by (simp add: krhino_event_del_def obj_retire_def Let_def)
  have n: "event_inv ?r" using event.retire [OF nl ok nm] by simp
  have "event_inv ?s2"
    by (rule event.restock [OF n, of _ m]) (simp_all add: event_avail_def obj_retire_ok(4) [OF ok nm])
  then have "event_inv (core_sched (g_kobj_list_update f ?s2))" for f
    unfolding event.no_lost_sched by (simp add: no_lost_def event_avail_def)
  moreover have "kern_ok (core_sched (g_kobj_list_update f ?s2)) = kern_ok (core_sched ?r)" for f
    by (rule kern_ok_cong) (simp_all add: core_sched_active)
  ultimately show ?thesis unfolding e using obj_retire_ok(1) [OF ok nm] by simp
qed

lemma krhino_event_create_ok:
  assumes ok: "kern_ok s" and nl: "event_inv s"
    and f: "obj_type (blks s m) \<noteq> RHINO_MUTEX_OBJ_TYPE" "blk_list (blks s m) = []"
  shows "kern_ok (snd (krhino_event_create s m name c)) \<and> event_inv (snd (krhino_event_create s m name c))"
proof (cases "m = NULL \<or> name = NULL")
  case True
  with ok nl show ?thesis by (auto simp: krhino_event_create_def event_create_def)
next
  case False
  let ?b = "(blks s m)\<lparr>blk_list := [], blk_policy := BLK_POLICY_PRI, obj_type := RHINO_EVENT_OBJ_TYPE\<rparr>"
  let ?s' = "snd (krhino_event_create s m name c)"
  have B: "blks ?s' = (blks s)(m := ?b)" "tasks ?s' = tasks s" and S: "k \<noteq> m \<Longrightarrow> events ?s' k = events s k" for k
    using False by (simp_all add: krhino_event_create_def event_create_def Let_def)
  have "kern_ok (s\<lparr>blks := (blks s)(m := ?b)\<rparr>)" by (rule obj_create_ok [OF ok f]) simp_all
  then have "kern_ok ?s'"
    by (rule kern_ok_data) (use False in \<open>simp_all add: krhino_event_create_def event_create_def Let_def\<close>)
  moreover have "event_inv ?s'" by (rule event.created [OF nl B(1)]) (simp_all add: event_avail_def S B(2))
  ultimately show ?thesis by simp
qed

section \<open>What the operations do\<close>

text \<open>C25: Setting flags wakes exactly the waiting tasks whose condition the new flags satisfy, hands
  each of them these flags, and then clears the flags the woken tasks asked to have cleared: two
  tasks that wait for the same flag are both served although each of them consumes it.\<close>

theorem event_set_wakes_exactly:
  fixes fl :: u32
  assumes "kern_ok s" and "ev \<noteq> NULL" and "obj_type (blks s ev) = RHINO_EVENT_OBJ_TYPE"
  defines "cur \<equiv> flags (events s ev) OR fl"
    and "s' \<equiv> snd (krhino_event_set s ev fl RHINO_OR)"
  shows "fst (krhino_event_set s ev fl RHINO_OR) = RHINO_SUCCESS
    \<and> tasks s' t = (if t \<in> set (blk_list (blks s ev)) \<and> served (tasks s) cur t
        then woken BLK_FINISH (tasks s t) else tasks s t)
    \<and> blk_list (blks s' ev) = filter (\<lambda>u. \<not> served (tasks s) cur u) (blk_list (blks s ev))
    \<and> umem s' p = (if \<exists>u\<in>set (blk_list (blks s ev)). served (tasks s) cur u \<and> p = pend_info (tasks s u)
        then cur else umem s p)
    \<and> (bit (flags (events s' ev)) i \<longleftrightarrow>
         bit cur i \<and> (\<forall>u\<in>set (blk_list (blks s ev)). \<not> consumed (tasks s) cur u i))"
proof -
  have "RHINO_OR AND RHINO_FLAGS_AND_MASK = 0" by (simp add: RHINO_OR_def)
  note W = event_set_walk [OF assms(1,3) this, of fl, folded cur_def]
  have "krhino_event_set s ev fl RHINO_OR = event_set s ev fl RHINO_OR"
    using assms(2) by (simp add: krhino_event_set_def)
  then show ?thesis unfolding s'_def using W(1,3-7) by simp
qed

lemma ex_event_inv: "event_inv ex_state"
  by (auto simp: no_lost_def event_avail_def served_def event_status_def ex_eval RHINO_FLAGS_AND_MASK_def
      split: if_splits) (simp_all add: ex_state_def)

theorem event_set_wakes_exactly_witness:
  "let s' = snd (krhino_event_set ex_state 500 4 RHINO_OR)
   in rdy (tasks s' 8) \<and> pending (tasks s' 9) \<and> blk_list (blks s' 500) = [9] \<and> umem s' 900 = 4
      \<and> \<not> bit (flags (events s' 500)) 2"
proof -
  have f: "flags (events ex_state 500) = 0" by (simp add: ex_state_def)
  have b: "blk_list (blks ex_state 500) = [8, 9]" and o: "obj_type (blks ex_state 500) = RHINO_EVENT_OBJ_TYPE"
    by (simp_all add: ex_eval)
  have t: "pend_info (tasks ex_state 8) = 900" "task_state (tasks ex_state 8) = K_PEND"
    "pending (tasks ex_state 9)" "pend_option (tasks ex_state 8) = 1" "pend_flags (tasks ex_state 8) = 5"
    by (simp_all add: ex_eval pending_def)
  have v: "served (tasks ex_state) 4 8" "\<not> served (tasks ex_state) 4 9"
    by (simp_all add: served_def event_status_def ex_eval RHINO_FLAGS_AND_MASK_def)
  have c: "consumed (tasks ex_state) 4 8 2"
    using v(1) t by (simp add: consumed_def RHINO_FLAGS_CLEAR_MASK_def bit_numeral_rec)
  show ?thesis
    using event_set_wakes_exactly [OF ex_kern_ok _ o, of 4 8 900 2] event_set_wakes_exactly [OF ex_kern_ok _ o, of 4 9 900 2]
    by (simp add: f b t v c Let_def)
qed

text \<open>C26: No task waits for an event whose flags satisfy its condition, and no operation on events
  breaks this or the kernel invariant.\<close>

theorem event_no_lost_wakeup:
  assumes "kern_ok s" and "event_inv s" and "prio (tasks s (g_active_task s)) \<noteq> RHINO_IDLE_PRI"
    and "s' \<in> {snd (krhino_event_set s ev fl opt), snd (krhino_event_get s ev fl opt act ticks),
      snd (krhino_event_del s ev)}"
  shows "kern_ok s' \<and> event_inv s'"
  using assms(4) event_set_ok [OF assms(1,2)] krhino_event_get_ok [OF assms(1) may_wait_task [OF assms(3)] assms(2)]
    krhino_event_del_ok [OF assms(1,2)] assms(1,2)
  by (auto simp: krhino_event_set_def)

theorem event_no_lost_wakeup_witness:
  "event_inv (snd (krhino_event_get ex_state 500 3 RHINO_AND 908 RHINO_WAIT_FOREVER))"
  using event_no_lost_wakeup [OF ex_kern_ok ex_event_inv ex_caller,
      where s' = "snd (krhino_event_get ex_state 500 3 RHINO_AND 908 RHINO_WAIT_FOREVER)" and ev = 500
        and fl = 3 and opt = RHINO_AND and act = 908 and ticks = RHINO_WAIT_FOREVER] by simp

end
