(* ===== verification/Ringbuf_Fifo.thy ===== *)
theory Ringbuf_Fifo
  imports Ringbuf
begin

text \<open>
  The ring buffer of \<^verbatim>\<open>k_ringbuf.c\<close> is a first-in first-out channel.

  \<open>content\<close> reads the bytes between head and tail around the end of the buffer, and \<open>rb_ok\<close>
  relates the two pointers and the number of free bytes. Each \<^verbatim>\<open>memcpy\<close> appends to the content or
  takes a prefix of it; the length headers round-trip; and so the operations are those of a queue
  of messages, for both types of buffer. The locale \<open>msg_channel\<close> states that interface and
  derives the history property of a channel: what has been received, followed by what is still in
  the buffer, is what was sent.
\<close>

section \<open>The bytes in the buffer\<close>

definition used :: "k_ringbuf_t \<Rightarrow> nat" where
  "used rb = rb_end rb - rb_freesize rb"

definition ix :: "k_ringbuf_t \<Rightarrow> nat \<Rightarrow> nat" where
  "ix rb k = (rb_head rb + k) mod rb_end rb"

definition content :: "k_ringbuf_t \<Rightarrow> u8 list" where
  "content rb = map (\<lambda>k. rb_buf rb ! ix rb k) [0..<used rb]"

definition rb_ok :: "k_ringbuf_t \<Rightarrow> bool" where
  "rb_ok rb \<longleftrightarrow> 0 < rb_end rb \<and> rb_head rb \<le> rb_end rb \<and> rb_tail rb \<le> rb_end rb
     \<and> rb_freesize rb \<le> rb_end rb \<and> ix rb (used rb) = rb_tail rb mod rb_end rb"

lemma length_content [simp]: "length (content rb) = used rb"
  by (simp add: content_def)

lemma rb_okD:
  assumes "rb_ok rb"
  shows "0 < rb_end rb" "rb_head rb \<le> rb_end rb" "rb_tail rb \<le> rb_end rb" "rb_freesize rb \<le> rb_end rb"
    "ix rb (used rb) = rb_tail rb mod rb_end rb"
  using assms by (simp_all add: rb_ok_def)

text \<open>How far head and tail are apart.\<close>

lemma rb_ok_dist:
  assumes "rb_ok rb"
  shows "rb_head rb + used rb = rb_tail rb \<or> rb_head rb + used rb = rb_tail rb + rb_end rb
    \<or> rb_head rb + used rb = rb_tail rb + 2 * rb_end rb \<or> rb_head rb + used rb + rb_end rb = rb_tail rb"
proof -
  note r = rb_okD [OF assms]
  let ?c = "rb_end rb" and ?a = "rb_head rb + used rb" and ?t = "rb_tail rb"
  have m: "?a mod ?c = ?t mod ?c" using r(5) by (simp add: ix_def)
  have le: "?a \<le> 2 * ?c" using r(2) by (simp add: used_def)
  show ?thesis
  proof (cases "?t \<le> ?a")
    case True
    then obtain q where q: "?a = ?t + ?c * q" using m by (metis mod_eq_nat1E)
    have "q \<le> 2" using le q r(1) by (metis le_add2 le_trans mult.commute mult_le_cancel2)
    then have "q = 0 \<or> q = 1 \<or> q = 2" by auto
    then show ?thesis using q by auto
  next
    case False
    then obtain q where q: "?t = ?a + ?c * q" using m by (metis mod_eq_nat1E nat_le_linear)
    have "?c * q \<le> ?c * 1" using q r(3) by linarith
    then have "q \<le> 1" using r(1) mult_le_mono2 [of 2 q ?c] by linarith
    then have "q = 1" using q False by (cases q) auto
    then show ?thesis using q by simp
  qed
qed

lemma used_le: "used rb \<le> rb_end rb"
  by (simp add: used_def)

text \<open>Where the tail is behind the head, the free bytes lie between them.\<close>

lemma free_between:
  assumes "rb_ok rb" and "rb_tail rb < rb_head rb"
  shows "rb_freesize rb \<le> rb_head rb - rb_tail rb"
  using rb_ok_dist [OF assms(1)] rb_okD(1-4) [OF assms(1)] assms(2) by (auto simp: used_def)

lemma used_between:
  assumes "rb_ok rb" and "rb_head rb \<le> rb_tail rb" and "used rb < rb_end rb"
  shows "rb_head rb + used rb \<le> rb_tail rb"
  using rb_ok_dist [OF assms(1)] rb_okD(1-4) [OF assms(1)] assms(2,3) by auto

lemma ix_inj:
  assumes "i < rb_end rb" and "j < rb_end rb" and "ix rb i = ix rb j"
  shows "i = j"
  using assms
proof (induction i j rule: linorder_wlog)
  case (le i j)
  have "rb_end rb dvd (rb_head rb + j) - (rb_head rb + i)"
    using le by (simp only: ix_def mod_eq_dvd_iff_nat [symmetric] add_le_cancel_left)
  then have "rb_end rb dvd j - i" by simp
  then show ?case using le by (meson diff_is_0_eq dvd_imp_le le_antisym less_imp_diff_less not_gr_zero not_less)
qed simp

section \<open>One copy\<close>

lemma length_blit [simp]: "off + length bs \<le> length buf \<Longrightarrow> length (blit buf off bs) = length buf"
  by (simp add: blit_def)

lemma nth_blit:
  assumes "off + length bs \<le> length buf" and "i < length buf"
  shows "blit buf off bs ! i = (if off \<le> i \<and> i < off + length bs then bs ! (i - off) else buf ! i)"
  using assms by (auto simp: blit_def nth_append min_def)

text \<open>\<open>put\<close> appends to the content.\<close>

lemma put_ok:
  assumes ok: "rb_ok rb" and fit: "rb_tail rb + length bs \<le> rb_end rb" and free: "length bs \<le> rb_freesize rb"
  shows "rb_ok (put rb bs)" and "content (put rb bs) = content rb @ bs"
    and "rb_end (put rb bs) = rb_end rb" and "rb_freesize (put rb bs) = rb_freesize rb - length bs"
proof -
  note r = rb_okD [OF ok]
  let ?rb = "put rb bs" and ?c = "rb_end rb"
  have e: "rb_end ?rb = ?c" using fit by (simp add: put_def rb_end_def)
  then show "rb_end (put rb bs) = rb_end rb" .
  show "rb_freesize (put rb bs) = rb_freesize rb - length bs" by (simp add: put_def)
  have u: "used ?rb = used rb + length bs" using free r(4) e by (simp add: used_def put_def)
  have x: "ix ?rb k = ix rb k" for k by (simp add: ix_def e) (simp add: put_def)
  have pos: "ix rb (used rb + j) = rb_tail rb + j" if "j < length bs" for j
  proof -
    have "ix rb (used rb + j) = (ix rb (used rb) + j) mod ?c" by (simp add: ix_def mod_simps add.assoc)
    also have "\<dots> = (rb_tail rb + j) mod ?c" by (simp add: r(5) mod_simps)
    also have "\<dots> = rb_tail rb + j" using that fit by simp
    finally show ?thesis .
  qed
  have le: "used rb + length bs \<le> ?c" using free r(4) by (simp add: used_def)
  have byte: "rb_buf ?rb ! ix rb k = (content rb @ bs) ! k" if k: "k < used rb + length bs" for k
  proof (cases "k < used rb")
    case True
    have "ix rb k \<noteq> rb_tail rb + j" if "j < length bs" for j
      using ix_inj [of k rb "used rb + j"] pos [OF that] True that le by auto
    moreover have "ix rb k < ?c" using r(1) by (simp add: ix_def)
    ultimately have "rb_buf ?rb ! ix rb k = rb_buf rb ! ix rb k"
      using fit by (auto simp: put_def rb_end_def nth_blit) (metis add_diff_inverse_nat nat_add_left_cancel_less not_less)
    then show ?thesis using True by (simp add: content_def nth_append)
  next
    case False
    then obtain j where j: "k = used rb + j" "j < length bs" using k by (metis add_less_cancel_left le_Suc_ex not_less)
    then show ?thesis
      using pos [OF j(2)] fit by (simp add: put_def rb_end_def nth_blit nth_append)
  qed
  show "content ?rb = content rb @ bs"
    by (rule nth_equalityI) (simp_all add: u x byte content_def [of ?rb])
  have "ix ?rb (used ?rb) = (ix rb (used rb) + length bs) mod ?c" by (simp add: u x) (simp add: ix_def mod_simps add.assoc)
  also have "\<dots> = (rb_tail rb + length bs) mod ?c" by (simp add: r(5) mod_simps)
  finally show "rb_ok ?rb" using r fit free unfolding rb_ok_def e by (simp add: put_def)
qed

text \<open>\<open>get\<close> takes a prefix of the content.\<close>

lemma get_ok:
  assumes ok: "rb_ok rb" and fit: "rb_head rb + n \<le> rb_end rb" and n: "n \<le> used rb"
  shows "fst (get rb n) = take n (content rb)" and "rb_ok (snd (get rb n))"
    and "content (snd (get rb n)) = drop n (content rb)"
    and "rb_end (snd (get rb n)) = rb_end rb"
proof -
  note r = rb_okD [OF ok]
  let ?rb = "snd (get rb n)" and ?c = "rb_end rb"
  have e: "rb_end ?rb = ?c" by (simp add: get_def rb_end_def)
  then show "rb_end (snd (get rb n)) = rb_end rb" .
  have u: "used ?rb = used rb - n" by (simp add: used_def e) (simp add: get_def)
  have x: "ix ?rb k = ix rb (n + k)" for k by (simp add: ix_def e) (simp add: get_def add.assoc)
  have b: "rb_buf ?rb = rb_buf rb" by (simp add: get_def)
  have "ix rb k = rb_head rb + k" if "k < n" for k using that fit by (simp add: ix_def)
  then show "fst (get rb n) = take n (content rb)"
    using fit n by (intro nth_equalityI) (simp_all add: get_def content_def rb_end_def)
  show "content ?rb = drop n (content rb)"
    using n by (intro nth_equalityI) (simp_all add: u x b content_def less_diff_conv add.commute)
  have "ix ?rb (used ?rb) = ix rb (used rb)" using n by (simp add: u x)
  moreover have "rb_freesize rb + n \<le> ?c" using n r(4) by (simp add: used_def)
  ultimately show "rb_ok ?rb" using r fit unfolding rb_ok_def e by (simp add: get_def)
qed

text \<open>Wrapping a pointer that has reached the end changes nothing.\<close>

lemma tail_zero_ok:
  assumes "rb_ok rb" and "rb_tail rb = rb_end rb"
  shows "rb_ok (rb\<lparr>rb_tail := 0\<rparr>)" and "content (rb\<lparr>rb_tail := 0\<rparr>) = content rb"
proof -
  let ?rb = "rb\<lparr>rb_tail := 0\<rparr>"
  have "used ?rb = used rb" "ix ?rb k = ix rb k" "rb_end ?rb = rb_end rb" for k
    by (simp_all add: used_def ix_def rb_end_def)
  then show "rb_ok ?rb" "content ?rb = content rb" using assms by (simp_all add: rb_ok_def content_def)
qed

lemma head_zero_ok:
  assumes "rb_ok rb" and "rb_head rb = rb_end rb"
  shows "rb_ok (rb\<lparr>rb_head := 0\<rparr>)" and "content (rb\<lparr>rb_head := 0\<rparr>) = content rb"
  using assms by (simp_all add: rb_ok_def content_def used_def ix_def rb_end_def)

lemma wrap_tail_ok:
  assumes "rb_ok rb"
  shows "rb_ok (wrap_tail rb)" and "content (wrap_tail rb) = content rb"
    and "rb_tail (wrap_tail rb) < rb_end rb" and "rb_end (wrap_tail rb) = rb_end rb"
    and "rb_freesize (wrap_tail rb) = rb_freesize rb"
  using tail_zero_ok [OF assms] assms rb_okD(1,3) [OF assms]
  by (simp_all add: wrap_tail_def) (simp_all add: rb_end_def)

lemma wrap_head_ok:
  assumes "rb_ok rb"
  shows "rb_ok (wrap_head rb)" and "content (wrap_head rb) = content rb"
    and "rb_head (wrap_head rb) < rb_end rb" and "rb_end (wrap_head rb) = rb_end rb"
    and "used (wrap_head rb) = used rb"
  using head_zero_ok [OF assms] assms rb_okD(1,2) [OF assms]
  by (simp_all add: wrap_head_def) (simp_all add: rb_end_def used_def)

text \<open>Copies that are split at the end of the buffer.\<close>

lemma split_put_ok:
  assumes ok: "rb_ok rb" and t: "rb_tail rb < rb_end rb" and free: "length bs \<le> rb_freesize rb"
  shows "rb_ok (split_put rb bs)" and "content (split_put rb bs) = content rb @ bs"
    and "rb_end (split_put rb bs) = rb_end rb" and "rb_freesize (split_put rb bs) = rb_freesize rb - length bs"
proof -
  let ?n = "rb_end rb - rb_tail rb"
  have "rb_ok (split_put rb bs) \<and> content (split_put rb bs) = content rb @ bs
    \<and> rb_end (split_put rb bs) = rb_end rb \<and> rb_freesize (split_put rb bs) = rb_freesize rb - length bs"
  proof (cases "rb_tail rb \<ge> rb_head rb \<and> ?n < length bs \<and> ?n > 0")
    case False
    have "rb_tail rb + length bs \<le> rb_end rb"
      using False t free free_between [OF ok] rb_okD(2) [OF ok] by (cases "rb_tail rb < rb_head rb") auto
    then show ?thesis using put_ok [OF ok _ free] unfolding split_put_def Let_def if_not_P [OF False] by simp
  next
    case True
    let ?rb1 = "put rb (take ?n bs)" and ?rb2 = "(put rb (take ?n bs))\<lparr>rb_tail := 0\<rparr>"
    have l: "length (take ?n bs) = ?n" using True by simp
    note P = put_ok [OF ok, of "take ?n bs", unfolded l]
    have p: "rb_ok ?rb1" "content ?rb1 = content rb @ take ?n bs" "rb_end ?rb1 = rb_end rb"
      "rb_freesize ?rb1 = rb_freesize rb - ?n"
      using P t free True by simp_all
    have "rb_tail ?rb1 = rb_end ?rb1" using p(3) l t by (simp add: put_def)
    note z = tail_zero_ok [OF p(1) this]
    have e: "rb_end ?rb2 = rb_end rb" "rb_freesize ?rb2 = rb_freesize rb - ?n" "rb_tail ?rb2 = 0"
      using p(3,4) by (simp_all add: rb_end_def)
    have "length (drop ?n bs) \<le> rb_end rb" using free rb_okD(4) [OF ok] by simp
    then show ?thesis
      using put_ok [OF z(1), of "drop ?n bs"] z(2) p(2) e free True by (simp add: split_put_def Let_def)
  qed
  then show "rb_ok (split_put rb bs)" "content (split_put rb bs) = content rb @ bs"
    "rb_end (split_put rb bs) = rb_end rb" "rb_freesize (split_put rb bs) = rb_freesize rb - length bs" by auto
qed

lemma split_get_ok:
  assumes ok: "rb_ok rb" and n: "n \<le> used rb" and c: "\<not> cond \<Longrightarrow> rb_head rb + n \<le> rb_end rb"
  shows "fst (split_get cond rb n) = take n (content rb)" and "rb_ok (snd (split_get cond rb n))"
    and "content (snd (split_get cond rb n)) = drop n (content rb)"
    and "rb_end (snd (split_get cond rb n)) = rb_end rb"
proof -
  let ?n = "rb_end rb - rb_head rb"
  note r = rb_okD [OF ok]
  have "fst (split_get cond rb n) = take n (content rb) \<and> rb_ok (snd (split_get cond rb n))
    \<and> content (snd (split_get cond rb n)) = drop n (content rb) \<and> rb_end (snd (split_get cond rb n)) = rb_end rb"
  proof (cases "cond \<and> ?n < n")
    case False
    then have "rb_head rb + n \<le> rb_end rb" using c r(2) by auto
    then show ?thesis using get_ok [OF ok _ n] unfolding split_get_def Let_def if_not_P [OF False] by simp
  next
    case True
    let ?rb1 = "snd (get rb ?n)"
    have G: "fst (get rb ?n) = take ?n (content rb)" "rb_ok ?rb1" "content ?rb1 = drop ?n (content rb)"
      "rb_end ?rb1 = rb_end rb"
      using get_ok [OF ok, of ?n] True n r(2) by simp_all
    have "rb_head ?rb1 = rb_end ?rb1" using r(2) by (simp add: G(4)) (simp add: get_def)
    note z = head_zero_ok [OF G(2) this]
    let ?rb2 = "?rb1\<lparr>rb_head := 0\<rparr>"
    have e: "rb_end ?rb2 = rb_end rb" using G(4) by (simp add: rb_end_def)
    have u: "used ?rb2 = used rb - ?n"
      using arg_cong [OF z(2), of length] arg_cong [OF G(3), of length] by simp
    have "n - ?n \<le> used ?rb2" "n - ?n \<le> rb_end rb" using n u used_le [of rb] by simp_all
    then have H: "fst (get ?rb2 (n - ?n)) = take (n - ?n) (drop ?n (content rb))" "rb_ok (snd (get ?rb2 (n - ?n)))"
      "content (snd (get ?rb2 (n - ?n))) = drop n (content rb)" "rb_end (snd (get ?rb2 (n - ?n))) = rb_end rb"
      using get_ok [OF z(1), of "n - ?n"] e z(2) G(3) True by simp_all
    have "take ?n (content rb) @ take (n - ?n) (drop ?n (content rb)) = take n (content rb)"
      using True by (metis add_diff_inverse_nat not_less_iff_gr_or_eq take_add)
    then show ?thesis
      using H G(1) unfolding split_get_def Let_def if_P [OF True] by (simp add: case_prod_beta)
  qed
  then show "fst (split_get cond rb n) = take n (content rb)" "rb_ok (snd (split_get cond rb n))"
    "content (snd (split_get cond rb n)) = drop n (content rb)" "rb_end (snd (split_get cond rb n)) = rb_end rb"
    by auto
qed

section \<open>Length headers\<close>

lemma unat_len_byte [simp]: "unat (len_byte i n) = n div 256 ^ i mod 256"
  by (simp add: len_byte_def unat_of_nat)

text \<open>
  A byte below 64 with one of the two tags in the upper bits, and a byte below 128: finitely many
  cases.
\<close>

lemma tag_bits_cases:
  "list_all (\<lambda>k. let w = word_of_nat k :: u8 in
     (0x80 OR w) AND 0x80 = 0x80 \<and> (0x80 OR w) AND 0xC0 = 0x80 \<and> (0xC0 OR w) AND 0x80 = 0x80
     \<and> (0xC0 OR w) AND 0xC0 = 0xC0 \<and> (0x80 OR w) AND 0x3f = w \<and> (0xC0 OR w) AND 0x3f = w) [0..<64]"
  by code_simp

lemma low_bits_cases:
  "list_all (\<lambda>k. let w = word_of_nat k :: u8 in 0x7f AND w = w \<and> w AND 0x80 = 0) [0..<128]"
  by code_simp

lemma tag_bits:
  fixes w :: u8
  assumes "unat w < 64"
  shows "(0x80 OR w) AND 0x80 = 0x80" "(0x80 OR w) AND 0xC0 = 0x80"
    "(0xC0 OR w) AND 0x80 = 0x80" "(0xC0 OR w) AND 0xC0 = 0xC0"
    "(0x80 OR w) AND 0x3f = w" "(0xC0 OR w) AND 0x3f = w"
proof -
  have i: "word_of_nat (unat w) = w" by simp
  have "unat w \<in> set [0..<64]" using assms by simp
  from tag_bits_cases [unfolded list_all_iff Let_def, rule_format, OF this, unfolded i]
  show "(0x80 OR w) AND 0x80 = 0x80" "(0x80 OR w) AND 0xC0 = 0x80"
    "(0xC0 OR w) AND 0x80 = 0x80" "(0xC0 OR w) AND 0xC0 = 0xC0"
    "(0x80 OR w) AND 0x3f = w" "(0xC0 OR w) AND 0x3f = w" by blast+
qed

lemma low_bits:
  fixes w :: u8
  assumes "unat w < 128"
  shows "0x7f AND w = w" "w AND 0x80 = 0"
proof -
  have i: "word_of_nat (unat w) = w" by simp
  have "unat w \<in> set [0..<128]" using assms by simp
  from low_bits_cases [unfolded list_all_iff Let_def, rule_format, OF this, unfolded i]
  show "0x7f AND w = w" "w AND 0x80 = 0" by blast+
qed

definition header :: "nat \<Rightarrow> u8 list" where
  "header n = snd (ringbuf_headlen_compress n)"

text \<open>How many bytes the header has, by its first byte, as \<^verbatim>\<open>ringbuf_pop\<close> tells.\<close>

definition header_len :: "u8 \<Rightarrow> nat" where
  "header_len b = (if b AND 0x80 = 0 then 1 else if b AND 0xC0 = 0x80 then 2
                   else if b AND 0xC0 = 0xC0 then 3 else 0)"

lemma tags_differ: "(0x80 :: u8) \<noteq> 0" "(0xC0 :: u8) \<noteq> 0x80"
  by code_simp+

lemma header_len_tag:
  fixes w :: u8
  assumes "unat w < 64"
  shows "header_len (0x80 OR w) = 2" "header_len (0xC0 OR w) = 3"
  by (simp_all only: header_len_def tag_bits [OF assms] tags_differ if_False if_True simp_thms)

lemma header_props:
  assumes "n \<le> RINGBUF_LEN_3BYTES_MAXVALUE"
  shows "fst (ringbuf_headlen_compress n) = COMPRESS_LEN n" and "length (header n) = COMPRESS_LEN n"
    and "COMPRESS_LEN n \<in> {1, 2, 3}" and "header_len (hd (header n)) = COMPRESS_LEN n"
    and "ringbuf_headlen_decompress (COMPRESS_LEN n) (header n) = n"
proof -
  consider "n \<le> 0x7f" | "0x7f < n" "n \<le> 0x3fff" | "0x3fff < n" "n \<le> 0x3fffff"
    using assms by (fastforce simp: RINGBUF_LEN_3BYTES_MAXVALUE_def)
  then have "fst (ringbuf_headlen_compress n) = COMPRESS_LEN n \<and> length (header n) = COMPRESS_LEN n
    \<and> COMPRESS_LEN n \<in> {1, 2, 3} \<and> header_len (hd (header n)) = COMPRESS_LEN n
    \<and> ringbuf_headlen_decompress (COMPRESS_LEN n) (header n) = n"
  proof cases
    case 1
    then have "unat (len_byte 0 n) < 128" by simp
    note l = low_bits [OF this]
    from 1 show ?thesis
      by (simp add: header_def ringbuf_headlen_compress_def COMPRESS_LEN_def Let_def l header_len_def
          ringbuf_headlen_decompress_def be_val_def)
  next
    case 2
    then have "n div 256 < 64" by (simp add: less_mult_imp_div_less)
    then have "unat (len_byte 1 n) < 64" by simp
    note t = tag_bits [OF this] and h = header_len_tag [OF this]
    from 2 \<open>n div 256 < 64\<close> show ?thesis
      by (simp add: header_def ringbuf_headlen_compress_def COMPRESS_LEN_def Let_def t h
          ringbuf_headlen_decompress_def be_val_def del: One_nat_def)
  next
    case 3
    then have d: "n div 65536 < 64" by (simp add: less_mult_imp_div_less)
    then have "unat (len_byte 2 n) < 64" by simp
    note t = tag_bits [OF this] and h = header_len_tag [OF this]
    have "n = n div 65536 * 65536 + n div 256 mod 256 * 256 + n mod 256"
      using mod_mult2_eq [of n 256 256] div_mult_mod_eq [of n 65536] by simp
    then show ?thesis
      using 3 d
      by (simp add: header_def ringbuf_headlen_compress_def COMPRESS_LEN_def Let_def t h
          ringbuf_headlen_decompress_def be_val_def del: One_nat_def)
  qed
  then show "fst (ringbuf_headlen_compress n) = COMPRESS_LEN n" "length (header n) = COMPRESS_LEN n"
    "COMPRESS_LEN n \<in> {1, 2, 3}" "header_len (hd (header n)) = COMPRESS_LEN n"
    "ringbuf_headlen_decompress (COMPRESS_LEN n) (header n) = n" by auto
qed

section \<open>Messages\<close>

lemma rb_const [simp]:
  "rb_type (put rb bs) = rb_type rb" "rb_blk_size (put rb bs) = rb_blk_size rb"
  "rb_type (wrap_tail rb) = rb_type rb" "rb_blk_size (wrap_tail rb) = rb_blk_size rb"
  "rb_type (wrap_head rb) = rb_type rb" "rb_blk_size (wrap_head rb) = rb_blk_size rb"
  "rb_type (split_put rb bs) = rb_type rb" "rb_blk_size (split_put rb bs) = rb_blk_size rb"
  "rb_type (snd (get rb n)) = rb_type rb" "rb_blk_size (snd (get rb n)) = rb_blk_size rb"
  by (simp_all add: put_def wrap_tail_def wrap_head_def split_put_def get_def Let_def)

lemma split_get_const [simp]:
  "rb_type (snd (split_get c rb n)) = rb_type rb" "rb_blk_size (snd (split_get c rb n)) = rb_blk_size rb"
  by (simp_all add: split_get_def get_def Let_def)

lemma is_empty_iff: "rb_ok rb \<Longrightarrow> ringbuf_is_empty rb \<longleftrightarrow> content rb = []"
  using rb_okD(4) [of rb] by (auto simp: ringbuf_is_empty_def content_def used_def)

text \<open>A buffer of type DYN: a message is a header and its bytes.\<close>

definition fits :: "k_ringbuf_t \<Rightarrow> nat \<Rightarrow> bool" where
  "fits rb n \<longleftrightarrow> n \<le> RINGBUF_LEN_3BYTES_MAXVALUE \<and> COMPRESS_LEN n + n \<le> rb_freesize rb \<and> 2 \<le> rb_freesize rb"

lemma push_dyn:
  fixes data :: "nat \<Rightarrow> u8"
  assumes ok: "rb_ok rb" and ty: "rb_type rb = RINGBUF_TYPE_DYN" and f: "fits rb n"
  defines "rb' \<equiv> snd (ringbuf_push rb data n)"
  shows "fst (ringbuf_push rb data n) = RHINO_SUCCESS" and "rb_ok rb'"
    and "content rb' = content rb @ header n @ map data [0..<n]"
    and "rb_type rb' = RINGBUF_TYPE_DYN" and "rb_end rb' = rb_end rb" and "rb_blk_size rb' = rb_blk_size rb"
    and "rb_freesize rb' = rb_freesize rb - (COMPRESS_LEN n + n)"
proof -
  note f' = f [unfolded fits_def]
  note H = header_props [of n] and W = wrap_tail_ok [OF ok]
  let ?rb1 = "split_put (wrap_tail rb) (header n)"
  have c: "ringbuf_headlen_compress n = (COMPRESS_LEN n, header n)"
    using H(1) f' by (simp add: header_def prod_eq_iff)
  have "length (header n) \<le> rb_freesize (wrap_tail rb)" using H(2) f' W(5) by simp
  note P = split_put_ok [OF W(1) _ this, unfolded W(4), OF W(3)]
  note W2 = wrap_tail_ok [OF P(1)]
  have "length (map data [0..<n]) \<le> rb_freesize (wrap_tail ?rb1)" using H(2) f' P(4) W(5) W2(5) by simp linarith
  note Q = split_put_ok [OF W2(1) _ this, unfolded W2(4), OF W2(3)]
  have k: "COMPRESS_LEN n \<noteq> 0" "COMPRESS_LEN n \<le> RINGBUF_LEN_MAX_SIZE"
    using H(3) f' by (auto simp: RINGBUF_LEN_MAX_SIZE_def)
  have e: "ringbuf_push rb data n = (RHINO_SUCCESS, split_put (wrap_tail ?rb1) (map data [0..<n]))"
    using f' ty k by (simp add: ringbuf_push_def ringbuf_is_full_def c Let_def RINGBUF_TYPE_DYN_def RINGBUF_TYPE_FIX_def)
  show "fst (ringbuf_push rb data n) = RHINO_SUCCESS" by (simp add: e)
  show "rb_ok rb'" "content rb' = content rb @ header n @ map data [0..<n]" "rb_end rb' = rb_end rb"
    "rb_type rb' = RINGBUF_TYPE_DYN" "rb_blk_size rb' = rb_blk_size rb"
    using P Q W W2 ty by (simp_all add: rb'_def e)
  show "rb_freesize rb' = rb_freesize rb - (COMPRESS_LEN n + n)"
    using P(4) Q(4) W(5) W2(5) H(2) f' by (simp add: rb'_def e)
qed

lemma push_dyn_fails:
  assumes ty: "rb_type rb = RINGBUF_TYPE_DYN" and f: "\<not> fits rb n"
  shows "\<exists>err. err \<noteq> RHINO_SUCCESS \<and> ringbuf_push rb data n = (err, rb)"
proof -
  have "COMPRESS_LEN n = 0 \<or> COMPRESS_LEN n > RINGBUF_LEN_MAX_SIZE" if "\<not> n \<le> RINGBUF_LEN_3BYTES_MAXVALUE"
    using that by (simp add: COMPRESS_LEN_def RINGBUF_LEN_3BYTES_MAXVALUE_def RINGBUF_LEN_MAX_SIZE_def)
  moreover have "fst (ringbuf_headlen_compress n) = COMPRESS_LEN n"
    by (simp add: ringbuf_headlen_compress_def Let_def)
  ultimately show ?thesis
    using f ty
    by (auto simp: ringbuf_push_def ringbuf_is_full_def fits_def case_prod_beta RINGBUF_TYPE_DYN_def RINGBUF_TYPE_FIX_def)
qed

lemma pop_dyn:
  assumes ok: "rb_ok rb" and ty: "rb_type rb = RINGBUF_TYPE_DYN"
    and c: "content rb = header n @ m @ rest" "length m = n" "n \<le> RINGBUF_LEN_3BYTES_MAXVALUE"
  shows "\<exists>rb'. ringbuf_pop rb = (RHINO_SUCCESS, m, n, rb') \<and> rb_ok rb' \<and> content rb' = rest
    \<and> rb_type rb' = RINGBUF_TYPE_DYN \<and> rb_end rb' = rb_end rb \<and> rb_blk_size rb' = rb_blk_size rb"
proof -
  note H = header_props [OF c(3)] and W = wrap_head_ok [OF ok]
  let ?k = "COMPRESS_LEN n" and ?rb1 = "wrap_head rb"
  have k: "0 < ?k" using H(3) by auto
  have l: "used rb = ?k + n + length rest" using arg_cong [OF c(1), of length] H(2) c(2) by simp
  have "content ?rb1 ! 0 = rb_buf ?rb1 ! rb_head ?rb1"
    using W k l rb_okD(2) [OF W(1)] by (simp add: content_def ix_def)
  moreover have "content ?rb1 ! 0 = hd (header n)" using c(1) W(2) k H(2) by (cases "header n") auto
  ultimately have b: "header_len (rb_buf ?rb1 ! rb_head ?rb1) = ?k" using H(4) by simp
  have ne: "\<not> ringbuf_is_empty rb" using is_empty_iff [OF ok] c(1) H(2) k by auto
  let ?g = "split_get (rb_end ?rb1 - rb_head ?rb1 > 0) ?rb1 ?k"
  have "?k \<le> used ?rb1" using W(5) l by simp
  note G = split_get_ok [OF W(1) this, of "rb_end ?rb1 - rb_head ?rb1 > 0"]
  have g: "fst ?g = header n" "rb_ok (snd ?g)" "content (snd ?g) = m @ rest" "rb_end (snd ?g) = rb_end rb"
    using G W(2-4) c(1) H(2) by simp_all
  note W2 = wrap_head_ok [OF g(2)]
  let ?rb3 = "wrap_head (snd ?g)"
  let ?h = "split_get (rb_head ?rb3 > rb_tail ?rb3) ?rb3 n"
  have u3: "used ?rb3 = n + length rest" using arg_cong [OF g(3), of length] W2(5) c(2) by simp
  have fit: "rb_head ?rb3 + n \<le> rb_end ?rb3" if "\<not> rb_head ?rb3 > rb_tail ?rb3"
  proof -
    have "used ?rb3 < rb_end ?rb3" using u3 l k used_le [of rb] W2(4) g(4) by simp
    then show ?thesis using used_between [OF W2(1)] that u3 rb_okD(3) [OF W2(1)] by simp
  qed
  have "n \<le> used ?rb3" using u3 by simp
  note Q = split_get_ok [OF W2(1) this fit]
  have e: "ringbuf_pop rb = (RHINO_SUCCESS, fst ?h, n, snd ?h)"
    using ne ty b [unfolded header_len_def] k H(5) g(1)
    by (simp add: ringbuf_pop_def Let_def case_prod_beta RINGBUF_TYPE_DYN_def RINGBUF_TYPE_FIX_def)
  have "fst ?h = m" "content (snd ?h) = rest" using Q(1,3) W2(2) g(3) c(2) by simp_all
  then show ?thesis using Q(2,4) W2(4) g(4) ty by (simp add: e)
qed

text \<open>A buffer of type FIX: a message is one block, and the pointers stay on block boundaries.\<close>

definition fix_ok :: "k_ringbuf_t \<Rightarrow> bool" where
  "fix_ok rb \<longleftrightarrow> rb_ok rb \<and> rb_type rb = RINGBUF_TYPE_FIX \<and> 0 < rb_blk_size rb \<and> rb_blk_size rb dvd rb_end rb
     \<and> rb_blk_size rb dvd rb_head rb \<and> rb_blk_size rb dvd rb_tail rb"

lemma dvd_room: "d dvd a \<Longrightarrow> d dvd b \<Longrightarrow> a < b \<Longrightarrow> a + d \<le> (b :: nat)"
  by (metis dvd_diff_nat dvd_imp_le le_add_diff_inverse less_imp_le nat_add_left_cancel_le zero_less_diff)

lemma push_fix:
  fixes n :: nat and data :: "nat \<Rightarrow> u8"
  assumes ok: "fix_ok rb" and f: "rb_blk_size rb \<le> rb_freesize rb"
  defines "rb' \<equiv> snd (ringbuf_push rb data n)"
  shows "fst (ringbuf_push rb data n) = RHINO_SUCCESS" and "fix_ok rb'"
    and "content rb' = content rb @ map data [0..<rb_blk_size rb]"
    and "rb_end rb' = rb_end rb" and "rb_blk_size rb' = rb_blk_size rb"
    and "rb_freesize rb' = rb_freesize rb - rb_blk_size rb"
proof -
  have o: "rb_ok rb" and ty: "rb_type rb = RINGBUF_TYPE_FIX"
    and d: "rb_blk_size rb dvd rb_end rb" "rb_blk_size rb dvd rb_head rb" "rb_blk_size rb dvd rb_tail rb"
    and p: "0 < rb_blk_size rb"
    using ok by (simp_all add: fix_ok_def)
  note W = wrap_tail_ok [OF o]
  have dt: "rb_blk_size rb dvd rb_tail (wrap_tail rb)" using d by (simp add: wrap_tail_def)
  have h: "rb_head (wrap_tail rb) = rb_head rb" by (simp add: wrap_tail_def)
  let ?bs = "map data [0..<rb_blk_size rb]"
  have t: "rb_tail (wrap_tail rb) + length ?bs \<le> rb_end (wrap_tail rb)"
    using dvd_room [OF dt d(1) W(3)] W(4) by simp
  have "length ?bs \<le> rb_freesize (wrap_tail rb)" using f W(5) by simp
  note P = put_ok [OF W(1) t this]
  have e: "ringbuf_push rb data n = (RHINO_SUCCESS, put (wrap_tail rb) ?bs)"
    using ty f by (simp add: ringbuf_push_def ringbuf_is_full_def RINGBUF_TYPE_DYN_def RINGBUF_TYPE_FIX_def)
  show "fst (ringbuf_push rb data n) = RHINO_SUCCESS" by (simp add: e)
  show "content rb' = content rb @ ?bs" "rb_end rb' = rb_end rb" "rb_blk_size rb' = rb_blk_size rb"
    "rb_freesize rb' = rb_freesize rb - rb_blk_size rb"
    using P W by (simp_all add: rb'_def e)
  have "rb_head rb' = rb_head rb" "rb_tail rb' = rb_tail (wrap_tail rb) + rb_blk_size rb"
    using h by (simp_all add: rb'_def e) (simp_all add: put_def)
  then show "fix_ok rb'"
    using P W d dt ty p by (simp add: fix_ok_def rb'_def e)
qed

lemma push_fix_full:
  assumes "rb_type rb = RINGBUF_TYPE_FIX" and "rb_freesize rb < rb_blk_size rb"
  shows "ringbuf_push rb data n = (RHINO_RINGBUF_FULL, rb)"
  using assms by (simp add: ringbuf_push_def ringbuf_is_full_def)

lemma pop_fix:
  assumes ok: "fix_ok rb" and c: "content rb = m @ rest" "length m = rb_blk_size rb"
  shows "\<exists>rb'. ringbuf_pop rb = (RHINO_SUCCESS, m, rb_blk_size rb, rb') \<and> fix_ok rb' \<and> content rb' = rest
    \<and> rb_end rb' = rb_end rb \<and> rb_blk_size rb' = rb_blk_size rb"
proof -
  have o: "rb_ok rb" and ty: "rb_type rb = RINGBUF_TYPE_FIX"
    and d: "rb_blk_size rb dvd rb_end rb" "rb_blk_size rb dvd rb_head rb" "rb_blk_size rb dvd rb_tail rb"
    and p: "0 < rb_blk_size rb"
    using ok by (simp_all add: fix_ok_def)
  note W = wrap_head_ok [OF o]
  let ?g = "get (wrap_head rb) (rb_blk_size rb)"
  have dh: "rb_blk_size rb dvd rb_head (wrap_head rb)" using d by (simp add: wrap_head_def)
  have fit: "rb_head (wrap_head rb) + rb_blk_size rb \<le> rb_end (wrap_head rb)"
    using dvd_room [OF dh d(1) W(3)] W(4) by simp
  have "rb_blk_size rb \<le> used (wrap_head rb)" using W(5) arg_cong [OF c(1), of length] c(2) by simp
  note G = get_ok [OF W(1) fit this]
  have "\<not> ringbuf_is_empty rb" using is_empty_iff [OF o] c p by auto
  then have e: "ringbuf_pop rb = (RHINO_SUCCESS, fst ?g, rb_blk_size rb, snd ?g)"
    using ty by (simp add: ringbuf_pop_def case_prod_beta)
  have "rb_head (snd ?g) = rb_head (wrap_head rb) + rb_blk_size rb" "rb_tail (snd ?g) = rb_tail rb"
    by (simp_all add: get_def) (simp add: wrap_head_def)
  then have "fix_ok (snd ?g)" using G W d dh ty p by (simp add: fix_ok_def)
  then show ?thesis using G W c by (simp add: e)
qed

section \<open>The buffer as a channel\<close>

text \<open>Sending and receiving, with the failures as \<open>None\<close>.\<close>

definition rb_send :: "k_ringbuf_t \<Rightarrow> u8 list \<Rightarrow> k_ringbuf_t option" where
  "rb_send rb m =
     (case ringbuf_push rb (\<lambda>i. m ! i) (length m) of
        (RHINO_SUCCESS, rb) \<Rightarrow> Some rb
      | _ \<Rightarrow> None)"

definition rb_recv :: "k_ringbuf_t \<Rightarrow> (u8 list \<times> k_ringbuf_t) option" where
  "rb_recv rb =
     (case ringbuf_pop rb of
        (RHINO_SUCCESS, m, n, rb) \<Rightarrow> Some (m, rb)
      | _ \<Rightarrow> None)"

datatype (plugins only: code size) 'm chan_op = Send 'm | Recv

text \<open>A run of a channel: the messages that were accepted, those that were delivered, and the
  channel at the end. Operations that fail have no effect.\<close>

fun channel_run ::
  "('s \<Rightarrow> 'm \<Rightarrow> 's option) \<Rightarrow> ('s \<Rightarrow> ('m \<times> 's) option) \<Rightarrow> 's \<Rightarrow> 'm chan_op list
   \<Rightarrow> 'm list \<times> 'm list \<times> 's" where
  "channel_run send recv s [] = ([], [], s)"
| "channel_run send recv s (Send m # ops) =
     (case send s m of
        None \<Rightarrow> channel_run send recv s ops
      | Some s' \<Rightarrow> (case channel_run send recv s' ops of (sent, got, t) \<Rightarrow> (m # sent, got, t)))"
| "channel_run send recv s (Recv # ops) =
     (case recv s of
        None \<Rightarrow> channel_run send recv s ops
      | Some (m, s') \<Rightarrow> (case channel_run send recv s' ops of (sent, got, t) \<Rightarrow> (sent, m # got, t)))"

locale msg_channel =
  fixes rep :: "'s \<Rightarrow> 'm list \<Rightarrow> bool" and send :: "'s \<Rightarrow> 'm \<Rightarrow> 's option"
    and recv :: "'s \<Rightarrow> ('m \<times> 's) option" and msg_ok :: "'s \<Rightarrow> 'm \<Rightarrow> bool"
  assumes send_ok: "rep s ms \<Longrightarrow> msg_ok s m \<Longrightarrow> send s m = Some s' \<Longrightarrow> rep s' (ms @ [m])"
    and recv_ok: "rep s (m # ms) \<Longrightarrow> \<exists>s'. recv s = Some (m, s') \<and> rep s' ms"
    and recv_empty: "rep s [] \<Longrightarrow> recv s = None"
    and msg_ok_send: "send s m = Some s' \<Longrightarrow> rep s ms \<Longrightarrow> msg_ok s m \<Longrightarrow> msg_ok s' = msg_ok s"
    and msg_ok_recv: "recv s = Some (m, s') \<Longrightarrow> rep s ms \<Longrightarrow> msg_ok s' = msg_ok s"
begin

lemma recv_cases:
  assumes "rep s ms"
  obtains "recv s = None" "ms = []" | m ms' s' where "recv s = Some (m, s')" "ms = m # ms'" "rep s' ms'"
proof (cases ms)
  case Nil
  with assms have "rep s []" by simp
  from recv_empty [OF this] Nil show thesis by (rule that(1))
next
  case (Cons m ms')
  with assms have "rep s (m # ms')" by simp
  then obtain s' where "recv s = Some (m, s')" "rep s' ms'" using recv_ok by blast
  with Cons show thesis using that(2) by blast
qed

lemma history:
  assumes "rep s ms" and "\<And>m. Send m \<in> set ops \<Longrightarrow> msg_ok s m"
    and "channel_run send recv s ops = (sent, got, t)"
  shows "\<exists>ms'. rep t ms' \<and> ms @ sent = got @ ms'"
  using assms
proof (induction ops arbitrary: s ms sent got)
  case Nil
  then show ?case by auto
next
  case (Cons x ops)
  show ?case
  proof (cases x)
    case x: (Send m)
    show ?thesis
    proof (cases "send s m")
      case None
      then show ?thesis using Cons.IH [OF Cons.prems(1)] Cons.prems(2,3) x by simp
    next
      case (Some s')
      obtain sent' where r: "channel_run send recv s' ops = (sent', got, t)" "sent = m # sent'"
        using Cons.prems(3) x Some by (auto split: prod.splits)
      have m: "msg_ok s m" using Cons.prems(2) x by simp
      note e = msg_ok_send [OF Some Cons.prems(1) m]
      have "\<exists>ms'. rep t ms' \<and> (ms @ [m]) @ sent' = got @ ms'"
        by (rule Cons.IH [OF send_ok [OF Cons.prems(1) m Some] _ r(1)]) (simp add: e Cons.prems(2))
      then show ?thesis by (simp add: r(2))
    qed
  next
    case x: Recv
    from Cons.prems(1) show ?thesis
    proof (cases rule: recv_cases)
      case 1
      then show ?thesis using Cons.IH [OF Cons.prems(1)] Cons.prems(2,3) x by simp
    next
      case (2 m ms' s')
      obtain got' where r: "channel_run send recv s' ops = (sent, got', t)" "got = m # got'"
        using Cons.prems(3) x 2 by (auto split: prod.splits)
      note e = msg_ok_recv [OF 2(1) Cons.prems(1)]
      have "\<exists>ms''. rep t ms'' \<and> ms' @ sent = got' @ ms''"
        by (rule Cons.IH [OF 2(3) _ r(1)]) (simp add: e Cons.prems(2))
      then show ?thesis by (simp add: r(2) 2(2))
    qed
  qed
qed

end

text \<open>The messages in a buffer of type DYN.\<close>

definition dyn_rep :: "k_ringbuf_t \<Rightarrow> u8 list list \<Rightarrow> bool" where
  "dyn_rep rb ms \<longleftrightarrow> rb_ok rb \<and> rb_type rb = RINGBUF_TYPE_DYN
     \<and> content rb = concat (map (\<lambda>m. header (length m) @ m) ms)
     \<and> (\<forall>m\<in>set ms. length m \<le> RINGBUF_LEN_3BYTES_MAXVALUE)"

lemma map_nth_id: "map (\<lambda>i. m ! i) [0..<length m] = m"
  by (rule map_nth)

lemma rb_send_dyn:
  assumes "dyn_rep rb ms"
  shows "(fits rb (length m) \<longrightarrow> (\<exists>rb'. rb_send rb m = Some rb' \<and> dyn_rep rb' (ms @ [m])))
    \<and> (\<not> fits rb (length m) \<longrightarrow> rb_send rb m = None)"
proof (intro conjI impI)
  have o: "rb_ok rb" "rb_type rb = RINGBUF_TYPE_DYN" using assms by (simp_all add: dyn_rep_def)
  assume f: "fits rb (length m)"
  note P = push_dyn [OF o f, of "\<lambda>i. m ! i", unfolded map_nth_id]
  have "rb_send rb m = Some (snd (ringbuf_push rb (\<lambda>i. m ! i) (length m)))"
    using P(1) by (simp add: rb_send_def case_prod_beta)
  then show "\<exists>rb'. rb_send rb m = Some rb' \<and> dyn_rep rb' (ms @ [m])"
    using assms P f by (auto simp: dyn_rep_def fits_def)
next
  assume f: "\<not> fits rb (length m)"
  have "rb_type rb = RINGBUF_TYPE_DYN" using assms by (simp add: dyn_rep_def)
  from push_dyn_fails [OF this f, of "\<lambda>i. m ! i"] show "rb_send rb m = None"
    by (auto simp: rb_send_def split: kstat.splits)
qed

lemma rb_recv_empty: "rb_ok rb \<Longrightarrow> content rb = [] \<Longrightarrow> rb_recv rb = None"
  using is_empty_iff [of rb] by (simp add: rb_recv_def ringbuf_pop_def)

lemma rb_recv_dyn:
  assumes "dyn_rep rb (m # ms)"
  shows "\<exists>rb'. rb_recv rb = Some (m, rb') \<and> dyn_rep rb' ms"
proof -
  have "rb_ok rb" "rb_type rb = RINGBUF_TYPE_DYN" "length m \<le> RINGBUF_LEN_3BYTES_MAXVALUE"
    and "content rb = header (length m) @ m @ concat (map (\<lambda>m. header (length m) @ m) ms)"
    using assms by (simp_all add: dyn_rep_def)
  from pop_dyn [OF this(1,2,4) refl this(3)] show ?thesis
    using assms by (auto simp: rb_recv_def dyn_rep_def)
qed

interpretation dyn: msg_channel dyn_rep rb_send rb_recv "\<lambda>_ _. True"
proof
  fix rb rb' :: k_ringbuf_t and ms :: "u8 list list" and m :: "u8 list"
  show "dyn_rep rb ms \<Longrightarrow> True \<Longrightarrow> rb_send rb m = Some rb' \<Longrightarrow> dyn_rep rb' (ms @ [m])"
    using rb_send_dyn [of rb ms m] by (cases "fits rb (length m)") auto
  show "dyn_rep rb (m # ms) \<Longrightarrow> \<exists>rb'. rb_recv rb = Some (m, rb') \<and> dyn_rep rb' ms" by (rule rb_recv_dyn)
  show "dyn_rep rb [] \<Longrightarrow> rb_recv rb = None" by (simp add: dyn_rep_def rb_recv_empty)
qed simp_all

text \<open>The messages in a buffer of type FIX.\<close>

definition fix_rep :: "k_ringbuf_t \<Rightarrow> u8 list list \<Rightarrow> bool" where
  "fix_rep rb ms \<longleftrightarrow> fix_ok rb \<and> content rb = concat ms \<and> (\<forall>m\<in>set ms. length m = rb_blk_size rb)"

definition block_ok :: "k_ringbuf_t \<Rightarrow> u8 list \<Rightarrow> bool" where
  "block_ok rb m \<longleftrightarrow> length m = rb_blk_size rb"

lemma rb_send_fix:
  assumes "fix_rep rb ms" and "block_ok rb m"
  shows "(rb_blk_size rb \<le> rb_freesize rb \<longrightarrow>
      (\<exists>rb'. rb_send rb m = Some rb' \<and> fix_rep rb' (ms @ [m]) \<and> rb_blk_size rb' = rb_blk_size rb))
    \<and> (\<not> rb_blk_size rb \<le> rb_freesize rb \<longrightarrow> rb_send rb m = None)"
proof (intro conjI impI)
  have o: "fix_ok rb" using assms(1) by (simp add: fix_rep_def)
  have l: "rb_blk_size rb = length m" using assms(2) by (simp add: block_ok_def)
  assume f: "rb_blk_size rb \<le> rb_freesize rb"
  note P = push_fix [OF o f, of "\<lambda>i. m ! i" "length m", unfolded l map_nth_id]
  have "rb_send rb m = Some (snd (ringbuf_push rb (\<lambda>i. m ! i) (length m)))"
    using P(1) by (simp add: rb_send_def case_prod_beta)
  then show "\<exists>rb'. rb_send rb m = Some rb' \<and> fix_rep rb' (ms @ [m]) \<and> rb_blk_size rb' = rb_blk_size rb"
    using assms P l by (auto simp: fix_rep_def)
next
  have "rb_type rb = RINGBUF_TYPE_FIX" using assms(1) by (simp add: fix_rep_def fix_ok_def)
  then show "rb_send rb m = None" if "\<not> rb_blk_size rb \<le> rb_freesize rb"
    using push_fix_full [of rb] that by (simp add: rb_send_def)
qed

lemma rb_recv_fix:
  assumes "fix_rep rb (m # ms)"
  shows "\<exists>rb'. rb_recv rb = Some (m, rb') \<and> fix_rep rb' ms \<and> rb_blk_size rb' = rb_blk_size rb"
proof -
  have "fix_ok rb" "content rb = m @ concat ms" "length m = rb_blk_size rb"
    using assms by (simp_all add: fix_rep_def)
  from pop_fix [OF this] show ?thesis using assms by (auto simp: rb_recv_def fix_rep_def)
qed

lemma rb_recv_fix_empty: "fix_rep rb [] \<Longrightarrow> rb_recv rb = None"
  by (simp add: fix_rep_def fix_ok_def rb_recv_empty)

interpretation fixed: msg_channel fix_rep rb_send rb_recv block_ok
proof
  fix rb rb' :: k_ringbuf_t and ms :: "u8 list list" and m :: "u8 list"
  show "fix_rep rb ms \<Longrightarrow> block_ok rb m \<Longrightarrow> rb_send rb m = Some rb' \<Longrightarrow> fix_rep rb' (ms @ [m])"
    using rb_send_fix [of rb ms m] by (cases "rb_blk_size rb \<le> rb_freesize rb") auto
  show "fix_rep rb (m # ms) \<Longrightarrow> \<exists>rb'. rb_recv rb = Some (m, rb') \<and> fix_rep rb' ms"
    using rb_recv_fix [of rb m ms] by blast
  show "fix_rep rb [] \<Longrightarrow> rb_recv rb = None" by (rule rb_recv_fix_empty)
  show "rb_send rb m = Some rb' \<Longrightarrow> fix_rep rb ms \<Longrightarrow> block_ok rb m \<Longrightarrow> block_ok rb' = block_ok rb"
    using rb_send_fix [of rb ms m] by (cases "rb_blk_size rb \<le> rb_freesize rb") (auto simp: block_ok_def fun_eq_iff)
  show "rb_recv rb = Some (m, rb') \<Longrightarrow> fix_rep rb ms \<Longrightarrow> block_ok rb' = block_ok rb"
    using rb_recv_fix [of rb "hd ms" "tl ms"] rb_recv_fix_empty [of rb]
    by (cases ms) (auto simp: block_ok_def fun_eq_iff)
qed

section \<open>A fresh buffer\<close>

lemma init_ok:
  assumes "buf \<noteq> []"
  shows "rb_ok (ringbuf_init buf ty n)" and "content (ringbuf_init buf ty n) = []"
    and "rb_end (ringbuf_init buf ty n) = length buf" and "rb_freesize (ringbuf_init buf ty n) = length buf"
    and "rb_type (ringbuf_init buf ty n) = ty" and "rb_blk_size (ringbuf_init buf ty n) = n"
    and "rb_head (ringbuf_init buf ty n) = 0" and "rb_tail (ringbuf_init buf ty n) = 0"
  using assms
  by (simp_all add: rb_ok_def content_def used_def ix_def ringbuf_init_def ringbuf_reset_def rb_end_def)

lemma reset_ok:
  assumes "0 < rb_end rb"
  shows "rb_ok (ringbuf_reset rb)" and "content (ringbuf_reset rb) = []"
    and "rb_end (ringbuf_reset rb) = rb_end rb" and "rb_freesize (ringbuf_reset rb) = rb_end rb"
    and "rb_type (ringbuf_reset rb) = rb_type rb" and "rb_blk_size (ringbuf_reset rb) = rb_blk_size rb"
    and "rb_head (ringbuf_reset rb) = 0" and "rb_tail (ringbuf_reset rb) = 0"
  using assms by (simp_all add: rb_ok_def content_def used_def ix_def ringbuf_reset_def rb_end_def)

lemma dyn_rep_init: "buf \<noteq> [] \<Longrightarrow> dyn_rep (ringbuf_init buf RINGBUF_TYPE_DYN n) []"
  by (simp add: dyn_rep_def init_ok)

lemma fix_rep_init:
  "buf \<noteq> [] \<Longrightarrow> 0 < n \<Longrightarrow> n dvd length buf \<Longrightarrow> fix_rep (ringbuf_init buf RINGBUF_TYPE_FIX n) []"
  by (simp add: fix_rep_def fix_ok_def init_ok)

section \<open>The properties of the ring buffer\<close>

text \<open>C27: A ring buffer of type DYN is a lossless first-in first-out channel for messages of any
  size: whatever sequence of pushes and pops is run on it, what has been popped, followed by what
  is still in the buffer, is what was pushed, message by message and byte by byte; when a pop
  finds the buffer empty, everything pushed has been popped.\<close>

theorem ringbuf_dyn_fifo:
  assumes "buf \<noteq> []"
    and "channel_run rb_send rb_recv (ringbuf_init buf RINGBUF_TYPE_DYN n) ops = (sent, got, rb)"
  shows "\<exists>ms. dyn_rep rb ms \<and> sent = got @ ms \<and> (rb_recv rb = None \<longrightarrow> sent = got)"
proof -
  obtain ms where ms: "dyn_rep rb ms" "[] @ sent = got @ ms"
    using dyn.history [OF dyn_rep_init [OF assms(1)] _ assms(2)] by blast
  have "rb_recv rb = None \<longrightarrow> ms = []"
    using ms(1) rb_recv_dyn [of rb "hd ms" "tl ms"] by (cases ms) auto
  then show ?thesis using ms by auto
qed

text \<open>C28: The same for a ring buffer of type FIX, as long as every message has the size of a block.\<close>

theorem ringbuf_fix_fifo:
  assumes "buf \<noteq> []" and "0 < n" and "n dvd length buf" and "\<And>m. Send m \<in> set ops \<Longrightarrow> length m = n"
    and "channel_run rb_send rb_recv (ringbuf_init buf RINGBUF_TYPE_FIX n) ops = (sent, got, rb)"
  shows "\<exists>ms. fix_rep rb ms \<and> sent = got @ ms \<and> (rb_recv rb = None \<longrightarrow> sent = got)"
proof -
  obtain ms where ms: "fix_rep rb ms" "[] @ sent = got @ ms"
    using fixed.history [OF fix_rep_init [OF assms(1-3)] _ assms(5)] assms(4)
    by (auto simp: block_ok_def init_ok [OF assms(1)])
  have "rb_recv rb = None \<longrightarrow> ms = []"
    using ms(1) rb_recv_fix [of rb "hd ms" "tl ms"] by (cases ms) auto
  then show ?thesis using ms by auto
qed

text \<open>The length header of a message round-trips: its first byte tells how many bytes it has, and
  decoding these gives the length back, for all lengths up to the maximum.\<close>

theorem headlen_roundtrip:
  assumes "n \<le> RINGBUF_LEN_3BYTES_MAXVALUE"
  shows "case ringbuf_headlen_compress n of (k, h) \<Rightarrow>
    length h = k \<and> header_len (hd h) = k \<and> k \<le> RINGBUF_LEN_MAX_SIZE \<and> ringbuf_headlen_decompress k h = n"
  using header_props [OF assms]
  by (auto simp: header_def case_prod_beta RINGBUF_LEN_MAX_SIZE_def)

text \<open>C40: A push on a buffer of type DYN succeeds exactly when header and message fit in the free
  bytes (and at least two bytes are free); otherwise it reports an error and changes nothing.\<close>

theorem ringbuf_push_bounds:
  assumes "dyn_rep rb ms"
  shows "(fst (ringbuf_push rb data n) = RHINO_SUCCESS \<longleftrightarrow>
      n \<le> RINGBUF_LEN_3BYTES_MAXVALUE \<and> COMPRESS_LEN n + n \<le> rb_freesize rb \<and> 2 \<le> rb_freesize rb)
    \<and> (fst (ringbuf_push rb data n) \<noteq> RHINO_SUCCESS \<longrightarrow> snd (ringbuf_push rb data n) = rb)"
proof -
  have o: "rb_ok rb" "rb_type rb = RINGBUF_TYPE_DYN" using assms by (simp_all add: dyn_rep_def)
  show ?thesis
    using push_dyn(1) [OF o, of n data] push_dyn_fails [OF o(2), of n data]
    by (cases "fits rb n") (auto simp: fits_def)
qed

text \<open>Instances: a buffer of eight bytes that wraps around.\<close>

definition ex_ops :: "u8 list chan_op list" where
  "ex_ops = [Send [1, 2, 3], Send [4, 5], Recv, Send [6, 7, 8], Send [9], Recv, Recv]"

lemma ex_ops_dyn:
  "channel_run rb_send rb_recv (ringbuf_init (replicate 8 0) RINGBUF_TYPE_DYN 0) ex_ops =
    ([[1, 2, 3], [4, 5], [6, 7, 8]], [[1, 2, 3], [4, 5], [6, 7, 8]],
     \<lparr>rb_buf = [6, 7, 8, 3, 2, 4, 5, 3], rb_head = 3, rb_tail = 3, rb_freesize = 8,
      rb_type = RINGBUF_TYPE_DYN, rb_blk_size = 0\<rparr>)"
  by code_simp

lemma ex_ops_fix:
  "channel_run rb_send rb_recv (ringbuf_init (replicate 6 0) RINGBUF_TYPE_FIX 3)
     [Send [1, 2, 3], Recv, Send [4, 5, 6], Send [7, 8, 9], Recv] =
    ([[1, 2, 3], [4, 5, 6], [7, 8, 9]], [[1, 2, 3], [4, 5, 6]],
     \<lparr>rb_buf = [7, 8, 9, 4, 5, 6], rb_head = 6, rb_tail = 3, rb_freesize = 3,
      rb_type = RINGBUF_TYPE_FIX, rb_blk_size = 3\<rparr>)"
  by code_simp

theorem ringbuf_dyn_fifo_witness:
  "\<exists>ms. dyn_rep \<lparr>rb_buf = [6, 7, 8, 3, 2, 4, 5, 3], rb_head = 3, rb_tail = 3, rb_freesize = 8,
      rb_type = RINGBUF_TYPE_DYN, rb_blk_size = 0\<rparr> ms
    \<and> [[1, 2, 3], [4, 5], [6, 7, 8]] = [[1, 2, 3], [4, 5], [6, 7, 8]] @ ms"
  using ringbuf_dyn_fifo [OF _ ex_ops_dyn] by auto

theorem ringbuf_fix_fifo_witness:
  "\<exists>ms. fix_rep \<lparr>rb_buf = [7, 8, 9, 4, 5, 6], rb_head = 6, rb_tail = 3, rb_freesize = 3,
      rb_type = RINGBUF_TYPE_FIX, rb_blk_size = 3\<rparr> ms
    \<and> [[1, 2, 3], [4, 5, 6], [7, 8, 9]] = [[1, 2, 3], [4, 5, 6]] @ ms"
proof -
  have "replicate 6 (0 :: u8) \<noteq> []" "(0 :: nat) < 3" "3 dvd length (replicate 6 (0 :: u8))" by simp_all
  note F = ringbuf_fix_fifo [OF this _ ex_ops_fix]
  have "length m = 3" if "Send m \<in> set [Send [1, 2, 3], Recv, Send [4, 5, 6], Send [7, 8, 9], Recv]"
    for m :: "u8 list" using that by auto
  from F [OF this] show ?thesis by blast
qed

theorem headlen_roundtrip_witness:
  "ringbuf_headlen_compress 300 = (2, [0x81, 0x2C]) \<and> ringbuf_headlen_decompress 2 [0x81, 0x2C] = 300"
proof -
  have e: "ringbuf_headlen_compress 300 = (2, [0x81, 0x2C])" by code_simp
  then show ?thesis
    using headlen_roundtrip [of 300] by (simp add: RINGBUF_LEN_3BYTES_MAXVALUE_def)
qed

theorem ringbuf_push_bounds_witness:
  "fst (ringbuf_push (ringbuf_init (replicate 8 0) RINGBUF_TYPE_DYN 0) (\<lambda>_. 1) 7) = RHINO_SUCCESS
   \<and> fst (ringbuf_push (ringbuf_init (replicate 8 0) RINGBUF_TYPE_DYN 0) (\<lambda>_. 1) 8) \<noteq> RHINO_SUCCESS"
proof -
  have "replicate 8 (0 :: u8) \<noteq> []" by simp
  note i = dyn_rep_init [OF this, of 0] init_ok(4) [OF this, of RINGBUF_TYPE_DYN 0]
  show ?thesis
    using ringbuf_push_bounds [OF i(1), of "\<lambda>_. 1" 7] ringbuf_push_bounds [OF i(1), of "\<lambda>_. 1" 8]
    by (simp add: i(2) RINGBUF_LEN_3BYTES_MAXVALUE_def COMPRESS_LEN_def)
qed

end
