(* ===== verification/Messages.thy ===== *)
theory Messages
  imports Wait_Object Ringbuf_Fifo
begin

text \<open>
  What message queues and buffer queues share: the bytes at an address, pointers as bytes, and
  waking a task after a message has been put into its control block.
\<close>

section \<open>Bytes\<close>

text \<open>The byte at offset \<open>i\<close> of the address \<open>p\<close>.\<close>

definition mem_byte :: "kstate \<Rightarrow> ptr \<Rightarrow> nat \<Rightarrow> u8" where
  "mem_byte s p i = (if i < length (bmem s p) then bmem s p ! i else 0)"

text \<open>The \<open>n\<close> bytes at the address \<open>p\<close>.\<close>

definition mem_at :: "kstate \<Rightarrow> ptr \<Rightarrow> nat \<Rightarrow> u8 list" where
  "mem_at s p n = map (mem_byte s p) [0..<n]"

lemma length_mem_at [simp]: "length (mem_at s p n) = n"
  by (simp add: mem_at_def)

lemma mem_at_frame [simp]:
  "mem_at (blks_update f s) p n = mem_at s p n" "mem_at (queues_update g s) p n = mem_at s p n"
  "mem_at (bufqs_update h s) p n = mem_at s p n" "mem_at (g_kobj_list_update k s) p n = mem_at s p n"
  by (simp_all add: mem_at_def mem_byte_def)

text \<open>A pointer in memory: four bytes, the least significant one first.\<close>

definition ptr_bytes :: "ptr \<Rightarrow> u8 list" where
  "ptr_bytes p = map (\<lambda>i. word_of_nat (unat p div 256 ^ i)) [0..<4]"

definition bytes_ptr :: "u8 list \<Rightarrow> ptr" where
  "bytes_ptr bs = word_of_nat (foldr (\<lambda>b n. unat b + 256 * n) bs 0)"

lemma length_ptr_bytes [simp]: "length (ptr_bytes p) = 4"
  by (simp add: ptr_bytes_def)

lemma bytes_ptr_ptr_bytes [simp]: "bytes_ptr (ptr_bytes p) = p"
proof -
  have u: "[0..<4] = [0, 1, 2, 3::nat]" by (simp add: upt_rec)
  let ?n = "unat p"
  have "?n = ?n mod 256 + (256 * (?n div 256 mod 256) + (65536 * (?n div 65536 mod 256) + 16777216 * (?n div 16777216)))"
    using mod_mult2_eq [of ?n 256 256] mod_mult2_eq [of ?n 65536 256] div_mult_mod_eq [of ?n 16777216]
    by simp
  moreover have "?n div 16777216 mod 256 = ?n div 16777216"
    using unsigned_less [where 'a = nat, of p] by (simp add: less_mult_imp_div_less)
  moreover have "unat (word_of_nat k :: u8) = k mod 256" for k by (simp add: unat_of_nat)
  ultimately have "foldr (\<lambda>b n. unat b + 256 * n) (ptr_bytes p) 0 = ?n"
    by (simp only: ptr_bytes_def u list.map foldr.simps comp_def id_def) simp
  then show ?thesis by (simp add: bytes_ptr_def)
qed

section \<open>Writing into a control block that waits\<close>

lemma obj_wake_with_ok:
  assumes ok: "kern_ok s" and p: "t \<in> set (blk_list (blks s ob))"
    and ty: "obj_type (blks s ob) \<noteq> RHINO_MUTEX_OBJ_TYPE"
    and x: "prio x = prio (tasks s t)" "b_prio x = b_prio (tasks s t)"
    "mutex_list x = mutex_list (tasks s t)" "task_state x = task_state (tasks s t)"
    "tick_head x = tick_head (tasks s t)" "blk_obj x = blk_obj (tasks s t)"
  shows "kern_ok (core_sched (wake_task b (s\<lparr>tasks := (tasks s)(t := x)\<rparr>) t))"
proof (rule obj_wake_ok)
  show "kern_ok (s\<lparr>tasks := (tasks s)(t := x)\<rparr>)" by (rule kern_ok_retask [OF ok]) (use x in simp_all)
qed (use p ty in simp_all)

context wait_object
begin

lemma retask:
  assumes "no_lost ty avail s" and "request x = request (tasks s t)"
  shows "no_lost ty avail (s\<lparr>tasks := (tasks s)(t := x)\<rparr>)"
proof (rule shrink [OF assms(1)])
  show "list_frame s (s\<lparr>tasks := (tasks s)(t := x)\<rparr>)"
    unfolding list_frame_def
    by (rule exI [of _ "g_ready_queue s"], rule exI [of _ "blks s"], rule exI [of _ "g_tick_head s"],
        rule exI [of _ "(tasks s)(t := x)"]) simp
qed (use assms(2) in auto)

text \<open>An operation that touches other data than \<open>avail\<close> looks at.\<close>

lemma no_lost_cong:
  assumes "no_lost ty avail s" and "blks s' = blks s"
    and "\<And>o' t. avail s' o' t = avail s o' t"
  shows "no_lost ty avail s'"
  using assms by (simp add: no_lost_def)

end

end
