(* ===== verification/Queue.thy ===== *)
theory Queue
  imports Messages
begin

text \<open>
  Message queues: \<^verbatim>\<open>kernel/rhino/core/k_queue.c\<close>. A queue holds pointers, in a ring buffer of type
  FIX with blocks of four bytes.

  A queue refines a bounded list of pointers (\<open>queue_rep\<close>): sending appends, receiving takes the
  first, and a message sent while tasks wait goes to the most urgent of them. No task waits for a
  queue that has messages (\<open>queue_inv\<close>), and the kernel invariant is kept.
\<close>

section \<open>The operations\<close>

definition WAKE_ONE_TASK :: u8 where "WAKE_ONE_TASK = 0"
definition WAKE_ALL_TASK :: u8 where "WAKE_ALL_TASK = 1"

text \<open>The size of a pointer, \<^verbatim>\<open>sizeof(void *)\<close>, on the 32-bit machine.\<close>

definition sizeof_ptr :: nat where "sizeof_ptr = 4"

definition task_msg_recv :: "kstate \<Rightarrow> ptr \<Rightarrow> ptr \<Rightarrow> kstate" where
  "task_msg_recv s task m = (let s = set_task task (\<lambda>t. t\<lparr>msg := m\<rparr>) s in pend_task_wakeup s task)"

definition queue_create ::
  "kstate \<Rightarrow> ptr \<Rightarrow> ptr \<Rightarrow> ptr \<Rightarrow> nat \<Rightarrow> alloc_flag_t \<Rightarrow> kstat \<times> kstate" where
  "queue_create s queue name start msg_num mm_alloc_flag =
     (if queue = NULL then (RHINO_NULL_PTR, s)
      else if start = NULL then (RHINO_NULL_PTR, s)
      else if name = NULL then (RHINO_NULL_PTR, s)
      else if msg_num = 0 then (RHINO_INV_PARAM, s)
      else
        let s = set_blk queue (\<lambda>b. b\<lparr>blk_list := []\<rparr>) s;
            s = set_blk queue (\<lambda>b. b\<lparr>blk_policy := BLK_POLICY_PRI\<rparr>) s;
            s = set_queue queue (\<lambda>q. q\<lparr>q_start := start\<rparr>) s;
            s = set_queue queue (\<lambda>q. q\<lparr>q_ringbuf :=
                  ringbuf_init (mem_at s start (msg_num * sizeof_ptr mod 2 ^ 32)) RINGBUF_TYPE_FIX sizeof_ptr\<rparr>) s;
            s = set_queue queue (\<lambda>q. q\<lparr>q_size := msg_num, q_cur_num := 0, q_peak_num := 0,
                  queue_mm_alloc_flag := mm_alloc_flag\<rparr>) s;
            s = g_kobj_list_update (kobj_queue_head_update (\<lambda>l. l @ [queue])) s;
            s = set_blk queue (\<lambda>b. b\<lparr>obj_type := RHINO_QUEUE_OBJ_TYPE\<rparr>) s
        in (RHINO_SUCCESS, s))"

definition krhino_queue_create :: "kstate \<Rightarrow> ptr \<Rightarrow> ptr \<Rightarrow> ptr \<Rightarrow> nat \<Rightarrow> kstat \<times> kstate" where
  "krhino_queue_create s queue name start msg_num =
     queue_create s queue name start msg_num K_OBJ_STATIC_ALLOC"

definition krhino_queue_del :: "kstate \<Rightarrow> ptr \<Rightarrow> kstat \<times> kstate" where
  "krhino_queue_del s queue =
     (if queue = NULL then (RHINO_NULL_PTR, s)
      else if g_intrpt_nested_level s > 0 then (RHINO_NOT_CALLED_BY_INTRPT, s)
      else if obj_type (blks s queue) \<noteq> RHINO_QUEUE_OBJ_TYPE then (RHINO_KOBJ_TYPE_ERR, s)
      else if queue_mm_alloc_flag (queues s queue) \<noteq> K_OBJ_STATIC_ALLOC then (RHINO_KOBJ_DEL_ERR, s)
      else
        let s = set_blk queue (\<lambda>b. b\<lparr>obj_type := RHINO_OBJ_TYPE_NONE\<rparr>) s;
            s = pend_rm_all s queue;
            s = g_kobj_list_update (kobj_queue_head_update (removeAll queue)) s;
            s = set_queue queue (\<lambda>q. q\<lparr>q_ringbuf := ringbuf_reset (q_ringbuf q)\<rparr>) s
        in (RHINO_SUCCESS, core_sched s))"

text \<open>\<^verbatim>\<open>while\<close> tasks wait, the first of them receives the message: one turn for each of them.\<close>

fun msg_wake_loop :: "nat \<Rightarrow> kstate \<Rightarrow> ptr \<Rightarrow> ptr \<Rightarrow> kstate" where
  "msg_wake_loop 0 s q m = s"
| "msg_wake_loop (Suc n) s q m =
     (if blk_list (blks s q) = [] then s
      else msg_wake_loop n (task_msg_recv s (first (blk_list (blks s q))) m) q m)"

definition msg_send :: "kstate \<Rightarrow> ptr \<Rightarrow> ptr \<Rightarrow> u8 \<Rightarrow> kstat \<times> kstate" where
  "msg_send s p_q p_void opt_wake_all =
     (if p_q = NULL then (RHINO_NULL_PTR, s)
      else if obj_type (blks s p_q) \<noteq> RHINO_QUEUE_OBJ_TYPE then (RHINO_KOBJ_TYPE_ERR, s)
      else if q_cur_num (queues s p_q) \<ge> q_size (queues s p_q) then (RHINO_QUEUE_FULL, s)
      else if blk_list (blks s p_q) = [] then
        let s = set_queue p_q (\<lambda>q. q\<lparr>q_cur_num := q_cur_num q + 1\<rparr>) s;
            s = (if q_cur_num (queues s p_q) > q_peak_num (queues s p_q)
                 then set_queue p_q (\<lambda>q. q\<lparr>q_peak_num := q_cur_num q\<rparr>) s else s);
            s = set_queue p_q (\<lambda>q. q\<lparr>q_ringbuf :=
                  snd (ringbuf_push (q_ringbuf q) (\<lambda>i. ptr_bytes p_void ! i) sizeof_ptr)\<rparr>) s
        in (RHINO_SUCCESS, s)
      else
        let s = (if opt_wake_all \<noteq> 0 then msg_wake_loop (length (blk_list (blks s p_q))) s p_q p_void
                 else task_msg_recv s (first (blk_list (blks s p_q))) p_void)
        in (RHINO_SUCCESS, core_sched s))"

definition krhino_queue_back_send :: "kstate \<Rightarrow> ptr \<Rightarrow> ptr \<Rightarrow> kstat \<times> kstate" where
  "krhino_queue_back_send s queue m = msg_send s queue m WAKE_ONE_TASK"

definition krhino_queue_all_send :: "kstate \<Rightarrow> ptr \<Rightarrow> ptr \<Rightarrow> kstat \<times> kstate" where
  "krhino_queue_all_send s queue m = msg_send s queue m WAKE_ALL_TASK"

definition krhino_queue_recv :: "kstate \<Rightarrow> ptr \<Rightarrow> tick \<Rightarrow> ptr \<Rightarrow> kstat option \<times> kstate" where
  "krhino_queue_recv s queue ticks pmsg =
     (if queue = NULL then (Some RHINO_NULL_PTR, s)
      else if pmsg = NULL then (Some RHINO_NULL_PTR, s)
      else if g_intrpt_nested_level s > 0 \<and> ticks \<noteq> RHINO_NO_WAIT then (Some RHINO_NOT_CALLED_BY_INTRPT, s)
      else if obj_type (blks s queue) \<noteq> RHINO_QUEUE_OBJ_TYPE then (Some RHINO_KOBJ_TYPE_ERR, s)
      else if q_cur_num (queues s queue) > 0 then
        let s = (case ringbuf_pop (q_ringbuf (queues s queue)) of
                   (RHINO_SUCCESS, bs, n, rb) \<Rightarrow>
                     set_queue queue (\<lambda>q. q\<lparr>q_ringbuf := rb\<rparr>)
                       (umem_update (\<lambda>m. m(pmsg := bytes_ptr bs)) s)
                 | _ \<Rightarrow> s);
            s = set_queue queue (\<lambda>q. q\<lparr>q_cur_num := q_cur_num q - 1\<rparr>) s
        in (Some RHINO_SUCCESS, s)
      else if ticks = RHINO_NO_WAIT then
        (Some RHINO_NO_PEND_WAIT, umem_update (\<lambda>m. m(pmsg := NULL)) s)
      else if g_sched_lock s > 0 then
        (Some RHINO_SCHED_DISABLE, umem_update (\<lambda>m. m(pmsg := NULL)) s)
      else
        let s = pend_to_blk_obj s queue (g_active_task s) ticks
        in (None, core_sched s))"

text \<open>After the task has been switched back in.\<close>

definition krhino_queue_recv_resume :: "kstate \<Rightarrow> ptr \<Rightarrow> kstat \<times> kstate" where
  "krhino_queue_recv_resume s pmsg =
     (let (ret, s) = pend_state_end_proc s (g_active_task s);
          s = (case ret of
                 RHINO_SUCCESS \<Rightarrow> umem_update (\<lambda>m. m(pmsg := msg (tasks s (g_active_task s)))) s
               | _ \<Rightarrow> umem_update (\<lambda>m. m(pmsg := NULL)) s)
      in (ret, s))"

definition krhino_queue_is_full :: "kstate \<Rightarrow> ptr \<Rightarrow> kstat" where
  "krhino_queue_is_full s queue =
     (if queue = NULL then RHINO_NULL_PTR
      else if obj_type (blks s queue) \<noteq> RHINO_QUEUE_OBJ_TYPE then RHINO_KOBJ_TYPE_ERR
      else if q_cur_num (queues s queue) \<ge> q_size (queues s queue) then RHINO_QUEUE_FULL
      else RHINO_QUEUE_NOT_FULL)"

definition krhino_queue_flush :: "kstate \<Rightarrow> ptr \<Rightarrow> kstat \<times> kstate" where
  "krhino_queue_flush s queue =
     (if queue = NULL then (RHINO_NULL_PTR, s)
      else if g_intrpt_nested_level s > 0 then (RHINO_NOT_CALLED_BY_INTRPT, s)
      else if obj_type (blks s queue) \<noteq> RHINO_QUEUE_OBJ_TYPE then (RHINO_KOBJ_TYPE_ERR, s)
      else
        let s = set_queue queue (\<lambda>q. q\<lparr>q_cur_num := 0\<rparr>) s;
            s = set_queue queue (\<lambda>q. q\<lparr>q_ringbuf := ringbuf_reset (q_ringbuf q)\<rparr>) s
        in (RHINO_SUCCESS, s))"

record msg_info_t =
  info_peak_num :: nat
  info_cur_num :: nat
  info_queue_start :: ptr
  info_size :: nat
  pend_entry :: "ptr option"

text \<open>
  The structure \<^verbatim>\<open>info\<close> points at is returned, \<open>None\<close> where the code does not write it;
  \<^verbatim>\<open>pend_entry\<close> is the first waiting task, \<open>None\<close> for the head of an empty list.
\<close>

definition krhino_queue_info_get :: "kstate \<Rightarrow> ptr \<Rightarrow> ptr \<Rightarrow> kstat \<times> msg_info_t option" where
  "krhino_queue_info_get s queue info =
     (if queue = NULL then (RHINO_NULL_PTR, None)
      else if info = NULL then (RHINO_NULL_PTR, None)
      else if obj_type (blks s queue) \<noteq> RHINO_QUEUE_OBJ_TYPE then (RHINO_KOBJ_TYPE_ERR, None)
      else (RHINO_SUCCESS,
        Some \<lparr>info_peak_num = q_peak_num (queues s queue), info_cur_num = q_cur_num (queues s queue),
          info_queue_start = q_start (queues s queue), info_size = q_size (queues s queue),
          pend_entry = (case blk_list (blks s queue) of [] \<Rightarrow> None | t # _ \<Rightarrow> Some t)\<rparr>))"

section \<open>Waking with a message\<close>

definition with_msg :: "ptr \<Rightarrow> ktask_t \<Rightarrow> ktask_t" where
  "with_msg m x = woken BLK_FINISH (x\<lparr>msg := m\<rparr>)"

lemma with_msg_simps [simp]:
  "prio (with_msg m x) = prio x" "request (with_msg m x) = request x" "msg (with_msg m x) = m"
  "pending (with_msg m x) = False" "rdy (with_msg m x) = (task_state x = K_PEND)"
  "blk_state (with_msg m x) = BLK_FINISH"
  by (simp_all add: with_msg_def)

lemma task_msg_recv_eq:
  assumes "pending (tasks s t)"
  shows "task_msg_recv s t m = wake_task BLK_FINISH (s\<lparr>tasks := (tasks s)(t := (tasks s t)\<lparr>msg := m\<rparr>)\<rparr>) t"
proof -
  let ?s1 = "s\<lparr>tasks := (tasks s)(t := (tasks s t)\<lparr>msg := m\<rparr>)\<rparr>"
  have e: "set_task t (\<lambda>t. t\<lparr>msg := m\<rparr>) s = ?s1" by simp
  have "pending (tasks ?s1 t)" using assms by (simp add: pending_def)
  then show ?thesis unfolding task_msg_recv_def Let_def e by (rule pend_task_wakeup_eq)
qed

lemma task_msg_recv_ok:
  fixes m :: ptr
  assumes ok: "pi_ok s" and p: "pending (tasks s t)"
    and ty: "obj_type (blks s (blk_obj (tasks s t))) \<noteq> RHINO_MUTEX_OBJ_TYPE"
  defines "s' \<equiv> task_msg_recv s t m"
  shows "pi_ok s'" and "list_frame s s'"
    and "tasks s' u = (if u = t then with_msg m (tasks s t) else tasks s u)"
    and "blk_list (blks s' o') = removeAll t (blk_list (blks s o'))"
    and "obj_type (blks s' o') = obj_type (blks s o')"
proof -
  let ?x = "(tasks s t)\<lparr>msg := m\<rparr>"
  let ?s1 = "s\<lparr>tasks := (tasks s)(t := ?x)\<rparr>"
  note eq = task_msg_recv_eq [OF p, of m, folded s'_def]
  have "pi_ok ?s1" by (rule pi_ok_task_same [OF ok]) simp_all
  moreover have "pending (tasks ?s1 t)" "obj_type (blks ?s1 (blk_obj (tasks ?s1 t))) \<noteq> RHINO_MUTEX_OBJ_TYPE"
    using p ty by (simp_all add: pending_def)
  ultimately show "pi_ok s'" unfolding eq by (rule wake_pi_ok_not_mutex)
  have "list_frame s ?s1"
    unfolding list_frame_def
    by (rule exI [of _ "g_ready_queue s"], rule exI [of _ "blks s"], rule exI [of _ "g_tick_head s"],
        rule exI [of _ "(tasks s)(t := ?x)"]) simp
  then show "list_frame s s'" unfolding eq by (rule list_frame_trans [OF _ list_frame_wake])
  show "tasks s' u = (if u = t then with_msg m (tasks s t) else tasks s u)"
    "blk_list (blks s' o') = removeAll t (blk_list (blks s o'))" "obj_type (blks s' o') = obj_type (blks s o')"
    by (simp_all add: eq with_msg_def)
qed

lemma msg_wake_loop_ok:
  fixes m :: ptr
  assumes "pi_ok s" and "obj_type (blks s q) \<noteq> RHINO_MUTEX_OBJ_TYPE"
    and "length (blk_list (blks s q)) = n"
  shows "pi_ok (msg_wake_loop n s q m) \<and> list_frame s (msg_wake_loop n s q m)
    \<and> (\<forall>t. tasks (msg_wake_loop n s q m) t
         = (if t \<in> set (blk_list (blks s q)) then with_msg m (tasks s t) else tasks s t))
    \<and> (\<forall>o'. blk_list (blks (msg_wake_loop n s q m) o') = (if o' = q then [] else blk_list (blks s o')))
    \<and> (\<forall>o'. obj_type (blks (msg_wake_loop n s q m) o') = obj_type (blks s o'))"
  using assms
proof (induction n arbitrary: s)
  case 0
  then show ?case by simp
next
  case (Suc n)
  have ls: "lists_ok s" using Suc.prems(1) by (simp add: pi_ok_but_def)
  note bl = lists_okD(2) [OF ls]
  obtain w ws where l: "blk_list (blks s q) = w # ws" using Suc.prems(3) by (cases "blk_list (blks s q)") auto
  have w: "pending (tasks s w)" "blk_obj (tasks s w) = q" using blk_ok_mem [OF bl, of w q] l by simp_all
  have d: "distinct (w # ws)" using blk_ok_distinct [OF bl, of q] l by simp
  have ty: "obj_type (blks s (blk_obj (tasks s w))) \<noteq> RHINO_MUTEX_OBJ_TYPE" using w(2) Suc.prems(2) by simp
  define s1 where "s1 = task_msg_recv s w m"
  note R = task_msg_recv_ok [OF Suc.prems(1) w(1) ty, of m, folded s1_def]
  have l1: "blk_list (blks s1 q) = ws" using l d by (simp add: R(4))
  have "obj_type (blks s1 q) \<noteq> RHINO_MUTEX_OBJ_TYPE" "length (blk_list (blks s1 q)) = n"
    using Suc.prems(2,3) l l1 by (simp_all add: R(5))
  note IH = Suc.IH [OF R(1) this, unfolded l1]
  have e: "msg_wake_loop (Suc n) s q m = msg_wake_loop n s1 q m" by (simp add: l s1_def)
  have other: "blk_list (blks s1 o') = blk_list (blks s o')" if "o' \<noteq> q" for o'
    using w(2) that by (simp add: R(4) blk_ok_mem [OF bl])
  show ?case
    unfolding e using IH other l d R(2,3,5) by (auto intro: list_frame_trans)
qed

lemma msg_wake_all_ok:
  fixes m :: ptr
  assumes ok: "kern_ok s" and ty: "obj_type (blks s q) \<noteq> RHINO_MUTEX_OBJ_TYPE"
  shows "kern_ok (core_sched (msg_wake_loop (length (blk_list (blks s q))) s q m))"
proof -
  note k = kern_okD [OF ok] and W = msg_wake_loop_ok [OF kern_okD(1) [OF ok] ty refl, of m]
  let ?s' = "msg_wake_loop (length (blk_list (blks s q))) s q m"
  show ?thesis
  proof (rule kern_ok_resched [OF ok])
    show "rdy (tasks ?s' (g_active_task s))" if "rdy (tasks s (g_active_task s))"
      using that W lists_okD(2) [OF k(3)] by (auto simp: blk_ok_mem task_kinds)
  qed (use W in simp_all)
qed

section \<open>The abstract queue\<close>

definition queue_rep :: "kqueue_t \<Rightarrow> ptr list \<Rightarrow> bool" where
  "queue_rep Q ms \<longleftrightarrow> fix_rep (q_ringbuf Q) (map ptr_bytes ms) \<and> rb_blk_size (q_ringbuf Q) = sizeof_ptr
     \<and> rb_end (q_ringbuf Q) = sizeof_ptr * q_size Q \<and> q_cur_num Q = length ms"

lemma length_concat_blocks: "(\<And>m. m \<in> set ms \<Longrightarrow> length m = n) \<Longrightarrow> length (concat ms) = n * length ms"
  by (induction ms) simp_all

lemma queue_rep_room:
  assumes "queue_rep Q ms"
  shows "rb_freesize (q_ringbuf Q) = sizeof_ptr * (q_size Q - length ms)" and "length ms \<le> q_size Q"
proof -
  have r: "rb_ok (q_ringbuf Q)" and c: "content (q_ringbuf Q) = concat (map ptr_bytes ms)"
    using assms by (simp_all add: queue_rep_def fix_rep_def fix_ok_def)
  have "length (concat (map ptr_bytes ms)) = 4 * length (map ptr_bytes ms)" by (rule length_concat_blocks) auto
  then have "used (q_ringbuf Q) = sizeof_ptr * length ms" using arg_cong [OF c, of length] by (simp add: sizeof_ptr_def)
  moreover have "rb_end (q_ringbuf Q) = sizeof_ptr * q_size Q" using assms by (simp add: queue_rep_def)
  ultimately show "rb_freesize (q_ringbuf Q) = sizeof_ptr * (q_size Q - length ms)" "length ms \<le> q_size Q"
    using rb_okD(4) [OF r] by (auto simp: used_def sizeof_ptr_def)
qed

lemma queue_rep_push:
  assumes "queue_rep Q ms" and "q_cur_num Q < q_size Q"
  shows "queue_rep (Q\<lparr>q_ringbuf := snd (ringbuf_push (q_ringbuf Q) (\<lambda>i. ptr_bytes m ! i) sizeof_ptr),
    q_cur_num := q_cur_num Q + 1, q_peak_num := p\<rparr>) (ms @ [m])"
proof -
  have f: "fix_ok (q_ringbuf Q)" and b: "rb_blk_size (q_ringbuf Q) = sizeof_ptr"
    using assms(1) by (simp_all add: queue_rep_def fix_rep_def)
  have "rb_blk_size (q_ringbuf Q) \<le> rb_freesize (q_ringbuf Q)"
    using queue_rep_room(1) [OF assms(1)] assms by (simp add: b queue_rep_def sizeof_ptr_def)
  note P = push_fix [OF f this, of "\<lambda>i. ptr_bytes m ! i" sizeof_ptr, unfolded b]
  have "map (\<lambda>i. ptr_bytes m ! i) [0..<sizeof_ptr] = ptr_bytes m"
    using map_nth [of "ptr_bytes m"] by (simp add: sizeof_ptr_def)
  then show ?thesis using P assms(1) by (auto simp: queue_rep_def fix_rep_def sizeof_ptr_def)
qed

lemma queue_rep_pop:
  assumes "queue_rep Q (m # ms)"
  shows "\<exists>rb'. ringbuf_pop (q_ringbuf Q) = (RHINO_SUCCESS, ptr_bytes m, sizeof_ptr, rb')
    \<and> queue_rep (Q\<lparr>q_ringbuf := rb', q_cur_num := q_cur_num Q - 1\<rparr>) ms"
proof -
  have "fix_ok (q_ringbuf Q)" "content (q_ringbuf Q) = ptr_bytes m @ concat (map ptr_bytes ms)"
    and b: "rb_blk_size (q_ringbuf Q) = sizeof_ptr"
    using assms by (simp_all add: queue_rep_def fix_rep_def)
  from pop_fix [OF this(1,2)] obtain rb' where
    r: "ringbuf_pop (q_ringbuf Q) = (RHINO_SUCCESS, ptr_bytes m, sizeof_ptr, rb')" "fix_ok rb'"
      "content rb' = concat (map ptr_bytes ms)" "rb_end rb' = rb_end (q_ringbuf Q)" "rb_blk_size rb' = sizeof_ptr"
    using b by (auto simp: sizeof_ptr_def)
  then show ?thesis using assms by (auto simp: queue_rep_def fix_rep_def sizeof_ptr_def)
qed

lemma queue_rep_empty:
  assumes "queue_rep Q ms"
  shows "queue_rep (Q\<lparr>q_ringbuf := ringbuf_reset (q_ringbuf Q), q_cur_num := 0\<rparr>) []"
proof -
  have f: "fix_ok (q_ringbuf Q)" using assms by (simp add: queue_rep_def fix_rep_def)
  then have "0 < rb_end (q_ringbuf Q)" by (simp add: fix_ok_def rb_ok_def)
  from reset_ok [OF this] show ?thesis
    using f assms by (simp add: queue_rep_def fix_rep_def fix_ok_def)
qed

section \<open>The invariants\<close>

definition queue_avail :: "kstate \<Rightarrow> ptr \<Rightarrow> ptr \<Rightarrow> bool" where
  "queue_avail s q t \<longleftrightarrow> q_cur_num (queues s q) > 0"

interpretation queue: wait_object RHINO_QUEUE_OBJ_TYPE queue_avail
  by unfold_locales (simp_all add: queue_avail_def list_frameD)

definition queue_inv :: "kstate \<Rightarrow> bool" where
  "queue_inv s \<longleftrightarrow> no_lost RHINO_QUEUE_OBJ_TYPE queue_avail s
     \<and> (\<forall>q. obj_type (blks s q) = RHINO_QUEUE_OBJ_TYPE \<longrightarrow> (\<exists>ms. queue_rep (queues s q) ms))"

lemma queue_invD:
  assumes "queue_inv s"
  shows "no_lost RHINO_QUEUE_OBJ_TYPE queue_avail s"
    and "obj_type (blks s q) = RHINO_QUEUE_OBJ_TYPE \<Longrightarrow> \<exists>ms. queue_rep (queues s q) ms"
  using assms by (simp_all add: queue_inv_def)

lemma queue_inv_sched [simp]: "queue_inv (core_sched s) = queue_inv s"
  by (simp add: queue_inv_def)

lemma queue_invI:
  assumes "queue_inv s" and "no_lost RHINO_QUEUE_OBJ_TYPE queue_avail s'"
    and "\<And>q. obj_type (blks s' q) = RHINO_QUEUE_OBJ_TYPE \<Longrightarrow>
      queues s' q = queues s q \<and> obj_type (blks s q) = RHINO_QUEUE_OBJ_TYPE \<or> (\<exists>ms. queue_rep (queues s' q) ms)"
  shows "queue_inv s'"
  using assms unfolding queue_inv_def by metis

text \<open>Waking with a message.\<close>

lemma queue_wake_ok:
  fixes m :: ptr
  assumes ok: "kern_ok s" and nl: "queue_inv s" and ty: "obj_type (blks s q) = RHINO_QUEUE_OBJ_TYPE"
    and ne: "blk_list (blks s q) \<noteq> []"
  shows "kern_ok (core_sched (task_msg_recv s (first (blk_list (blks s q))) m))"
    and "queue_inv (task_msg_recv s (first (blk_list (blks s q))) m)"
    and "kern_ok (core_sched (msg_wake_loop (length (blk_list (blks s q))) s q m))"
    and "queue_inv (msg_wake_loop (length (blk_list (blks s q))) s q m)"
proof -
  have nm: "obj_type (blks s q) \<noteq> RHINO_MUTEX_OBJ_TYPE" using ty by simp
  let ?w = "first (blk_list (blks s q))"
  note w = first_waiter [OF lists_okD(2) [OF kern_okD(3) [OF ok]] ne]
  have wt: "obj_type (blks s (blk_obj (tasks s ?w))) \<noteq> RHINO_MUTEX_OBJ_TYPE" using w(3) ty by simp
  note R = task_msg_recv_ok [OF kern_okD(1) [OF ok] w(2) wt, of m]
  have "rdy (tasks (task_msg_recv s ?w m) (g_active_task s))" if "rdy (tasks s (g_active_task s))"
    using that w(2) by (auto simp: R(3) task_kinds)
  then show "kern_ok (core_sched (task_msg_recv s ?w m))" by (intro kern_ok_resched [OF ok R(1,2)])
  have "no_lost RHINO_QUEUE_OBJ_TYPE queue_avail (task_msg_recv s ?w m)"
    by (rule queue.shrink [OF queue_invD(1) [OF nl] R(2)]) (auto simp: R(3-5))
  then show "queue_inv (task_msg_recv s ?w m)"
    by (rule queue_invI [OF nl]) (simp add: R(5) list_frameD(3) [OF R(2)])
  show "kern_ok (core_sched (msg_wake_loop (length (blk_list (blks s q))) s q m))"
    by (rule msg_wake_all_ok [OF ok nm])
  let ?s' = "msg_wake_loop (length (blk_list (blks s q))) s q m"
  note W = msg_wake_loop_ok [OF kern_okD(1) [OF ok] nm refl, of m]
  have F: "list_frame s ?s'" using W by blast
  have "no_lost RHINO_QUEUE_OBJ_TYPE queue_avail ?s'"
    by (rule queue.shrink [OF queue_invD(1) [OF nl] F]) (use W in auto)
  then show "queue_inv ?s'"
    by (rule queue_invI [OF nl]) (use W in \<open>simp add: list_frameD(3) [OF F]\<close>)
qed

lemma msg_send_ok:
  assumes ok: "kern_ok s" and nl: "queue_inv s"
  shows "kern_ok (snd (msg_send s q m opt)) \<and> queue_inv (snd (msg_send s q m opt))"
proof (cases "q = NULL \<or> obj_type (blks s q) \<noteq> RHINO_QUEUE_OBJ_TYPE \<or> q_cur_num (queues s q) \<ge> q_size (queues s q)")
  case True
  then have "snd (msg_send s q m opt) = s" by (auto simp: msg_send_def)
  with ok nl show ?thesis by simp
next
  case False
  then have g: "q \<noteq> NULL" "obj_type (blks s q) = RHINO_QUEUE_OBJ_TYPE" "\<not> q_size (queues s q) \<le> q_cur_num (queues s q)"
    by auto
  show ?thesis
  proof (cases "blk_list (blks s q) = []")
    case ne: False
    show ?thesis using queue_wake_ok [OF ok nl g(2) ne, of m] g ne by (simp add: msg_send_def)
  next
    case True
    let ?s' = "snd (msg_send s q m opt)"
    have F: "g_ready_queue ?s' = g_ready_queue s" "tasks ?s' = tasks s" "blks ?s' = blks s"
      "g_tick_head ?s' = g_tick_head s" "mutexes ?s' = mutexes s" "g_active_task ?s' = g_active_task s"
      "g_sched_lock ?s' = g_sched_lock s" "g_intrpt_nested_level ?s' = g_intrpt_nested_level s"
      using True g by (simp_all add: msg_send_def Let_def)
    have kern: "kern_ok ?s'" by (rule kern_ok_data [OF ok]) (rule F)+
    have other: "queues ?s' k = queues s k" if "k \<noteq> q" for k
      using True g that by (simp add: msg_send_def Let_def)
    obtain ms where ms: "queue_rep (queues s q) ms" using queue_invD(2) [OF nl g(2)] by blast
    have "queues ?s' q = (queues s q)\<lparr>q_ringbuf := snd (ringbuf_push (q_ringbuf (queues s q)) (\<lambda>i. ptr_bytes m ! i) sizeof_ptr),
        q_cur_num := q_cur_num (queues s q) + 1,
        q_peak_num := (if q_cur_num (queues s q) + 1 > q_peak_num (queues s q) then q_cur_num (queues s q) + 1
          else q_peak_num (queues s q))\<rparr>"
      using True g by (intro kqueue_t.equality) (simp_all add: msg_send_def Let_def)
    then have "\<exists>ms. queue_rep (queues ?s' q) ms" using queue_rep_push [OF ms, where m = m] g(3) by (metis not_le)
    moreover have "no_lost RHINO_QUEUE_OBJ_TYPE queue_avail ?s'"
      by (rule queue.restock [OF queue_invD(1) [OF nl] F(3) True]) (simp add: queue_avail_def other)
    ultimately have "queue_inv ?s'"
      using other F(3) by (intro queue_invI [OF nl]) (metis+)
    with kern show ?thesis by simp
  qed
qed

lemma krhino_queue_recv_ok:
  assumes ok: "kern_ok s" and mw: "may_wait s d" and nl: "queue_inv s"
  shows "kern_ok (snd (krhino_queue_recv s q d p)) \<and> queue_inv (snd (krhino_queue_recv s q d p))"
proof -
  let ?s' = "snd (krhino_queue_recv s q d p)"
  have w: "kern_ok (umem_update f s) \<and> queue_inv (umem_update f s)" for f
  proof
    show "kern_ok (umem_update f s)" by (rule kern_ok_data [OF ok]) simp_all
    have "no_lost RHINO_QUEUE_OBJ_TYPE queue_avail (umem_update f s)"
      by (rule queue.no_lost_cong [OF queue_invD(1) [OF nl]]) (simp_all add: queue_avail_def)
    then show "queue_inv (umem_update f s)" by (rule queue_invI [OF nl]) simp
  qed
  consider (skip) "?s' = s" | (nul) f where "?s' = umem_update f s"
    | (pop) "obj_type (blks s q) = RHINO_QUEUE_OBJ_TYPE" "q_cur_num (queues s q) > 0"
        "q \<noteq> NULL" "p \<noteq> NULL" "\<not> (g_intrpt_nested_level s > 0 \<and> d \<noteq> RHINO_NO_WAIT)"
    | (block) "obj_type (blks s q) = RHINO_QUEUE_OBJ_TYPE" "q_cur_num (queues s q) = 0"
        "g_intrpt_nested_level s = 0" "g_sched_lock s = 0" "?s' = core_sched (pend_to_blk_obj s q (g_active_task s) d)"
        "d \<noteq> RHINO_NO_WAIT"
  proof (cases "q = NULL \<or> p = NULL \<or> (g_intrpt_nested_level s > 0 \<and> d \<noteq> RHINO_NO_WAIT)
      \<or> obj_type (blks s q) \<noteq> RHINO_QUEUE_OBJ_TYPE")
    case True
    then have "?s' = s" by (elim disjE) (simp_all add: krhino_queue_recv_def)
    then show thesis by (rule skip)
  next
    case F: False
    then have g: "q \<noteq> NULL" "p \<noteq> NULL" "\<not> (g_intrpt_nested_level s > 0 \<and> d \<noteq> RHINO_NO_WAIT)"
      "obj_type (blks s q) = RHINO_QUEUE_OBJ_TYPE" by auto
    show thesis
    proof (cases "q_cur_num (queues s q) > 0")
      case True
      with g pop show thesis by blast
    next
      case False
      show thesis
      proof (cases "d = RHINO_NO_WAIT \<or> g_sched_lock s > 0")
        case True
        then have "?s' = umem_update (\<lambda>m. m(p := NULL)) s"
          using g False by (cases "d = RHINO_NO_WAIT") (simp_all add: krhino_queue_recv_def)
        then show thesis by (rule nul)
      next
        case nb: False
        then have "?s' = core_sched (pend_to_blk_obj s q (g_active_task s) d)"
          using g False by (simp add: krhino_queue_recv_def)
        then show thesis using g False nb by (intro block) (simp_all add: not_gr_zero_word)
      qed
    qed
  qed
  then show ?thesis
  proof cases
    case skip
    with ok nl show ?thesis by simp
  next
    case nul
    with w show ?thesis by simp
  next
    case block
    have "no_lost RHINO_QUEUE_OBJ_TYPE queue_avail ?s'"
      unfolding block(5) by (rule queue.block [OF queue_invD(1) [OF nl]]) (simp add: queue_avail_def block(2))
    then have "queue_inv ?s'"
      by (rule queue_invI [OF nl]) (simp add: block(5) pend_to_blk_obj_eq split: if_splits)
    moreover have "kern_ok ?s'"
      unfolding block(5) by (rule obj_block_ok [OF ok may_waitD [OF mw block(6,3)] block(3,4)]) (simp add: block(1))
    ultimately show ?thesis by simp
  next
    case pop
    obtain ms where ms: "queue_rep (queues s q) ms" using queue_invD(2) [OF nl pop(1)] by blast
    then obtain x xs where x: "ms = x # xs" using pop(2) by (cases ms) (auto simp: queue_rep_def)
    obtain rb' where r: "ringbuf_pop (q_ringbuf (queues s q)) = (RHINO_SUCCESS, ptr_bytes x, sizeof_ptr, rb')"
      and rep: "queue_rep ((queues s q)\<lparr>q_ringbuf := rb', q_cur_num := q_cur_num (queues s q) - 1\<rparr>) xs"
      using queue_rep_pop [OF ms [unfolded x]] by blast
    let ?Q = "(queues s q)\<lparr>q_ringbuf := rb', q_cur_num := q_cur_num (queues s q) - 1\<rparr>"
    have e: "?s' = s\<lparr>queues := (queues s)(q := ?Q), umem := (umem s)(p := x)\<rparr>"
      using pop r by (cases "d = RHINO_NO_WAIT") (simp_all add: krhino_queue_recv_def Let_def)
    have "kern_ok ?s'" by (rule kern_ok_data [OF ok]) (simp_all add: e)
    moreover have "no_lost RHINO_QUEUE_OBJ_TYPE queue_avail ?s'"
      by (rule queue.take_away [OF queue_invD(1) [OF nl]]) (auto simp: e queue_avail_def split: if_splits)
    then have "queue_inv ?s'" by (rule queue_invI [OF nl]) (use rep in \<open>auto simp: e\<close>)
    ultimately show ?thesis by simp
  qed
qed

lemma krhino_queue_del_ok:
  assumes ok: "kern_ok s" and nl: "queue_inv s"
  shows "kern_ok (snd (krhino_queue_del s q)) \<and> queue_inv (snd (krhino_queue_del s q))"
proof (cases "q \<noteq> NULL \<and> g_intrpt_nested_level s = 0 \<and> obj_type (blks s q) = RHINO_QUEUE_OBJ_TYPE
    \<and> queue_mm_alloc_flag (queues s q) = K_OBJ_STATIC_ALLOC")
  case False
  then have "snd (krhino_queue_del s q) = s" by (auto simp: krhino_queue_del_def word_neq_0_conv)
  with ok nl show ?thesis by simp
next
  case True
  then have nm: "obj_type (blks s q) \<noteq> RHINO_MUTEX_OBJ_TYPE" by simp
  note R = obj_retire_ok [OF ok nm]
  let ?r = "obj_retire s q"
  let ?s2 = "set_queue q (\<lambda>Q. Q\<lparr>q_ringbuf := ringbuf_reset (q_ringbuf Q)\<rparr>)
    (g_kobj_list_update (kobj_queue_head_update (removeAll q)) ?r)"
  have e: "snd (krhino_queue_del s q) = core_sched ?s2"
    using True by (simp add: krhino_queue_del_def obj_retire_def Let_def)
  have n: "no_lost RHINO_QUEUE_OBJ_TYPE queue_avail ?r" using queue.retire [OF queue_invD(1) [OF nl] ok nm] by simp
  have "no_lost RHINO_QUEUE_OBJ_TYPE queue_avail ?s2"
    by (rule queue.no_lost_cong [OF n]) (simp_all add: queue_avail_def)
  then have "queue_inv ?s2"
    by (rule queue_invI [OF nl]) (auto simp: R(5) list_frameD(3) [OF R(2)] split: if_splits)
  moreover have "kern_ok (core_sched ?s2) = kern_ok (core_sched ?r)"
    by (rule kern_ok_cong) (simp_all add: core_sched_active)
  ultimately show ?thesis unfolding e using R(1) by simp
qed

lemma krhino_queue_flush_ok:
  assumes ok: "kern_ok s" and nl: "queue_inv s"
  shows "kern_ok (snd (krhino_queue_flush s q)) \<and> queue_inv (snd (krhino_queue_flush s q))"
proof (cases "q \<noteq> NULL \<and> g_intrpt_nested_level s = 0 \<and> obj_type (blks s q) = RHINO_QUEUE_OBJ_TYPE")
  case False
  then have "snd (krhino_queue_flush s q) = s" by (auto simp: krhino_queue_flush_def word_neq_0_conv)
  with ok nl show ?thesis by simp
next
  case True
  let ?Q = "(queues s q)\<lparr>q_ringbuf := ringbuf_reset (q_ringbuf (queues s q)), q_cur_num := 0\<rparr>"
  let ?s' = "snd (krhino_queue_flush s q)"
  have F: "g_ready_queue ?s' = g_ready_queue s" "tasks ?s' = tasks s" "blks ?s' = blks s"
    "g_tick_head ?s' = g_tick_head s" "mutexes ?s' = mutexes s" "g_active_task ?s' = g_active_task s"
    "g_sched_lock ?s' = g_sched_lock s" "g_intrpt_nested_level ?s' = g_intrpt_nested_level s"
    and Q: "queues ?s' k = (if k = q then ?Q else queues s k)" for k
    using True by (simp_all add: krhino_queue_flush_def Let_def)
  obtain ms where "queue_rep (queues s q) ms" using queue_invD(2) [OF nl, of q] True by blast
  note rep = queue_rep_empty [OF this]
  have "no_lost RHINO_QUEUE_OBJ_TYPE queue_avail ?s'"
    by (rule queue.take_away [OF queue_invD(1) [OF nl] F(3)]) (auto simp: queue_avail_def Q split: if_splits)
  then have "queue_inv ?s'" by (rule queue_invI [OF nl]) (use rep F(3) in \<open>auto simp: Q\<close>)
  moreover have "kern_ok ?s'" by (rule kern_ok_data [OF ok]) (rule F)+
  ultimately show ?thesis by simp
qed

text \<open>
  A new queue is empty. The product \<^verbatim>\<open>msg_num * sizeof(void *)\<close> must not wrap: then the caller's
  array could not exist either.
\<close>

lemma krhino_queue_create_inv:
  assumes nl: "queue_inv s" and w: "n * sizeof_ptr < 2 ^ 32"
  shows "queue_inv (snd (krhino_queue_create s q name start n))"
proof (cases "q = NULL \<or> name = NULL \<or> start = NULL \<or> n = 0")
  case True
  with nl show ?thesis by (auto simp: krhino_queue_create_def queue_create_def)
next
  case False
  let ?b = "(blks s q)\<lparr>blk_list := [], blk_policy := BLK_POLICY_PRI, obj_type := RHINO_QUEUE_OBJ_TYPE\<rparr>"
  let ?rb = "ringbuf_init (mem_at s start (n * sizeof_ptr)) RINGBUF_TYPE_FIX sizeof_ptr"
  let ?s' = "snd (krhino_queue_create s q name start n)"
  have wr: "n * sizeof_ptr mod 2 ^ 32 = n * sizeof_ptr" using w by simp
  have B: "blks ?s' = (blks s)(q := ?b)" and S: "k \<noteq> q \<Longrightarrow> queues ?s' k = queues s k" for k
    using False by (simp_all add: krhino_queue_create_def queue_create_def Let_def)
  have Q: "q_ringbuf (queues ?s' q) = ?rb" "q_cur_num (queues ?s' q) = 0" "q_size (queues ?s' q) = n"
    unfolding krhino_queue_create_def queue_create_def Let_def wr using False by simp_all
  have "no_lost RHINO_QUEUE_OBJ_TYPE queue_avail ?s'"
    by (rule queue.created [OF queue_invD(1) [OF nl] B]) (simp_all add: queue_avail_def S)
  then show ?thesis
  proof (rule queue_invI [OF nl])
    fix k
    assume t: "obj_type (blks ?s' k) = RHINO_QUEUE_OBJ_TYPE"
    have "0 < length (mem_at s start (n * sizeof_ptr))" using False by (simp add: sizeof_ptr_def)
    then have ne: "mem_at s start (n * sizeof_ptr) \<noteq> []" by force
    have "fix_rep ?rb []" by (rule fix_rep_init [OF ne]) (simp_all add: sizeof_ptr_def)
    moreover have "rb_end ?rb = sizeof_ptr * n" "rb_blk_size ?rb = sizeof_ptr" using init_ok [OF ne] by simp_all
    ultimately have "queue_rep (queues ?s' q) []" by (simp add: queue_rep_def Q)
    then show "queues ?s' k = queues s k \<and> obj_type (blks s k) = RHINO_QUEUE_OBJ_TYPE
        \<or> (\<exists>ms. queue_rep (queues ?s' k) ms)"
      using t S [of k] by (cases "k = q") (auto simp: B)
  qed
qed

lemma krhino_queue_create_ok:
  assumes ok: "kern_ok s" and nl: "queue_inv s"
    and f: "obj_type (blks s q) \<noteq> RHINO_MUTEX_OBJ_TYPE" "blk_list (blks s q) = []"
    and w: "n * sizeof_ptr < 2 ^ 32"
  shows "kern_ok (snd (krhino_queue_create s q name start n)) \<and> queue_inv (snd (krhino_queue_create s q name start n))"
proof (cases "q = NULL \<or> name = NULL \<or> start = NULL \<or> n = 0")
  case True
  with ok nl show ?thesis by (auto simp: krhino_queue_create_def queue_create_def)
next
  case False
  let ?b = "(blks s q)\<lparr>blk_list := [], blk_policy := BLK_POLICY_PRI, obj_type := RHINO_QUEUE_OBJ_TYPE\<rparr>"
  have "kern_ok (s\<lparr>blks := (blks s)(q := ?b)\<rparr>)" by (rule obj_create_ok [OF ok f]) simp_all
  then have "kern_ok (snd (krhino_queue_create s q name start n))"
    by (rule kern_ok_data) (use False in \<open>simp_all add: krhino_queue_create_def queue_create_def Let_def\<close>)
  then show ?thesis using krhino_queue_create_inv [OF nl w] by simp
qed

section \<open>What the operations do\<close>

text \<open>C29: A queue refines a bounded first-in first-out list of messages. Without waiting tasks a
  message that is sent is appended, or refused when the queue holds as many messages as it has
  room for; a message that is received is the first one, handed over unchanged.\<close>

theorem queue_refines_fifo:
  assumes "kern_ok s" and "queue_rep (queues s q) ms" and "obj_type (blks s q) = RHINO_QUEUE_OBJ_TYPE"
    and "q \<noteq> NULL" and "p \<noteq> NULL" and "blk_list (blks s q) = []"
  shows "(let (r, s') = krhino_queue_back_send s q m
      in if length ms < q_size (queues s q) then r = RHINO_SUCCESS \<and> queue_rep (queues s' q) (ms @ [m])
         else r = RHINO_QUEUE_FULL \<and> s' = s)
    \<and> (let (r, s') = krhino_queue_recv s q RHINO_NO_WAIT p
      in case ms of [] \<Rightarrow> r = Some RHINO_NO_PEND_WAIT \<and> umem s' p = NULL \<and> queues s' = queues s
         | x # xs \<Rightarrow> r = Some RHINO_SUCCESS \<and> umem s' p = x \<and> queue_rep (queues s' q) xs)"
proof -
  have n: "q_cur_num (queues s q) = length ms" using assms(2) by (simp add: queue_rep_def)
  have send: "let (r, s') = krhino_queue_back_send s q m
      in if length ms < q_size (queues s q) then r = RHINO_SUCCESS \<and> queue_rep (queues s' q) (ms @ [m])
         else r = RHINO_QUEUE_FULL \<and> s' = s"
  proof (cases "length ms < q_size (queues s q)")
    case False
    then show ?thesis using assms(3,4) n by (simp add: krhino_queue_back_send_def msg_send_def)
  next
    case True
    have "queues (snd (krhino_queue_back_send s q m)) q
      = (queues s q)\<lparr>q_ringbuf := snd (ringbuf_push (q_ringbuf (queues s q)) (\<lambda>i. ptr_bytes m ! i) sizeof_ptr),
        q_cur_num := q_cur_num (queues s q) + 1,
        q_peak_num := (if q_cur_num (queues s q) + 1 > q_peak_num (queues s q) then q_cur_num (queues s q) + 1
          else q_peak_num (queues s q))\<rparr>"
      using True assms(3,4,6) n
      by (intro kqueue_t.equality) (simp_all add: krhino_queue_back_send_def msg_send_def Let_def)
    moreover have "fst (krhino_queue_back_send s q m) = RHINO_SUCCESS"
      using True assms(3,4,6) n by (simp add: krhino_queue_back_send_def msg_send_def Let_def)
    ultimately show ?thesis
      using queue_rep_push [OF assms(2), where m = m] True n by (simp add: case_prod_beta Let_def)
  qed
  have "let (r, s') = krhino_queue_recv s q RHINO_NO_WAIT p
      in case ms of [] \<Rightarrow> r = Some RHINO_NO_PEND_WAIT \<and> umem s' p = NULL \<and> queues s' = queues s
         | x # xs \<Rightarrow> r = Some RHINO_SUCCESS \<and> umem s' p = x \<and> queue_rep (queues s' q) xs"
  proof (cases ms)
    case Nil
    then show ?thesis using assms(3-5) n by (simp add: krhino_queue_recv_def)
  next
    case (Cons x xs)
    then show ?thesis
      using queue_rep_pop [OF assms(2) [unfolded Cons]] assms(3-5) n by (auto simp: krhino_queue_recv_def Let_def)
  qed
  with send show ?thesis by blast
qed

text \<open>C30: A message sent while tasks wait for the queue goes to the most urgent of them, whose
  \<^verbatim>\<open>krhino_queue_recv\<close> returns it when the task runs again; \<^verbatim>\<open>krhino_queue_all_send\<close> gives it to
  every waiting task. The queue itself is left alone.\<close>

theorem queue_send_to_waiters:
  assumes "kern_ok s" and "queue_rep (queues s q) []" and "obj_type (blks s q) = RHINO_QUEUE_OBJ_TYPE"
    and "q \<noteq> NULL" and "blk_list (blks s q) = w # ws" and "0 < q_size (queues s q)"
  shows "(let s' = snd (krhino_queue_back_send s q m)
      in tasks s' w = with_msg m (tasks s w) \<and> blk_list (blks s' q) = ws \<and> queues s' = queues s
         \<and> (blk_policy (blks s q) = BLK_POLICY_PRI \<longrightarrow> (\<forall>t\<in>set ws. prio (tasks s w) \<le> prio (tasks s t)))
         \<and> (g_active_task s' = w \<longrightarrow>
              fst (krhino_queue_recv_resume s' p) = RHINO_SUCCESS \<and> umem (snd (krhino_queue_recv_resume s' p)) p = m))
    \<and> (let s' = snd (krhino_queue_all_send s q m)
      in (\<forall>t\<in>set (w # ws). tasks s' t = with_msg m (tasks s t)) \<and> blk_list (blks s' q) = [] \<and> queues s' = queues s)"
proof -
  note k = kern_okD [OF assms(1)] and bl = lists_okD(2) [OF kern_okD(3) [OF assms(1)]]
  have n: "q_cur_num (queues s q) = 0" using assms(2) by (simp add: queue_rep_def)
  have nm: "obj_type (blks s q) \<noteq> RHINO_MUTEX_OBJ_TYPE" using assms(3) by simp
  have w: "pending (tasks s w)" "blk_obj (tasks s w) = q" using assms(5) blk_ok_mem [OF bl, of w q] by simp_all
  have wt: "obj_type (blks s (blk_obj (tasks s w))) \<noteq> RHINO_MUTEX_OBJ_TYPE" using w(2) nm by simp
  have d: "w \<notin> set ws" using blk_ok_distinct [OF bl, of q] assms(5) by simp
  note R = task_msg_recv_ok [OF k(1) w(1) wt, of m] and W = msg_wake_loop_ok [OF k(1) nm refl, of m]
  have one: "krhino_queue_back_send s q m = (RHINO_SUCCESS, core_sched (task_msg_recv s w m))"
    using assms(3-6) n by (simp add: krhino_queue_back_send_def msg_send_def WAKE_ONE_TASK_def)
  have all: "krhino_queue_all_send s q m
      = (RHINO_SUCCESS, core_sched (msg_wake_loop (length (blk_list (blks s q))) s q m))"
    using assms(3-6) n by (simp add: krhino_queue_all_send_def msg_send_def WAKE_ALL_TASK_def)
  have "\<forall>t\<in>set ws. prio (tasks s w) \<le> prio (tasks s t)" if "blk_policy (blks s q) = BLK_POLICY_PRI"
    using sorted_map_first [OF blk_ok_sorted [OF bl that]] assms(5) by simp
  then have "let s' = snd (krhino_queue_back_send s q m)
      in tasks s' w = with_msg m (tasks s w) \<and> blk_list (blks s' q) = ws \<and> queues s' = queues s
         \<and> (blk_policy (blks s q) = BLK_POLICY_PRI \<longrightarrow> (\<forall>t\<in>set ws. prio (tasks s w) \<le> prio (tasks s t)))
         \<and> (g_active_task s' = w \<longrightarrow>
              fst (krhino_queue_recv_resume s' p) = RHINO_SUCCESS \<and> umem (snd (krhino_queue_recv_resume s' p)) p = m)"
    using assms(5) d by (simp add: one R(3,4) list_frameD(3) [OF R(2)] krhino_queue_recv_resume_def
        pend_state_end_proc_def)
  moreover have "let s' = snd (krhino_queue_all_send s q m)
      in (\<forall>t\<in>set (w # ws). tasks s' t = with_msg m (tasks s t)) \<and> blk_list (blks s' q) = [] \<and> queues s' = queues s"
  proof -
    have "list_frame s (msg_wake_loop (length (blk_list (blks s q))) s q m)" using W by blast
    then show ?thesis using W assms(5) by (simp add: all list_frameD(3))
  qed
  ultimately show ?thesis by blast
qed

text \<open>No task waits for a queue that holds messages, every queue is a well-formed buffer, and no
  operation on queues breaks this or the kernel invariant.\<close>

theorem queue_ops_inv:
  assumes "kern_ok s" and "queue_inv s" and "prio (tasks s (g_active_task s)) \<noteq> RHINO_IDLE_PRI"
    and "s' \<in> {snd (krhino_queue_back_send s q m), snd (krhino_queue_all_send s q m),
      snd (krhino_queue_recv s q ticks p), snd (krhino_queue_flush s q), snd (krhino_queue_del s q)}"
  shows "kern_ok s' \<and> queue_inv s'"
  using assms(4) msg_send_ok [OF assms(1,2)] krhino_queue_recv_ok [OF assms(1) may_wait_task [OF assms(3)] assms(2)]
    krhino_queue_flush_ok [OF assms(1,2)] krhino_queue_del_ok [OF assms(1,2)]
  by (auto simp: krhino_queue_back_send_def krhino_queue_all_send_def)

section \<open>Instances\<close>

lemma ex_queue_rep: "queue_rep (queues ex_state q) []"
proof -
  have "fix_rep ex_rb []" unfolding ex_rb_def by (rule fix_rep_init) simp_all
  moreover have "replicate 16 (0 :: u8) \<noteq> []" by simp
  note i = init_ok [OF this, of RINGBUF_TYPE_FIX 4, folded ex_rb_def]
  ultimately show ?thesis by (simp add: queue_rep_def ex_state_def sizeof_ptr_def i)
qed

lemma ex_queue_inv: "queue_inv ex_state"
proof -
  have "no_lost RHINO_QUEUE_OBJ_TYPE queue_avail ex_state"
    using ex_queue_rep by (auto simp: no_lost_def queue_avail_def queue_rep_def)
  then show ?thesis using ex_queue_rep unfolding queue_inv_def by blast
qed

lemma ex_queue: "obj_type (blks ex_state 300) = RHINO_QUEUE_OBJ_TYPE" "blk_list (blks ex_state 300) = [10]"
  "obj_type (blks ex_state 301) = RHINO_QUEUE_OBJ_TYPE" "blk_list (blks ex_state 301) = []"
  "q_size (queues ex_state q) = 4"
  by (simp_all add: ex_eval) (simp add: ex_state_def)

theorem queue_refines_fifo_witness:
  "(let (r, s') = krhino_queue_back_send ex_state 301 0x12345678
    in r = RHINO_SUCCESS \<and> queue_rep (queues s' 301) [0x12345678])
   \<and> fst (krhino_queue_recv ex_state 301 RHINO_NO_WAIT 908) = Some RHINO_NO_PEND_WAIT"
  using queue_refines_fifo [OF ex_kern_ok ex_queue_rep ex_queue(3) _ _ ex_queue(4), of 908 "0x12345678"]
  by (simp add: ex_queue(5) case_prod_beta Let_def)

theorem queue_send_to_waiters_witness:
  "(let s' = snd (krhino_queue_back_send ex_state 300 77)
    in msg (tasks s' 10) = 77 \<and> rdy (tasks s' 10) \<and> blk_list (blks s' 300) = [])"
  using queue_send_to_waiters [OF ex_kern_ok ex_queue_rep ex_queue(1) _ ex_queue(2), of 77 908]
  by (simp add: ex_queue(5) Let_def) (simp add: ex_eval)

theorem queue_ops_inv_witness:
  "queue_inv (snd (krhino_queue_recv ex_state 300 RHINO_WAIT_FOREVER 908))"
  using queue_ops_inv [OF ex_kern_ok ex_queue_inv ex_caller,
      where s' = "snd (krhino_queue_recv ex_state 300 RHINO_WAIT_FOREVER 908)" and q = 300
        and ticks = RHINO_WAIT_FOREVER and p = 908] by simp

end
