(* ===== verification/Buf_Queue.thy ===== *)
theory Buf_Queue
  imports Messages
begin

text \<open>
  Buffer queues: \<^verbatim>\<open>kernel/rhino/core/k_buf_queue.c\<close>. A buffer queue holds messages of bytes, of any
  size up to a maximum in a ring buffer of type DYN, or all of one size in one of type FIX.

  A buffer queue refines a first-in first-out list of byte messages (\<open>bufq_rep\<close>). No task waits for
  a buffer queue that has messages (\<open>bufq_inv\<close>), and the kernel invariant is kept.
\<close>

section \<open>The operations\<close>

text \<open>\<^verbatim>\<open>memcpy(p, bs)\<close>.\<close>

definition write_mem :: "kstate \<Rightarrow> ptr \<Rightarrow> u8 list \<Rightarrow> kstate" where
  "write_mem s p bs = bmem_update (\<lambda>M. M(p := bs @ drop (length bs) (M p))) s"

definition buf_queue_create ::
  "kstate \<Rightarrow> ptr \<Rightarrow> ptr \<Rightarrow> ptr \<Rightarrow> nat \<Rightarrow> nat \<Rightarrow> alloc_flag_t \<Rightarrow> nat \<Rightarrow> kstat \<times> kstate" where
  "buf_queue_create s queue name buf len max_msg mm_alloc_flag type =
     (if queue = NULL then (RHINO_NULL_PTR, s)
      else if buf = NULL then (RHINO_NULL_PTR, s)
      else if name = NULL then (RHINO_NULL_PTR, s)
      else if max_msg = 0 then (RHINO_INV_PARAM, s)
      else if len = 0 then (RHINO_BUF_QUEUE_SIZE_ZERO, s)
      else
        let s = set_blk queue (\<lambda>b. b\<lparr>blk_list := []\<rparr>) s;
            s = set_bufq queue (\<lambda>q. q\<lparr>bq_cur_num := 0, bq_peak_num := 0, max_msg_size := max_msg\<rparr>) s;
            s = set_blk queue (\<lambda>b. b\<lparr>blk_policy := BLK_POLICY_PRI\<rparr>) s;
            s = set_bufq queue (\<lambda>q. q\<lparr>buf_queue_mm_alloc_flag := mm_alloc_flag\<rparr>) s;
            s = g_kobj_list_update (kobj_buf_queue_head_update (\<lambda>l. l @ [queue])) s;
            s = set_blk queue (\<lambda>b. b\<lparr>obj_type := RHINO_BUF_QUEUE_OBJ_TYPE\<rparr>) s;
            s = set_bufq queue (\<lambda>q. q\<lparr>bq_ringbuf := ringbuf_init (mem_at s buf len) type max_msg\<rparr>) s;
            s = set_bufq queue (\<lambda>q. q\<lparr>min_free_buf_size := rb_freesize (bq_ringbuf q)\<rparr>) s
        in (RHINO_SUCCESS, s))"

definition krhino_buf_queue_create ::
  "kstate \<Rightarrow> ptr \<Rightarrow> ptr \<Rightarrow> ptr \<Rightarrow> nat \<Rightarrow> nat \<Rightarrow> kstat \<times> kstate" where
  "krhino_buf_queue_create s queue name buf len max_msg =
     buf_queue_create s queue name buf len max_msg K_OBJ_STATIC_ALLOC RINGBUF_TYPE_DYN"

definition krhino_fix_buf_queue_create ::
  "kstate \<Rightarrow> ptr \<Rightarrow> ptr \<Rightarrow> ptr \<Rightarrow> nat \<Rightarrow> nat \<Rightarrow> kstat \<times> kstate" where
  "krhino_fix_buf_queue_create s queue name buf msg_size msg_num =
     buf_queue_create s queue name buf (msg_size * msg_num mod 2 ^ 32) msg_size K_OBJ_STATIC_ALLOC
       RINGBUF_TYPE_FIX"

definition krhino_buf_queue_del :: "kstate \<Rightarrow> ptr \<Rightarrow> kstat \<times> kstate" where
  "krhino_buf_queue_del s queue =
     (if queue = NULL then (RHINO_NULL_PTR, s)
      else if g_intrpt_nested_level s > 0 then (RHINO_NOT_CALLED_BY_INTRPT, s)
      else if obj_type (blks s queue) \<noteq> RHINO_BUF_QUEUE_OBJ_TYPE then (RHINO_KOBJ_TYPE_ERR, s)
      else if buf_queue_mm_alloc_flag (bufqs s queue) \<noteq> K_OBJ_STATIC_ALLOC then (RHINO_KOBJ_DEL_ERR, s)
      else
        let s = set_blk queue (\<lambda>b. b\<lparr>obj_type := RHINO_OBJ_TYPE_NONE\<rparr>) s;
            s = pend_rm_all s queue;
            s = g_kobj_list_update (kobj_buf_queue_head_update (removeAll queue)) s;
            s = set_bufq queue (\<lambda>q. q\<lparr>bq_ringbuf := ringbuf_reset (bq_ringbuf q)\<rparr>) s
        in (RHINO_SUCCESS, core_sched s))"

text \<open>
  \<open>data\<close> is what \<^verbatim>\<open>msg\<close> points at: a buffer of type FIX copies \<^verbatim>\<open>blk_size\<close> bytes from there,
  whatever \<^verbatim>\<open>msg_size\<close> is.
\<close>

definition buf_queue_send :: "kstate \<Rightarrow> ptr \<Rightarrow> (nat \<Rightarrow> u8) \<Rightarrow> nat \<Rightarrow> kstat \<times> kstate" where
  "buf_queue_send s queue data msg_size =
     (if obj_type (blks s queue) \<noteq> RHINO_BUF_QUEUE_OBJ_TYPE then (RHINO_KOBJ_TYPE_ERR, s)
      else if msg_size > max_msg_size (bufqs s queue) then (RHINO_BUF_QUEUE_MSG_SIZE_OVERFLOW, s)
      else if msg_size = 0 then (RHINO_INV_PARAM, s)
      else if blk_list (blks s queue) = [] then
        let (err, rb) = ringbuf_push (bq_ringbuf (bufqs s queue)) data msg_size;
            s = set_bufq queue (\<lambda>q. q\<lparr>bq_ringbuf := rb\<rparr>) s
        in if err \<noteq> RHINO_SUCCESS then
             (if err = RHINO_RINGBUF_FULL then RHINO_BUF_QUEUE_FULL else err, s)
           else
             let s = set_bufq queue (\<lambda>q. q\<lparr>bq_cur_num := bq_cur_num q + 1\<rparr>) s;
                 s = (if bq_peak_num (bufqs s queue) < bq_cur_num (bufqs s queue)
                      then set_bufq queue (\<lambda>q. q\<lparr>bq_peak_num := bq_cur_num q\<rparr>) s else s);
                 s = (if min_free_buf_size (bufqs s queue) > rb_freesize (bq_ringbuf (bufqs s queue))
                      then set_bufq queue (\<lambda>q. q\<lparr>min_free_buf_size := rb_freesize (bq_ringbuf q)\<rparr>) s
                      else s)
             in (RHINO_SUCCESS, s)
      else
        let task = first (blk_list (blks s queue));
            s = write_mem s (msg (tasks s task)) (map data [0..<msg_size]);
            s = set_task task (\<lambda>t. t\<lparr>bq_msg_size := msg_size\<rparr>) s;
            s = pend_task_wakeup s task
        in (RHINO_SUCCESS, core_sched s))"

definition krhino_buf_queue_send :: "kstate \<Rightarrow> ptr \<Rightarrow> ptr \<Rightarrow> nat \<Rightarrow> kstat \<times> kstate" where
  "krhino_buf_queue_send s queue m len =
     (if queue = NULL then (RHINO_NULL_PTR, s)
      else if m = NULL then (RHINO_NULL_PTR, s)
      else buf_queue_send s queue (mem_byte s m) len)"

definition krhino_buf_queue_recv ::
  "kstate \<Rightarrow> ptr \<Rightarrow> tick \<Rightarrow> ptr \<Rightarrow> ptr \<Rightarrow> kstat option \<times> kstate" where
  "krhino_buf_queue_recv s queue ticks m psize =
     (if queue = NULL then (Some RHINO_NULL_PTR, s)
      else if m = NULL then (Some RHINO_NULL_PTR, s)
      else if psize = NULL then (Some RHINO_NULL_PTR, s)
      else if g_intrpt_nested_level s > 0 \<and> ticks \<noteq> RHINO_NO_WAIT then (Some RHINO_NOT_CALLED_BY_INTRPT, s)
      else if obj_type (blks s queue) \<noteq> RHINO_BUF_QUEUE_OBJ_TYPE then (Some RHINO_KOBJ_TYPE_ERR, s)
      else if \<not> ringbuf_is_empty (bq_ringbuf (bufqs s queue)) then
        let s = (case ringbuf_pop (bq_ringbuf (bufqs s queue)) of
                   (RHINO_SUCCESS, bs, n, rb) \<Rightarrow>
                     set_bufq queue (\<lambda>q. q\<lparr>bq_ringbuf := rb\<rparr>)
                       (umem_update (\<lambda>u. u(psize := word_of_nat n)) (write_mem s m bs))
                 | _ \<Rightarrow> s);
            s = set_bufq queue (\<lambda>q. q\<lparr>bq_cur_num := bq_cur_num q - 1\<rparr>) s
        in (Some RHINO_SUCCESS, s)
      else if ticks = RHINO_NO_WAIT then
        (Some RHINO_NO_PEND_WAIT, umem_update (\<lambda>u. u(psize := 0)) s)
      else if g_sched_lock s > 0 then
        (Some RHINO_SCHED_DISABLE, umem_update (\<lambda>u. u(psize := 0)) s)
      else
        let s = set_task (g_active_task s) (\<lambda>t. t\<lparr>msg := m\<rparr>) s;
            s = pend_to_blk_obj s queue (g_active_task s) ticks
        in (None, core_sched s))"

definition krhino_buf_queue_recv_resume :: "kstate \<Rightarrow> ptr \<Rightarrow> kstat \<times> kstate" where
  "krhino_buf_queue_recv_resume s psize =
     (let (ret, s) = pend_state_end_proc s (g_active_task s);
          s = (case ret of
                 RHINO_SUCCESS \<Rightarrow>
                   umem_update (\<lambda>u. u(psize := word_of_nat (bq_msg_size (tasks s (g_active_task s))))) s
               | _ \<Rightarrow> umem_update (\<lambda>u. u(psize := 0)) s)
      in (ret, s))"

definition krhino_buf_queue_flush :: "kstate \<Rightarrow> ptr \<Rightarrow> kstat \<times> kstate" where
  "krhino_buf_queue_flush s queue =
     (if queue = NULL then (RHINO_NULL_PTR, s)
      else if g_intrpt_nested_level s > 0 then (RHINO_NOT_CALLED_BY_INTRPT, s)
      else if obj_type (blks s queue) \<noteq> RHINO_BUF_QUEUE_OBJ_TYPE then (RHINO_KOBJ_TYPE_ERR, s)
      else
        let s = set_bufq queue (\<lambda>q. q\<lparr>bq_ringbuf := ringbuf_reset (bq_ringbuf q)\<rparr>) s;
            s = set_bufq queue (\<lambda>q. q\<lparr>bq_cur_num := 0, bq_peak_num := 0\<rparr>) s;
            s = set_bufq queue (\<lambda>q. q\<lparr>min_free_buf_size := rb_freesize (bq_ringbuf q)\<rparr>) s
        in (RHINO_SUCCESS, s))"

record kbuf_queue_info_t =
  bqi_buf_size :: nat
  bqi_max_msg_size :: nat
  bqi_cur_num :: nat
  bqi_peak_num :: nat
  bqi_free_buf_size :: nat
  bqi_min_free_buf_size :: nat

definition krhino_buf_queue_info_get :: "kstate \<Rightarrow> ptr \<Rightarrow> ptr \<Rightarrow> kstat \<times> kbuf_queue_info_t option" where
  "krhino_buf_queue_info_get s queue info =
     (if queue = NULL then (RHINO_NULL_PTR, None)
      else if info = NULL then (RHINO_NULL_PTR, None)
      else if obj_type (blks s queue) \<noteq> RHINO_BUF_QUEUE_OBJ_TYPE then (RHINO_KOBJ_TYPE_ERR, None)
      else (RHINO_SUCCESS,
        Some \<lparr>bqi_buf_size = rb_end (bq_ringbuf (bufqs s queue)),
          bqi_max_msg_size = max_msg_size (bufqs s queue), bqi_cur_num = bq_cur_num (bufqs s queue),
          bqi_peak_num = bq_peak_num (bufqs s queue),
          bqi_free_buf_size = rb_freesize (bq_ringbuf (bufqs s queue)),
          bqi_min_free_buf_size = min_free_buf_size (bufqs s queue)\<rparr>))"

section \<open>The abstract buffer queue\<close>

definition chan_rep :: "k_ringbuf_t \<Rightarrow> u8 list list \<Rightarrow> bool" where
  "chan_rep rb ms \<longleftrightarrow> (if rb_type rb = RINGBUF_TYPE_FIX then fix_rep rb ms else dyn_rep rb ms)"

text \<open>Is there room for a message of \<open>n\<close> bytes, and what is stored for it?\<close>

definition has_room :: "k_ringbuf_t \<Rightarrow> nat \<Rightarrow> bool" where
  "has_room rb n \<longleftrightarrow> (if rb_type rb = RINGBUF_TYPE_FIX then rb_blk_size rb \<le> rb_freesize rb else fits rb n)"

definition stored :: "k_ringbuf_t \<Rightarrow> (nat \<Rightarrow> u8) \<Rightarrow> nat \<Rightarrow> u8 list" where
  "stored rb data n = map data [0..<(if rb_type rb = RINGBUF_TYPE_FIX then rb_blk_size rb else n)]"

definition bufq_rep :: "kbuf_queue_t \<Rightarrow> u8 list list \<Rightarrow> bool" where
  "bufq_rep Q ms \<longleftrightarrow> chan_rep (bq_ringbuf Q) ms \<and> bq_cur_num Q = length ms
     \<and> rb_blk_size (bq_ringbuf Q) = max_msg_size Q"

lemma chan_push:
  assumes "chan_rep rb ms"
  shows "has_room rb n \<Longrightarrow> fst (ringbuf_push rb data n) = RHINO_SUCCESS
      \<and> chan_rep (snd (ringbuf_push rb data n)) (ms @ [stored rb data n])
      \<and> rb_blk_size (snd (ringbuf_push rb data n)) = rb_blk_size rb"
    and "\<not> has_room rb n \<Longrightarrow> \<exists>err. err \<noteq> RHINO_SUCCESS \<and> ringbuf_push rb data n = (err, rb)"
proof -
  show "has_room rb n \<Longrightarrow> fst (ringbuf_push rb data n) = RHINO_SUCCESS
      \<and> chan_rep (snd (ringbuf_push rb data n)) (ms @ [stored rb data n])
      \<and> rb_blk_size (snd (ringbuf_push rb data n)) = rb_blk_size rb"
  proof (cases "rb_type rb = RINGBUF_TYPE_FIX")
    case True
    assume h: "has_room rb n"
    have f: "fix_ok rb" and r: "rb_blk_size rb \<le> rb_freesize rb" and ms: "fix_rep rb ms"
      using assms h True by (simp_all add: chan_rep_def fix_rep_def has_room_def)
    note P = push_fix [OF f r, of data n]
    have "rb_type (snd (ringbuf_push rb data n)) = RINGBUF_TYPE_FIX" using P(2) by (simp add: fix_ok_def)
    then show ?thesis using P ms True by (auto simp: chan_rep_def fix_rep_def stored_def)
  next
    case False
    assume h: "has_room rb n"
    have ms: "dyn_rep rb ms" and f: "fits rb n" using assms h False by (simp_all add: chan_rep_def has_room_def)
    have o: "rb_ok rb" "rb_type rb = RINGBUF_TYPE_DYN" using ms by (simp_all add: dyn_rep_def)
    note P = push_dyn [OF o f, of data]
    show ?thesis using P ms False f by (auto simp: chan_rep_def dyn_rep_def stored_def fits_def o)
  qed
  show "\<exists>err. err \<noteq> RHINO_SUCCESS \<and> ringbuf_push rb data n = (err, rb)" if h: "\<not> has_room rb n"
  proof (cases "rb_type rb = RINGBUF_TYPE_FIX")
    case True
    then show ?thesis using push_fix_full [of rb data n] h by (simp add: has_room_def)
  next
    case False
    then have "rb_type rb = RINGBUF_TYPE_DYN" using assms by (simp add: chan_rep_def dyn_rep_def)
    then show ?thesis using push_dyn_fails [of rb n data] h False by (simp add: has_room_def)
  qed
qed

lemma chan_pop:
  assumes "chan_rep rb (m # ms)"
  shows "\<exists>rb'. ringbuf_pop rb = (RHINO_SUCCESS, m, length m, rb') \<and> chan_rep rb' ms
    \<and> rb_blk_size rb' = rb_blk_size rb \<and> rb_type rb' = rb_type rb \<and> rb_end rb' = rb_end rb"
proof (cases "rb_type rb = RINGBUF_TYPE_FIX")
  case True
  then have ms: "fix_rep rb (m # ms)" using assms by (simp add: chan_rep_def)
  then have "fix_ok rb" "content rb = m @ concat ms" "length m = rb_blk_size rb" by (simp_all add: fix_rep_def)
  from pop_fix [OF this] ms show ?thesis using True by (auto simp: chan_rep_def fix_rep_def fix_ok_def)
next
  case False
  then have ms: "dyn_rep rb (m # ms)" using assms by (simp add: chan_rep_def)
  then have "rb_ok rb" "rb_type rb = RINGBUF_TYPE_DYN" "length m \<le> RINGBUF_LEN_3BYTES_MAXVALUE"
    "content rb = header (length m) @ m @ concat (map (\<lambda>m. header (length m) @ m) ms)"
    by (simp_all add: dyn_rep_def)
  from pop_dyn [OF this(1,2,4) refl this(3)] obtain rb' where
    "ringbuf_pop rb = (RHINO_SUCCESS, m, length m, rb')" "dyn_rep rb' ms" "rb_end rb' = rb_end rb"
    "rb_blk_size rb' = rb_blk_size rb" "rb_type rb' = RINGBUF_TYPE_DYN"
    using ms by (auto simp: dyn_rep_def)
  then show ?thesis using False \<open>rb_type rb = RINGBUF_TYPE_DYN\<close> by (auto simp: chan_rep_def)
qed

lemma chan_empty_iff:
  assumes "chan_rep rb ms"
  shows "ringbuf_is_empty rb \<longleftrightarrow> ms = []"
proof (cases ms)
  case Nil
  then have "rb_ok rb" "content rb = []" using assms by (auto simp: chan_rep_def fix_rep_def fix_ok_def dyn_rep_def split: if_splits)
  then show ?thesis using is_empty_iff Nil by blast
next
  case (Cons m ms')
  then obtain rb' where "ringbuf_pop rb = (RHINO_SUCCESS, m, length m, rb')" using chan_pop assms by blast
  then show ?thesis using Cons by (auto simp: ringbuf_pop_def)
qed

lemma chan_reset:
  assumes "chan_rep rb ms"
  shows "chan_rep (ringbuf_reset rb) []" and "rb_blk_size (ringbuf_reset rb) = rb_blk_size rb"
proof -
  have "rb_ok rb" using assms by (auto simp: chan_rep_def fix_rep_def fix_ok_def dyn_rep_def split: if_splits)
  then have "0 < rb_end rb" by (rule rb_okD)
  from reset_ok [OF this] show "chan_rep (ringbuf_reset rb) []" "rb_blk_size (ringbuf_reset rb) = rb_blk_size rb"
    using assms by (auto simp: chan_rep_def fix_rep_def fix_ok_def dyn_rep_def split: if_splits)
qed

section \<open>The invariants\<close>

definition bufq_avail :: "kstate \<Rightarrow> ptr \<Rightarrow> ptr \<Rightarrow> bool" where
  "bufq_avail s q t \<longleftrightarrow> \<not> ringbuf_is_empty (bq_ringbuf (bufqs s q))"

interpretation bufq: wait_object RHINO_BUF_QUEUE_OBJ_TYPE bufq_avail
  by unfold_locales (simp_all add: bufq_avail_def list_frameD)

definition bufq_inv :: "kstate \<Rightarrow> bool" where
  "bufq_inv s \<longleftrightarrow> no_lost RHINO_BUF_QUEUE_OBJ_TYPE bufq_avail s
     \<and> (\<forall>q. obj_type (blks s q) = RHINO_BUF_QUEUE_OBJ_TYPE \<longrightarrow> (\<exists>ms. bufq_rep (bufqs s q) ms))"

lemma bufq_invD:
  assumes "bufq_inv s"
  shows "no_lost RHINO_BUF_QUEUE_OBJ_TYPE bufq_avail s"
    and "obj_type (blks s q) = RHINO_BUF_QUEUE_OBJ_TYPE \<Longrightarrow> \<exists>ms. bufq_rep (bufqs s q) ms"
  using assms by (simp_all add: bufq_inv_def)

lemma bufq_inv_sched [simp]: "bufq_inv (core_sched s) = bufq_inv s"
  by (simp add: bufq_inv_def)

lemma bufq_invI:
  assumes "bufq_inv s" and "no_lost RHINO_BUF_QUEUE_OBJ_TYPE bufq_avail s'"
    and "\<And>q. obj_type (blks s' q) = RHINO_BUF_QUEUE_OBJ_TYPE \<Longrightarrow>
      bufqs s' q = bufqs s q \<and> obj_type (blks s q) = RHINO_BUF_QUEUE_OBJ_TYPE \<or> (\<exists>ms. bufq_rep (bufqs s' q) ms)"
  shows "bufq_inv s'"
  using assms unfolding bufq_inv_def by metis

text \<open>A message for a waiting task.\<close>

lemma send_to_waiter:
  fixes data :: "nat \<Rightarrow> u8"
  assumes ok: "kern_ok s" and nl: "bufq_inv s" and ty: "obj_type (blks s q) = RHINO_BUF_QUEUE_OBJ_TYPE"
    and l: "blk_list (blks s q) = w # ws" and n: "n \<le> max_msg_size (bufqs s q)" "n \<noteq> 0"
  defines "s1 \<equiv> write_mem s (msg (tasks s w)) (map data [0..<n])"
    and "x \<equiv> (tasks s w)\<lparr>bq_msg_size := n\<rparr>"
  shows "buf_queue_send s q data n
      = (RHINO_SUCCESS, core_sched (wake_task BLK_FINISH (s1\<lparr>tasks := (tasks s1)(w := x)\<rparr>) w))"
    and "kern_ok (core_sched (wake_task BLK_FINISH (s1\<lparr>tasks := (tasks s1)(w := x)\<rparr>) w))"
    and "bufq_inv (wake_task BLK_FINISH (s1\<lparr>tasks := (tasks s1)(w := x)\<rparr>) w)"
    and "tasks s1 = tasks s" and "blks s1 = blks s" and "bufqs s1 = bufqs s"
proof -
  note bl = lists_okD(2) [OF kern_okD(3) [OF ok]]
  let ?s2 = "s1\<lparr>tasks := (tasks s1)(w := x)\<rparr>"
  show f: "tasks s1 = tasks s" "blks s1 = blks s" "bufqs s1 = bufqs s" by (simp_all add: s1_def write_mem_def)
  have w: "pending (tasks s w)" using l blk_ok_mem [OF bl, of w q] by simp
  then have "pending (tasks ?s2 w)" by (simp add: x_def pending_def)
  moreover have "set_task w (\<lambda>t. t\<lparr>bq_msg_size := n\<rparr>) s1 = ?s2" by (simp add: x_def f)
  ultimately have "pend_task_wakeup (set_task w (\<lambda>t. t\<lparr>bq_msg_size := n\<rparr>) s1) w = wake_task BLK_FINISH ?s2 w"
    by (simp add: pend_task_wakeup_eq)
  then show "buf_queue_send s q data n = (RHINO_SUCCESS, core_sched (wake_task BLK_FINISH ?s2 w))"
    using ty l n by (simp add: buf_queue_send_def Let_def s1_def)
  have ok1: "kern_ok s1" by (rule kern_ok_data [OF ok]) (simp_all add: s1_def write_mem_def)
  show "kern_ok (core_sched (wake_task BLK_FINISH ?s2 w))"
    by (rule obj_wake_with_ok [OF ok1, where ob = q]) (simp_all add: f l ty x_def)
  have "no_lost RHINO_BUF_QUEUE_OBJ_TYPE bufq_avail s1"
    by (rule bufq.no_lost_cong [OF bufq_invD(1) [OF nl]]) (simp_all add: f bufq_avail_def)
  then have "no_lost RHINO_BUF_QUEUE_OBJ_TYPE bufq_avail ?s2" by (rule bufq.retask) (simp add: f x_def)
  then have "no_lost RHINO_BUF_QUEUE_OBJ_TYPE bufq_avail (wake_task BLK_FINISH ?s2 w)"
    using bufq.wake [of ?s2 BLK_FINISH w] by simp
  then show "bufq_inv (wake_task BLK_FINISH ?s2 w)"
    by (rule bufq_invI [OF nl]) (simp add: f list_frameD(4) [OF list_frame_wake])
qed

text \<open>A message for the buffer.\<close>

lemma send_to_buffer:
  fixes data :: "nat \<Rightarrow> u8"
  assumes rep: "bufq_rep (bufqs s q) ms" and ty: "obj_type (blks s q) = RHINO_BUF_QUEUE_OBJ_TYPE"
    and l: "blk_list (blks s q) = []" and n: "n \<le> max_msg_size (bufqs s q)" "n \<noteq> 0"
  defines "rb \<equiv> bq_ringbuf (bufqs s q)"
    and "s' \<equiv> snd (buf_queue_send s q data n)"
  shows "has_room rb n \<Longrightarrow> fst (buf_queue_send s q data n) = RHINO_SUCCESS
      \<and> bufq_rep (bufqs s' q) (ms @ [stored rb data n]) \<and> max_msg_size (bufqs s' q) = max_msg_size (bufqs s q)"
    and "\<not> has_room rb n \<Longrightarrow> fst (buf_queue_send s q data n) \<noteq> RHINO_SUCCESS \<and> s' = s"
    and "blks s' = blks s" and "k \<noteq> q \<Longrightarrow> bufqs s' k = bufqs s k"
    and "tasks s' = tasks s" and "g_ready_queue s' = g_ready_queue s" and "g_tick_head s' = g_tick_head s"
    and "mutexes s' = mutexes s" and "g_active_task s' = g_active_task s"
    and "g_sched_lock s' = g_sched_lock s" and "g_intrpt_nested_level s' = g_intrpt_nested_level s"
proof -
  have c: "chan_rep rb ms" and b: "rb_blk_size rb = max_msg_size (bufqs s q)" and cn: "bq_cur_num (bufqs s q) = length ms"
    using rep by (simp_all add: bufq_rep_def rb_def)
  obtain err rb' where p: "ringbuf_push rb data n = (err, rb')" by fastforce
  have e: "buf_queue_send s q data n = (let s = set_bufq q (\<lambda>q. q\<lparr>bq_ringbuf := rb'\<rparr>) s in
       if err \<noteq> RHINO_SUCCESS then (if err = RHINO_RINGBUF_FULL then RHINO_BUF_QUEUE_FULL else err, s)
           else
             let s = set_bufq q (\<lambda>q. q\<lparr>bq_cur_num := bq_cur_num q + 1\<rparr>) s;
                 s = (if bq_peak_num (bufqs s q) < bq_cur_num (bufqs s q)
                      then set_bufq q (\<lambda>q. q\<lparr>bq_peak_num := bq_cur_num q\<rparr>) s else s);
                 s = (if min_free_buf_size (bufqs s q) > rb_freesize (bq_ringbuf (bufqs s q))
                      then set_bufq q (\<lambda>q. q\<lparr>min_free_buf_size := rb_freesize (bq_ringbuf q)\<rparr>) s
                      else s)
             in (RHINO_SUCCESS, s))"
    using ty l n p by (simp add: buf_queue_send_def rb_def)
  show "blks s' = blks s" "k \<noteq> q \<Longrightarrow> bufqs s' k = bufqs s k"
    "tasks s' = tasks s" "g_ready_queue s' = g_ready_queue s" "g_tick_head s' = g_tick_head s"
    "mutexes s' = mutexes s" "g_active_task s' = g_active_task s"
    "g_sched_lock s' = g_sched_lock s" "g_intrpt_nested_level s' = g_intrpt_nested_level s"
    by (simp_all add: s'_def e Let_def)
  show "has_room rb n \<Longrightarrow> fst (buf_queue_send s q data n) = RHINO_SUCCESS
      \<and> bufq_rep (bufqs s' q) (ms @ [stored rb data n]) \<and> max_msg_size (bufqs s' q) = max_msg_size (bufqs s q)"
    using chan_push(1) [OF c, of n data] b cn by (simp add: s'_def e Let_def p bufq_rep_def)
  show "fst (buf_queue_send s q data n) \<noteq> RHINO_SUCCESS \<and> s' = s" if "\<not> has_room rb n"
  proof -
    have r: "err \<noteq> RHINO_SUCCESS" "rb' = rb" using chan_push(2) [OF c that, of data] p by auto
    have "(bufqs s q)\<lparr>bq_ringbuf := rb\<rparr> = bufqs s q" by (simp add: rb_def)
    then have "set_bufq q (\<lambda>q. q\<lparr>bq_ringbuf := rb\<rparr>) s = s" by (intro kstate.equality) (simp_all add: fun_eq_iff)
    then show ?thesis using r by (simp add: s'_def e)
  qed
qed

lemma buf_queue_send_ok:
  assumes ok: "kern_ok s" and nl: "bufq_inv s"
  shows "kern_ok (snd (buf_queue_send s q data n)) \<and> bufq_inv (snd (buf_queue_send s q data n))"
proof (cases "obj_type (blks s q) \<noteq> RHINO_BUF_QUEUE_OBJ_TYPE \<or> n > max_msg_size (bufqs s q) \<or> n = 0")
  case True
  then have "snd (buf_queue_send s q data n) = s" by (elim disjE) (simp_all add: buf_queue_send_def)
  with ok nl show ?thesis by simp
next
  case False
  then have g: "obj_type (blks s q) = RHINO_BUF_QUEUE_OBJ_TYPE" "n \<le> max_msg_size (bufqs s q)" "n \<noteq> 0" by auto
  show ?thesis
  proof (cases "blk_list (blks s q)")
    case (Cons w ws)
    show ?thesis using send_to_waiter(1-3) [OF ok nl g(1) Cons g(2,3), where data = data] by simp
  next
    case Nil
    obtain ms where ms: "bufq_rep (bufqs s q) ms" using bufq_invD(2) [OF nl g(1)] by blast
    note B = send_to_buffer [OF ms g(1) Nil g(2,3), where data = data]
    let ?s' = "snd (buf_queue_send s q data n)"
    have "kern_ok ?s'" by (rule kern_ok_data [OF ok]) (rule B)+
    moreover have "no_lost RHINO_BUF_QUEUE_OBJ_TYPE bufq_avail ?s'"
      by (rule bufq.restock [OF bufq_invD(1) [OF nl] B(3) Nil]) (simp add: bufq_avail_def B(4))
    moreover have "\<exists>ms. bufq_rep (bufqs ?s' q) ms"
      using B(1,2) ms by (cases "has_room (bq_ringbuf (bufqs s q)) n") auto
    ultimately show ?thesis
      using B(3,4) by (intro conjI bufq_invI [OF nl]) (simp, simp, metis)
  qed
qed

lemma krhino_buf_queue_recv_ok:
  assumes ok: "kern_ok s" and mw: "may_wait s d" and nl: "bufq_inv s"
  shows "kern_ok (snd (krhino_buf_queue_recv s q d m p)) \<and> bufq_inv (snd (krhino_buf_queue_recv s q d m p))"
proof (cases "q = NULL \<or> m = NULL \<or> p = NULL \<or> (g_intrpt_nested_level s > 0 \<and> d \<noteq> RHINO_NO_WAIT)
    \<or> obj_type (blks s q) \<noteq> RHINO_BUF_QUEUE_OBJ_TYPE")
  case True
  then have "snd (krhino_buf_queue_recv s q d m p) = s" by (elim disjE) (simp_all add: krhino_buf_queue_recv_def)
  with ok nl show ?thesis by simp
next
  case False
  then have g: "q \<noteq> NULL" "m \<noteq> NULL" "p \<noteq> NULL" "\<not> (g_intrpt_nested_level s > 0 \<and> d \<noteq> RHINO_NO_WAIT)"
    and ty: "obj_type (blks s q) = RHINO_BUF_QUEUE_OBJ_TYPE" by auto
  obtain ms where ms: "bufq_rep (bufqs s q) ms" using bufq_invD(2) [OF nl ty] by blast
  then have c: "chan_rep (bq_ringbuf (bufqs s q)) ms" by (simp add: bufq_rep_def)
  note em = chan_empty_iff [OF c]
  let ?s' = "snd (krhino_buf_queue_recv s q d m p)"
  show ?thesis
  proof (cases ms)
    case (Cons x xs)
    obtain rb' where r: "ringbuf_pop (bq_ringbuf (bufqs s q)) = (RHINO_SUCCESS, x, length x, rb')"
      "chan_rep rb' xs" "rb_blk_size rb' = rb_blk_size (bq_ringbuf (bufqs s q))"
      using chan_pop [OF c [unfolded Cons]] by blast
    let ?Q = "(bufqs s q)\<lparr>bq_ringbuf := rb', bq_cur_num := bq_cur_num (bufqs s q) - 1\<rparr>"
    have F: "g_ready_queue ?s' = g_ready_queue s" "tasks ?s' = tasks s" "blks ?s' = blks s"
      "g_tick_head ?s' = g_tick_head s" "mutexes ?s' = mutexes s" "g_active_task ?s' = g_active_task s"
      "g_sched_lock ?s' = g_sched_lock s" "g_intrpt_nested_level ?s' = g_intrpt_nested_level s"
      and Q: "bufqs ?s' k = (if k = q then ?Q else bufqs s k)" for k
      using g ty em Cons r by (cases "d = RHINO_NO_WAIT"; simp add: krhino_buf_queue_recv_def Let_def write_mem_def)+
    have rep: "bufq_rep ?Q xs" using ms r Cons by (simp add: bufq_rep_def)
    have "no_lost RHINO_BUF_QUEUE_OBJ_TYPE bufq_avail ?s'"
      by (rule bufq.take_away [OF bufq_invD(1) [OF nl] F(3)]) (use em Cons in \<open>auto simp: bufq_avail_def Q split: if_splits\<close>)
    then have "bufq_inv ?s'" by (rule bufq_invI [OF nl]) (use rep F(3) in \<open>auto simp: Q\<close>)
    moreover have "kern_ok ?s'" by (rule kern_ok_data [OF ok]) (rule F)+
    ultimately show ?thesis by simp
  next
    case Nil
    show ?thesis
    proof (cases "d = RHINO_NO_WAIT \<or> g_sched_lock s > 0")
      case True
      then have e: "?s' = umem_update (\<lambda>u. u(p := 0)) s"
        using g ty em Nil by (cases "d = RHINO_NO_WAIT") (simp_all add: krhino_buf_queue_recv_def)
      have "kern_ok ?s'" by (rule kern_ok_data [OF ok]) (simp_all add: e)
      moreover have "no_lost RHINO_BUF_QUEUE_OBJ_TYPE bufq_avail ?s'"
        by (rule bufq.no_lost_cong [OF bufq_invD(1) [OF nl]]) (simp_all add: e bufq_avail_def)
      then have "bufq_inv ?s'" by (rule bufq_invI [OF nl]) (simp add: e)
      ultimately show ?thesis by simp
    next
      case False
      let ?a = "g_active_task s"
      let ?s1 = "s\<lparr>tasks := (tasks s)(?a := (tasks s ?a)\<lparr>msg := m\<rparr>)\<rparr>"
      have i: "g_intrpt_nested_level s = 0" "g_sched_lock s = 0" using False g(4) by (auto simp: not_gr_zero_word)
      have "set_task ?a (\<lambda>t. t\<lparr>msg := m\<rparr>) s = ?s1" by simp
      then have e: "?s' = core_sched (pend_to_blk_obj ?s1 q (g_active_task ?s1) d)"
        using False g ty em Nil i unfolding krhino_buf_queue_recv_def Let_def by (simp only: if_False simp_thms snd_conv) simp
      have k1: "kern_ok ?s1" by (rule kern_ok_retask [OF ok]) simp_all
      have n1: "no_lost RHINO_BUF_QUEUE_OBJ_TYPE bufq_avail ?s1"
        by (rule bufq.retask [OF bufq_invD(1) [OF nl]]) simp
      have "kern_ok ?s'" unfolding e by (rule obj_block_ok [OF k1]) (use may_waitD [OF mw _ i(1)] False i ty in simp_all)
      moreover have "no_lost RHINO_BUF_QUEUE_OBJ_TYPE bufq_avail ?s'"
        unfolding e by (rule bufq.block [OF n1]) (simp add: bufq_avail_def em Nil)
      then have "bufq_inv ?s'"
        by (rule bufq_invI [OF nl]) (simp add: e pend_to_blk_obj_eq split: if_splits)
      ultimately show ?thesis by simp
    qed
  qed
qed

lemma krhino_buf_queue_del_ok:
  assumes ok: "kern_ok s" and nl: "bufq_inv s"
  shows "kern_ok (snd (krhino_buf_queue_del s q)) \<and> bufq_inv (snd (krhino_buf_queue_del s q))"
proof (cases "q \<noteq> NULL \<and> g_intrpt_nested_level s = 0 \<and> obj_type (blks s q) = RHINO_BUF_QUEUE_OBJ_TYPE
    \<and> buf_queue_mm_alloc_flag (bufqs s q) = K_OBJ_STATIC_ALLOC")
  case False
  then have "snd (krhino_buf_queue_del s q) = s" by (auto simp: krhino_buf_queue_del_def word_neq_0_conv)
  with ok nl show ?thesis by simp
next
  case True
  then have nm: "obj_type (blks s q) \<noteq> RHINO_MUTEX_OBJ_TYPE" by simp
  note R = obj_retire_ok [OF ok nm]
  let ?r = "obj_retire s q"
  let ?s2 = "set_bufq q (\<lambda>Q. Q\<lparr>bq_ringbuf := ringbuf_reset (bq_ringbuf Q)\<rparr>)
    (g_kobj_list_update (kobj_buf_queue_head_update (removeAll q)) ?r)"
  have e: "snd (krhino_buf_queue_del s q) = core_sched ?s2"
    using True by (simp add: krhino_buf_queue_del_def obj_retire_def Let_def)
  have n: "no_lost RHINO_BUF_QUEUE_OBJ_TYPE bufq_avail ?r" using bufq.retire [OF bufq_invD(1) [OF nl] ok nm] by simp
  have "no_lost RHINO_BUF_QUEUE_OBJ_TYPE bufq_avail ?s2"
    by (rule bufq.restock [OF n, of _ q]) (simp_all add: bufq_avail_def R(4))
  then have "bufq_inv ?s2"
    by (rule bufq_invI [OF nl]) (auto simp: R(5) list_frameD(4) [OF R(2)] split: if_splits)
  moreover have "kern_ok (core_sched ?s2) = kern_ok (core_sched ?r)"
    by (rule kern_ok_cong) (simp_all add: core_sched_active)
  ultimately show ?thesis unfolding e using R(1) by simp
qed

lemma krhino_buf_queue_flush_ok:
  assumes ok: "kern_ok s" and nl: "bufq_inv s"
  shows "kern_ok (snd (krhino_buf_queue_flush s q)) \<and> bufq_inv (snd (krhino_buf_queue_flush s q))"
proof (cases "q \<noteq> NULL \<and> g_intrpt_nested_level s = 0 \<and> obj_type (blks s q) = RHINO_BUF_QUEUE_OBJ_TYPE")
  case False
  then have "snd (krhino_buf_queue_flush s q) = s" by (auto simp: krhino_buf_queue_flush_def word_neq_0_conv)
  with ok nl show ?thesis by simp
next
  case True
  let ?s' = "snd (krhino_buf_queue_flush s q)"
  have F: "g_ready_queue ?s' = g_ready_queue s" "tasks ?s' = tasks s" "blks ?s' = blks s"
    "g_tick_head ?s' = g_tick_head s" "mutexes ?s' = mutexes s" "g_active_task ?s' = g_active_task s"
    "g_sched_lock ?s' = g_sched_lock s" "g_intrpt_nested_level ?s' = g_intrpt_nested_level s"
    and other: "k \<noteq> q \<Longrightarrow> bufqs ?s' k = bufqs s k"
    and Q: "bq_ringbuf (bufqs ?s' q) = ringbuf_reset (bq_ringbuf (bufqs s q))" "bq_cur_num (bufqs ?s' q) = 0"
      "max_msg_size (bufqs ?s' q) = max_msg_size (bufqs s q)" for k
    using True by (simp_all add: krhino_buf_queue_flush_def Let_def)
  obtain ms where ms: "bufq_rep (bufqs s q) ms" using bufq_invD(2) [OF nl, of q] True by blast
  then have c: "chan_rep (bq_ringbuf (bufqs s q)) ms" by (simp add: bufq_rep_def)
  have rep: "bufq_rep (bufqs ?s' q) []" using chan_reset [OF c] ms by (simp add: bufq_rep_def Q)
  have em: "ringbuf_is_empty (bq_ringbuf (bufqs ?s' q))" using chan_empty_iff [OF chan_reset(1) [OF c]] by (simp add: Q)
  have "no_lost RHINO_BUF_QUEUE_OBJ_TYPE bufq_avail ?s'"
  proof (rule bufq.take_away [OF bufq_invD(1) [OF nl] F(3)])
    fix k t
    assume "bufq_avail ?s' k t"
    then show "bufq_avail s k t" using em other [of k] by (cases "k = q") (simp_all add: bufq_avail_def)
  qed
  then have "bufq_inv ?s'"
    by (rule bufq_invI [OF nl]) (use rep F(3) other in metis)
  moreover have "kern_ok ?s'" by (rule kern_ok_data [OF ok]) (rule F)+
  ultimately show ?thesis by simp
qed

text \<open>
  A new buffer queue is empty. For the type FIX the product of size and number must not wrap: then
  the caller's buffer could not exist either.
\<close>

lemma buf_queue_create_inv:
  assumes nl: "bufq_inv s"
    and ty: "ty = RINGBUF_TYPE_DYN \<or> ty = RINGBUF_TYPE_FIX \<and> max_msg dvd len"
  shows "bufq_inv (snd (buf_queue_create s q name buf len max_msg fl ty))"
proof (cases "q = NULL \<or> name = NULL \<or> buf = NULL \<or> max_msg = 0 \<or> len = 0")
  case True
  with nl show ?thesis by (auto simp: buf_queue_create_def)
next
  case False
  let ?b = "(blks s q)\<lparr>blk_list := [], blk_policy := BLK_POLICY_PRI, obj_type := RHINO_BUF_QUEUE_OBJ_TYPE\<rparr>"
  let ?rb = "ringbuf_init (mem_at s buf len) ty max_msg"
  let ?s' = "snd (buf_queue_create s q name buf len max_msg fl ty)"
  have B: "blks ?s' = (blks s)(q := ?b)" and S: "k \<noteq> q \<Longrightarrow> bufqs ?s' k = bufqs s k" for k
    using False by (simp_all add: buf_queue_create_def Let_def)
  have Q: "bq_ringbuf (bufqs ?s' q) = ?rb" "bq_cur_num (bufqs ?s' q) = 0" "max_msg_size (bufqs ?s' q) = max_msg"
    using False by (simp_all add: buf_queue_create_def Let_def)
  have "no_lost RHINO_BUF_QUEUE_OBJ_TYPE bufq_avail ?s'"
    by (rule bufq.created [OF bufq_invD(1) [OF nl] B]) (simp_all add: bufq_avail_def S)
  then show ?thesis
  proof (rule bufq_invI [OF nl])
    fix k
    assume t: "obj_type (blks ?s' k) = RHINO_BUF_QUEUE_OBJ_TYPE"
    have "0 < length (mem_at s buf len)" using False by simp
    then have ne: "mem_at s buf len \<noteq> []" by force
    have "chan_rep ?rb []"
    proof (cases "ty = RINGBUF_TYPE_DYN")
      case True
      then show ?thesis
        using dyn_rep_init [OF ne, of max_msg]
        by (simp add: chan_rep_def init_ok [OF ne] RINGBUF_TYPE_DYN_def RINGBUF_TYPE_FIX_def)
    next
      case fx: False
      then show ?thesis
        using fix_rep_init [OF ne, of max_msg] ty False by (simp add: chan_rep_def init_ok [OF ne])
    qed
    then have "bufq_rep (bufqs ?s' q) []" using init_ok(6) [OF ne] by (simp add: bufq_rep_def Q)
    then show "bufqs ?s' k = bufqs s k \<and> obj_type (blks s k) = RHINO_BUF_QUEUE_OBJ_TYPE
        \<or> (\<exists>ms. bufq_rep (bufqs ?s' k) ms)"
      using t S [of k] by (cases "k = q") (auto simp: B)
  qed
qed

lemma buf_queue_create_ok:
  assumes ok: "kern_ok s" and nl: "bufq_inv s"
    and f: "obj_type (blks s q) \<noteq> RHINO_MUTEX_OBJ_TYPE" "blk_list (blks s q) = []"
    and ty: "ty = RINGBUF_TYPE_DYN \<or> ty = RINGBUF_TYPE_FIX \<and> max_msg dvd len"
  shows "kern_ok (snd (buf_queue_create s q name buf len max_msg fl ty))
    \<and> bufq_inv (snd (buf_queue_create s q name buf len max_msg fl ty))"
proof (cases "q = NULL \<or> name = NULL \<or> buf = NULL \<or> max_msg = 0 \<or> len = 0")
  case True
  with ok nl show ?thesis by (auto simp: buf_queue_create_def)
next
  case False
  let ?b = "(blks s q)\<lparr>blk_list := [], blk_policy := BLK_POLICY_PRI, obj_type := RHINO_BUF_QUEUE_OBJ_TYPE\<rparr>"
  have "kern_ok (s\<lparr>blks := (blks s)(q := ?b)\<rparr>)" by (rule obj_create_ok [OF ok f]) simp_all
  then have "kern_ok (snd (buf_queue_create s q name buf len max_msg fl ty))"
    by (rule kern_ok_data) (use False in \<open>simp_all add: buf_queue_create_def Let_def\<close>)
  then show ?thesis using buf_queue_create_inv [OF nl ty] by simp
qed

lemma krhino_buf_queue_create_ok:
  assumes "kern_ok s" and "bufq_inv s" and "obj_type (blks s q) \<noteq> RHINO_MUTEX_OBJ_TYPE" and "blk_list (blks s q) = []"
  shows "kern_ok (snd (krhino_buf_queue_create s q name buf len n)) \<and> bufq_inv (snd (krhino_buf_queue_create s q name buf len n))"
    and "n * k < 2 ^ 32 \<Longrightarrow> kern_ok (snd (krhino_fix_buf_queue_create s q name buf n k))
      \<and> bufq_inv (snd (krhino_fix_buf_queue_create s q name buf n k))"
  using buf_queue_create_ok [OF assms, of RINGBUF_TYPE_DYN] buf_queue_create_ok [OF assms, of RINGBUF_TYPE_FIX]
  by (simp_all add: krhino_buf_queue_create_def krhino_fix_buf_queue_create_def)

text \<open>Receiving the first message.\<close>

lemma recv_from_buffer:
  assumes "bufq_rep (bufqs s q) (x # xs)" and "obj_type (blks s q) = RHINO_BUF_QUEUE_OBJ_TYPE"
    and "q \<noteq> NULL" and "m \<noteq> NULL" and "p \<noteq> NULL"
  defines "s' \<equiv> snd (krhino_buf_queue_recv s q RHINO_NO_WAIT m p)"
  shows "fst (krhino_buf_queue_recv s q RHINO_NO_WAIT m p) = Some RHINO_SUCCESS"
    and "take (length x) (bmem s' m) = x" and "umem s' p = word_of_nat (length x)" and "bufq_rep (bufqs s' q) xs"
proof -
  have c: "chan_rep (bq_ringbuf (bufqs s q)) (x # xs)" using assms(1) by (simp add: bufq_rep_def)
  obtain rb' where "ringbuf_pop (bq_ringbuf (bufqs s q)) = (RHINO_SUCCESS, x, length x, rb')"
    "chan_rep rb' xs" "rb_blk_size rb' = rb_blk_size (bq_ringbuf (bufqs s q))"
    using chan_pop [OF c] by blast
  then show "fst (krhino_buf_queue_recv s q RHINO_NO_WAIT m p) = Some RHINO_SUCCESS"
    "take (length x) (bmem s' m) = x" "umem s' p = word_of_nat (length x)" "bufq_rep (bufqs s' q) xs"
    using assms(1-5) chan_empty_iff [OF c]
    by (simp_all add: s'_def krhino_buf_queue_recv_def Let_def write_mem_def bufq_rep_def)
qed

section \<open>What the operations do\<close>

text \<open>C31: A buffer queue refines a first-in first-out list of byte messages. Without waiting tasks a
  message that is sent is appended when the buffer has room for it and refused otherwise; the
  message that is received is the first one, with its bytes and its size.\<close>

theorem buf_queue_refines_fifo:
  assumes "bufq_rep (bufqs s q) ms" and "obj_type (blks s q) = RHINO_BUF_QUEUE_OBJ_TYPE"
    and "q \<noteq> NULL" and "m \<noteq> NULL" and "p \<noteq> NULL" and "blk_list (blks s q) = []"
    and "0 < n" and "n \<le> max_msg_size (bufqs s q)"
  shows "(let (r, s') = krhino_buf_queue_send s q m n
      in if has_room (bq_ringbuf (bufqs s q)) n
         then r = RHINO_SUCCESS \<and> bufq_rep (bufqs s' q) (ms @ [stored (bq_ringbuf (bufqs s q)) (mem_byte s m) n])
         else r \<noteq> RHINO_SUCCESS \<and> s' = s)
    \<and> (let (r, s') = krhino_buf_queue_recv s q RHINO_NO_WAIT m p
      in case ms of [] \<Rightarrow> r = Some RHINO_NO_PEND_WAIT \<and> umem s' p = 0 \<and> bufqs s' = bufqs s
         | x # xs \<Rightarrow> r = Some RHINO_SUCCESS \<and> take (length x) (bmem s' m) = x
             \<and> umem s' p = word_of_nat (length x) \<and> bufq_rep (bufqs s' q) xs)"
proof -
  have c: "chan_rep (bq_ringbuf (bufqs s q)) ms" using assms(1) by (simp add: bufq_rep_def)
  have e: "krhino_buf_queue_send s q m n = buf_queue_send s q (mem_byte s m) n"
    using assms(3,4) by (simp add: krhino_buf_queue_send_def)
  have "n \<noteq> 0" using assms(7) by simp
  note B = send_to_buffer [OF assms(1,2,6,8) this, where data = "mem_byte s m"]
  have "let (r, s') = krhino_buf_queue_send s q m n
      in if has_room (bq_ringbuf (bufqs s q)) n
         then r = RHINO_SUCCESS \<and> bufq_rep (bufqs s' q) (ms @ [stored (bq_ringbuf (bufqs s q)) (mem_byte s m) n])
         else r \<noteq> RHINO_SUCCESS \<and> s' = s"
    using B(1,2) unfolding e by (simp add: case_prod_beta Let_def)
  moreover have "let (r, s') = krhino_buf_queue_recv s q RHINO_NO_WAIT m p
      in case ms of [] \<Rightarrow> r = Some RHINO_NO_PEND_WAIT \<and> umem s' p = 0 \<and> bufqs s' = bufqs s
         | x # xs \<Rightarrow> r = Some RHINO_SUCCESS \<and> take (length x) (bmem s' m) = x
             \<and> umem s' p = word_of_nat (length x) \<and> bufq_rep (bufqs s' q) xs"
  proof (cases ms)
    case Nil
    then show ?thesis using assms(2-5) chan_empty_iff [OF c] by (simp add: krhino_buf_queue_recv_def)
  next
    case (Cons x xs)
    then show ?thesis
      using recv_from_buffer [OF assms(1) [unfolded Cons] assms(2-5)] by (simp add: case_prod_beta Let_def)
  qed
  ultimately show ?thesis by blast
qed

text \<open>A message sent while tasks wait is copied into the buffer of the first of them, which
  becomes ready; when it runs again its \<^verbatim>\<open>krhino_buf_queue_recv\<close> reports success and the size.\<close>

theorem buf_queue_send_to_waiter:
  assumes "kern_ok s" and "bufq_inv s" and "obj_type (blks s q) = RHINO_BUF_QUEUE_OBJ_TYPE"
    and "q \<noteq> NULL" and "m \<noteq> NULL" and "blk_list (blks s q) = w # ws"
    and "0 < n" and "n \<le> max_msg_size (bufqs s q)"
  shows "let s' = snd (krhino_buf_queue_send s q m n)
    in \<not> pending (tasks s' w) \<and> blk_list (blks s' q) = ws \<and> bufqs s' = bufqs s
       \<and> take n (bmem s' (msg (tasks s w))) = map (mem_byte s m) [0..<n]
       \<and> (g_active_task s' = w \<longrightarrow> fst (krhino_buf_queue_recv_resume s' p) = RHINO_SUCCESS
            \<and> umem (snd (krhino_buf_queue_recv_resume s' p)) p = word_of_nat n)"
proof -
  have "n \<noteq> 0" using assms(7) by simp
  note W = send_to_waiter [OF assms(1-3,6,8) this, where data = "mem_byte s m"]
  let ?s1 = "write_mem s (msg (tasks s w)) (map (mem_byte s m) [0..<n])"
  let ?x = "(tasks s w)\<lparr>bq_msg_size := n\<rparr>"
  let ?s' = "wake_task BLK_FINISH (?s1\<lparr>tasks := (tasks ?s1)(w := ?x)\<rparr>) w"
  have e: "snd (krhino_buf_queue_send s q m n) = core_sched ?s'"
    using W(1) assms(4,5) by (simp add: krhino_buf_queue_send_def)
  have d: "w \<notin> set ws" using blk_ok_distinct [OF lists_okD(2) [OF kern_okD(3) [OF assms(1)]], of q] assms(6) by simp
  have "bmem ?s' = (bmem s)(msg (tasks s w) := map (mem_byte s m) [0..<n] @ drop n (bmem s (msg (tasks s w))))"
    by (simp add: list_frameD(7) [OF list_frame_wake]) (simp add: write_mem_def)
  moreover have "bq_msg_size (woken b y) = bq_msg_size y" for b y by (simp add: woken_def)
  ultimately show ?thesis
    using assms(6) d
    by (simp add: e W(4-6) list_frameD(4) [OF list_frame_wake] krhino_buf_queue_recv_resume_def
        pend_state_end_proc_def Let_def)
qed

text \<open>C32: In a buffer queue of type FIX a message shorter than a block is not handled consistently: a
  task that is already waiting is told the size that was sent, but when nobody waits a whole block
  is copied from the sender, past the end of its message, and the receiver is told the size of a
  block.\<close>

theorem fix_buf_queue_short_message:
  assumes "bufq_rep (bufqs s q) []" and "rb_type (bq_ringbuf (bufqs s q)) = RINGBUF_TYPE_FIX"
    and "max_msg_size (bufqs s q) \<le> rb_freesize (bq_ringbuf (bufqs s q))"
    and "obj_type (blks s q) = RHINO_BUF_QUEUE_OBJ_TYPE" and "q \<noteq> NULL" and "m \<noteq> NULL" and "p \<noteq> NULL"
    and "blk_list (blks s q) = []" and "0 < n" and "n < max_msg_size (bufqs s q)"
  shows "let s' = snd (krhino_buf_queue_send s q m n); s'' = snd (krhino_buf_queue_recv s' q RHINO_NO_WAIT m p)
    in umem s'' p = word_of_nat (max_msg_size (bufqs s q))
       \<and> take (max_msg_size (bufqs s q)) (bmem s'' m) = map (mem_byte s m) [0..<max_msg_size (bufqs s q)]"
proof -
  let ?r = "bq_ringbuf (bufqs s q)" and ?k = "max_msg_size (bufqs s q)"
  let ?s' = "snd (krhino_buf_queue_send s q m n)"
  have b: "rb_blk_size ?r = ?k" using assms(1) by (simp add: bufq_rep_def)
  have h: "has_room ?r n" using assms(2,3) b by (simp add: has_room_def)
  have n: "n \<noteq> 0" "n \<le> ?k" using assms(9,10) by simp_all
  note B = send_to_buffer [OF assms(1,4,8) n(2,1), where data = "mem_byte s m"]
  have e: "krhino_buf_queue_send s q m n = buf_queue_send s q (mem_byte s m) n"
    using assms(5,6) by (simp add: krhino_buf_queue_send_def)
  have st: "stored ?r (mem_byte s m) n = map (mem_byte s m) [0..<?k]" using assms(2) b by (simp add: stored_def)
  have rep: "bufq_rep (bufqs ?s' q) [map (mem_byte s m) [0..<?k]]" and mx: "max_msg_size (bufqs ?s' q) = ?k"
    using B(1) [OF h] by (simp_all add: e st)
  have "obj_type (blks ?s' q) = RHINO_BUF_QUEUE_OBJ_TYPE" using assms(4) by (simp add: e B(3))
  from recv_from_buffer [OF rep this assms(5-7)] show ?thesis by (simp add: Let_def)
qed

text \<open>No task waits for a buffer queue that holds messages, every buffer queue is a well-formed
  buffer, and no operation on buffer queues breaks this or the kernel invariant.\<close>

theorem buf_queue_ops_inv:
  assumes "kern_ok s" and "bufq_inv s" and "prio (tasks s (g_active_task s)) \<noteq> RHINO_IDLE_PRI"
    and "s' \<in> {snd (krhino_buf_queue_send s q m n), snd (krhino_buf_queue_recv s q ticks m p),
      snd (krhino_buf_queue_flush s q), snd (krhino_buf_queue_del s q)}"
  shows "kern_ok s' \<and> bufq_inv s'"
  using assms(4) buf_queue_send_ok [OF assms(1,2)] krhino_buf_queue_recv_ok [OF assms(1) may_wait_task [OF assms(3)] assms(2)]
    krhino_buf_queue_flush_ok [OF assms(1,2)] krhino_buf_queue_del_ok [OF assms(1,2)] assms(1,2)
  by (auto simp: krhino_buf_queue_send_def)

section \<open>Instances\<close>

lemma ex_bufq_rep: "bufq_rep (bufqs ex_state q) []"
  and ex_bufq_room: "rb_type (bq_ringbuf (bufqs ex_state q)) = RINGBUF_TYPE_FIX"
    "rb_freesize (bq_ringbuf (bufqs ex_state q)) = 16" "max_msg_size (bufqs ex_state q) = 4"
proof -
  have f: "fix_rep ex_rb []" unfolding ex_rb_def by (rule fix_rep_init) simp_all
  have "replicate 16 (0 :: u8) \<noteq> []" by simp
  note i = init_ok [OF this, of RINGBUF_TYPE_FIX 4, folded ex_rb_def]
  show "bufq_rep (bufqs ex_state q) []"
    using f i by (simp add: bufq_rep_def chan_rep_def ex_state_def)
  show "rb_type (bq_ringbuf (bufqs ex_state q)) = RINGBUF_TYPE_FIX"
    "rb_freesize (bq_ringbuf (bufqs ex_state q)) = 16" "max_msg_size (bufqs ex_state q) = 4"
    using i by (simp_all add: ex_state_def)
qed

lemma ex_bufq_inv: "bufq_inv ex_state"
proof -
  have "no_lost RHINO_BUF_QUEUE_OBJ_TYPE bufq_avail ex_state"
    using ex_bufq_rep chan_empty_iff unfolding no_lost_def bufq_avail_def bufq_rep_def by blast
  then show ?thesis using ex_bufq_rep unfolding bufq_inv_def by blast
qed

lemma ex_bufq: "obj_type (blks ex_state 400) = RHINO_BUF_QUEUE_OBJ_TYPE" "blk_list (blks ex_state 400) = [11]"
  "obj_type (blks ex_state 401) = RHINO_BUF_QUEUE_OBJ_TYPE" "blk_list (blks ex_state 401) = []"
  by (simp_all add: ex_eval)

theorem buf_queue_refines_fifo_witness:
  "fst (krhino_buf_queue_send ex_state 401 5000 4) = RHINO_SUCCESS
   \<and> fst (krhino_buf_queue_recv ex_state 401 RHINO_NO_WAIT 5000 908) = Some RHINO_NO_PEND_WAIT"
proof -
  have "rb_blk_size (bq_ringbuf (bufqs ex_state 401)) = 4" using ex_bufq_rep ex_bufq_room by (simp add: bufq_rep_def)
  then have "has_room (bq_ringbuf (bufqs ex_state 401)) 4" by (simp add: has_room_def ex_bufq_room)
  then show ?thesis
    using buf_queue_refines_fifo [OF ex_bufq_rep ex_bufq(3) _ _ _ ex_bufq(4), of 5000 908 4]
    by (simp add: ex_bufq_room case_prod_beta Let_def)
qed

theorem buf_queue_send_to_waiter_witness:
  "let s' = snd (krhino_buf_queue_send ex_state 400 5000 3)
   in \<not> pending (tasks s' 11) \<and> blk_list (blks s' 400) = []"
  using buf_queue_send_to_waiter [OF ex_kern_ok ex_bufq_inv ex_bufq(1) _ _ ex_bufq(2), of 5000 3]
  by (simp add: ex_bufq_room Let_def)

theorem fix_buf_queue_short_message_witness:
  "let s' = snd (krhino_buf_queue_send ex_state 401 5000 1);
       s'' = snd (krhino_buf_queue_recv s' 401 RHINO_NO_WAIT 5000 908)
   in umem s'' 908 = 4"
  using fix_buf_queue_short_message [OF ex_bufq_rep ex_bufq_room(1) _ ex_bufq(3) _ _ _ ex_bufq(4), of 5000 908 1]
  by (simp add: ex_bufq_room Let_def)

theorem buf_queue_ops_inv_witness:
  "bufq_inv (snd (krhino_buf_queue_recv ex_state 400 RHINO_WAIT_FOREVER 5000 908))"
  using buf_queue_ops_inv [OF ex_kern_ok ex_bufq_inv ex_caller,
      where s' = "snd (krhino_buf_queue_recv ex_state 400 RHINO_WAIT_FOREVER 5000 908)" and q = 400
        and ticks = RHINO_WAIT_FOREVER and m = 5000 and p = 908] by simp

end
