(* ===== verification/Sys.thy ===== *)
theory Sys
  imports Task Sem Event Queue Buf_Queue
begin

text \<open>
  \<^verbatim>\<open>kernel/rhino/core/k_sys.c\<close>: initialisation and start of the kernel, entry and exit of
  interrupts, the time to the next timeout.

  Before the kernel runs there is no active task; \<open>boot_ok\<close> is the invariant of that phase. It holds
  after \<^verbatim>\<open>krhino_init\<close> on zeroed memory, is kept by the creation of tasks and objects, and
  \<^verbatim>\<open>krhino_start\<close> turns it into the kernel invariant.
\<close>

section \<open>Initialisation\<close>

definition tick_list_init :: "kstate \<Rightarrow> kstate" where
  "tick_list_init s = s\<lparr>g_tick_head := []\<rparr>"

definition kobj_list_init :: "kstate \<Rightarrow> kstate" where
  "kobj_list_init s = s\<lparr>g_kobj_list := \<lparr>kobj_task_head = [], kobj_mutex_head = [], kobj_mblkpool_head = [], kobj_sem_head = [],
     kobj_queue_head = [], kobj_event_head = [], kobj_buf_queue_head = []\<rparr>\<rparr>"

text \<open>The addresses the linker gives to the globals, the functions and the strings \<^verbatim>\<open>krhino_init\<close> uses.\<close>

record kimage =
  g_idle_task :: ptr
  g_idle_task_stack :: ptr
  idle_task :: ptr
  g_dyn_task :: ptr
  g_dyn_task_stack :: ptr
  dyn_mem_proc_task :: ptr
  g_res_sem :: ptr
  g_timer_queue :: ptr
  timer_queue_cb :: ptr
  g_timer_task :: ptr
  g_timer_task_stack :: ptr
  timer_task :: ptr
  str_idle :: ptr
  str_dyn :: ptr
  str_res :: ptr
  str_queue :: ptr
  str_timer :: ptr

definition RHINO_CONFIG_IDLE_TASK_STACK_SIZE :: u32 where "RHINO_CONFIG_IDLE_TASK_STACK_SIZE = 200"
definition RHINO_CONFIG_K_DYN_TASK_STACK :: u32 where "RHINO_CONFIG_K_DYN_TASK_STACK = 256"
definition RHINO_CONFIG_K_DYN_MEM_TASK_PRI :: nat where "RHINO_CONFIG_K_DYN_MEM_TASK_PRI = 6"
definition RHINO_CONFIG_TIMER_TASK_STACK_SIZE :: u32 where "RHINO_CONFIG_TIMER_TASK_STACK_SIZE = 300"
definition RHINO_CONFIG_TIMER_TASK_PRI :: nat where "RHINO_CONFIG_TIMER_TASK_PRI = 5"
definition RHINO_CONFIG_TIMER_MSG_NUM :: nat where "RHINO_CONFIG_TIMER_MSG_NUM = 20"

text \<open>\<^verbatim>\<open>sizeof(k_timer_queue_cb)\<close>: a pointer, a byte, and two 64-bit words with their alignment.\<close>

definition sizeof_timer_cb :: nat where "sizeof_timer_cb = 24"

definition dyn_mem_proc_task_start :: "kimage \<Rightarrow> kstate \<Rightarrow> kstate" where
  "dyn_mem_proc_task_start A s =
     snd (krhino_task_create s (g_dyn_task A) (str_dyn A) RHINO_CONFIG_K_DYN_MEM_TASK_PRI 0
       (g_dyn_task_stack A) RHINO_CONFIG_K_DYN_TASK_STACK (dyn_mem_proc_task A) 1)"

definition ktimer_init :: "kimage \<Rightarrow> kstate \<Rightarrow> kstate" where
  "ktimer_init A s =
     (let s = s\<lparr>g_timer_head := []\<rparr>;
          s = snd (krhino_fix_buf_queue_create s (g_timer_queue A) (str_queue A) (timer_queue_cb A)
                sizeof_timer_cb RHINO_CONFIG_TIMER_MSG_NUM)
      in snd (krhino_task_create s (g_timer_task A) (str_timer A) RHINO_CONFIG_TIMER_TASK_PRI 0
           (g_timer_task_stack A) RHINO_CONFIG_TIMER_TASK_STACK_SIZE (timer_task A) 1))"

text \<open>Left out: \<^verbatim>\<open>k_mm_init\<close>, whose regions come from the board, \<^verbatim>\<open>klist_init(&g_res_list)\<close>, the list of
  memory that deleted tasks leave to the task \<^verbatim>\<open>dyn_mem_proc_task\<close>, which no modelled call uses, and the checks
  of the stacks.\<close>

definition krhino_init :: "kimage \<Rightarrow> kstate \<Rightarrow> kstat \<times> kstate" where
  "krhino_init A s =
     (let s = s\<lparr>g_sys_stat := RHINO_STOPPED\<rparr>;
          s = g_ready_queue_update runqueue_init s;
          s = tick_list_init s;
          s = kobj_list_init s;
          s = snd (krhino_sem_create s (g_res_sem A) (str_res A) 0);
          s = dyn_mem_proc_task_start A s;
          s = snd (krhino_task_create s (g_idle_task A) (str_idle A) RHINO_IDLE_PRI 0
                (g_idle_task_stack A) RHINO_CONFIG_IDLE_TASK_STACK_SIZE (idle_task A) 1);
          s = ktimer_init A s
      in (RHINO_SUCCESS, s))"

text \<open>\<open>None\<close>: \<^verbatim>\<open>cpu_first_task_start\<close> does not return.\<close>

definition krhino_start :: "kstate \<Rightarrow> kstat option \<times> kstate" where
  "krhino_start s =
     (if g_sys_stat s = RHINO_STOPPED then
        let s = preferred_cpu_ready_task_get s;
            s = s\<lparr>g_active_task := g_preferred_ready_task s\<rparr>;
            s = s\<lparr>g_sys_stat := RHINO_RUNNING\<rparr>
        in (None, s)
      else (Some RHINO_RUNNING, s))"

section \<open>Interrupts\<close>

definition krhino_intrpt_enter :: "kstate \<Rightarrow> kstat \<times> kstate" where
  "krhino_intrpt_enter s = (RHINO_SUCCESS, s\<lparr>g_intrpt_nested_level := g_intrpt_nested_level s + 1\<rparr>)"

text \<open>\<^verbatim>\<open>cpu_intrpt_switch\<close> of the port: the preferred task runs when the interrupt returns.\<close>

definition cpu_intrpt_switch :: "kstate \<Rightarrow> kstate" where
  "cpu_intrpt_switch s = s\<lparr>g_active_task := g_preferred_ready_task s\<rparr>"

definition krhino_intrpt_exit :: "kstate \<Rightarrow> kstate" where
  "krhino_intrpt_exit s =
     (let s = s\<lparr>g_intrpt_nested_level := g_intrpt_nested_level s - 1\<rparr>
      in if g_intrpt_nested_level s > 0 then s
         else if g_sched_lock s > 0 then s
         else
           let s = preferred_cpu_ready_task_get s
           in if g_preferred_ready_task s = g_active_task s then s else cpu_intrpt_switch s)"

definition krhino_next_sleep_ticks_get :: "kstate \<Rightarrow> tick" where
  "krhino_next_sleep_ticks_get s =
     (if g_tick_head s = [] then RHINO_WAIT_FOREVER
      else tick_match (tasks s (first (g_tick_head s))) - g_tick_count s)"

definition RHINO_VERSION :: u32 where "RHINO_VERSION = 12000"

definition krhino_version_get :: u32 where
  "krhino_version_get = RHINO_VERSION"

section \<open>Interrupts keep the invariant\<close>

lemma kern_ok_nested:
  assumes ok: "kern_ok s" and "n > 0"
  shows "kern_ok (s\<lparr>g_intrpt_nested_level := n\<rparr>) \<longleftrightarrow>
    rdy (tasks s (g_active_task s)) \<or> g_sched_lock s = 0"
proof -
  note k = kern_okD [OF ok]
  have "pi_ok (s\<lparr>g_intrpt_nested_level := n\<rparr>) = pi_ok s" by (rule pi_ok_cong) simp_all
  then show ?thesis
    using k(1,6) assms(2) by (auto simp: kern_ok_def act_ok_def act_safe_def word_neq_0_conv [symmetric])
qed

lemma krhino_intrpt_enter_ok:
  assumes ok: "kern_ok s" and n: "g_intrpt_nested_level s < 255"
  shows "kern_ok (snd (krhino_intrpt_enter s))"
proof -
  have "unat (g_intrpt_nested_level s) < 255" using n by (simp add: word_less_nat_alt)
  then have "unat (g_intrpt_nested_level s + 1) = unat (g_intrpt_nested_level s) + 1"
    by (simp add: unat_word_ariths)
  then have "g_intrpt_nested_level s + 1 > 0" by (simp add: word_less_nat_alt)
  then show ?thesis
    using kern_ok_nested [OF ok, of "g_intrpt_nested_level s + 1"] kern_okD(7) [OF ok]
    by (auto simp: krhino_intrpt_enter_def act_safe_def)
qed

lemma intrpt_switch:
  "(let s = preferred_cpu_ready_task_get s
    in if g_preferred_ready_task s = g_active_task s then s else cpu_intrpt_switch s)
   = (preferred_cpu_ready_task_get s)\<lparr>g_active_task := first (cur_list_item (g_ready_queue s) (highest_pri (g_ready_queue s)))\<rparr>"
  by (simp add: preferred_cpu_ready_task_get_def cpu_intrpt_switch_def Let_def)

lemma switched_ok:
  assumes pi: "pi_ok s"
  shows "kern_ok ((preferred_cpu_ready_task_get s)\<lparr>g_active_task :=
    first (cur_list_item (g_ready_queue s) (highest_pri (g_ready_queue s)))\<rparr>)"
proof -
  let ?s' = "(preferred_cpu_ready_task_get s)\<lparr>g_active_task :=
    first (cur_list_item (g_ready_queue s) (highest_pri (g_ready_queue s)))\<rparr>"
  have "lists_ok s" using pi by (simp add: pi_ok_but_def)
  note h = highest_ready [OF this]
  have "pi_ok ?s' = pi_ok s" by (rule pi_ok_cong) (simp_all add: preferred_cpu_ready_task_get_def)
  moreover have "act_ok ?s'"
    using h by (simp add: act_ok_def act_safe_def preferred_cpu_ready_task_get_def)
  ultimately show ?thesis using pi by (simp add: kern_ok_def)
qed

lemma krhino_intrpt_exit_ok:
  assumes ok: "kern_ok s" and n: "g_intrpt_nested_level s > 0"
  shows "kern_ok (krhino_intrpt_exit s)"
proof -
  note k = kern_okD [OF ok]
  let ?n = "g_intrpt_nested_level s - 1" and ?s1 = "s\<lparr>g_intrpt_nested_level := g_intrpt_nested_level s - 1\<rparr>"
  have pi: "pi_ok ?s1 = pi_ok s" by (rule pi_ok_cong) simp_all
  consider "?n > 0" | "?n = 0" "g_sched_lock s > 0" | "?n = 0" "g_sched_lock s = 0"
    by (auto simp: word_neq_0_conv [symmetric])
  then show ?thesis
  proof cases
    case 1
    then show ?thesis
      using kern_ok_nested [OF ok 1] k(7) by (auto simp: krhino_intrpt_exit_def act_safe_def)
  next
    case 2
    then have "rdy (tasks s (g_active_task s))" using k(7) by (auto simp: act_safe_def)
    moreover have "g_sched_lock s \<noteq> 0" using 2(2) by auto
    ultimately have "kern_ok ?s1" using k(1,6) pi 2 by (simp add: kern_ok_def act_ok_def act_safe_def)
    then show ?thesis using 2 by (simp add: krhino_intrpt_exit_def)
  next
    case 3
    have "krhino_intrpt_exit s = (preferred_cpu_ready_task_get ?s1)\<lparr>g_active_task :=
        first (cur_list_item (g_ready_queue ?s1) (highest_pri (g_ready_queue ?s1)))\<rparr>"
      using 3 unfolding krhino_intrpt_exit_def by (subst Let_def) (simp only: intrpt_switch, simp)
    then show ?thesis using switched_ok [of ?s1] k(1) pi by simp
  qed
qed

section \<open>Before the kernel runs\<close>

definition boot_ok :: "kstate \<Rightarrow> bool" where
  "boot_ok s \<longleftrightarrow> rdy_ok (g_ready_queue s) (tasks s)
     \<and> (\<forall>t. task_state (tasks s t) \<in> {K_SEED, K_RDY, K_SUSPENDED} \<and> \<not> tick_head (tasks s t)
          \<and> mutex_list (tasks s t) = [] \<and> b_prio (tasks s t) = prio (tasks s t)
          \<and> prio (tasks s t) < RHINO_CONFIG_PRI_MAX \<and> (prio (tasks s t) = RHINO_IDLE_PRI \<longrightarrow> rdy (tasks s t)))
     \<and> task_state (tasks s NULL) = K_SEED
     \<and> (\<forall>ob. blk_list (blks s ob) = [] \<and> (obj_type (blks s ob) = RHINO_MUTEX_OBJ_TYPE \<longrightarrow>
          blk_policy (blks s ob) = BLK_POLICY_PRI \<and> mutex_task (mutexes s ob) = NULL))
     \<and> g_tick_head s = [] \<and> g_sched_lock s = 0 \<and> g_intrpt_nested_level s = 0
     \<and> g_sys_stat s = RHINO_STOPPED
     \<and> (g_idle_task_spawned s \<longleftrightarrow> (\<exists>t. prio (tasks s t) = RHINO_IDLE_PRI))"

lemma boot_okD:
  assumes "boot_ok s"
  shows "rdy_ok (g_ready_queue s) (tasks s)" "task_state (tasks s t) \<in> {K_SEED, K_RDY, K_SUSPENDED}"
    "\<not> tick_head (tasks s t)" "mutex_list (tasks s t) = []" "b_prio (tasks s t) = prio (tasks s t)"
    "prio (tasks s t) < RHINO_CONFIG_PRI_MAX" "prio (tasks s t) = RHINO_IDLE_PRI \<Longrightarrow> rdy (tasks s t)"
    "task_state (tasks s NULL) = K_SEED" "blk_list (blks s ob) = []"
    "obj_type (blks s ob) = RHINO_MUTEX_OBJ_TYPE \<Longrightarrow> blk_policy (blks s ob) = BLK_POLICY_PRI"
    "obj_type (blks s ob) = RHINO_MUTEX_OBJ_TYPE \<Longrightarrow> mutex_task (mutexes s ob) = NULL"
    "g_tick_head s = []" "g_sched_lock s = 0" "g_intrpt_nested_level s = 0" "g_sys_stat s = RHINO_STOPPED"
    "g_idle_task_spawned s \<longleftrightarrow> (\<exists>t. prio (tasks s t) = RHINO_IDLE_PRI)"
  using assms unfolding boot_ok_def by blast+

lemma boot_not_pending:
  assumes "boot_ok s"
  shows "\<not> pending (tasks s t)" "\<not> sleeping (tasks s t)" "held (tasks s) t = []"
  using boot_okD(2,4) [OF assms, of t] by (auto simp: task_kinds held_def)

text \<open>With the idle task in place, the invariant of the boot phase gives that of the kernel.\<close>

lemma boot_pi_ok:
  assumes b: "boot_ok s" and i: "g_idle_task_spawned s"
  shows "pi_ok s"
proof -
  note B = boot_okD [OF b] and n = boot_not_pending [OF b]
  have "prio_ok (tasks s)" using B(5-8,16) i by (auto simp: prio_ok_def)
  moreover have "blk_ok (blks s) (tasks s)" using n B(9) by (simp add: blk_ok_def)
  moreover have "tick_ok (g_tick_head s) (tasks s)" using n B(3,12) by (simp add: tick_ok_def)
  ultimately have "lists_ok s" using B(1) by (simp add: lists_ok_def)
  moreover have "mx_ok (mutexes s) (blks s) (tasks s)" using n B(9-11) by (simp add: mx_ok_but_def)
  moreover have "inh_ok (blks s) (tasks s)" using n B(5) by (simp add: inh_ok_but_def eff_prio_def waiters_def)
  ultimately show ?thesis by (simp add: pi_ok_but_def)
qed

lemma krhino_start_ok:
  assumes b: "boot_ok s" and i: "g_idle_task_spawned s"
  shows "kern_ok (snd (krhino_start s))"
    and "\<And>t. rdy (tasks s t) \<Longrightarrow> prio (tasks s (g_active_task (snd (krhino_start s)))) \<le> prio (tasks s t)"
    and "rdy (tasks s (g_active_task (snd (krhino_start s))))"
proof -
  let ?r = "first (cur_list_item (g_ready_queue s) (highest_pri (g_ready_queue s)))"
  have e: "snd (krhino_start s) = (preferred_cpu_ready_task_get s)\<lparr>g_active_task := ?r, g_sys_stat := RHINO_RUNNING\<rparr>"
    using boot_okD(15) [OF b] by (simp add: krhino_start_def preferred_cpu_ready_task_get_def Let_def)
  have pi: "pi_ok s" by (rule boot_pi_ok [OF b i])
  have "kern_ok ((preferred_cpu_ready_task_get s)\<lparr>g_active_task := ?r\<rparr>)" by (rule switched_ok [OF pi])
  then show "kern_ok (snd (krhino_start s))" unfolding e by (rule kern_ok_data) simp_all
  note h = highest_ready [OF pi [unfolded pi_ok_but_def, THEN conjunct1]]
  show "rdy (tasks s (g_active_task (snd (krhino_start s))))" using h(1) unfolding e by simp
  show "prio (tasks s (g_active_task (snd (krhino_start s)))) \<le> prio (tasks s t)" if "rdy (tasks s t)" for t
    using h(2,3) that unfolding e by simp
qed


text \<open>Tasks may be created: the control block must not be in use.\<close>

lemma rdy_ok_fresh:
  assumes "rdy_ok rq T" and "\<not> rdy (T t)" and "\<not> rdy x"
  shows "rdy_ok rq (T(t := x))"
  using assms by (intro rdy_ok_same) simp_all

lemma ex_fun_upd:
  "f (T t) \<noteq> c \<Longrightarrow> (\<exists>u. f ((T(t := x)) u) = c) \<longleftrightarrow> f x = c \<or> (\<exists>u. f (T u) = c)"
  by (metis fun_upd_apply)

lemma boot_task_create:
  fixes name stk en :: ptr and tk :: tick and sz :: u32
  assumes b: "boot_ok s" and f: "task_state (tasks s t) = K_SEED"
    and p: "p \<noteq> RHINO_IDLE_PRI \<or> (run > 0 \<and> prio (tasks s t) \<noteq> RHINO_IDLE_PRI)"
  defines "s' \<equiv> snd (krhino_task_create s t name p tk stk sz en run)"
  shows "boot_ok s'" and "blks s' = blks s"
    and "sems s' = sems s" "queues s' = queues s" "bufqs s' = bufqs s" "events s' = events s"
    and "u \<noteq> t \<Longrightarrow> tasks s' u = tasks s u"
    and "g_idle_task_spawned s \<Longrightarrow> g_idle_task_spawned s'"
    and "{t, name, en, stk} \<inter> {NULL} = {} \<Longrightarrow> sz \<noteq> 0 \<Longrightarrow> p < RHINO_CONFIG_PRI_MAX \<Longrightarrow>
      fst (krhino_task_create s t name p tk stk sz en run)
        = (if p = RHINO_IDLE_PRI \<and> g_idle_task_spawned s then RHINO_IDLE_TASK_EXIST else RHINO_SUCCESS)
      \<and> (p = RHINO_IDLE_PRI \<longrightarrow> g_idle_task_spawned s')"
    and "{t, name, en, stk} \<inter> {NULL} = {} \<Longrightarrow> sz \<noteq> 0 \<Longrightarrow> p < RHINO_CONFIG_PRI_MAX \<Longrightarrow>
      p \<noteq> RHINO_IDLE_PRI \<or> \<not> g_idle_task_spawned s \<Longrightarrow>
      prio (tasks s' t) = p \<and> task_state (tasks s' t) = (if run > 0 then K_RDY else K_SUSPENDED)"
proof -
  note B = boot_okD [OF b]
  let ?bad = "t = NULL \<or> name = NULL \<or> en = NULL \<or> stk = NULL \<or> sz = 0 \<or> p \<ge> RHINO_CONFIG_PRI_MAX
    \<or> (p = RHINO_IDLE_PRI \<and> g_idle_task_spawned s)"
  let ?tt = "if tk > 0 then ucast tk else RHINO_CONFIG_TIME_SLICE_DEFAULT"
  let ?y = "zero_task\<lparr>time_total := ?tt, task_time_slice := ?tt, sched_policy := KSCHED_RR,
    prio := p, b_prio := p, stack_size := sz, task_mm_alloc_flag := K_OBJ_STATIC_ALLOC\<rparr>"
  define x where "x = (if run > 0 then ?y\<lparr>task_state := K_RDY\<rparr> else ?y\<lparr>task_state := K_SUSPENDED, suspend_count := 1\<rparr>)"
  let ?rq = "if run > 0 then ready_list_add_tail (g_ready_queue s) t p else g_ready_queue s"
  have bad: "krhino_task_create s t name p tk stk sz en run = (fst (krhino_task_create s t name p tk stk sz en run), s)" if ?bad
    using that B(14) by (elim disjE) (simp_all add: krhino_task_create_def task_create_def)
  have good: "krhino_task_create s t name p tk stk sz en run = (RHINO_SUCCESS,
    s\<lparr>g_idle_task_spawned := (g_idle_task_spawned s \<or> p = RHINO_IDLE_PRI), g_ready_queue := ?rq,
      tasks := (tasks s)(t := x), g_kobj_list := kobj_task_head_update (\<lambda>l. l @ [t]) (g_kobj_list s)\<rparr>)"
    if "\<not> ?bad"
    using that B(14,15)
    by (auto simp: krhino_task_create_def task_create_def Let_def zero_task_def x_def intro!: kstate.equality)
  show "boot_ok s'"
  proof (cases ?bad)
    case True
    then show ?thesis using bad b by (metis s'_def snd_conv)
  next
    case False
    have nr: "\<not> rdy (tasks s t)" using f by (simp add: rdy_def)
    have nt: "prio (tasks s t) \<noteq> RHINO_IDLE_PRI" using B(7) nr by blast
    have x: "prio x = p" "b_prio x = p" "mutex_list x = []" "\<not> tick_head x"
      "task_state x \<in> {K_SEED, K_RDY, K_SUSPENDED}" "rdy x = (run > 0)"
      by (simp_all add: x_def zero_task_def rdy_def)
    have "rdy_ok ?rq ((tasks s)(t := x))"
      using rdy_ok_add_tail [OF B(1) nr _ x(1)] rdy_ok_fresh [OF B(1) nr] False x(6) by (auto simp: not_le)
    moreover have "(\<exists>u. prio (((tasks s)(t := x)) u) = RHINO_IDLE_PRI) = (g_idle_task_spawned s \<or> p = RHINO_IDLE_PRI)"
      unfolding ex_fun_upd [of prio "tasks s", OF nt] B(16) x(1) by blast
    moreover have "task_state (((tasks s)(t := x)) u) \<in> {K_SEED, K_RDY, K_SUSPENDED} \<and> \<not> tick_head (((tasks s)(t := x)) u)
        \<and> mutex_list (((tasks s)(t := x)) u) = [] \<and> b_prio (((tasks s)(t := x)) u) = prio (((tasks s)(t := x)) u)
        \<and> prio (((tasks s)(t := x)) u) < RHINO_CONFIG_PRI_MAX
        \<and> (prio (((tasks s)(t := x)) u) = RHINO_IDLE_PRI \<longrightarrow> rdy (((tasks s)(t := x)) u))" for u
    proof (cases "u = t")
      case True
      then show ?thesis using x p False by (simp add: not_le)
    next
      case False
      then show ?thesis using B(2-7) [of u] by simp
    qed
    moreover have "task_state (((tasks s)(t := x)) NULL) = K_SEED" using False B(8) by simp
    ultimately show ?thesis
      unfolding s'_def good [OF False] snd_conv boot_ok_def kstate.select_convs kstate.update_convs
      using B(9-15) by simp
  qed
  have "s' = s \<or> s' = s\<lparr>g_idle_task_spawned := (g_idle_task_spawned s \<or> p = RHINO_IDLE_PRI), g_ready_queue := ?rq,
      tasks := (tasks s)(t := x), g_kobj_list := kobj_task_head_update (\<lambda>l. l @ [t]) (g_kobj_list s)\<rparr>"
    using bad good unfolding s'_def by (metis snd_conv)
  then show "blks s' = blks s" "sems s' = sems s" "queues s' = queues s" "bufqs s' = bufqs s" "events s' = events s"
    "u \<noteq> t \<Longrightarrow> tasks s' u = tasks s u" "g_idle_task_spawned s \<Longrightarrow> g_idle_task_spawned s'"
    by (auto split del: if_split)
  show "fst (krhino_task_create s t name p tk stk sz en run)
        = (if p = RHINO_IDLE_PRI \<and> g_idle_task_spawned s then RHINO_IDLE_TASK_EXIST else RHINO_SUCCESS)
      \<and> (p = RHINO_IDLE_PRI \<longrightarrow> g_idle_task_spawned s')"
    if "{t, name, en, stk} \<inter> {NULL} = {}" "sz \<noteq> 0" "p < RHINO_CONFIG_PRI_MAX"
  proof (cases ?bad)
    case True
    then have "p = RHINO_IDLE_PRI" "g_idle_task_spawned s" using that by auto
    with that B(14) show ?thesis by (auto simp: s'_def krhino_task_create_def task_create_def)
  next
    case False
    then show ?thesis using good by (auto simp: s'_def)
  qed
  show "prio (tasks s' t) = p \<and> task_state (tasks s' t) = (if run > 0 then K_RDY else K_SUSPENDED)"
    if "{t, name, en, stk} \<inter> {NULL} = {}" "sz \<noteq> 0" "p < RHINO_CONFIG_PRI_MAX"
      "p \<noteq> RHINO_IDLE_PRI \<or> \<not> g_idle_task_spawned s"
  proof -
    have "\<not> ?bad" using that by auto
    then show ?thesis using good by (simp add: s'_def x_def)
  qed
qed


text \<open>Kernel objects may be created.\<close>

lemma boot_obj:
  assumes b: "boot_ok s" and "blks s' = (blks s)(ob := y)" and "blk_list y = []" and "obj_type y \<noteq> RHINO_MUTEX_OBJ_TYPE"
    and "g_ready_queue s' = g_ready_queue s" "tasks s' = tasks s" "mutexes s' = mutexes s" "g_tick_head s' = g_tick_head s"
    "g_sched_lock s' = g_sched_lock s" "g_intrpt_nested_level s' = g_intrpt_nested_level s" "g_sys_stat s' = g_sys_stat s"
    "g_idle_task_spawned s' = g_idle_task_spawned s"
  shows "boot_ok s'"
  using b unfolding boot_ok_def assms(2,5-12) using assms(3,4) by (simp add: fun_upd_def)

lemma boot_sem_create:
  fixes ob name :: ptr and n :: u32
  assumes b: "boot_ok s"
  defines "s' \<equiv> snd (krhino_sem_create s ob name n)"
  shows "boot_ok s'" and "tasks s' = tasks s" and "queues s' = queues s" and "bufqs s' = bufqs s"
    and "g_idle_task_spawned s' = g_idle_task_spawned s"
    and "obj_type (blks s' o') = obj_type (blks s o') \<or> obj_type (blks s' o') = RHINO_SEM_OBJ_TYPE"
proof -
  let ?y = "(blks s ob)\<lparr>blk_list := [], blk_policy := BLK_POLICY_PRI, obj_type := RHINO_SEM_OBJ_TYPE\<rparr>"
  have "s' = s" if "ob = NULL \<or> name = NULL"
    using that unfolding s'_def by (auto simp: krhino_sem_create_def sem_create_def)
  moreover have "boot_ok s'" if "ob \<noteq> NULL" "name \<noteq> NULL"
    by (rule boot_obj [OF b, where ob = ob and y = ?y])
       (use that in \<open>simp_all add: s'_def krhino_sem_create_def sem_create_def Let_def\<close>)
  ultimately show "boot_ok s'" using b by metis
  show "tasks s' = tasks s" "queues s' = queues s" "bufqs s' = bufqs s" "g_idle_task_spawned s' = g_idle_task_spawned s"
    "obj_type (blks s' o') = obj_type (blks s o') \<or> obj_type (blks s' o') = RHINO_SEM_OBJ_TYPE"
    by (simp_all add: s'_def krhino_sem_create_def sem_create_def Let_def)
qed

lemma boot_buf_queue_create:
  fixes ob name buf :: ptr and len m ty :: nat and fl :: alloc_flag_t
  assumes b: "boot_ok s"
  defines "s' \<equiv> snd (buf_queue_create s ob name buf len m fl ty)"
  shows "boot_ok s'" and "tasks s' = tasks s" and "queues s' = queues s"
    and "g_idle_task_spawned s' = g_idle_task_spawned s"
    and "obj_type (blks s' o') = obj_type (blks s o') \<or> obj_type (blks s' o') = RHINO_BUF_QUEUE_OBJ_TYPE"
proof -
  let ?y = "(blks s ob)\<lparr>blk_list := [], blk_policy := BLK_POLICY_PRI, obj_type := RHINO_BUF_QUEUE_OBJ_TYPE\<rparr>"
  let ?bad = "ob = NULL \<or> name = NULL \<or> buf = NULL \<or> m = 0 \<or> len = 0"
  have "s' = s" if ?bad using that unfolding s'_def by (auto simp: buf_queue_create_def)
  moreover have "boot_ok s'" if "\<not> ?bad"
    by (rule boot_obj [OF b, where ob = ob and y = ?y])
       (use that in \<open>simp_all add: s'_def buf_queue_create_def Let_def\<close>)
  ultimately show "boot_ok s'" using b by metis
  show "tasks s' = tasks s" "queues s' = queues s" "g_idle_task_spawned s' = g_idle_task_spawned s"
    "obj_type (blks s' o') = obj_type (blks s o') \<or> obj_type (blks s' o') = RHINO_BUF_QUEUE_OBJ_TYPE"
    by (simp_all add: s'_def buf_queue_create_def Let_def)
qed

text \<open>Memory as the loader leaves it, and the addresses of different objects.\<close>

definition bss_zero :: "kstate \<Rightarrow> bool" where
  "bss_zero s \<longleftrightarrow> (\<forall>t. tasks s t = zero_task)
     \<and> (\<forall>ob. blk_list (blks s ob) = [] \<and> obj_type (blks s ob) = RHINO_OBJ_TYPE_NONE)
     \<and> task_bit_map (g_ready_queue s) = [0, 0] \<and> (\<forall>p. cur_list_item (g_ready_queue s) p = [])
     \<and> \<not> rq_ub (g_ready_queue s)
     \<and> g_sched_lock s = 0 \<and> g_intrpt_nested_level s = 0 \<and> \<not> g_idle_task_spawned s"

definition image_ok :: "kimage \<Rightarrow> bool" where
  "image_ok A \<longleftrightarrow> NULL \<notin> {g_idle_task A, g_idle_task_stack A, idle_task A, g_dyn_task A, g_dyn_task_stack A,
       dyn_mem_proc_task A, g_res_sem A, g_timer_queue A, timer_queue_cb A, g_timer_task A, g_timer_task_stack A,
       timer_task A, str_idle A, str_dyn A, str_res A, str_queue A, str_timer A}
     \<and> distinct [g_idle_task A, g_dyn_task A, g_timer_task A] \<and> g_res_sem A \<noteq> g_timer_queue A"

text \<open>The state before the first object is created.\<close>

definition init_lists :: "kstate \<Rightarrow> kstate" where
  "init_lists s = kobj_list_init (tick_list_init (g_ready_queue_update runqueue_init (s\<lparr>g_sys_stat := RHINO_STOPPED\<rparr>)))"

lemma boot_init_lists:
  assumes z: "bss_zero s"
  shows "boot_ok (init_lists s)"
proof -
  have "([0, 0] :: u32 list) ! i = 0" if "i < 2" for i using that by (cases i) simp_all
  then have "\<not> bm_test [0, 0] p" for p by (simp add: bm_test_def)
  then have "rdy_ok (runqueue_init (g_ready_queue s)) (tasks s)"
    using z by (simp add: rdy_ok_def rq_wf_def runqueue_init_def bss_zero_def zero_task_def rdy_def)
  then show ?thesis
    using z by (simp add: boot_ok_def init_lists_def kobj_list_init_def tick_list_init_def bss_zero_def zero_task_def
        rdy_def RHINO_IDLE_PRI_def RHINO_CONFIG_PRI_MAX_def)
qed


text \<open>All objects created before the start are idle: the invariants of the components hold.\<close>

definition boot_inv :: "kstate \<Rightarrow> bool" where
  "boot_inv s \<longleftrightarrow> boot_ok s \<and> queue_inv s \<and> bufq_inv s"

lemma boot_no_lost: "boot_ok s \<Longrightarrow> no_lost ty avail s"
  by (simp add: no_lost_def boot_okD(9))

lemma boot_task_create_inv:
  assumes b: "boot_inv s" and "task_state (tasks s t) = K_SEED"
    and "p \<noteq> RHINO_IDLE_PRI \<or> (run > 0 \<and> prio (tasks s t) \<noteq> RHINO_IDLE_PRI)"
  shows "boot_inv (snd (krhino_task_create s t name p tk stk sz en run))"
proof -
  have B: "boot_ok s" using b by (simp add: boot_inv_def)
  note C = boot_task_create [OF B assms(2,3), where name = name and tk = tk and stk = stk and sz = sz and en = en]
  show ?thesis
    using b C(1) boot_no_lost [OF C(1)] by (simp add: boot_inv_def queue_inv_def bufq_inv_def C)
qed

lemma boot_sem_create_inv:
  assumes b: "boot_inv s"
  shows "boot_inv (snd (krhino_sem_create s ob name n))"
proof -
  have B: "boot_ok s" using b by (simp add: boot_inv_def)
  note C = boot_sem_create [OF B, where ob = ob and name = name and n = n]
  have "obj_type (blks (snd (krhino_sem_create s ob name n)) q) = ty \<Longrightarrow> ty \<noteq> RHINO_SEM_OBJ_TYPE \<Longrightarrow> obj_type (blks s q) = ty" for q ty
    using C(6) [of q] by auto
  then show ?thesis
    using b C(1) boot_no_lost [OF C(1)] by (simp add: boot_inv_def queue_inv_def bufq_inv_def C)
qed

lemma boot_fix_buf_queue_create_inv:
  assumes b: "boot_inv s" and n: "n * k < 2 ^ 32"
  shows "boot_inv (snd (krhino_fix_buf_queue_create s ob name buf n k))"
proof -
  have B: "boot_ok s" using b by (simp add: boot_inv_def)
  let ?c = "buf_queue_create s ob name buf (n * k) n K_OBJ_STATIC_ALLOC RINGBUF_TYPE_FIX"
  have e: "krhino_fix_buf_queue_create s ob name buf n k = ?c"
    using n by (simp add: krhino_fix_buf_queue_create_def)
  note C = boot_buf_queue_create [OF B, where ob = ob and name = name and buf = buf and len = "n * k" and m = n
      and fl = K_OBJ_STATIC_ALLOC and ty = RINGBUF_TYPE_FIX]
  have "bufq_inv (snd ?c)" using b by (intro buf_queue_create_inv) (simp_all add: boot_inv_def)
  moreover have "obj_type (blks (snd ?c) q) = RHINO_QUEUE_OBJ_TYPE \<Longrightarrow> obj_type (blks s q) = RHINO_QUEUE_OBJ_TYPE" for q
    using C(5) [of q] by auto
  ultimately show ?thesis
    using b C(1) boot_no_lost [OF C(1)] unfolding e by (simp add: boot_inv_def queue_inv_def C)
qed

lemma krhino_start_inv:
  assumes b: "boot_inv s" and i: "g_idle_task_spawned s"
  defines "s' \<equiv> snd (krhino_start s)"
  shows "kern_ok s' \<and> sem_inv s' \<and> event_inv s' \<and> queue_inv s' \<and> bufq_inv s'"
proof -
  have B: "boot_ok s" using b by (simp add: boot_inv_def)
  have "blks s' = blks s" "queues s' = queues s" "bufqs s' = bufqs s"
    using boot_okD(15) [OF B]
    by (simp_all add: s'_def krhino_start_def preferred_cpu_ready_task_get_def Let_def)
  then show ?thesis
    using krhino_start_ok(1) [OF B i] b boot_okD(9) [OF B]
    by (simp add: s'_def boot_inv_def queue_inv_def bufq_inv_def no_lost_def)
qed

lemma krhino_init_inv:
  assumes z: "bss_zero s" and A: "image_ok A"
  defines "s' \<equiv> snd (krhino_init A s)"
  shows "boot_inv s'" and "g_idle_task_spawned s'"
    and "rdy (tasks s' (g_timer_task A))" "prio (tasks s' (g_timer_task A)) = RHINO_CONFIG_TIMER_TASK_PRI"
    and "prio (tasks s' (g_idle_task A)) = RHINO_IDLE_PRI" "prio (tasks s' (g_dyn_task A)) = RHINO_CONFIG_K_DYN_MEM_TASK_PRI"
    and "u \<notin> {g_idle_task A, g_dyn_task A, g_timer_task A} \<Longrightarrow> tasks s' u = zero_task"
proof -
  define s0 where "s0 = init_lists s"
  define s1 where "s1 = snd (krhino_sem_create s0 (g_res_sem A) (str_res A) 0)"
  define s2 where "s2 = dyn_mem_proc_task_start A s1"
  define s3 where "s3 = snd (krhino_task_create s2 (g_idle_task A) (str_idle A) RHINO_IDLE_PRI 0
      (g_idle_task_stack A) RHINO_CONFIG_IDLE_TASK_STACK_SIZE (idle_task A) 1)"
  define s3' where "s3' = s3\<lparr>g_timer_head := []\<rparr>"
  define s4 where "s4 = snd (krhino_fix_buf_queue_create s3' (g_timer_queue A) (str_queue A) (timer_queue_cb A)
      sizeof_timer_cb RHINO_CONFIG_TIMER_MSG_NUM)"
  define s5 where "s5 = snd (krhino_task_create s4 (g_timer_task A) (str_timer A) RHINO_CONFIG_TIMER_TASK_PRI 0
      (g_timer_task_stack A) RHINO_CONFIG_TIMER_TASK_STACK_SIZE (timer_task A) 1)"
  note stk = RHINO_CONFIG_IDLE_TASK_STACK_SIZE_def RHINO_CONFIG_K_DYN_TASK_STACK_def RHINO_CONFIG_TIMER_TASK_STACK_SIZE_def
  note pri = RHINO_CONFIG_K_DYN_MEM_TASK_PRI_def RHINO_CONFIG_TIMER_TASK_PRI_def RHINO_IDLE_PRI_def RHINO_CONFIG_PRI_MAX_def
  have e: "s' = s5"
    by (simp add: s'_def krhino_init_def ktimer_init_def s5_def s4_def s3'_def s3_def s2_def s1_def s0_def init_lists_def Let_def)
  have t0: "tasks s0 u = zero_task" for u
    using z by (simp add: s0_def init_lists_def kobj_list_init_def tick_list_init_def bss_zero_def)
  have z0: "task_state zero_task = K_SEED" "prio zero_task \<noteq> RHINO_IDLE_PRI" by (simp_all add: zero_task_def pri)
  have "boot_ok s0" unfolding s0_def by (rule boot_init_lists [OF z])
  moreover have "blks s0 = blks s" by (simp add: s0_def init_lists_def kobj_list_init_def tick_list_init_def)
  then have "obj_type (blks s0 ob) = RHINO_OBJ_TYPE_NONE" for ob using z by (simp add: bss_zero_def)
  ultimately have b0: "boot_inv s0" using boot_no_lost by (simp add: boot_inv_def queue_inv_def bufq_inv_def)
  then have B0: "boot_ok s0" by (simp add: boot_inv_def)
  have b1: "boot_inv s1" unfolding s1_def by (rule boot_sem_create_inv [OF b0])
  then have B1: "boot_ok s1" by (simp add: boot_inv_def)
  have t1: "tasks s1 u = zero_task" for u using boot_sem_create(2) [OF B0] t0 by (simp add: s1_def)
  have p2: "RHINO_CONFIG_K_DYN_MEM_TASK_PRI \<noteq> RHINO_IDLE_PRI \<or> P" for P by (simp add: pri)
  have f1: "task_state (tasks s1 (g_dyn_task A)) = K_SEED" by (simp add: t1 z0)
  have b2: "boot_inv s2" unfolding s2_def dyn_mem_proc_task_start_def by (rule boot_task_create_inv [OF b1 f1 p2])
  then have B2: "boot_ok s2" by (simp add: boot_inv_def)
  have t2: "u \<noteq> g_dyn_task A \<Longrightarrow> tasks s2 u = zero_task" for u
    unfolding s2_def dyn_mem_proc_task_start_def by (subst boot_task_create(7) [OF B1 f1 p2]) (simp_all add: t1)
  have d2: "prio (tasks s2 (g_dyn_task A)) = RHINO_CONFIG_K_DYN_MEM_TASK_PRI"
    unfolding s2_def dyn_mem_proc_task_start_def
    using boot_task_create(10) [OF B1 f1 p2] A by (simp add: image_ok_def stk pri)
  have f2: "task_state (tasks s2 (g_idle_task A)) = K_SEED"
    and p3: "RHINO_IDLE_PRI \<noteq> RHINO_IDLE_PRI \<or> ((1 :: u8) > 0 \<and> prio (tasks s2 (g_idle_task A)) \<noteq> RHINO_IDLE_PRI)"
    using A t2 z0 by (simp_all add: image_ok_def)
  have b3: "boot_inv s3" unfolding s3_def by (rule boot_task_create_inv [OF b2 f2 p3])
  then have B3: "boot_ok s3" by (simp add: boot_inv_def)
  have t3: "u \<noteq> g_idle_task A \<Longrightarrow> tasks s3 u = tasks s2 u" for u
    unfolding s3_def by (rule boot_task_create(7) [OF B2 f2 p3])
  have u2: "\<not> g_idle_task_spawned s2"
  proof -
    have "prio (tasks s2 u) \<noteq> RHINO_IDLE_PRI" for u
      by (cases "u = g_dyn_task A") (use d2 t2 z0 in \<open>simp_all add: pri\<close>)
    then show ?thesis using boot_okD(16) [OF B2] by simp
  qed
  have i3: "g_idle_task_spawned s3" and d3: "prio (tasks s3 (g_idle_task A)) = RHINO_IDLE_PRI"
    unfolding s3_def using boot_task_create(9,10) [OF B2 f2 p3] A u2 by (simp_all add: image_ok_def stk pri)
  have b3': "boot_inv s3'"
    using b3 by (simp add: s3'_def boot_inv_def boot_ok_def queue_inv_def bufq_inv_def no_lost_def
        queue_avail_def bufq_avail_def)
  then have B3': "boot_ok s3'" by (simp add: boot_inv_def)
  have b4: "boot_inv s4"
    unfolding s4_def by (rule boot_fix_buf_queue_create_inv [OF b3'])
      (simp add: sizeof_timer_cb_def RHINO_CONFIG_TIMER_MSG_NUM_def)
  then have B4: "boot_ok s4" by (simp add: boot_inv_def)
  have t4: "tasks s4 = tasks s3" and i4: "g_idle_task_spawned s4"
    unfolding s4_def krhino_fix_buf_queue_create_def using boot_buf_queue_create(2,4) [OF B3'] i3 by (simp_all add: s3'_def)
  have f4: "task_state (tasks s4 (g_timer_task A)) = K_SEED"
    using A t2 [of "g_timer_task A"] t3 [of "g_timer_task A"] z0 by (auto simp: t4 image_ok_def)
  have p5: "RHINO_CONFIG_TIMER_TASK_PRI \<noteq> RHINO_IDLE_PRI \<or> P" for P by (simp add: pri)
  note C = boot_task_create [OF B4 f4 p5]
  show "boot_inv s'" unfolding e s5_def by (rule boot_task_create_inv [OF b4 f4 p5])
  show "g_idle_task_spawned s'" unfolding e s5_def by (rule C(8) [OF i4])
  have t5: "u \<noteq> g_timer_task A \<Longrightarrow> tasks s' u = tasks s4 u" for u unfolding e s5_def by (rule C(7))
  show "rdy (tasks s' (g_timer_task A))" "prio (tasks s' (g_timer_task A)) = RHINO_CONFIG_TIMER_TASK_PRI"
    unfolding e s5_def using C(10) A by (simp_all add: image_ok_def stk pri rdy_def)
  show "prio (tasks s' (g_idle_task A)) = RHINO_IDLE_PRI" "prio (tasks s' (g_dyn_task A)) = RHINO_CONFIG_K_DYN_MEM_TASK_PRI"
    using A d3 d2 t3 [of "g_dyn_task A"] t5 [of "g_dyn_task A"] t5 [of "g_idle_task A"] by (auto simp: t4 image_ok_def)
  show "u \<notin> {g_idle_task A, g_dyn_task A, g_timer_task A} \<Longrightarrow> tasks s' u = zero_task"
    by (simp add: t5 t4 t3 t2)
qed

lemma boot_started:
  assumes "bss_zero s" and "image_ok A"
  defines "s' \<equiv> snd (krhino_start (snd (krhino_init A s)))"
  shows "kern_ok s' \<and> sem_inv s' \<and> event_inv s' \<and> queue_inv s' \<and> bufq_inv s'
    \<and> g_sys_stat s' = RHINO_RUNNING \<and> g_active_task s' = g_timer_task A"
proof -
  note I = krhino_init_inv [OF assms(1,2)]
  let ?i = "snd (krhino_init A s)" and ?a = "g_active_task s'"
  have B: "boot_ok ?i" using I(1) by (simp add: boot_inv_def)
  note S = krhino_start_ok [OF B I(2), folded s'_def]
  have "rdy (tasks ?i ?a)" "prio (tasks ?i ?a) \<le> RHINO_CONFIG_TIMER_TASK_PRI"
    using S(3) S(2) [OF I(3)] by (simp_all add: I(4))
  moreover have "?a \<noteq> g_idle_task A" "?a \<noteq> g_dyn_task A"
    using calculation(2) I(5,6)
    by (auto simp: RHINO_CONFIG_TIMER_TASK_PRI_def RHINO_IDLE_PRI_def RHINO_CONFIG_PRI_MAX_def RHINO_CONFIG_K_DYN_MEM_TASK_PRI_def)
  ultimately have "?a = g_timer_task A"
    using I(7) [of ?a] by (cases "?a = g_timer_task A") (auto simp: zero_task_def rdy_def)
  moreover have "g_sys_stat s' = RHINO_RUNNING"
    using boot_okD(15) [OF B] by (simp add: s'_def krhino_start_def Let_def)
  ultimately show ?thesis using krhino_start_inv [OF I(1,2), folded s'_def] by simp
qed

text \<open>C14: Initialising the kernel on zeroed memory and starting it establishes the invariant of the
  kernel and of every component, whatever the addresses of the objects; of the tasks the kernel creates
  for itself, the timer task is the most urgent and runs first.\<close>

theorem init_start_establishes_inv:
  assumes "bss_zero s" and "image_ok A"
  defines "s' \<equiv> snd (krhino_start (snd (krhino_init A s)))"
  shows "kern_ok s' \<and> sem_inv s' \<and> event_inv s' \<and> queue_inv s' \<and> bufq_inv s'
    \<and> g_sys_stat s' = RHINO_RUNNING \<and> g_active_task s' = g_timer_task A"
  unfolding s'_def by (rule boot_started [OF assms(1,2)])


definition ex_image :: kimage where
  "ex_image = \<lparr>g_idle_task = 0x1000, g_idle_task_stack = 0x2000, idle_task = 0x3000, g_dyn_task = 0x4000,
     g_dyn_task_stack = 0x5000, dyn_mem_proc_task = 0x6000, g_res_sem = 0x7000, g_timer_queue = 0x8000,
     timer_queue_cb = 0x9000, g_timer_task = 0xA000, g_timer_task_stack = 0xB000, timer_task = 0xC000,
     str_idle = 0xD000, str_dyn = 0xD010, str_res = 0xD020, str_queue = 0xD030, str_timer = 0xD040\<rparr>"

definition ex_bss :: kstate where
  "ex_bss = ex_state\<lparr>tasks := (\<lambda>_. zero_task),
     blks := (\<lambda>_. \<lparr>blk_list = [], blk_policy = BLK_POLICY_PRI, obj_type = RHINO_OBJ_TYPE_NONE\<rparr>),
     g_ready_queue := \<lparr>cur_list_item = (\<lambda>_. []), task_bit_map = [0, 0], highest_pri = 0, rq_ub = False\<rparr>,
     g_sched_lock := 0, g_intrpt_nested_level := 0, g_idle_task_spawned := False\<rparr>"

lemma ex_bss_zero: "bss_zero ex_bss"
  by (simp add: bss_zero_def ex_bss_def)

lemma ex_image_ok: "image_ok ex_image"
  by (simp add: image_ok_def ex_image_def)

lemma init_start_establishes_inv_witness:
  "g_active_task (snd (krhino_start (snd (krhino_init ex_image ex_bss)))) = 0xA000"
  using init_start_establishes_inv [OF ex_bss_zero ex_image_ok] by (simp add: ex_image_def)

text \<open>C15: Leaving the outermost interrupt gives the CPU to the most urgent ready task, and leaving a
  nested one, or one that came while the scheduler was locked, keeps the running task; entering and
  leaving keep the kernel invariant while fewer than 255 interrupts are nested.\<close>

theorem intrpt_enter_exit:
  assumes "kern_ok s"
  defines "e \<equiv> snd (krhino_intrpt_enter s)" and "x \<equiv> krhino_intrpt_exit s"
  shows "(g_intrpt_nested_level s < 255 \<longrightarrow> kern_ok e \<and> g_active_task e = g_active_task s)
    \<and> (g_intrpt_nested_level s > 0 \<longrightarrow> kern_ok x \<and> tasks x = tasks s
        \<and> (if g_intrpt_nested_level s = 1 \<and> g_sched_lock s = 0
           then rdy (tasks x (g_active_task x))
             \<and> (\<forall>t. rdy (tasks x t) \<longrightarrow> prio (tasks x (g_active_task x)) \<le> prio (tasks x t))
           else g_active_task x = g_active_task s))"
proof (intro conjI impI)
  note ls = kern_okD(3) [OF assms(1)]
  assume n: "g_intrpt_nested_level s > 0"
  show "kern_ok x" unfolding x_def by (rule krhino_intrpt_exit_ok [OF assms(1) n])
  show t: "tasks x = tasks s"
    by (simp add: x_def krhino_intrpt_exit_def preferred_cpu_ready_task_get_def cpu_intrpt_switch_def Let_def)
  have z: "(g_intrpt_nested_level s - 1 > 0) \<longleftrightarrow> g_intrpt_nested_level s \<noteq> 1"
    by (auto simp: word_neq_0_conv [symmetric])
  show "if g_intrpt_nested_level s = 1 \<and> g_sched_lock s = 0
           then rdy (tasks x (g_active_task x))
             \<and> (\<forall>t. rdy (tasks x t) \<longrightarrow> prio (tasks x (g_active_task x)) \<le> prio (tasks x t))
           else g_active_task x = g_active_task s"
  proof (cases "g_intrpt_nested_level s = 1 \<and> g_sched_lock s = 0")
    case True
    have "g_active_task x = first (cur_list_item (g_ready_queue s) (highest_pri (g_ready_queue s)))"
      using True by (simp add: x_def krhino_intrpt_exit_def preferred_cpu_ready_task_get_def cpu_intrpt_switch_def Let_def)
    then show ?thesis using True highest_ready [OF ls] by (simp add: t)
  next
    case False
    then show ?thesis
      using z by (auto simp: x_def krhino_intrpt_exit_def Let_def word_neq_0_conv [symmetric])
  qed
qed (use krhino_intrpt_enter_ok [OF assms(1)] in \<open>simp_all add: e_def krhino_intrpt_enter_def\<close>)

lemma intrpt_enter_exit_witness:
  "g_active_task (snd (krhino_intrpt_enter ex_state)) = g_active_task ex_state"
  using intrpt_enter_exit [OF ex_kern_ok] by (simp add: ex_state_def)

end
