(* ===== verification/Keeps.thy ===== *)
theory Keeps
  imports Task_Del Tick Sys
begin

text \<open>
  What an operation leaves alone. Every kernel object belongs to one component, whose operations
  change only that object and the places of tasks in lists; \<open>keeps X s s'\<close> says that outside
  the objects \<open>X\<close> no stock changes and no task starts to wait. It composes along the
  statements of an operation, so that the frame of a whole call is found by the rules of the
  collection \<open>keeps\<close>, and it carries the invariants of the other components across the call.
\<close>

named_theorems keeps

definition keeps :: "ptr set \<Rightarrow> kstate \<Rightarrow> kstate \<Rightarrow> bool" where
  "keeps X s s' \<longleftrightarrow>
     (\<forall>ob. obj_type (blks s' ob) = obj_type (blks s ob) \<or> obj_type (blks s' ob) = RHINO_OBJ_TYPE_NONE)
     \<and> (\<forall>ob. ob \<notin> X \<longrightarrow> set (blk_list (blks s' ob)) \<subseteq> set (blk_list (blks s ob))
          \<and> sems s' ob = sems s ob \<and> events s' ob = events s ob
          \<and> queues s' ob = queues s ob \<and> bufqs s' ob = bufqs s ob)
     \<and> (\<forall>ob t. ob \<notin> X \<and> t \<in> set (blk_list (blks s' ob)) \<longrightarrow> request (tasks s' t) = request (tasks s t))
     \<and> g_sys_stat s' = g_sys_stat s \<and> (g_idle_task_spawned s \<longrightarrow> g_idle_task_spawned s')"

lemma keepsD:
  assumes "keeps X s s'"
  shows "obj_type (blks s' ob) = obj_type (blks s ob) \<or> obj_type (blks s' ob) = RHINO_OBJ_TYPE_NONE"
    and "ob \<notin> X \<Longrightarrow> t \<in> set (blk_list (blks s' ob)) \<Longrightarrow> t \<in> set (blk_list (blks s ob))"
    and "ob \<notin> X \<Longrightarrow> t \<in> set (blk_list (blks s' ob)) \<Longrightarrow> request (tasks s' t) = request (tasks s t)"
    and "ob \<notin> X \<Longrightarrow> sems s' ob = sems s ob \<and> events s' ob = events s ob \<and> queues s' ob = queues s ob \<and> bufqs s' ob = bufqs s ob"
    and "g_sys_stat s' = g_sys_stat s" "g_idle_task_spawned s \<Longrightarrow> g_idle_task_spawned s'"
  using assms unfolding keeps_def by auto

section \<open>Rules\<close>

lemma keeps_refl [keeps]: "keeps X s s"
  by (simp add: keeps_def)

lemma keeps_trans:
  assumes "keeps X r s" and "keeps X s t"
  shows "keeps X r t"
  using assms unfolding keeps_def by (smt (verit) subsetD subset_trans)

lemma keeps_mono: "keeps X s s' \<Longrightarrow> X \<subseteq> Y \<Longrightarrow> keeps Y s s'"
  unfolding keeps_def by blast

text \<open>Updates of fields that do not matter.\<close>

lemma keeps_other [simp]:
  "keeps X s (g_ready_queue_update f s') = keeps X s s'"
  "keeps X s (g_sched_lock_update f1 s') = keeps X s s'"
  "keeps X s (g_intrpt_nested_level_update f1 s') = keeps X s s'"
  "keeps X s (g_preferred_ready_task_update f2 s') = keeps X s s'"
  "keeps X s (g_active_task_update f2 s') = keeps X s s'"
  "keeps X s (g_tick_count_update f3 s') = keeps X s s'"
  "keeps X s (g_tick_head_update f4 s') = keeps X s s'"
  "keeps X s (g_kobj_list_update f5 s') = keeps X s s'"
  "keeps X s (mutexes_update f6 s') = keeps X s s'"
  "keeps X s (umem_update f7 s') = keeps X s s'"
  "keeps X s (bmem_update f8 s') = keeps X s s'"
  "keeps X s (k_errs_update f9 s') = keeps X s s'"
  by (simp_all add: keeps_def)

lemma keeps_err [simp]: "keeps X s (k_err_proc s' e) = keeps X s s'"
  by (simp add: k_err_proc_def)

lemma keeps_sched [simp]: "keeps X s (core_sched s') = keeps X s s'"
  by (simp add: core_sched_def preferred_cpu_ready_task_get_def cpu_task_switch_def Let_def)

lemma keeps_ready_list_add [simp]: "keeps X s (ready_list_add s' t) = keeps X s s'"
  by (simp add: ready_list_add_def)

lemmas keeps_skip [keeps] = keeps_other [THEN iffD2] keeps_err [THEN iffD2] keeps_sched [THEN iffD2]
  keeps_ready_list_add [THEN iffD2]

text \<open>Tasks, waiting lists and stocks.\<close>

lemma keeps_task [keeps]:
  assumes "keeps X s s'" and "\<And>x. request (f x) = request x"
  shows "keeps X s (set_task t f s')"
  using assms by (simp add: keeps_def)

lemma keeps_blk_rm [keeps]: "keeps X s s' \<Longrightarrow> keeps X s (blks_update (blk_list_rm t) s')"
  by (auto simp: keeps_def)

lemma keeps_blk [keeps]:
  assumes "keeps X s s'" and "ob \<in> X"
    and "\<And>b. obj_type (f b) = obj_type b \<or> obj_type (f b) = RHINO_OBJ_TYPE_NONE"
  shows "keeps X s (set_blk ob f s')"
proof -
  have "obj_type (f (blks s' ob)) = obj_type (blks s ob) \<or> obj_type (f (blks s' ob)) = RHINO_OBJ_TYPE_NONE"
    using assms(1) assms(3) [of "blks s' ob"] unfolding keeps_def by metis
  then show ?thesis using assms(1,2) unfolding keeps_def by auto
qed

lemma keeps_stock [keeps]:
  "keeps X s s' \<Longrightarrow> ob \<in> X \<Longrightarrow> keeps X s (set_sem ob f s')"
  "keeps X s s' \<Longrightarrow> ob \<in> X \<Longrightarrow> keeps X s (set_event ob f1 s')"
  "keeps X s s' \<Longrightarrow> ob \<in> X \<Longrightarrow> keeps X s (set_queue ob f2 s')"
  "keeps X s s' \<Longrightarrow> ob \<in> X \<Longrightarrow> keeps X s (set_bufq ob f3 s')"
  by (auto simp: keeps_def)

lemma keeps_if [keeps]:
  "(P \<Longrightarrow> keeps X s a) \<Longrightarrow> (\<not> P \<Longrightarrow> keeps X s b) \<Longrightarrow> keeps X s (if P then a else b)"
  by simp

lemma keeps_snd_if [keeps]:
  "(P \<Longrightarrow> keeps X s (snd a)) \<Longrightarrow> (\<not> P \<Longrightarrow> keeps X s (snd b)) \<Longrightarrow> keeps X s (snd (if P then a else b))"
  by simp

lemma keeps_snd_pair [keeps]: "keeps X s s' \<Longrightarrow> keeps X s (snd (r, s'))"
  by simp

lemma keeps_snd_prod [keeps]:
  "(\<And>a b. keeps X s (snd (f a b))) \<Longrightarrow> keeps X s (snd (case r of (a, b) \<Rightarrow> f a b))"
  by (simp split: prod.split)

lemma keeps_popped [keeps]:
  "(\<And>bs n rb. keeps X s (f bs n rb)) \<Longrightarrow> keeps X s s' \<Longrightarrow>
   keeps X s (case r of (RHINO_SUCCESS, bs, n, rb) \<Rightarrow> f bs n rb | _ \<Rightarrow> s')"
  by (simp split: prod.split kstat.split)

lemma keeps_tick_list_insert [keeps]: "keeps X s s' \<Longrightarrow> keeps X s (tick_list_insert s' t d)"
  unfolding tick_list_insert_def tick_list_pri_insert_def Let_def
  by (intro keeps) (simp_all add: request_def)

lemma keeps_tick_list_rm [keeps]: "keeps X s s' \<Longrightarrow> keeps X s (tick_list_rm s' t)"
  unfolding tick_list_rm_def Let_def by (intro keeps) (simp_all add: request_def)

lemma keeps_wakeup [keeps]: "keeps X s s' \<Longrightarrow> keeps X s (pend_task_wakeup s' t)"
  unfolding pend_task_wakeup_def Let_def
  by (intro keeps) (simp_all add: keeps_task keeps_blk_rm request_def split: task_stat_t.split)

lemma keeps_pend_task_rm [keeps]: "keeps X s s' \<Longrightarrow> keeps X s (pend_task_rm s' t)"
  unfolding pend_task_rm_def Let_def
  by (intro keeps) (simp_all add: keeps_task keeps_blk_rm request_def split: task_stat_t.split)

lemma keeps_pend_list_add [keeps]:
  "keeps X s s' \<Longrightarrow> ob \<in> X \<Longrightarrow> keeps X s (pend_list_add s' ob t)"
  unfolding pend_list_add_def by (intro keeps) simp_all

lemma keeps_block [keeps]:
  "keeps X s s' \<Longrightarrow> ob \<in> X \<Longrightarrow> keeps X s (pend_to_blk_obj s' ob t d)"
  unfolding pend_to_blk_obj_def Let_def
  by (intro keeps) (simp_all add: keeps_task keeps_tick_list_insert request_def)

lemma keeps_rm_loop: "keeps X s s' \<Longrightarrow> keeps X s (pend_rm_loop n s' ob)"
  by (induction n s' ob rule: pend_rm_loop.induct) (simp_all add: keeps)

lemma keeps_rm_all [keeps]: "keeps X s s' \<Longrightarrow> keeps X s (pend_rm_all s' ob)"
  by (simp add: pend_rm_all_def keeps_rm_loop)

lemma keeps_wake_loop: "keeps X s s' \<Longrightarrow> keeps X s (wake_loop n s' ob)"
  by (induction n s' ob rule: wake_loop.induct) (simp_all add: keeps)

lemma keeps_wake_all [keeps]: "keeps X s s' \<Longrightarrow> keeps X s (wake_all s' ob)"
  by (simp add: wake_all_def keeps_wake_loop)

lemma keeps_end_proc [keeps]: "keeps X s s' \<Longrightarrow> keeps X s (snd (pend_state_end_proc s' t))"
  by (simp add: pend_state_end_proc_def split: blk_state_t.split)


section \<open>Priority inheritance moves tasks within lists only\<close>

text \<open>The pending tasks are on the list of their object: what \<^verbatim>\<open>pend_list_reorder\<close> relies on.\<close>

definition in_place :: "kstate \<Rightarrow> bool" where
  "in_place s \<longleftrightarrow> (\<forall>ob t. t \<in> set (blk_list (blks s ob)) \<longleftrightarrow> pending (tasks s t) \<and> blk_obj (tasks s t) = ob)"

definition stays :: "kstate \<Rightarrow> kstate \<Rightarrow> bool" where
  "stays s s' \<longleftrightarrow>
     (\<forall>ob. set (blk_list (blks s' ob)) = set (blk_list (blks s ob)) \<and> obj_type (blks s' ob) = obj_type (blks s ob))
     \<and> sems s' = sems s \<and> events s' = events s \<and> queues s' = queues s \<and> bufqs s' = bufqs s
     \<and> (\<forall>t. pending (tasks s' t) = pending (tasks s t) \<and> blk_obj (tasks s' t) = blk_obj (tasks s t)
          \<and> request (tasks s' t) = request (tasks s t))
     \<and> g_sys_stat s' = g_sys_stat s \<and> g_idle_task_spawned s' = g_idle_task_spawned s"

lemma stays_refl [simp]: "stays s s"
  by (simp add: stays_def)

lemma stays_trans: "stays r s \<Longrightarrow> stays s t \<Longrightarrow> stays r t"
  by (simp add: stays_def)

lemma stays_keeps: "stays s s' \<Longrightarrow> keeps X s s'"
  by (simp add: stays_def keeps_def)

lemma stays_in_place: "stays s s' \<Longrightarrow> in_place s' = in_place s"
  by (simp add: stays_def in_place_def)

lemma kern_ok_in_place: "kern_ok s \<Longrightarrow> in_place s"
  using lists_okD(2) [OF kern_okD(3)] by (simp add: in_place_def blk_ok_def)

lemma stays_other [simp]:
  "stays s (g_ready_queue_update f s') = stays s s'"
  "stays s (mutexes_update f1 s') = stays s s'"
  "stays s (k_errs_update f2 s') = stays s s'"
  "stays s (umem_update f3 s') = stays s s'"
  "stays s (g_kobj_list_update f4 s') = stays s s'"
  "stays s (core_sched s') = stays s s'"
  by (simp_all add: stays_def core_sched_def preferred_cpu_ready_task_get_def cpu_task_switch_def Let_def)

lemma stays_task:
  assumes "\<And>x. pending (f x) = pending x \<and> blk_obj (f x) = blk_obj x \<and> request (f x) = request x"
  shows "stays s (set_task t f s') = stays s s'"
  using assms by (auto simp: stays_def split: if_splits)

lemma stays_prio [simp]:
  "stays s (set_task t (\<lambda>x. x\<lparr>prio := p\<rparr>) s') = stays s s'"
  "stays s (set_task t (\<lambda>x. x\<lparr>b_prio := p\<rparr>) s') = stays s s'"
  "stays s (set_task t (\<lambda>x. x\<lparr>mutex_list := ms\<rparr>) s') = stays s s'"
  "stays s (set_task t (mutex_list_update g) s') = stays s s'"
  by (rule stays_task, simp add: pending_def request_def)+

lemma stays_reorder:
  assumes "in_place s" and "pending (tasks s t)"
  shows "stays s (pend_list_reorder s t)"
proof -
  have "t \<in> set (blk_list (blks s ob)) \<longleftrightarrow> blk_obj (tasks s t) = ob" for ob
    using assms by (simp add: in_place_def)
  then show ?thesis by (auto simp: stays_def pend_list_reorder_def pend_list_add_def Let_def)
qed

lemma stays_pri_change_step:
  assumes p: "in_place s" and st: "task_pri_change_step s t pri = (r, s')"
  shows "stays s s'"
proof -
  let ?s1 = "set_task t (\<lambda>x. x\<lparr>prio := pri\<rparr>) s"
  have "stays s ?s1" by simp
  then have p1: "in_place ?s1" using p by (simp only: stays_in_place)
  have "stays s (pend_list_reorder ?s1 t)" if "pending (tasks s t)"
  proof (rule stays_trans [of s ?s1])
    show "stays ?s1 (pend_list_reorder ?s1 t)" using that by (intro stays_reorder [OF p1]) (simp add: pending_def)
  qed simp
  then have "task_state (tasks s t) = K_PEND \<or> task_state (tasks s t) = K_PEND_SUSPENDED \<Longrightarrow> stays s (pend_list_reorder ?s1 t)"
    by (simp add: pending_def)
  then show ?thesis
    using st unfolding task_pri_change_step_def mutex_pri_look_def Let_def k_err_proc_def
    by (auto split: if_splits task_stat_t.splits prod.splits)
qed

lemma stays_pri_change:
  "in_place s \<Longrightarrow> stays s (snd (task_pri_change s t pri))"
proof (induction s t pri rule: task_pri_change.induct)
  case (1 s t pri)
  obtain r s' where st: "task_pri_change_step s t pri = (r, s')" by fastforce
  note S = stays_pri_change_step [OF 1(2) st]
  have p: "in_place s'" using stays_in_place [OF S] 1(2) by simp
  show ?case
  proof (cases r)
    case (Inl e)
    then show ?thesis using S st by (simp add: task_pri_change.simps)
  next
    case (Inr x)
    obtain u q where x: "x = (u, q)" by fastforce
    show ?thesis
    proof (cases "u = NULL")
      case True
      then show ?thesis using S st Inr x by (simp add: task_pri_change.simps)
    next
      case False
      have "stays s' (snd (task_pri_change s' u q))"
        by (rule 1(1) [OF st [symmetric] Inr x [symmetric] False p])
      then show ?thesis
        using stays_trans [OF S] st Inr x False by (subst task_pri_change.simps) simp
    qed
  qed
qed

lemma stays_release:
  assumes "in_place s"
  shows "stays s (mutex_release s t m)"
proof -
  obtain p s1 where l: "mutex_pri_look s t m = (p, s1)" by fastforce
  then have S: "stays s s1" by (auto simp: mutex_pri_look_def Let_def split: prod.splits)
  then have "in_place s1" using assms by (simp only: stays_in_place)
  then show ?thesis
    using S stays_trans [OF S stays_pri_change] by (simp add: mutex_release_def l)
qed

lemma stays_reset: "in_place s \<Longrightarrow> stays s (mutex_task_pri_reset s t)"
  by (simp add: mutex_task_pri_reset_def Let_def stays_release)


section \<open>The calls\<close>

text \<open>The object a call is about, when it has the type the call asks for.\<close>

abbreviation only :: "kobj_type_t \<Rightarrow> kstate \<Rightarrow> ptr \<Rightarrow> ptr set" where
  "only ty s m \<equiv> {k. k = m \<and> obj_type (blks s k) = ty}"

lemma keeps_sem_calls:
  "keeps (only RHINO_SEM_OBJ_TYPE s m) s (snd (krhino_sem_give s m))"
  "keeps (only RHINO_SEM_OBJ_TYPE s m) s (snd (krhino_sem_give_all s m))"
  "keeps (only RHINO_SEM_OBJ_TYPE s m) s (snd (krhino_sem_take s m d))"
  "keeps (only RHINO_SEM_OBJ_TYPE s m) s (snd (krhino_sem_del s m))"
  "keeps (only RHINO_SEM_OBJ_TYPE s m) s (snd (krhino_sem_count_set s m c))"
  unfolding krhino_sem_give_def krhino_sem_give_all_def sem_give_def krhino_sem_take_def krhino_sem_del_def
    krhino_sem_count_set_def Let_def
  by (intro keeps; simp)+

lemma keeps_msg_wake_loop [keeps]: "keeps X s s' \<Longrightarrow> keeps X s (msg_wake_loop n s' q m)"
proof (induction n s' q m rule: msg_wake_loop.induct)
  case (2 n s' q m)
  have "keeps X s (task_msg_recv s' t m)" for t
    using 2(2) unfolding task_msg_recv_def Let_def by (intro keeps) (simp_all add: request_def)
  then show ?case using 2 by simp
qed simp

lemma keeps_task_msg_recv [keeps]: "keeps X s s' \<Longrightarrow> keeps X s (task_msg_recv s' t m)"
  unfolding task_msg_recv_def Let_def by (intro keeps) (simp_all add: request_def)

lemma keeps_queue_calls:
  "keeps (only RHINO_QUEUE_OBJ_TYPE s q) s (snd (krhino_queue_back_send s q m))"
  "keeps (only RHINO_QUEUE_OBJ_TYPE s q) s (snd (krhino_queue_all_send s q m))"
  "keeps (only RHINO_QUEUE_OBJ_TYPE s q) s (snd (krhino_queue_recv s q d p))"
  "keeps (only RHINO_QUEUE_OBJ_TYPE s q) s (snd (krhino_queue_flush s q))"
  "keeps (only RHINO_QUEUE_OBJ_TYPE s q) s (snd (krhino_queue_del s q))"
  unfolding krhino_queue_back_send_def krhino_queue_all_send_def msg_send_def krhino_queue_recv_def
    krhino_queue_flush_def krhino_queue_del_def Let_def
  by (intro keeps; simp)+

lemma keeps_buf_queue_calls:
  "keeps (only RHINO_BUF_QUEUE_OBJ_TYPE s q) s (snd (krhino_buf_queue_send s q m n))"
  "keeps (only RHINO_BUF_QUEUE_OBJ_TYPE s q) s (snd (krhino_buf_queue_recv s q d mp p))"
  "keeps (only RHINO_BUF_QUEUE_OBJ_TYPE s q) s (snd (krhino_buf_queue_flush s q))"
  "keeps (only RHINO_BUF_QUEUE_OBJ_TYPE s q) s (snd (krhino_buf_queue_del s q))"
  unfolding krhino_buf_queue_send_def buf_queue_send_def krhino_buf_queue_recv_def write_mem_def
    krhino_buf_queue_flush_def krhino_buf_queue_del_def Let_def
  by (intro keeps; simp add: request_def)+


lemma keeps_event_wake_loop [keeps]: "keeps X s s' \<Longrightarrow> m \<in> X \<Longrightarrow> keeps X s (event_wake_loop s' m c ts)"
proof (induction s' m c ts rule: event_wake_loop.induct)
  case (2 s' m c t ts)
  have "keeps X s (event_wake s' m c t)"
    using 2(2,3) unfolding event_wake_def Let_def by (intro keeps) simp_all
  then show ?case using 2 by simp
qed simp

lemma keeps_event_calls:
  "keeps (only RHINO_EVENT_OBJ_TYPE s m) s (snd (krhino_event_set s m fl opt))"
  "keeps (only RHINO_EVENT_OBJ_TYPE s m) s (snd (krhino_event_del s m))"
  unfolding krhino_event_set_def event_set_def krhino_event_del_def Let_def
  by (intro keeps; simp)+

lemma keeps_request:
  assumes "keeps X s s'" and "\<And>ob. ob \<notin> X \<Longrightarrow> t \<notin> set (blk_list (blks s' ob))"
  shows "keeps X s (set_task t f s')"
  using assms by (auto simp: keeps_def)

lemma running_not_waiting:
  assumes "kern_ok s" and "g_intrpt_nested_level s = 0"
  shows "g_active_task s \<notin> set (blk_list (blks s ob))"
  using kern_ok_caller [OF assms] kern_ok_in_place [OF assms(1)] by (auto simp: in_place_def task_kinds)

lemma keeps_event_get:
  assumes ok: "kern_ok s"
  shows "keeps (only RHINO_EVENT_OBJ_TYPE s m) s (snd (krhino_event_get s m fl opt act d))"
proof -
  have "keeps X s (set_task (g_active_task s) (\<lambda>t. t\<lparr>pend_flags := fl, pend_info := act, pend_option := opt\<rparr>) s)"
    if "g_intrpt_nested_level s = 0" for X
    using running_not_waiting [OF ok that] by (intro keeps_request keeps_refl) simp
  note keeps_task [keeps del] and this [keeps]
  then show ?thesis
    unfolding krhino_event_get_def Let_def by (intro keeps; simp add: word_neq_0_conv [symmetric])
qed

text \<open>Mutexes: the stock is the owner, which no other component looks at.\<close>

lemma in_place_other [simp]:
  "in_place (mutexes_update f s) = in_place s" "in_place (umem_update f1 s) = in_place s"
  "in_place (g_ready_queue_update f2 s) = in_place s" "in_place (g_tick_head_update f3 s) = in_place s"
  "in_place (g_tick_count_update f4 s) = in_place s" "in_place (g_kobj_list_update f5 s) = in_place s"
  "in_place (core_sched s) = in_place s" "in_place (k_errs_update f6 s) = in_place s"
  by (simp_all add: in_place_def)

lemma in_place_task:
  assumes "in_place s" and "\<And>x. pending (f x) = pending x \<and> blk_obj (f x) = blk_obj x"
  shows "in_place (set_task t f s)"
  using assms by (simp add: in_place_def)

lemma in_place_type: "in_place (set_blk m (\<lambda>b. b\<lparr>obj_type := ty\<rparr>) s) = in_place s"
  by (auto simp: in_place_def split: if_splits)

lemma keeps_pri_change [keeps]:
  "keeps X s s' \<Longrightarrow> in_place s' \<Longrightarrow> keeps X s (snd (task_pri_change s' t p))"
  by (erule keeps_trans) (rule stays_keeps [OF stays_pri_change])

lemma keeps_release [keeps]:
  "keeps X s s' \<Longrightarrow> in_place s' \<Longrightarrow> keeps X s (mutex_release s' t m)"
  by (erule keeps_trans) (rule stays_keeps [OF stays_release])

lemma keeps_reset [keeps]:
  "keeps X s s' \<Longrightarrow> in_place s' \<Longrightarrow> keeps X s (mutex_task_pri_reset s' t)"
  by (erule keeps_trans) (rule stays_keeps [OF stays_reset])

lemma keeps_mutex_calls:
  assumes "in_place s"
  shows "keeps (only RHINO_MUTEX_OBJ_TYPE s m) s (snd (krhino_mutex_lock s m d))"
    and "keeps (only RHINO_MUTEX_OBJ_TYPE s m) s (snd (krhino_mutex_unlock s m))"
    and "keeps (only RHINO_MUTEX_OBJ_TYPE s m) s (snd (krhino_mutex_del s m))"
  unfolding krhino_mutex_lock_def krhino_mutex_unlock_def krhino_mutex_del_def Let_def
  by (intro keeps; simp add: request_def assms in_place_type)+


text \<open>Calls about tasks change no object at all.\<close>

lemma keeps_case_state [keeps]:
  "(st = K_SEED \<Longrightarrow> keeps X s (snd a)) \<Longrightarrow> (st = K_RDY \<Longrightarrow> keeps X s (snd b)) \<Longrightarrow>
   (st = K_PEND \<Longrightarrow> keeps X s (snd c)) \<Longrightarrow> (st = K_SUSPENDED \<Longrightarrow> keeps X s (snd d)) \<Longrightarrow>
   (st = K_PEND_SUSPENDED \<Longrightarrow> keeps X s (snd e)) \<Longrightarrow> (st = K_SLEEP \<Longrightarrow> keeps X s (snd f)) \<Longrightarrow>
   (st = K_SLEEP_SUSPENDED \<Longrightarrow> keeps X s (snd g)) \<Longrightarrow> (st = K_DELETED \<Longrightarrow> keeps X s (snd h)) \<Longrightarrow>
   keeps X s (snd (case st of K_SEED \<Rightarrow> a | K_RDY \<Rightarrow> b | K_PEND \<Rightarrow> c | K_SUSPENDED \<Rightarrow> d
     | K_PEND_SUSPENDED \<Rightarrow> e | K_SLEEP \<Rightarrow> f | K_SLEEP_SUSPENDED \<Rightarrow> g | K_DELETED \<Rightarrow> h))"
  by (cases st) simp_all

lemma keeps_case_state' [keeps]:
  "(st = K_SEED \<Longrightarrow> keeps X s a) \<Longrightarrow> (st = K_RDY \<Longrightarrow> keeps X s b) \<Longrightarrow>
   (st = K_PEND \<Longrightarrow> keeps X s c) \<Longrightarrow> (st = K_SUSPENDED \<Longrightarrow> keeps X s d) \<Longrightarrow>
   (st = K_PEND_SUSPENDED \<Longrightarrow> keeps X s e) \<Longrightarrow> (st = K_SLEEP \<Longrightarrow> keeps X s f) \<Longrightarrow>
   (st = K_SLEEP_SUSPENDED \<Longrightarrow> keeps X s g) \<Longrightarrow> (st = K_DELETED \<Longrightarrow> keeps X s h) \<Longrightarrow>
   keeps X s (case st of K_SEED \<Rightarrow> a | K_RDY \<Rightarrow> b | K_PEND \<Rightarrow> c | K_SUSPENDED \<Rightarrow> d
     | K_PEND_SUSPENDED \<Rightarrow> e | K_SLEEP \<Rightarrow> f | K_SLEEP_SUSPENDED \<Rightarrow> g | K_DELETED \<Rightarrow> h)"
  by (cases st) simp_all

lemma keeps_task_calls:
  "keeps X s (snd (krhino_task_sleep s d))" "keeps X s (snd (krhino_task_yield s))"
  "keeps X s (snd (krhino_task_suspend s t))" "keeps X s (snd (krhino_task_resume s t))"
  "keeps X s (snd (krhino_task_time_slice_set s t n))" "keeps X s (snd (krhino_sched_policy_set s t pol))"
  "keeps X s (snd (krhino_sched_policy_get s t p))"
  "keeps X s (snd (krhino_task_info_set s t i p))" "keeps X s (snd (krhino_task_info_get s t i p))"
  "keeps X s (snd (krhino_sched_disable s))" "keeps X s (snd (krhino_sched_enable s))"
  unfolding krhino_task_sleep_def krhino_task_yield_def krhino_task_suspend_def task_suspend_def
    krhino_task_resume_def task_resume_def krhino_task_time_slice_set_def krhino_sched_policy_set_def
    krhino_sched_policy_get_def krhino_task_info_set_def krhino_task_info_get_def
    krhino_sched_disable_def krhino_sched_enable_def Let_def
  by (intro keeps; simp add: request_def)+

lemma keeps_task_pri_change:
  assumes "in_place s"
  shows "keeps X s (snd (krhino_task_pri_change s t p old))"
proof -
  have "in_place (set_task t (\<lambda>t. t\<lparr>b_prio := p\<rparr>) s)" using assms by (rule in_place_task) (simp add: pending_def)
  then show ?thesis
    unfolding krhino_task_pri_change_def Let_def case_prod_beta by (intro keeps; simp add: request_def)
qed

text \<open>Leaving a wait.\<close>

lemma keeps_leave_wait [keeps]: "keeps X s s' \<Longrightarrow> keeps X s (leave_wait st b s' t)"
proof -
  assume "keeps X s s'"
  then have "keeps X s (set_task t (\<lambda>x. x\<lparr>tick_head := False, task_state := st, blk_state := b\<rparr>)
      (blks_update (blk_list_rm t) s'))" by (intro keeps; simp add: request_def)
  then show ?thesis by (auto simp: leave_wait_def keeps_def)
qed

lemma in_place_leave_wait:
  "in_place s \<Longrightarrow> st \<noteq> K_PEND \<Longrightarrow> st \<noteq> K_PEND_SUSPENDED \<Longrightarrow> in_place (leave_wait st b s t)"
  by (auto simp: in_place_def pending_def)

lemma end_wait_keeps:
  assumes "in_place s" and "st \<noteq> K_PEND" "st \<noteq> K_PEND_SUSPENDED"
  shows "keeps X s (end_wait st b s t)" and "in_place (end_wait st b s t)"
proof -
  let ?l = "leave_wait st b s t"
  let ?r = "mutex_task_pri_reset ?l t"
  have l: "in_place ?l" by (rule in_place_leave_wait [OF assms])
  note R = stays_reset [OF l, of t]
  have r: "in_place ?r" using l stays_in_place [OF R] by simp
  have "keeps X s ?r" by (intro keeps l)
  then show "keeps X s (end_wait st b s t)"
    unfolding end_wait_def by (rule keeps_task) (simp add: request_def)
  have "\<not> pending (tasks ?l t)" using assms(2,3) by (simp add: pending_def)
  then have "\<not> pending (tasks ?r t)" using R by (simp add: stays_def)
  moreover have "pending (x\<lparr>blk_obj := NULL\<rparr>) = pending x" for x by (simp add: pending_def)
  ultimately show "in_place (end_wait st b s t)" using r by (auto simp: end_wait_def in_place_def)
qed

lemma keeps_wait_abort:
  assumes "in_place s"
  shows "keeps X s (snd (krhino_task_wait_abort s t))"
proof -
  have "keeps X s (pend_abort s t)"
    unfolding pend_abort_eq by (rule end_wait_keeps [OF assms]) simp_all
  then show ?thesis
    unfolding krhino_task_wait_abort_def Let_def by (intro keeps; simp add: request_def)
qed

text \<open>The tick.\<close>

lemma tick_expire_keeps:
  assumes p: "in_place s"
  shows "keeps X s (tick_expire s t) \<and> in_place (tick_expire s t)"
proof (cases "pending (tasks s t)")
  case True
  then show ?thesis
    using end_wait_keeps [OF p] by (simp add: tick_expire_pending expired_state_def)
next
  case False
  have "keeps X s (tick_expire s t)"
    using False unfolding tick_expire_def Let_def by (intro keeps; simp add: pending_def request_def)
  moreover have "in_place (tick_expire s t)"
    using False p
    by (auto simp: tick_expire_def tick_list_rm_def ready_list_add_def k_err_proc_def Let_def in_place_def
        pending_def split: task_stat_t.split)
  ultimately show ?thesis ..
qed

lemma tick_list_loop_keeps: "in_place s \<Longrightarrow> keeps X s (tick_list_loop s ts)"
proof (induction s ts rule: tick_list_loop.induct)
  case (2 s t ts)
  then show ?case using tick_expire_keeps [OF 2(2), of X t] by (auto intro: keeps_trans keeps_refl)
qed (simp add: keeps_refl)

lemma keeps_time_slice: "keeps X s s' \<Longrightarrow> keeps X s (time_slice_update s')"
  unfolding time_slice_update_def Let_def by (intro keeps; simp add: request_def)

lemma keeps_tick_proc:
  assumes "in_place s"
  shows "keeps X s (krhino_tick_proc s)"
  unfolding krhino_tick_proc_def tick_list_update_def Let_def
proof (intro keeps_time_slice)
  let ?s = "s\<lparr>g_tick_count := g_tick_count s + 1\<rparr>"
  have "keeps X ?s (tick_list_loop ?s ts)" for ts using assms by (intro tick_list_loop_keeps) simp
  moreover have "keeps X s ?s" by (simp add: keeps)
  ultimately show "keeps X s (tick_list_loop ?s (Kernel_State.g_tick_head ?s))" by (rule keeps_trans [rotated])
qed

lemma keeps_intrpt: "keeps X s (snd (krhino_intrpt_enter s))" "keeps X s (krhino_intrpt_exit s)"
  unfolding krhino_intrpt_enter_def krhino_intrpt_exit_def preferred_cpu_ready_task_get_def cpu_intrpt_switch_def Let_def
  by (intro keeps)+


text \<open>Deletion of a task.\<close>

lemma in_place_wakeup:
  assumes "in_place s"
  shows "in_place (pend_task_wakeup s t)"
proof (cases "pending (tasks s t)")
  case True
  then show ?thesis
    using assms by (auto simp: pend_task_wakeup_eq wake_task_def in_place_def woken_def pending_def split: if_splits)
next
  case False
  then show ?thesis
    using assms
    by (auto simp: pend_task_wakeup_def tick_list_rm_def k_err_proc_def Let_def in_place_def pending_def
        split: task_stat_t.split)
qed

lemma task_mutex_free_loop_keeps:
  "in_place s \<Longrightarrow> keeps X s (task_mutex_free_loop s ms) \<and> in_place (task_mutex_free_loop s ms)"
proof (induction s ms rule: task_mutex_free_loop.induct)
  case (2 s m ms)
  let ?s1 = "if blk_list (blks s m) \<noteq> [] then
      set_task (first (blk_list (blks s m))) (mutex_list_update (\<lambda>ms. m # ms))
        (set_mutex m (\<lambda>x. x\<lparr>mutex_task := first (blk_list (blks s m))\<rparr>) (pend_task_wakeup s (first (blk_list (blks s m)))))
    else set_mutex m (\<lambda>x. x\<lparr>mutex_task := NULL\<rparr>) s"
  have e: "task_mutex_free_loop s (m # ms) = task_mutex_free_loop ?s1 ms" by (simp add: Let_def)
  have "in_place (set_task t (mutex_list_update g) (mutexes_update f (pend_task_wakeup s u)))" for t u f g
    using 2(2) by (intro in_place_task) (simp_all add: in_place_wakeup pending_def)
  then have p: "in_place ?s1" using 2(2) by simp
  have k: "keeps X s ?s1" by (intro keeps; simp add: request_def)
  have "keeps X ?s1 (task_mutex_free_loop ?s1 ms) \<and> in_place (task_mutex_free_loop ?s1 ms)"
    by (rule 2(1)) (use p in \<open>simp_all add: Let_def\<close>)
  then show ?case unfolding e using keeps_trans [OF k] by blast
qed (simp add: keeps_refl)

lemma task_del_switch_keeps:
  assumes p: "in_place s" and d: "task_del_switch s t = Some s'"
  shows "keeps X s s'"
proof -
  let ?s1 = "set_task t (\<lambda>x. x\<lparr>task_state := K_DELETED\<rparr>) (blks_update (blk_list_rm t) (tick_list_rm s t))"
  have p1: "in_place ?s1"
    using p by (auto simp: in_place_def pending_def tick_list_rm_eq)
  have r: "keeps X s (mutex_task_pri_reset ?s1 t)" by (intro keeps p1; simp add: request_def)
  show ?thesis
  proof (cases "pending (tasks s t)")
    case True
    then have "s' = mutex_task_pri_reset ?s1 t" using d by (auto simp: task_del_switch_def pending_def Let_def)
    with r show ?thesis by simp
  next
    case False
    moreover have "keeps X s (set_task t (\<lambda>x. x\<lparr>task_state := K_DELETED\<rparr>) s1)" if "keeps X s s1" for s1
      using that by (intro keeps; simp add: request_def)
    note this [keeps]
    ultimately show ?thesis
      using d by (auto simp: task_del_switch_def pending_def Let_def intro!: keeps split: task_stat_t.splits)
  qed
qed

lemma keeps_task_del:
  assumes "in_place s"
  shows "keeps X s (snd (krhino_task_del s t))"
proof -
  have F: "keeps X s (task_mutex_free s u)" "in_place (task_mutex_free s u)" for u
    using task_mutex_free_loop_keeps [OF assms, of X "mutex_list (tasks s u)"] by (simp_all add: task_mutex_free_def)
  have "keeps X s s'" if "task_del_switch (task_mutex_free s u) u = Some s'" for u s'
    using task_del_switch_keeps [OF F(2) that] by (rule keeps_trans [OF F(1)])
  then show ?thesis
    using F(1) unfolding krhino_task_del_def Let_def by (simp add: keeps_refl split: option.split)
qed

section \<open>Creation\<close>

text \<open>A call that creates an object, or fails and changes nothing.\<close>

definition makes :: "kobj_type_t \<Rightarrow> ptr \<Rightarrow> kstate \<Rightarrow> kstate \<Rightarrow> bool" where
  "makes ty m s s' \<longleftrightarrow> s' = s \<or>
     (blks s' = (blks s)(m := blks s' m) \<and> blk_list (blks s' m) = [] \<and> obj_type (blks s' m) = ty)
     \<and> tasks s' = tasks s \<and> (\<forall>k. k \<noteq> m \<longrightarrow> sems s' k = sems s k \<and> events s' k = events s k
          \<and> queues s' k = queues s k \<and> bufqs s' k = bufqs s k)
     \<and> g_sys_stat s' = g_sys_stat s \<and> g_idle_task_spawned s' = g_idle_task_spawned s"

lemma makes_calls:
  "makes RHINO_SEM_OBJ_TYPE m s (snd (krhino_sem_create s m name c))"
  "makes RHINO_MUTEX_OBJ_TYPE m s (snd (krhino_mutex_create s m name))"
  "makes RHINO_EVENT_OBJ_TYPE m s (snd (krhino_event_create s m name fl))"
  "makes RHINO_QUEUE_OBJ_TYPE m s (snd (krhino_queue_create s m name start n))"
  "makes RHINO_BUF_QUEUE_OBJ_TYPE m s (snd (krhino_buf_queue_create s m name buf n mx))"
  "makes RHINO_BUF_QUEUE_OBJ_TYPE m s (snd (krhino_fix_buf_queue_create s m name buf n mx))"
  unfolding makes_def krhino_sem_create_def sem_create_def krhino_mutex_create_def mutex_create_def
    krhino_event_create_def event_create_def krhino_queue_create_def queue_create_def
    krhino_buf_queue_create_def krhino_fix_buf_queue_create_def buf_queue_create_def Let_def
  by simp_all


section \<open>Invariants across calls\<close>

text \<open>What holds between any two calls once the kernel runs.\<close>

definition sys_inv :: "kstate \<Rightarrow> bool" where
  "sys_inv s \<longleftrightarrow> kern_ok s \<and> sem_inv s \<and> event_inv s \<and> queue_inv s \<and> bufq_inv s
     \<and> g_sys_stat s = RHINO_RUNNING \<and> g_idle_task_spawned s"

lemma sys_invD:
  assumes "sys_inv s"
  shows "kern_ok s" "sem_inv s" "event_inv s" "queue_inv s" "bufq_inv s" "in_place s"
    "g_sys_stat s = RHINO_RUNNING" "g_idle_task_spawned s"
  using assms kern_ok_in_place by (simp_all add: sys_inv_def)

lemma keeps_no_lost:
  assumes "no_lost ty avail s" and k: "keeps X s s'" and x: "\<And>m. m \<in> X \<Longrightarrow> obj_type (blks s' m) \<noteq> ty"
    and n: "ty \<noteq> RHINO_OBJ_TYPE_NONE"
    and a: "\<And>ob t. ob \<notin> X \<Longrightarrow> request (tasks s' t) = request (tasks s t) \<Longrightarrow> avail s' ob t = avail s ob t"
  shows "no_lost ty avail s'"
  unfolding no_lost_def
proof (intro allI impI)
  fix ob t
  assume o: "obj_type (blks s' ob) = ty \<and> t \<in> set (blk_list (blks s' ob))"
  then have nx: "ob \<notin> X" using x by blast
  have "t \<in> set (blk_list (blks s ob))" "obj_type (blks s ob) = ty" "request (tasks s' t) = request (tasks s t)"
    using keepsD(2,3) [OF k nx, of t] keepsD(1) [OF k, of ob] o n by auto
  then show "\<not> avail s' ob t" using assms(1) a [OF nx] by (simp add: no_lost_def)
qed

lemma keeps_invs:
  assumes k: "keeps X s s'"
  shows "sem_inv s \<Longrightarrow> (\<And>m. m \<in> X \<Longrightarrow> obj_type (blks s' m) \<noteq> RHINO_SEM_OBJ_TYPE) \<Longrightarrow> sem_inv s'"
    and "event_inv s \<Longrightarrow> (\<And>m. m \<in> X \<Longrightarrow> obj_type (blks s' m) \<noteq> RHINO_EVENT_OBJ_TYPE) \<Longrightarrow> event_inv s'"
    and "queue_inv s \<Longrightarrow> (\<And>m. m \<in> X \<Longrightarrow> obj_type (blks s' m) \<noteq> RHINO_QUEUE_OBJ_TYPE) \<Longrightarrow> queue_inv s'"
    and "bufq_inv s \<Longrightarrow> (\<And>m. m \<in> X \<Longrightarrow> obj_type (blks s' m) \<noteq> RHINO_BUF_QUEUE_OBJ_TYPE) \<Longrightarrow> bufq_inv s'"
proof -
  have st: "sems s' ob = sems s ob" "events s' ob = events s ob" "queues s' ob = queues s ob" "bufqs s' ob = bufqs s ob"
    if "ob \<notin> X" for ob
    using keepsD(4) [OF k that] by simp_all
  have ty: "obj_type (blks s ob) = t" if "obj_type (blks s' ob) = t" "t \<noteq> RHINO_OBJ_TYPE_NONE" for ob t
    using keepsD(1) [OF k, of ob] that by simp
  show "sem_inv s'" if "sem_inv s" "\<And>m. m \<in> X \<Longrightarrow> obj_type (blks s' m) \<noteq> RHINO_SEM_OBJ_TYPE"
    by (rule keeps_no_lost [OF that(1) k that(2)]) (simp_all add: sem_avail_def st)
  show "event_inv s'" if "event_inv s" "\<And>m. m \<in> X \<Longrightarrow> obj_type (blks s' m) \<noteq> RHINO_EVENT_OBJ_TYPE"
    by (rule keeps_no_lost [OF that(1) k that(2)]) (simp_all add: event_avail_def served_def request_def st)
  show "queue_inv s'" if "queue_inv s" "\<And>m. m \<in> X \<Longrightarrow> obj_type (blks s' m) \<noteq> RHINO_QUEUE_OBJ_TYPE"
  proof (rule queue_invI [OF that(1)])
    show "no_lost RHINO_QUEUE_OBJ_TYPE queue_avail s'"
      by (rule keeps_no_lost [OF queue_invD(1) [OF that(1)] k that(2)]) (simp_all add: queue_avail_def st)
    show "queues s' q = queues s q \<and> obj_type (blks s q) = RHINO_QUEUE_OBJ_TYPE \<or> (\<exists>ms. queue_rep (queues s' q) ms)"
      if "obj_type (blks s' q) = RHINO_QUEUE_OBJ_TYPE" for q
      using that ty [OF that] st \<open>\<And>m. m \<in> X \<Longrightarrow> obj_type (blks s' m) \<noteq> RHINO_QUEUE_OBJ_TYPE\<close> by blast
  qed
  show "bufq_inv s'" if "bufq_inv s" "\<And>m. m \<in> X \<Longrightarrow> obj_type (blks s' m) \<noteq> RHINO_BUF_QUEUE_OBJ_TYPE"
  proof (rule bufq_invI [OF that(1)])
    show "no_lost RHINO_BUF_QUEUE_OBJ_TYPE bufq_avail s'"
      by (rule keeps_no_lost [OF bufq_invD(1) [OF that(1)] k that(2)]) (simp_all add: bufq_avail_def st)
    show "bufqs s' q = bufqs s q \<and> obj_type (blks s q) = RHINO_BUF_QUEUE_OBJ_TYPE \<or> (\<exists>ms. bufq_rep (bufqs s' q) ms)"
      if "obj_type (blks s' q) = RHINO_BUF_QUEUE_OBJ_TYPE" for q
      using that ty [OF that] st \<open>\<And>m. m \<in> X \<Longrightarrow> obj_type (blks s' m) \<noteq> RHINO_BUF_QUEUE_OBJ_TYPE\<close> by blast
  qed
qed

text \<open>A call about one object answers for the kernel and for its own component only.\<close>

lemma only_type:
  assumes "keeps (only ty s m) s s'" and "k \<in> only ty s m"
  shows "obj_type (blks s' k) = ty \<or> obj_type (blks s' k) = RHINO_OBJ_TYPE_NONE"
  using keepsD(1) [OF assms(1), of k] assms(2) by auto

lemma sys_inv_call:
  assumes s: "sys_inv s" and k: "keeps (only ty s m) s s'" and ok: "kern_ok s'"
    and own: "ty = RHINO_SEM_OBJ_TYPE \<Longrightarrow> sem_inv s'" "ty = RHINO_EVENT_OBJ_TYPE \<Longrightarrow> event_inv s'"
    "ty = RHINO_QUEUE_OBJ_TYPE \<Longrightarrow> queue_inv s'" "ty = RHINO_BUF_QUEUE_OBJ_TYPE \<Longrightarrow> bufq_inv s'"
  shows "sys_inv s'"
proof -
  have t: "obj_type (blks s' j) \<noteq> ty'" if "j \<in> only ty s m" "ty' \<noteq> ty" "ty' \<noteq> RHINO_OBJ_TYPE_NONE" for j ty'
    using only_type [OF k that(1)] that(2,3) by auto
  note I = keeps_invs [OF k] and S = sys_invD [OF s]
  have "sem_inv s'" by (cases "ty = RHINO_SEM_OBJ_TYPE") (use own(1) in simp, rule I(1) [OF S(2)], rule t, simp_all)
  moreover have "event_inv s'" by (cases "ty = RHINO_EVENT_OBJ_TYPE") (use own(2) in simp, rule I(2) [OF S(3)], rule t, simp_all)
  moreover have "queue_inv s'" by (cases "ty = RHINO_QUEUE_OBJ_TYPE") (use own(3) in simp, rule I(3) [OF S(4)], rule t, simp_all)
  moreover have "bufq_inv s'" by (cases "ty = RHINO_BUF_QUEUE_OBJ_TYPE") (use own(4) in simp, rule I(4) [OF S(5)], rule t, simp_all)
  ultimately show ?thesis using ok keepsD(5,6) [OF k] S(7,8) by (simp add: sys_inv_def)
qed

lemma sys_inv_plain:
  assumes s: "sys_inv s" and k: "keeps {} s s'" and ok: "kern_ok s'"
  shows "sys_inv s'"
proof -
  have "keeps (only RHINO_TIMER_OBJ_TYPE s NULL) s s'" using k by (rule keeps_mono) simp
  then show ?thesis by (rule sys_inv_call [OF s _ ok]) simp_all
qed


lemma sys_inv_make:
  assumes s: "sys_inv s" and m: "makes ty ob s s'" and ok: "kern_ok s'"
    and own: "ty = RHINO_QUEUE_OBJ_TYPE \<Longrightarrow> queue_inv s'" "ty = RHINO_BUF_QUEUE_OBJ_TYPE \<Longrightarrow> bufq_inv s'"
  shows "sys_inv s'"
proof (cases "s' = s")
  case False
  have b: "blk_list (blks s' ob) = []" "obj_type (blks s' ob) = ty" "tasks s' = tasks s"
    "g_sys_stat s' = g_sys_stat s" "g_idle_task_spawned s' = g_idle_task_spawned s"
    using m False by (simp_all add: makes_def)
  have o: "blks s' k = blks s k \<and> sems s' k = sems s k \<and> events s' k = events s k \<and> queues s' k = queues s k \<and> bufqs s' k = bufqs s k"
    if "k \<noteq> ob" for k
    using m False that unfolding makes_def by (metis fun_upd_other)
  note S = sys_invD [OF s]
  have nl: "no_lost t' av s'" if "no_lost t' av s" "\<And>k t. k \<noteq> ob \<Longrightarrow> av s' k t = av s k t" for t' av
    unfolding no_lost_def
  proof (intro allI impI)
    fix k t
    assume a: "obj_type (blks s' k) = t' \<and> t \<in> set (blk_list (blks s' k))"
    then have "k \<noteq> ob" using b(1) by auto
    then show "\<not> av s' k t" using a o that by (simp add: no_lost_def)
  qed
  have "sem_inv s'" by (rule nl [OF S(2)]) (simp add: sem_avail_def o)
  moreover have "event_inv s'" by (rule nl [OF S(3)]) (simp add: event_avail_def served_def o b(3))
  moreover have "queue_inv s'"
  proof (cases "ty = RHINO_QUEUE_OBJ_TYPE")
    case False
    have "no_lost RHINO_QUEUE_OBJ_TYPE queue_avail s'" by (rule nl [OF queue_invD(1) [OF S(4)]]) (simp add: queue_avail_def o)
    then show ?thesis by (rule queue_invI [OF S(4)]) (use o b(2) False in metis)
  qed (rule own(1))
  moreover have "bufq_inv s'"
  proof (cases "ty = RHINO_BUF_QUEUE_OBJ_TYPE")
    case False
    have "no_lost RHINO_BUF_QUEUE_OBJ_TYPE bufq_avail s'" by (rule nl [OF bufq_invD(1) [OF S(5)]]) (simp add: bufq_avail_def o)
    then show ?thesis by (rule bufq_invI [OF S(5)]) (use o b(2) False in metis)
  qed (rule own(2))
  ultimately show ?thesis using ok b S by (simp add: sys_inv_def)
qed (use s in simp)

lemma keeps_task_create:
  assumes s: "sys_inv s" and t: "task_state (tasks s t) \<in> {K_SEED, K_DELETED}"
  shows "keeps X s (snd (krhino_task_create s t name p tk stk sz en run))"
proof (cases "t \<noteq> NULL \<and> name \<noteq> NULL \<and> en \<noteq> NULL \<and> stk \<noteq> NULL \<and> sz \<noteq> 0 \<and> p < RHINO_IDLE_PRI
    \<and> g_intrpt_nested_level s = 0")
  case False
  then have "snd (krhino_task_create s t name p tk stk sz en run) = s"
    using sys_invD(8) [OF s] by (auto simp: krhino_task_create_def task_create_def RHINO_IDLE_PRI_def word_neq_0_conv)
  then show ?thesis by (simp add: keeps_refl)
next
  case True
  have "t \<notin> set (blk_list (blks s ob))" for ob
    using sys_invD(6) [OF s] t by (auto simp: in_place_def pending_def)
  then have "keeps X s (created s t x)" for x
    by (auto simp: created_def keeps_def)
  then show ?thesis using True by (simp add: krhino_task_create_def task_create_eq)
qed

end
