(* ===== verification/System.thy ===== *)
theory System
  imports Keeps
begin

text \<open>
  The kernel as a whole: every call of the modelled interface as a transition of the system, in any
  order, with interrupts between them. A call that blocks ends where the caller loses the CPU; what
  it does when it runs again is a transition of its own.

  The code does not check all that it relies on: \<open>legal\<close> states the rest. Objects are created in
  memory that is not an object in use, the idle task does not block and holds no mutex, a deleted task is not deleted
  again, entries and exits of interrupts match, and the tick handler runs in an interrupt.
\<close>

section \<open>Calls\<close>

datatype (plugins only: code size) syscall =
    Task_create ptr ptr nat tick ptr u32 ptr u8
  | Task_del ptr
  | Task_sleep tick
  | Task_yield
  | Task_suspend ptr
  | Task_resume ptr
  | Task_pri_change ptr nat ptr
  | Task_wait_abort ptr
  | Task_time_slice_set ptr u32
  | Sched_policy_set ptr u8
  | Sched_policy_get ptr ptr
  | Task_info_set ptr nat ptr
  | Task_info_get ptr nat ptr
  | Sched_disable
  | Sched_enable
  | Mutex_create ptr ptr
  | Mutex_del ptr
  | Mutex_lock ptr tick
  | Mutex_unlock ptr
  | Sem_create ptr ptr u32
  | Sem_del ptr
  | Sem_give ptr
  | Sem_give_all ptr
  | Sem_take ptr tick
  | Sem_count_set ptr u32
  | Sem_count_get ptr ptr
  | Event_create ptr ptr u32
  | Event_del ptr
  | Event_get ptr u32 u8 ptr tick
  | Event_set ptr u32 u8
  | Queue_create ptr ptr ptr nat
  | Queue_del ptr
  | Queue_back_send ptr ptr
  | Queue_all_send ptr ptr
  | Queue_recv ptr tick ptr
  | Queue_recv_resume ptr
  | Queue_flush ptr
  | Buf_queue_create ptr ptr ptr nat nat
  | Fix_buf_queue_create ptr ptr ptr nat nat
  | Buf_queue_del ptr
  | Buf_queue_send ptr ptr nat
  | Buf_queue_recv ptr tick ptr ptr
  | Buf_queue_recv_resume ptr
  | Buf_queue_flush ptr
  | Wait_resume
  | Intrpt_enter
  | Intrpt_exit
  | Tick_proc

fun exec :: "syscall \<Rightarrow> kstate \<Rightarrow> kstate" where
  "exec (Task_create t name p ticks stk sz en run) s = snd (krhino_task_create s t name p ticks stk sz en run)"
| "exec (Task_del t) s = snd (krhino_task_del s t)"
| "exec (Task_sleep d) s = snd (krhino_task_sleep s d)"
| "exec Task_yield s = snd (krhino_task_yield s)"
| "exec (Task_suspend t) s = snd (krhino_task_suspend s t)"
| "exec (Task_resume t) s = snd (krhino_task_resume s t)"
| "exec (Task_pri_change t p old) s = snd (krhino_task_pri_change s t p old)"
| "exec (Task_wait_abort t) s = snd (krhino_task_wait_abort s t)"
| "exec (Task_time_slice_set t n) s = snd (krhino_task_time_slice_set s t n)"
| "exec (Sched_policy_set t pol) s = snd (krhino_sched_policy_set s t pol)"
| "exec (Sched_policy_get t p) s = snd (krhino_sched_policy_get s t p)"
| "exec (Task_info_set t i p) s = snd (krhino_task_info_set s t i p)"
| "exec (Task_info_get t i p) s = snd (krhino_task_info_get s t i p)"
| "exec Sched_disable s = snd (krhino_sched_disable s)"
| "exec Sched_enable s = snd (krhino_sched_enable s)"
| "exec (Mutex_create m name) s = snd (krhino_mutex_create s m name)"
| "exec (Mutex_del m) s = snd (krhino_mutex_del s m)"
| "exec (Mutex_lock m d) s = snd (krhino_mutex_lock s m d)"
| "exec (Mutex_unlock m) s = snd (krhino_mutex_unlock s m)"
| "exec (Sem_create m name n) s = snd (krhino_sem_create s m name n)"
| "exec (Sem_del m) s = snd (krhino_sem_del s m)"
| "exec (Sem_give m) s = snd (krhino_sem_give s m)"
| "exec (Sem_give_all m) s = snd (krhino_sem_give_all s m)"
| "exec (Sem_take m d) s = snd (krhino_sem_take s m d)"
| "exec (Sem_count_set m n) s = snd (krhino_sem_count_set s m n)"
| "exec (Sem_count_get m p) s = snd (krhino_sem_count_get s m p)"
| "exec (Event_create m name fl) s = snd (krhino_event_create s m name fl)"
| "exec (Event_del m) s = snd (krhino_event_del s m)"
| "exec (Event_get m fl opt p d) s = snd (krhino_event_get s m fl opt p d)"
| "exec (Event_set m fl opt) s = snd (krhino_event_set s m fl opt)"
| "exec (Queue_create q name start n) s = snd (krhino_queue_create s q name start n)"
| "exec (Queue_del q) s = snd (krhino_queue_del s q)"
| "exec (Queue_back_send q m) s = snd (krhino_queue_back_send s q m)"
| "exec (Queue_all_send q m) s = snd (krhino_queue_all_send s q m)"
| "exec (Queue_recv q d p) s = snd (krhino_queue_recv s q d p)"
| "exec (Queue_recv_resume p) s = snd (krhino_queue_recv_resume s p)"
| "exec (Queue_flush q) s = snd (krhino_queue_flush s q)"
| "exec (Buf_queue_create q name buf n mx) s = snd (krhino_buf_queue_create s q name buf n mx)"
| "exec (Fix_buf_queue_create q name buf n k) s = snd (krhino_fix_buf_queue_create s q name buf n k)"
| "exec (Buf_queue_del q) s = snd (krhino_buf_queue_del s q)"
| "exec (Buf_queue_send q m n) s = snd (krhino_buf_queue_send s q m n)"
| "exec (Buf_queue_recv q d m p) s = snd (krhino_buf_queue_recv s q d m p)"
| "exec (Buf_queue_recv_resume p) s = snd (krhino_buf_queue_recv_resume s p)"
| "exec (Buf_queue_flush q) s = snd (krhino_buf_queue_flush s q)"
| "exec Wait_resume s = snd (pend_state_end_proc s (g_active_task s))"
| "exec Intrpt_enter s = snd (krhino_intrpt_enter s)"
| "exec Intrpt_exit s = krhino_intrpt_exit s"
| "exec Tick_proc s = krhino_tick_proc s"

section \<open>What the code relies on\<close>

definition fresh_obj :: "kstate \<Rightarrow> ptr \<Rightarrow> bool" where
  "fresh_obj s m \<longleftrightarrow> obj_type (blks s m) \<noteq> RHINO_MUTEX_OBJ_TYPE \<and> blk_list (blks s m) = []"

text \<open>The caller is not the idle task: another task, or an interrupt handler. \<open>may_wait\<close> also admits
  the idle task when it asks not to wait.\<close>

definition not_idle :: "kstate \<Rightarrow> bool" where
  "not_idle s \<longleftrightarrow> g_intrpt_nested_level s > 0 \<or> prio (tasks s (g_active_task s)) \<noteq> RHINO_IDLE_PRI"

fun legal :: "kstate \<Rightarrow> syscall \<Rightarrow> bool" where
  "legal s (Task_create t name p ticks stk sz en run) \<longleftrightarrow> task_state (tasks s t) \<in> {K_SEED, K_DELETED}"
| "legal s (Task_del t) \<longleftrightarrow> task_state (tasks s t) \<noteq> K_DELETED"
| "legal s (Task_sleep d) \<longleftrightarrow> not_idle s"
| "legal s Task_yield \<longleftrightarrow> g_intrpt_nested_level s = 0"
| "legal s (Task_pri_change t p old) \<longleftrightarrow> task_state (tasks s t) \<noteq> K_SEED"
| "legal s (Mutex_create m name) \<longleftrightarrow> fresh_obj s m"
| "legal s (Mutex_lock m d) \<longleftrightarrow> not_idle s"
| "legal s (Mutex_unlock m) \<longleftrightarrow> not_idle s"
| "legal s (Sem_create m name n) \<longleftrightarrow> fresh_obj s m"
| "legal s (Sem_take m d) \<longleftrightarrow> may_wait s d"
| "legal s (Event_create m name fl) \<longleftrightarrow> fresh_obj s m"
| "legal s (Event_get m fl opt p d) \<longleftrightarrow> may_wait s d"
| "legal s (Queue_create q name start n) \<longleftrightarrow> fresh_obj s q \<and> n * sizeof_ptr < 2 ^ 32"
| "legal s (Queue_recv q d p) \<longleftrightarrow> may_wait s d"
| "legal s (Buf_queue_create q name buf n mx) \<longleftrightarrow> fresh_obj s q"
| "legal s (Fix_buf_queue_create q name buf n k) \<longleftrightarrow> fresh_obj s q \<and> n * k < 2 ^ 32"
| "legal s (Buf_queue_recv q d m p) \<longleftrightarrow> may_wait s d"
| "legal s Intrpt_enter \<longleftrightarrow> g_intrpt_nested_level s < 255"
| "legal s Intrpt_exit \<longleftrightarrow> g_intrpt_nested_level s > 0"
| "legal s Tick_proc \<longleftrightarrow> g_intrpt_nested_level s > 0"
| "legal s _ \<longleftrightarrow> True"

section \<open>Calls that change little\<close>

lemma krhino_sched_disable_ok:
  assumes ok: "kern_ok s"
  shows "kern_ok (snd (krhino_sched_disable s))"
proof (cases "g_intrpt_nested_level s > 0 \<or> g_sched_lock s \<ge> SCHED_MAX_LOCK_COUNT")
  case True
  with ok show ?thesis by (auto simp: krhino_sched_disable_def)
next
  case False
  note k = kern_okD [OF ok]
  have n: "g_intrpt_nested_level s = 0" and l: "g_sched_lock s < 200"
    using False by (auto simp: word_neq_0_conv [symmetric] SCHED_MAX_LOCK_COUNT_def)
  have "g_sched_lock s + 1 \<noteq> 0"
  proof
    assume "g_sched_lock s + 1 = 0"
    then have "g_sched_lock s = - 1" by (simp add: eq_neg_iff_add_eq_0)
    with l show False by simp
  qed
  moreover have "pi_ok (s\<lparr>g_sched_lock := x\<rparr>) = pi_ok s" for x by (rule pi_ok_cong) simp_all
  ultimately have "kern_ok (s\<lparr>g_sched_lock := g_sched_lock s + 1\<rparr>)"
    using k(1,6) kern_ok_caller [OF ok n] n by (simp add: kern_ok_def act_ok_def act_safe_def)
  then show ?thesis using False by (auto simp: krhino_sched_disable_def)
qed

lemma krhino_sched_enable_ok:
  assumes ok: "kern_ok s"
  shows "kern_ok (snd (krhino_sched_enable s))"
proof (cases "g_intrpt_nested_level s > 0 \<or> g_sched_lock s = 0")
  case True
  with ok show ?thesis by (auto simp: krhino_sched_enable_def)
next
  case False
  note k = kern_okD [OF ok]
  have n: "g_intrpt_nested_level s = 0" using False by (auto simp: word_neq_0_conv [symmetric])
  let ?s = "s\<lparr>g_sched_lock := g_sched_lock s - 1\<rparr>"
  have pi: "pi_ok ?s" using k(1) pi_ok_cong [of ?s s] by simp
  have r: "rdy (tasks s (g_active_task s))" by (rule kern_ok_caller [OF ok n])
  have "kern_ok ?s" if "g_sched_lock ?s > 0"
    using pi k(6) r that by (auto simp: kern_ok_def act_ok_def act_safe_def)
  moreover have "kern_ok (core_sched ?s)"
    using k(6) r by (intro kern_ok_core_sched pi) (simp add: act_safe_def)
  ultimately show ?thesis using False by (simp add: krhino_sched_enable_def Let_def)
qed

lemma small_calls_ok:
  assumes ok: "kern_ok s"
  shows "kern_ok (snd (krhino_task_time_slice_set s t n))" "kern_ok (snd (krhino_sched_policy_set s t pol))"
    "kern_ok (snd (krhino_sched_policy_get s t p))" "kern_ok (snd (krhino_task_info_set s t i p))"
    "kern_ok (snd (krhino_task_info_get s t i p))"
proof -
  have r: "kern_ok (set_task t f s')"
    if "kern_ok s'" "\<And>x. prio (f x) = prio x \<and> b_prio (f x) = b_prio x \<and> mutex_list (f x) = mutex_list x
      \<and> task_state (f x) = task_state x \<and> tick_head (f x) = tick_head x \<and> blk_obj (f x) = blk_obj x" for f s'
  proof -
    have "set_task t f s' = s'\<lparr>tasks := (tasks s')(t := f (tasks s' t))\<rparr>" by simp
    moreover have "kern_ok (s'\<lparr>tasks := (tasks s')(t := f (tasks s' t))\<rparr>)"
      by (rule kern_ok_retask [OF that(1)]) (simp_all add: that(2))
    ultimately show ?thesis by (simp only:)
  qed
  have u: "kern_ok (umem_update f s)" for f by (rule kern_ok_data [OF ok]) simp_all
  show "kern_ok (snd (krhino_task_time_slice_set s t n))" "kern_ok (snd (krhino_sched_policy_set s t pol))"
    "kern_ok (snd (krhino_sched_policy_get s t p))" "kern_ok (snd (krhino_task_info_set s t i p))"
    "kern_ok (snd (krhino_task_info_get s t i p))"
    unfolding krhino_task_time_slice_set_def krhino_sched_policy_set_def krhino_sched_policy_get_def
      krhino_task_info_set_def krhino_task_info_get_def Let_def if_distrib [of snd] if_distrib [of kern_ok]
      snd_conv if_bool_eq_conj
    by (intro conjI impI r u ok; simp)+
qed

lemma end_proc_ok: "kern_ok s \<Longrightarrow> kern_ok (snd (pend_state_end_proc s t))"
  by (auto simp: pend_state_end_proc_def k_err_proc_def split: blk_state_t.split elim: kern_ok_data)


lemma resume_calls_ok:
  assumes "kern_ok s"
  shows "kern_ok (snd (krhino_queue_recv_resume s p))" "kern_ok (snd (krhino_buf_queue_recv_resume s p))"
proof -
  have e: "\<exists>r s'. pend_state_end_proc s (g_active_task s) = (r, s') \<and> kern_ok s'"
    using end_proc_ok [OF assms, of "g_active_task s"] by (metis prod.collapse)
  have u: "kern_ok (umem_update f s')" if "kern_ok s'" for f s' by (rule kern_ok_data [OF that]) simp_all
  show "kern_ok (snd (krhino_queue_recv_resume s p))" "kern_ok (snd (krhino_buf_queue_recv_resume s p))"
    using e u by (auto simp: krhino_queue_recv_resume_def krhino_buf_queue_recv_resume_def split: kstat.split)
qed

lemma keeps_resume_calls:
  "keeps X s (snd (krhino_queue_recv_resume s p))" "keeps X s (snd (krhino_buf_queue_recv_resume s p))"
proof -
  obtain r s' where e: "pend_state_end_proc s (g_active_task s) = (r, s')" by fastforce
  have "keeps X s s'" using keeps_end_proc [OF keeps_refl, of X s "g_active_task s"] e by simp
  then show "keeps X s (snd (krhino_queue_recv_resume s p))" "keeps X s (snd (krhino_buf_queue_recv_resume s p))"
    by (simp_all add: krhino_queue_recv_resume_def krhino_buf_queue_recv_resume_def e split: kstat.split)
qed

section \<open>Every call keeps the invariants\<close>

lemma exec_mutex:
  assumes s: "sys_inv s" and "keeps (only RHINO_MUTEX_OBJ_TYPE s m) s s'" and "kern_ok s'"
  shows "sys_inv s'"
  by (rule sys_inv_call [OF assms]) simp_all

lemma exec_sem:
  assumes s: "sys_inv s" and "keeps (only RHINO_SEM_OBJ_TYPE s m) s s'" and "kern_ok s' \<and> sem_inv s'"
  shows "sys_inv s'"
  by (rule sys_inv_call [OF assms(1,2)]) (use assms(3) in simp_all)

lemma exec_event:
  assumes s: "sys_inv s" and "keeps (only RHINO_EVENT_OBJ_TYPE s m) s s'" and "kern_ok s' \<and> event_inv s'"
  shows "sys_inv s'"
  by (rule sys_inv_call [OF assms(1,2)]) (use assms(3) in simp_all)

lemma exec_queue:
  assumes s: "sys_inv s" and "keeps (only RHINO_QUEUE_OBJ_TYPE s m) s s'" and "kern_ok s' \<and> queue_inv s'"
  shows "sys_inv s'"
  by (rule sys_inv_call [OF assms(1,2)]) (use assms(3) in simp_all)

lemma exec_bufq:
  assumes s: "sys_inv s" and "keeps (only RHINO_BUF_QUEUE_OBJ_TYPE s m) s s'" and "kern_ok s' \<and> bufq_inv s'"
  shows "sys_inv s'"
  by (rule sys_inv_call [OF assms(1,2)]) (use assms(3) in simp_all)


lemma exec_tasks:
  assumes s: "sys_inv s"
  shows "legal s (Task_create t name p ticks stk sz en run) \<Longrightarrow> sys_inv (exec (Task_create t name p ticks stk sz en run) s)"
    and "legal s (Task_del t) \<Longrightarrow> sys_inv (exec (Task_del t) s)"
    and "legal s (Task_sleep d) \<Longrightarrow> sys_inv (exec (Task_sleep d) s)"
    and "legal s Task_yield \<Longrightarrow> sys_inv (exec Task_yield s)"
    and "sys_inv (exec (Task_suspend t) s)" "sys_inv (exec (Task_resume t) s)"
    and "legal s (Task_pri_change t p old) \<Longrightarrow> sys_inv (exec (Task_pri_change t p old) s)"
    and "sys_inv (exec (Task_wait_abort t) s)"
proof -
  note S = sys_invD [OF s] and P = sys_inv_plain [OF s]
  have i: "prio (tasks s t) = RHINO_IDLE_PRI \<Longrightarrow> exec (Task_suspend t) s = s" for t
    by (simp add: krhino_task_suspend_def)
  show "sys_inv (exec (Task_create t name p ticks stk sz en run) s)" if "legal s (Task_create t name p ticks stk sz en run)"
    using that keeps_task_create [OF s] krhino_task_create_ok [OF S(1) _ S(7,8)] by (intro P) simp_all
  show "sys_inv (exec (Task_del t) s)" if "legal s (Task_del t)"
    using that keeps_task_del [OF S(6)] krhino_task_del_ok [OF S(1)] by (intro P) simp_all
  show "sys_inv (exec (Task_sleep d) s)" if "legal s (Task_sleep d)"
  proof (cases "g_intrpt_nested_level s > 0")
    case True
    then have "exec (Task_sleep d) s = s" by (simp add: krhino_task_sleep_def)
    with s show ?thesis by simp
  next
    case False
    then show ?thesis
      using that keeps_task_calls(1) krhino_task_sleep_ok [OF S(1)] by (intro P) (simp_all add: not_idle_def)
  qed
  show "sys_inv (exec Task_yield s)" if "legal s Task_yield"
    using that keeps_task_calls(2) krhino_task_yield_ok [OF S(1)] kern_ok_caller [OF S(1)] by (intro P) simp_all
  have "kern_ok (snd (krhino_task_suspend s t))"
    using task_suspend_ok [OF S(1)] S(1) by (simp add: krhino_task_suspend_def)
  then show "sys_inv (exec (Task_suspend t) s)" using keeps_task_calls(3) by (intro P) simp_all
  have "kern_ok (snd (krhino_task_resume s t))"
    using task_resume_ok [OF S(1)] S(1) by (simp add: krhino_task_resume_def)
  then show "sys_inv (exec (Task_resume t) s)" using keeps_task_calls(4) by (intro P) simp_all
  show "sys_inv (exec (Task_pri_change t p old) s)" if "legal s (Task_pri_change t p old)"
    using that keeps_task_pri_change [OF S(6)] krhino_task_pri_change_ok [OF S(1)] by (intro P) simp_all
  show "sys_inv (exec (Task_wait_abort t) s)"
    using keeps_wait_abort [OF S(6)] krhino_task_wait_abort_ok [OF S(1)] by (intro P) simp_all
qed

lemma exec_scheduler:
  assumes s: "sys_inv s"
  shows "sys_inv (exec (Task_time_slice_set t n) s)" "sys_inv (exec (Sched_policy_set t pol) s)"
    "sys_inv (exec (Sched_policy_get t q) s)"
    "sys_inv (exec (Task_info_set t i q) s)" "sys_inv (exec (Task_info_get t i q) s)"
    "sys_inv (exec Sched_disable s)" "sys_inv (exec Sched_enable s)" "sys_inv (exec Wait_resume s)"
    and "legal s Intrpt_enter \<Longrightarrow> sys_inv (exec Intrpt_enter s)"
    and "legal s Intrpt_exit \<Longrightarrow> sys_inv (exec Intrpt_exit s)"
    and "legal s Tick_proc \<Longrightarrow> sys_inv (exec Tick_proc s)"
proof -
  note S = sys_invD [OF s] and P = sys_inv_plain [OF s]
  show "sys_inv (exec (Task_time_slice_set t n) s)" "sys_inv (exec (Sched_policy_set t pol) s)"
    "sys_inv (exec (Sched_policy_get t q) s)"
    "sys_inv (exec (Task_info_set t i q) s)" "sys_inv (exec (Task_info_get t i q) s)"
    "sys_inv (exec Sched_disable s)" "sys_inv (exec Sched_enable s)" "sys_inv (exec Wait_resume s)"
    by (rule P; simp add: keeps_task_calls keeps_end_proc keeps_refl small_calls_ok [OF S(1)] end_proc_ok [OF S(1)]
        krhino_sched_disable_ok [OF S(1)] krhino_sched_enable_ok [OF S(1)])+
  show "sys_inv (exec Intrpt_enter s)" if "legal s Intrpt_enter"
    using that keeps_intrpt(1) krhino_intrpt_enter_ok [OF S(1)] by (intro P) simp_all
  show "sys_inv (exec Intrpt_exit s)" if "legal s Intrpt_exit"
    using that keeps_intrpt(2) krhino_intrpt_exit_ok [OF S(1)] by (intro P) simp_all
  show "sys_inv (exec Tick_proc s)" if "legal s Tick_proc"
    using that keeps_tick_proc [OF S(6)] time_slice_update_kern [OF tick_list_update_kern [OF S(1)]]
    by (intro P) (simp_all add: krhino_tick_proc_def)
qed

lemma mutex_calls_intrpt:
  assumes "g_intrpt_nested_level s > 0"
  shows "snd (krhino_mutex_lock s m d) = s" "snd (krhino_mutex_unlock s m) = s"
  using assms by (simp_all add: krhino_mutex_lock_def krhino_mutex_unlock_def)

lemma exec_mutexes_sems:
  assumes s: "sys_inv s"
  shows "legal s (Mutex_create m name) \<Longrightarrow> sys_inv (exec (Mutex_create m name) s)"
    and "sys_inv (exec (Mutex_del m) s)"
    and "legal s (Mutex_lock m d) \<Longrightarrow> sys_inv (exec (Mutex_lock m d) s)"
    and "legal s (Mutex_unlock m) \<Longrightarrow> sys_inv (exec (Mutex_unlock m) s)"
    and "legal s (Sem_create m name n) \<Longrightarrow> sys_inv (exec (Sem_create m name n) s)"
    and "sys_inv (exec (Sem_del m) s)" "sys_inv (exec (Sem_give m) s)" "sys_inv (exec (Sem_give_all m) s)"
    and "legal s (Sem_take m d) \<Longrightarrow> sys_inv (exec (Sem_take m d) s)"
    and "sys_inv (exec (Sem_count_set m n) s)" "sys_inv (exec (Sem_count_get m q) s)"
proof -
  note S = sys_invD [OF s] and P = sys_inv_plain [OF s]
  show "sys_inv (exec (Mutex_create m name) s)" if "legal s (Mutex_create m name)"
    using that krhino_mutex_create_ok [OF S(1)]
    unfolding exec.simps by (intro sys_inv_make [OF s makes_calls(2)]) (simp_all add: fresh_obj_def)
  show "sys_inv (exec (Mutex_del m) s)"
    using keeps_mutex_calls(3) [OF S(6)] krhino_mutex_del_ok [OF S(1)] by (intro exec_mutex [OF s]) simp_all
  show "sys_inv (exec (Mutex_lock m d) s)" if "legal s (Mutex_lock m d)"
  proof (cases "g_intrpt_nested_level s > 0")
    case True
    with s show ?thesis by (simp only: exec.simps mutex_calls_intrpt)
  next
    case False
    then show ?thesis
      using that keeps_mutex_calls(1) [OF S(6)] krhino_mutex_lock_ok [OF S(1)]
      by (intro exec_mutex [OF s]) (simp_all add: not_idle_def)
  qed
  show "sys_inv (exec (Mutex_unlock m) s)" if "legal s (Mutex_unlock m)"
  proof (cases "g_intrpt_nested_level s > 0")
    case True
    with s show ?thesis by (simp only: exec.simps mutex_calls_intrpt)
  next
    case False
    then show ?thesis
      using that keeps_mutex_calls(2) [OF S(6)] krhino_mutex_unlock_ok [OF S(1)]
      by (intro exec_mutex [OF s]) (simp_all add: not_idle_def)
  qed
  show "sys_inv (exec (Sem_create m name n) s)" if "legal s (Sem_create m name n)"
    using that krhino_sem_create_ok [OF S(1,2)]
    unfolding exec.simps by (intro sys_inv_make [OF s makes_calls(1)]) (simp_all add: fresh_obj_def)
  show "sys_inv (exec (Sem_del m) s)"
    using keeps_sem_calls(4) krhino_sem_del_ok [OF S(1,2)] by (intro exec_sem [OF s]) simp_all
  show "sys_inv (exec (Sem_give m) s)"
    unfolding exec.simps by (rule exec_sem [OF s keeps_sem_calls(1)]) (use sem_give_ok [OF S(1,2)] S(1,2) in \<open>simp add: krhino_sem_give_def\<close>)
  show "sys_inv (exec (Sem_give_all m) s)"
    unfolding exec.simps by (rule exec_sem [OF s keeps_sem_calls(2)]) (use sem_give_ok [OF S(1,2)] S(1,2) in \<open>simp add: krhino_sem_give_all_def\<close>)
  show "sys_inv (exec (Sem_take m d) s)" if "legal s (Sem_take m d)"
    using that keeps_sem_calls(3) krhino_sem_take_ok [OF S(1) _ S(2)] by (intro exec_sem [OF s]) simp_all
  show "sys_inv (exec (Sem_count_set m n) s)"
    using keeps_sem_calls(5) krhino_sem_count_set_ok [OF S(1,2)] by (intro exec_sem [OF s]) simp_all
  have u: "kern_ok (umem_update f s)" for f by (rule kern_ok_data [OF S(1)]) simp_all
  show "sys_inv (exec (Sem_count_get m q) s)"
    by (rule P) (use u S(1) in \<open>simp_all add: krhino_sem_count_get_def keeps_refl\<close>)
qed

lemma exec_messages:
  assumes s: "sys_inv s"
  shows "legal s (Event_create m name fl) \<Longrightarrow> sys_inv (exec (Event_create m name fl) s)"
    and "sys_inv (exec (Event_del m) s)" "sys_inv (exec (Event_set m fl opt) s)"
    and "legal s (Event_get m fl opt q d) \<Longrightarrow> sys_inv (exec (Event_get m fl opt q d) s)"
    and "legal s (Queue_create m name b n) \<Longrightarrow> sys_inv (exec (Queue_create m name b n) s)"
    and "sys_inv (exec (Queue_del m) s)" "sys_inv (exec (Queue_back_send m x) s)" "sys_inv (exec (Queue_all_send m x) s)"
    and "legal s (Queue_recv m d q) \<Longrightarrow> sys_inv (exec (Queue_recv m d q) s)"
    and "sys_inv (exec (Queue_recv_resume q) s)" "sys_inv (exec (Queue_flush m) s)"
    and "legal s (Buf_queue_create m name b n k) \<Longrightarrow> sys_inv (exec (Buf_queue_create m name b n k) s)"
    and "legal s (Fix_buf_queue_create m name b n k) \<Longrightarrow> sys_inv (exec (Fix_buf_queue_create m name b n k) s)"
    and "sys_inv (exec (Buf_queue_del m) s)" "sys_inv (exec (Buf_queue_send m x n) s)"
    and "legal s (Buf_queue_recv m d x q) \<Longrightarrow> sys_inv (exec (Buf_queue_recv m d x q) s)"
    and "sys_inv (exec (Buf_queue_recv_resume q) s)" "sys_inv (exec (Buf_queue_flush m) s)"
proof -
  note S = sys_invD [OF s] and P = sys_inv_plain [OF s]
  show "sys_inv (exec (Event_create m name fl) s)" if "legal s (Event_create m name fl)"
    using that krhino_event_create_ok [OF S(1,3)] unfolding exec.simps by (intro sys_inv_make [OF s makes_calls(3)]) (simp_all add: fresh_obj_def)
  show "sys_inv (exec (Event_del m) s)"
    using keeps_event_calls(2) krhino_event_del_ok [OF S(1,3)] by (intro exec_event [OF s]) simp_all
  show "sys_inv (exec (Event_set m fl opt) s)"
    unfolding exec.simps by (rule exec_event [OF s keeps_event_calls(1)]) (use event_set_ok [OF S(1,3)] S(1,3) in \<open>simp add: krhino_event_set_def\<close>)
  show "sys_inv (exec (Event_get m fl opt q d) s)" if "legal s (Event_get m fl opt q d)"
    using that keeps_event_get [OF S(1)] krhino_event_get_ok [OF S(1) _ S(3)]
    by (intro exec_event [OF s]) simp_all
  show "sys_inv (exec (Queue_create m name b n) s)" if "legal s (Queue_create m name b n)"
    using that krhino_queue_create_ok [OF S(1,4)] unfolding exec.simps by (intro sys_inv_make [OF s makes_calls(4)]) (simp_all add: fresh_obj_def)
  show "sys_inv (exec (Queue_del m) s)"
    using keeps_queue_calls(5) krhino_queue_del_ok [OF S(1,4)] by (intro exec_queue [OF s]) simp_all
  show "sys_inv (exec (Queue_back_send m x) s)"
    unfolding exec.simps by (rule exec_queue [OF s keeps_queue_calls(1)]) (use msg_send_ok [OF S(1,4)] in \<open>simp add: krhino_queue_back_send_def\<close>)
  show "sys_inv (exec (Queue_all_send m x) s)"
    unfolding exec.simps by (rule exec_queue [OF s keeps_queue_calls(2)]) (use msg_send_ok [OF S(1,4)] in \<open>simp add: krhino_queue_all_send_def\<close>)
  show "sys_inv (exec (Queue_recv m d q) s)" if "legal s (Queue_recv m d q)"
    using that keeps_queue_calls(3) krhino_queue_recv_ok [OF S(1) _ S(4)] by (intro exec_queue [OF s]) simp_all
  show "sys_inv (exec (Queue_recv_resume q) s)" "sys_inv (exec (Buf_queue_recv_resume q) s)"
    by (rule P; simp add: keeps_resume_calls resume_calls_ok [OF S(1)])+
  show "sys_inv (exec (Queue_flush m) s)"
    using keeps_queue_calls(4) krhino_queue_flush_ok [OF S(1,4)] by (intro exec_queue [OF s]) simp_all
  show "sys_inv (exec (Buf_queue_create m name b n k) s)" if "legal s (Buf_queue_create m name b n k)"
    using that krhino_buf_queue_create_ok(1) [OF S(1,5)] unfolding exec.simps by (intro sys_inv_make [OF s makes_calls(5)]) (simp_all add: fresh_obj_def)
  show "sys_inv (exec (Fix_buf_queue_create m name b n k) s)" if "legal s (Fix_buf_queue_create m name b n k)"
    using that krhino_buf_queue_create_ok(2) [OF S(1,5)] unfolding exec.simps by (intro sys_inv_make [OF s makes_calls(6)]) (simp_all add: fresh_obj_def)
  show "sys_inv (exec (Buf_queue_del m) s)"
    using keeps_buf_queue_calls(4) krhino_buf_queue_del_ok [OF S(1,5)] by (intro exec_bufq [OF s]) simp_all
  show "sys_inv (exec (Buf_queue_send m x n) s)"
    unfolding exec.simps by (rule exec_bufq [OF s keeps_buf_queue_calls(1)]) (use buf_queue_send_ok [OF S(1,5)] S(1,5) in \<open>simp add: krhino_buf_queue_send_def\<close>)
  show "sys_inv (exec (Buf_queue_recv m d x q) s)" if "legal s (Buf_queue_recv m d x q)"
    using that keeps_buf_queue_calls(2) krhino_buf_queue_recv_ok [OF S(1) _ S(5)]
    by (intro exec_bufq [OF s]) simp_all
  show "sys_inv (exec (Buf_queue_flush m) s)"
    using keeps_buf_queue_calls(3) krhino_buf_queue_flush_ok [OF S(1,5)] by (intro exec_bufq [OF s]) simp_all
qed

lemmas exec_calls = exec_tasks exec_scheduler exec_mutexes_sems exec_messages

lemma exec_ok:
  assumes "sys_inv s" and "legal s c"
  shows "sys_inv (exec c s)"
  using assms(2) by (cases c) (hypsubst, (rule exec_calls [OF assms(1)]; assumption))+

end
