(* ===== verification/Fairness.thy ===== *)
theory Fairness
  imports System
begin

text \<open>
  Round robin: tasks of the highest ready priority share the CPU. Nothing else happens here but tick
  interrupts, and no task has a timeout; then every task of that priority runs, and after exactly
  as many ticks as the slices of the tasks in front of it last.
\<close>

definition tick_intrpt :: "kstate \<Rightarrow> kstate" where
  "tick_intrpt s = krhino_intrpt_exit (krhino_tick_proc (snd (krhino_intrpt_enter s)))"

text \<open>The ready tasks of the highest priority, in the order of their list, all of policy RR.\<close>

definition sharing :: "kstate \<Rightarrow> ptr list \<Rightarrow> bool" where
  "sharing s ts \<longleftrightarrow> kern_ok s \<and> g_intrpt_nested_level s = 0 \<and> g_sched_lock s = 0 \<and> g_tick_head s = []
     \<and> cur_list_item (g_ready_queue s) (highest_pri (g_ready_queue s)) = ts
     \<and> (\<forall>t \<in> set ts. sched_policy (tasks s t) = KSCHED_RR)"

text \<open>How long a task stays in front: a slice of zero lasts one tick.\<close>

definition turn :: "kstate \<Rightarrow> ptr \<Rightarrow> nat" where
  "turn s t = max 1 (unat (task_time_slice (tasks s t)))"

lemma sharing_active:
  assumes "sharing s ts"
  shows "g_active_task s = first ts" and "ts \<noteq> []" and "distinct ts"
proof -
  have k: "kern_ok s" using assms by (simp add: sharing_def)
  note h = highest_ready [OF kern_okD(3) [OF k]]
  have wf: "rq_wf (g_ready_queue s)" using lists_okD(1) [OF kern_okD(3) [OF k]] by (simp add: rdy_ok_def)
  show "g_active_task s = first ts"
    using assms kern_okD(2) [OF k] by (simp add: sharing_def act_ok_def)
  show "distinct ts" using assms rq_wf_distinct [OF wf] by (auto simp: sharing_def)
  have "highest_pri (g_ready_queue s) = prio (tasks s (g_active_task s))" "rdy (tasks s (g_active_task s))"
    using h(1,2) assms \<open>g_active_task s = first ts\<close> by (simp_all add: sharing_def)
  then have "g_active_task s \<in> set (cur_list_item (g_ready_queue s) (highest_pri (g_ready_queue s)))"
    using lists_okD(1) [OF kern_okD(3) [OF k]] by (simp add: rdy_ok_mem)
  then show "ts \<noteq> []" using assms by (auto simp: sharing_def)
qed

lemma sharing_prio:
  assumes "sharing s (t # ts)"
  shows "prio (tasks s t) = highest_pri (g_ready_queue s)"
proof -
  have k: "kern_ok s" and l: "cur_list_item (g_ready_queue s) (highest_pri (g_ready_queue s)) = t # ts"
    using assms by (simp_all add: sharing_def)
  show ?thesis using highest_ready(2) [OF kern_okD(3) [OF k]] by (simp add: l)
qed

text \<open>One tick.\<close>

lemma kern_ok_tick_intrpt:
  assumes "kern_ok s" and "g_intrpt_nested_level s = 0"
  shows "kern_ok (tick_intrpt s)"
proof -
  let ?s1 = "snd (krhino_intrpt_enter s)"
  have 1: "kern_ok ?s1" "g_intrpt_nested_level ?s1 > 0"
    using krhino_intrpt_enter_ok [OF assms(1)] assms(2) by (simp_all add: krhino_intrpt_enter_def)
  note T = tick_list_update_kern [OF 1, of 1]
  have "g_intrpt_nested_level (krhino_tick_proc ?s1) > 0"
    using T(2) by (simp add: krhino_tick_proc_def time_slice_update_def Let_def)
  then show ?thesis
    unfolding tick_intrpt_def
    using time_slice_update_kern [OF T] by (intro krhino_intrpt_exit_ok) (simp_all add: krhino_tick_proc_def)
qed

lemma time_slice_update_rr:
  assumes "g_active_task s = x" and "prio (tasks s x) = p" and "cur_list_item (g_ready_queue s) p = x # y # ys"
    and "sched_policy (tasks s x) = KSCHED_RR"
  defines "k \<equiv> unat (task_time_slice (tasks s x))"
  shows "time_slice_update s = s\<lparr>g_ready_queue := (if k > 1 then g_ready_queue s else ready_list_head_to_tail (g_ready_queue s) p),
    tasks := (tasks s)(x := (tasks s x)\<lparr>task_time_slice :=
      (if k > 1 then task_time_slice (tasks s x) - 1 else time_total (tasks s x))\<rparr>)\<rparr>"
proof -
  have pol: "sched_policy (tasks s x) \<noteq> KSCHED_FIFO" using assms(4) by (simp add: KSCHED_RR_def KSCHED_FIFO_def)
  consider "task_time_slice (tasks s x) = 0" | "task_time_slice (tasks s x) = 1" | "k > 1"
    proof -
    have w: "task_time_slice (tasks s x) = word_of_nat k" by (simp add: k_def)
    show thesis using that unfolding w by (cases "k = 0 \<or> k = 1") auto
  qed
  then show ?thesis
  proof cases
    case 3
    then have "0 < task_time_slice (tasks s x)" "0 < task_time_slice (tasks s x) - 1"
      by (auto simp: k_def word_less_nat_alt unat_sub_if')
    then show ?thesis
      using 3 assms(1-3) pol by (simp add: time_slice_update_def is_ready_list_empty_def Let_def fun_upd_def fun_eq_iff)
  qed (use assms(1-3) pol in \<open>simp_all add: k_def time_slice_update_def is_ready_list_empty_def Let_def fun_upd_def fun_eq_iff\<close>)
qed

lemma tick_intrpt_fields:
  assumes sh: "sharing s (x # y # ys)"
  defines "s' \<equiv> tick_intrpt s"
    and "k \<equiv> unat (task_time_slice (tasks s x))" and "p \<equiv> highest_pri (g_ready_queue s)"
  shows "g_intrpt_nested_level s' = 0" "g_sched_lock s' = 0" "g_tick_head s' = []"
    and "highest_pri (g_ready_queue s') = p"
    and "cur_list_item (g_ready_queue s') p = (if k > 1 then x # y # ys else y # ys @ [x])"
    and "tasks s' = (tasks s)(x := (tasks s x)\<lparr>task_time_slice :=
      (if k > 1 then task_time_slice (tasks s x) - 1 else time_total (tasks s x))\<rparr>)"
proof -
  have f: "g_intrpt_nested_level s = 0" "g_sched_lock s = 0" "g_tick_head s = []"
    "cur_list_item (g_ready_queue s) p = x # y # ys" "sched_policy (tasks s x) = KSCHED_RR" "g_active_task s = x"
    using sh sharing_active(1) [OF sh] by (simp_all add: sharing_def p_def)
  let ?s1 = "s\<lparr>g_intrpt_nested_level := 1, g_tick_count := g_tick_count s + 1\<rparr>"
  have "tick_list_update (snd (krhino_intrpt_enter s)) 1 = ?s1"
    using f(1,3) by (simp add: tick_list_update_def krhino_intrpt_enter_def Let_def)
  then have "s' = krhino_intrpt_exit (time_slice_update ?s1)"
    by (simp add: s'_def tick_intrpt_def krhino_tick_proc_def)
  also have "time_slice_update ?s1 = ?s1\<lparr>g_ready_queue := (if k > 1 then g_ready_queue s else ready_list_head_to_tail (g_ready_queue s) p),
    tasks := (tasks s)(x := (tasks s x)\<lparr>task_time_slice :=
      (if k > 1 then task_time_slice (tasks s x) - 1 else time_total (tasks s x))\<rparr>)\<rparr>"
    using time_slice_update_rr [of ?s1 x p y ys] f sharing_prio [OF sh] by (simp add: k_def p_def)
  finally have s': "s' = krhino_intrpt_exit (?s1\<lparr>g_ready_queue := (if k > 1 then g_ready_queue s else ready_list_head_to_tail (g_ready_queue s) p),
    tasks := (tasks s)(x := (tasks s x)\<lparr>task_time_slice :=
      (if k > 1 then task_time_slice (tasks s x) - 1 else time_total (tasks s x))\<rparr>)\<rparr>)" .
  show "g_intrpt_nested_level s' = 0" "g_sched_lock s' = 0" "g_tick_head s' = []"
    "highest_pri (g_ready_queue s') = p"
    "cur_list_item (g_ready_queue s') p = (if k > 1 then x # y # ys else y # ys @ [x])"
    "tasks s' = (tasks s)(x := (tasks s x)\<lparr>task_time_slice :=
      (if k > 1 then task_time_slice (tasks s x) - 1 else time_total (tasks s x))\<rparr>)"
    using f unfolding s' by (simp_all add: krhino_intrpt_exit_def preferred_cpu_ready_task_get_def cpu_intrpt_switch_def
        ready_list_head_to_tail_def p_def Let_def)
qed

lemma tick_intrpt_step:
  assumes sh: "sharing s (x # y # ys)"
  defines "s' \<equiv> tick_intrpt s"
  shows "unat (task_time_slice (tasks s x)) > 1 \<Longrightarrow>
      sharing s' (x # y # ys) \<and> tasks s' = (tasks s)(x := (tasks s x)\<lparr>task_time_slice := task_time_slice (tasks s x) - 1\<rparr>)"
    and "unat (task_time_slice (tasks s x)) \<le> 1 \<Longrightarrow>
      sharing s' (y # ys @ [x]) \<and> (\<forall>u. u \<noteq> x \<longrightarrow> tasks s' u = tasks s u)"
proof -
  note F = tick_intrpt_fields [OF sh, folded s'_def]
  have k: "kern_ok s'" unfolding s'_def by (rule kern_ok_tick_intrpt) (use sh in \<open>simp_all add: sharing_def\<close>)
  have pol: "\<forall>t\<in>set (x # y # ys). sched_policy (tasks s t) = KSCHED_RR" using sh by (simp add: sharing_def)
  show "unat (task_time_slice (tasks s x)) > 1 \<Longrightarrow>
      sharing s' (x # y # ys) \<and> tasks s' = (tasks s)(x := (tasks s x)\<lparr>task_time_slice := task_time_slice (tasks s x) - 1\<rparr>)"
    using k F pol by (simp add: sharing_def)
  show "unat (task_time_slice (tasks s x)) \<le> 1 \<Longrightarrow>
      sharing s' (y # ys @ [x]) \<and> (\<forall>u. u \<noteq> x \<longrightarrow> tasks s' u = tasks s u)"
    using k F pol by (simp add: sharing_def)
qed

text \<open>A whole turn of the task in front.\<close>

lemma whole_turn:
  assumes "sharing s (x # y # ys)"
  shows "sharing ((tick_intrpt ^^ turn s x) s) (y # ys @ [x])
    \<and> (\<forall>u. u \<noteq> x \<longrightarrow> tasks ((tick_intrpt ^^ turn s x) s) u = tasks s u)"
  using assms
proof (induction "turn s x" arbitrary: s)
  case 0
  then show ?case by (simp add: turn_def)
next
  case (Suc n)
  let ?k = "unat (task_time_slice (tasks s x))"
  note st = tick_intrpt_step [OF Suc.prems]
  show ?case
  proof (cases "?k > 1")
    case False
    then have "turn s x = 1" by (simp add: turn_def)
    then show ?thesis using st(2) False by (simp add: not_less)
  next
    case True
    let ?s = "tick_intrpt s"
    have t: "tasks ?s x = (tasks s x)\<lparr>task_time_slice := task_time_slice (tasks s x) - 1\<rparr>" "u \<noteq> x \<Longrightarrow> tasks ?s u = tasks s u" for u
      using st(1) [OF True] by simp_all
    have "task_time_slice (tasks s x) \<noteq> 0" using True by auto
    then have "unat (task_time_slice (tasks s x) - 1) = ?k - 1" by (rule unat_minus_one)
    then have "turn ?s x = ?k - 1" using True by (simp add: turn_def t(1))
    moreover have k: "turn s x = ?k" using True by (simp add: turn_def)
    ultimately have n: "n = turn ?s x" using Suc.hyps(2) by simp
    have "sharing ?s (x # y # ys)" using st(1) [OF True] by simp
    note IH = Suc.hyps(1) [OF n this]
    have e: "(tick_intrpt ^^ turn s x) s = (tick_intrpt ^^ turn ?s x) ?s"
      using Suc.hyps(2) n by (simp add: funpow_swap1 flip: Suc.hyps(2))
    show ?thesis unfolding e using IH t(2) by simp
  qed
qed

lemma turns:
  assumes "sharing s (before @ t # after)"
  shows "g_active_task ((tick_intrpt ^^ sum_list (map (turn s) before)) s) = t"
  using assms
proof (induction before arbitrary: s "after")
  case Nil
  then show ?case using sharing_active(1) [OF Nil] by simp
next
  case (Cons x bs)
  obtain y ys where l: "bs @ t # after = y # ys" by (cases bs) auto
  let ?s = "(tick_intrpt ^^ turn s x) s"
  have sh: "sharing s (x # y # ys)" using Cons.prems l by simp
  note W = whole_turn [OF sh]
  have "sharing ?s (bs @ t # (after @ [x]))" using W l by (metis append_Cons append_assoc)
  note IH = Cons.IH [OF this]
  have "x \<notin> set bs" using sharing_active(3) [OF Cons.prems] by simp
  then have "map (turn ?s) bs = map (turn s) bs" using W by (auto simp: turn_def)
  have "(tick_intrpt ^^ sum_list (map (turn s) (x # bs))) s = (tick_intrpt ^^ sum_list (map (turn s) bs)) ?s"
    using funpow_add [of "sum_list (map (turn s) bs)" "turn s x" tick_intrpt] by (simp add: add.commute)
  then show ?case using IH \<open>map (turn ?s) bs = map (turn s) bs\<close> by (simp only:)
qed


text \<open>Ticks keep the group together, so no task of it is ever passed over for good.\<close>

lemma sharing_tick:
  assumes "sharing s ts" and "length ts \<ge> 2"
  shows "\<exists>ts'. sharing (tick_intrpt s) ts' \<and> set ts' = set ts \<and> length ts' = length ts"
proof -
  obtain x y ys where ts: "ts = x # y # ys"
    using assms(2) by (metis One_nat_def Suc_le_length_iff numeral_2_eq_2)
  note st = tick_intrpt_step [OF assms(1) [unfolded ts]]
  show ?thesis
  proof (cases "unat (task_time_slice (tasks s x)) > 1")
    case True
    then show ?thesis using st(1) ts by blast
  next
    case False
    then have "sharing (tick_intrpt s) (y # ys @ [x])" using st(2) by simp
    then show ?thesis using ts by (intro exI [of _ "y # ys @ [x]"]) auto
  qed
qed

lemma sharing_ticks:
  assumes "sharing s ts" and "length ts \<ge> 2"
  shows "\<exists>ts'. sharing ((tick_intrpt ^^ m) s) ts' \<and> set ts' = set ts \<and> length ts' = length ts"
proof (induction m)
  case (Suc m)
  then obtain ts' where "sharing ((tick_intrpt ^^ m) s) ts'" "set ts' = set ts" "length ts' = length ts" by blast
  with sharing_tick [of _ ts'] assms(2) show ?case by fastforce
qed (use assms in auto)

lemma turns_mem:
  assumes "sharing s ts" and "t \<in> set ts"
  shows "g_active_task ((tick_intrpt ^^ sum_list (map (turn s) (takeWhile (\<lambda>u. u \<noteq> t) ts))) s) = t"
proof -
  obtain as bs where s: "ts = as @ t # bs" "t \<notin> set as" using split_list_first [OF assms(2)] by blast
  have "\<forall>u \<in> set as. u \<noteq> t" using s(2) by blast
  then have "takeWhile (\<lambda>u. u \<noteq> t) (as @ t # bs) = as" by (induction as) auto
  then have "takeWhile (\<lambda>u. u \<noteq> t) ts = as" using s(1) by simp
  then show ?thesis using turns [of s as t bs] assms(1) s(1) by simp
qed

text \<open>C5: While nothing but tick interrupts happens, the ready tasks of the highest priority take turns:
  each of them gets the CPU after exactly as many ticks as the time slices of the tasks in front of
  it last together.\<close>

theorem round_robin_turn:
  assumes "sharing s ts" and "t \<in> set ts"
  shows "g_active_task ((tick_intrpt ^^ sum_list (map (turn s) (takeWhile (\<lambda>u. u \<noteq> t) ts))) s) = t"
  by (rule turns_mem [OF assms])

text \<open>The round robin starves nobody: at any later moment every task of the group is still to get
  the CPU again.\<close>

theorem round_robin_fair:
  assumes "sharing s ts" and "length ts \<ge> 2" and "t \<in> set ts"
  shows "\<exists>n. g_active_task ((tick_intrpt ^^ n) ((tick_intrpt ^^ m) s)) = t"
proof -
  obtain ts' where "sharing ((tick_intrpt ^^ m) s) ts'" "set ts' = set ts"
    using sharing_ticks [OF assms(1,2)] by blast
  with turns_mem [of _ ts' t] assms(3) show ?thesis by blast
qed

text \<open>Two tasks of priority 10 with slices of two ticks share the CPU of this state.\<close>

definition rr_tcb :: "nat \<Rightarrow> ktask_t" where
  "rr_tcb p = ex_tcb\<lparr>task_state := K_RDY, prio := p, b_prio := p, sched_policy := KSCHED_RR, task_time_slice := 2,
     time_total := 2\<rparr>"

definition rr_state :: kstate where
  "rr_state = ex_state\<lparr>g_ready_queue := \<lparr>cur_list_item = (\<lambda>_. [])(10 := [2, 3], 61 := [1]),
       task_bit_map = krhino_bitmap_set (krhino_bitmap_set [0, 0] 61) 10, highest_pri = 10, rq_ub = False\<rparr>,
     g_tick_head := [], tasks := (\<lambda>_. zero_task)(1 := rr_tcb 61, 2 := rr_tcb 10, 3 := rr_tcb 10),
     blks := (\<lambda>_. ex_obj RHINO_OBJ_TYPE_NONE []),
     mutexes := (\<lambda>_. \<lparr>mutex_task = NULL, owner_nested = 0, mutex_mm_alloc_flag = K_OBJ_STATIC_ALLOC\<rparr>)\<rparr>"

lemma rr_state_kern_ok: "kern_ok rr_state"
proof -
  have z: "\<not> bm_test [0, 0] p" for p by (simp add: bm_test_Cons)
  have bm: "bm_test (task_bit_map (g_ready_queue rr_state)) p \<longleftrightarrow> p = 10 \<or> p = 61" for p
    by (simp add: rr_state_def bm_test_set z)
  have l: "cur_list_item (g_ready_queue rr_state) p = (if p = 10 then [2, 3] else if p = 61 then [1] else [])" for p
    by (simp add: rr_state_def)
  have t: "tasks rr_state = (\<lambda>_. zero_task)(1 := rr_tcb 61, 2 := rr_tcb 10, 3 := rr_tcb 10)"
    "blks rr_state = (\<lambda>_. ex_obj RHINO_OBJ_TYPE_NONE [])" "g_tick_head rr_state = []"
    by (simp_all add: rr_state_def)
  have f: "length (task_bit_map (g_ready_queue rr_state)) = 2" "highest_pri (g_ready_queue rr_state) = 10"
    by (simp_all add: rr_state_def)
  have h: "held (tasks rr_state) = (\<lambda>_. [])" by (auto simp: held_def t rr_tcb_def ex_tcb_def zero_task_def)
  have "rq_wf (g_ready_queue rr_state)" unfolding rq_wf_def bm l f RHINO_CONFIG_PRI_MAX_def by simp
  moreover have "\<not> rq_ub (g_ready_queue rr_state)" by (simp add: rr_state_def)
  ultimately have r: "rdy_ok (g_ready_queue rr_state) (tasks rr_state)"
    unfolding rdy_ok_def l by (auto simp: t rr_tcb_def ex_tcb_def zero_task_def rdy_def)
  have b: "blk_ok (blks rr_state) (tasks rr_state)" "tick_ok (g_tick_head rr_state) (tasks rr_state)"
    by (auto simp: blk_ok_def tick_ok_def t rr_tcb_def ex_obj_def ex_tcb_def zero_task_def pending_def task_kinds)
  have "\<exists>u. prio (tasks rr_state u) = RHINO_IDLE_PRI"
    by (rule exI [of _ 1]) (simp add: t rr_tcb_def RHINO_IDLE_PRI_def RHINO_CONFIG_PRI_MAX_def)
  then have p: "prio_ok (tasks rr_state)"
    unfolding prio_ok_def
    by (intro conjI; (assumption)?)
      (auto simp: t rr_tcb_def ex_tcb_def zero_task_def rdy_def RHINO_IDLE_PRI_def RHINO_CONFIG_PRI_MAX_def)
  have m: "mx_ok (mutexes rr_state) (blks rr_state) (tasks rr_state)"
    unfolding mx_ok_but_def h
    by (auto simp: rr_state_def t rr_tcb_def ex_obj_def ex_tcb_def zero_task_def pending_def
        RHINO_IDLE_PRI_def RHINO_CONFIG_PRI_MAX_def)
  have "waiters (blks rr_state) (tasks rr_state) u = {}" for u by (simp add: waiters_def h)
  then have "inh_ok (blks rr_state) (tasks rr_state)"
    unfolding inh_ok_but_def eff_prio_def by (simp add: t rr_tcb_def ex_tcb_def zero_task_def)
  moreover have "act_ok rr_state"
    by (simp add: act_ok_def act_safe_def rr_state_def ex_state_def rdy_def rr_tcb_def ex_tcb_def zero_task_def)
  ultimately show ?thesis using r b p m by (simp add: kern_ok_def pi_ok_but_def lists_ok_def)
qed

lemma rr_state_sharing: "sharing rr_state [2, 3]"
  unfolding sharing_def using rr_state_kern_ok
  by (simp add: rr_state_def ex_state_def rr_tcb_def)

theorem round_robin_turn_witness: "g_active_task ((tick_intrpt ^^ 2) rr_state) = 3"
proof -
  have "turn rr_state 2 = 2" by (simp add: turn_def rr_state_def rr_tcb_def)
  then have "sum_list (map (turn rr_state) (takeWhile (\<lambda>u. u \<noteq> 3) [2, 3])) = 2" by simp
  then show ?thesis using round_robin_turn [OF rr_state_sharing, of 3] by (simp only:) simp
qed

theorem round_robin_fair_witness: "\<exists>n. g_active_task ((tick_intrpt ^^ n) ((tick_intrpt ^^ 5) rr_state)) = 2"
  by (rule round_robin_fair [OF rr_state_sharing]) simp_all

end
