(* ===== verification/Reachability.thy ===== *)
theory Reachability
  imports System Fairness
begin

text \<open>
  The reachable states of the kernel: a boot on zeroed memory, then any sequence of calls, in tasks
  and in interrupts, that use the interface as it is meant to be used. What the components promise is
  put together here into statements about the whole system.
\<close>

inductive reach :: "kstate \<Rightarrow> bool" where
  boot: "bss_zero s \<Longrightarrow> image_ok A \<Longrightarrow> reach (snd (krhino_start (snd (krhino_init A s))))"
| call: "reach s \<Longrightarrow> legal s c \<Longrightarrow> reach (exec c s)"

text \<open>A run: the calls of a list in turn, as long as they are legal.\<close>

fun run_calls :: "syscall list \<Rightarrow> kstate \<Rightarrow> kstate option" where
  "run_calls [] s = Some s"
| "run_calls (c # cs) s = (if legal s c then run_calls cs (exec c s) else None)"

lemma reach_run: "reach s \<Longrightarrow> run_calls cs s = Some s' \<Longrightarrow> reach s'"
  by (induction cs s rule: run_calls.induct) (auto intro: call split: if_splits)

lemma boot_sys_inv:
  assumes "bss_zero s" and "image_ok A"
  shows "sys_inv (snd (krhino_start (snd (krhino_init A s))))"
proof -
  note I = krhino_init_inv [OF assms]
  let ?i = "snd (krhino_init A s)"
  have "boot_ok ?i" using I(1) by (simp add: boot_inv_def)
  then have "g_sys_stat (snd (krhino_start ?i)) = RHINO_RUNNING \<and> g_idle_task_spawned (snd (krhino_start ?i))"
    using boot_okD(15) I(2) by (simp add: krhino_start_def preferred_cpu_ready_task_get_def Let_def)
  then show ?thesis using krhino_start_inv [OF I(1,2)] by (simp add: sys_inv_def)
qed

lemma reach_sys_inv: "reach s \<Longrightarrow> sys_inv s"
  by (induction rule: reach.induct) (simp_all add: boot_sys_inv exec_ok)

lemma reachD:
  assumes "reach s"
  shows "kern_ok s" "sem_inv s" "event_inv s" "queue_inv s" "bufq_inv s" "lists_ok s"
    "blk_ok (blks s) (tasks s)" "mx_ok (mutexes s) (blks s) (tasks s)" "inh_ok (blks s) (tasks s)"
  using sys_invD [OF reach_sys_inv [OF assms]]
  by (simp_all add: kern_ok_def pi_ok_but_def lists_ok_def)

lemma preemptive:
  assumes "reach s" and "g_intrpt_nested_level s = 0" and "g_sched_lock s = 0"
  shows "rdy (tasks s (g_active_task s)) \<and> (\<forall>t. rdy (tasks s t) \<longrightarrow> prio (tasks s (g_active_task s)) \<le> prio (tasks s t))"
proof -
  have "g_active_task s = first (cur_list_item (g_ready_queue s) (highest_pri (g_ready_queue s)))"
    using kern_okD(2) [OF reachD(1) [OF assms(1)]] assms(2,3) by (simp add: act_ok_def)
  then show ?thesis using highest_ready(1-3) [OF reachD(6) [OF assms(1)]] by simp
qed

section \<open>Properties of the reachable states\<close>

text \<open>C1: Every reachable state of the kernel satisfies the invariant of the kernel and those of all
  its components: the boot establishes it, and every call keeps it, in any order, called by tasks or
  by interrupt handlers.\<close>

theorem reachable_sys_inv:
  assumes "reach s"
  shows "sys_inv s"
  by (rule reach_sys_inv [OF assms])

text \<open>C2: Whenever no interrupt is being served and the scheduler is not locked, the running task is ready
  and no ready task is more urgent.\<close>

theorem reachable_preemptive:
  assumes "reach s" and "g_intrpt_nested_level s = 0" and "g_sched_lock s = 0"
  shows "rdy (tasks s (g_active_task s)) \<and> (\<forall>t. rdy (tasks s t) \<longrightarrow> prio (tasks s (g_active_task s)) \<le> prio (tasks s t))"
  by (rule preemptive [OF assms])

text \<open>C3: A wake-up is never lost: in a reachable state nobody waits for a semaphore that has units, for
  an event whose flags satisfy the condition waited for, for a queue that holds a message or for a
  mutex that nobody owns.\<close>

theorem reachable_no_lost_wakeup:
  assumes "reach s" and "t \<in> set (blk_list (blks s m))"
  shows "(obj_type (blks s m) = RHINO_SEM_OBJ_TYPE \<longrightarrow> count (sems s m) = 0)
    \<and> (obj_type (blks s m) = RHINO_EVENT_OBJ_TYPE \<longrightarrow>
         \<not> event_status (flags (events s m)) (pend_flags (tasks s t)) (pend_option (tasks s t)))
    \<and> (obj_type (blks s m) = RHINO_QUEUE_OBJ_TYPE \<longrightarrow> q_cur_num (queues s m) = 0)
    \<and> (obj_type (blks s m) = RHINO_BUF_QUEUE_OBJ_TYPE \<longrightarrow> ringbuf_is_empty (bq_ringbuf (bufqs s m)))
    \<and> (obj_type (blks s m) = RHINO_MUTEX_OBJ_TYPE \<longrightarrow> mutex_task (mutexes s m) \<notin> {NULL, t})"
proof -
  note R = reachD [OF assms(1)]
  have n: "blk_list (blks s m) \<noteq> []" using assms(2) by auto
  have "mutex_task (mutexes s m) \<noteq> NULL \<and> mutex_task (mutexes s m) \<noteq> t" if "obj_type (blks s m) = RHINO_MUTEX_OBJ_TYPE"
  proof -
    have h: "m \<in> set (held (tasks s) (mutex_task (mutexes s m)))" using mx_ok_owned [OF R(8) that] n by simp
    have "pending (tasks s t)" "blk_obj (tasks s t) = m" using blk_ok_mem [OF R(7)] assms(2) by auto
    with R(8) [unfolded mx_ok_but_def, THEN conjunct2, THEN conjunct1, rule_format, OF h] show ?thesis by metis
  qed
  moreover have "\<not> av s m t" if "no_lost ty av s" "obj_type (blks s m) = ty" for ty av
    using that assms(2) unfolding no_lost_def by blast
  note this [OF R(2)] this [OF R(3)] this [OF queue_invD(1) [OF R(4)]] this [OF bufq_invD(1) [OF R(5)]]
  ultimately show ?thesis
    by (simp add: sem_avail_def event_avail_def queue_avail_def bufq_avail_def served_def
        word_neq_0_conv [symmetric])
qed


lemma reach_mutex_waiter:
  assumes "reach s" and "obj_type (blks s m) = RHINO_MUTEX_OBJ_TYPE" and "t \<in> set (blk_list (blks s m))"
  shows "prio (tasks s (mutex_task (mutexes s m))) \<le> prio (tasks s t)"
proof -
  note R = reachD [OF assms(1)]
  let ?o = "mutex_task (mutexes s m)"
  have "blk_list (blks s m) \<noteq> []" using assms(3) by auto
  then have h: "m \<in> set (held (tasks s) ?o)" using mx_ok_owned [OF R(8) assms(2)] by simp
  then have d: "task_state (tasks s ?o) \<noteq> K_DELETED" by (auto simp: held_def)
  have "t \<in> waiters (blks s) (tasks s) ?o" using h assms(3) by (auto simp: waiters_def)
  then have "eff_prio (blks s) (tasks s) ?o \<le> prio (tasks s t)" unfolding eff_prio_def by (intro Min_le) auto
  then show ?thesis using R(9) d by (simp add: inh_ok_but_def)
qed

text \<open>C4: No unbounded priority inversion: in a reachable state the owner of a mutex is at least as urgent
  as every task that waits for it, however the owner got the mutex and however its priority and those
  of the waiting tasks were changed since.\<close>

theorem reachable_no_inversion:
  assumes "reach s" and "obj_type (blks s m) = RHINO_MUTEX_OBJ_TYPE" and "t \<in> set (blk_list (blks s m))"
  shows "prio (tasks s (mutex_task (mutexes s m))) \<le> prio (tasks s t)"
  by (rule reach_mutex_waiter [OF assms])

section \<open>Sleeping for ever\<close>

text \<open>C38: A timeout of more than \<open>2 ^ 63\<close> ticks counts as passed as soon as the tick list is looked
  at. A task that calls \<^verbatim>\<open>krhino_task_sleep\<close> with such a time, for instance with \<^verbatim>\<open>RHINO_WAIT_FOREVER\<close>,
  while all others on the list wait at most \<open>n\<close> ticks, is made ready with them when these \<open>n\<close> ticks
  are over; if there are no others on the list, this is the next tick.\<close>

theorem long_timeout_expires_at_once:
  assumes ok: "kern_ok s" and i: "g_intrpt_nested_level s = 0" "g_sched_lock s = 0"
    and ni: "prio (tasks s (g_active_task s)) \<noteq> RHINO_IDLE_PRI"
    and n: "\<forall>q \<in> set (g_tick_head s). remain s q \<le> unat n" "2 ^ 63 + unat n \<le> unat ticks"
  shows "\<exists>s'. krhino_task_sleep s ticks = (None, s') \<and> kern_ok s'
    \<and> task_state (tasks s' (g_active_task s)) = K_SLEEP \<and> g_active_task s \<in> set (g_tick_head s')
    \<and> g_tick_head (tick_list_update s' n) = []
    \<and> task_state (tasks (tick_list_update s' n) (g_active_task s)) = K_RDY"
proof -
  let ?a = "g_active_task s"
  define s' where "s' = core_sched (fall_asleep s ticks)"
  have "ticks \<noteq> 0" using n(2) by auto
  then have run: "krhino_task_sleep s ticks = (None, s')" using i by (simp add: krhino_task_sleep_eq s'_def)
  have k: "kern_ok s'" using krhino_task_sleep_ok [OF ok ni, of ticks] by (simp add: run)
  have nl: "unat n < 2 ^ 63" using n(2) unsigned_less [of ticks, where ?'a = nat] by simp
  have h: "set (g_tick_head s') = insert ?a (set (g_tick_head s))" by (simp add: s'_def fall_asleep_def Let_def)
  have c: "g_tick_count s' = g_tick_count s" by (simp add: s'_def fall_asleep_def Let_def)
  have due: "sint (tick_match (tasks s' q) - (g_tick_count s' + n)) \<le> 0" if q: "q \<in> set (g_tick_head s')" for q
  proof (cases "q = ?a")
    case True
    have "2 ^ 63 \<le> unat (ticks - n)" using n(2) unat_diff_le [of n ticks] by simp
    then have "sint (ticks - n) < 0" by (rule sint_large)
    moreover have "tick_match (tasks s' q) = g_tick_count s + ticks"
      using True by (simp add: s'_def fall_asleep_def Let_def)
    ultimately show ?thesis by (simp add: c)
  next
    case False
    then have e: "remain s' q = remain s q" by (simp add: s'_def fall_asleep_def Let_def remain_def)
    have "remain s q \<le> unat n" using q h False n(1) by auto
    then show ?thesis using due_iff [of s' q n] nl by (simp add: e)
  qed
  then have "takeWhile (\<lambda>q. sint (tick_match (tasks s' q) - (g_tick_count s' + n)) \<le> 0) (g_tick_head s') = g_tick_head s'"
    by (simp add: takeWhile_eq_all_conv)
  from tick_list_update_ok(2) [OF kern_okD(1) [OF k], of n, unfolded this]
  have E: "g_tick_head (tick_list_update s' n) = []"
    "task_state (tasks (tick_list_update s' n) ?a) = expired_state (task_state (tasks s' ?a))"
    by (simp_all add: expired_frame_def h)
  have "task_state (tasks s' ?a) = K_SLEEP" by (simp add: s'_def fall_asleep_def Let_def)
  then show ?thesis using run k E h by (simp add: expired_state_def)
qed

theorem long_timeout_expires_at_once_witness:
  "\<exists>s'. krhino_task_sleep ex_state RHINO_WAIT_FOREVER = (None, s') \<and> task_state (tasks s' 2) = K_SLEEP
    \<and> task_state (tasks (tick_list_update s' 50) 2) = K_RDY"
proof -
  have a: "g_active_task ex_state = 2" "g_intrpt_nested_level ex_state = 0" "g_sched_lock ex_state = 0"
    by (simp_all add: ex_eval)
  have "\<forall>q \<in> set (g_tick_head ex_state). remain ex_state q \<le> unat (50 :: tick)" by (simp add: remain_def ex_eval)
  moreover have "2 ^ 63 + unat (50 :: tick) \<le> unat RHINO_WAIT_FOREVER"
    by (simp add: RHINO_WAIT_FOREVER_def unsigned_minus_1_eq_mask mask_eq_exp_minus_1)
  ultimately show ?thesis
    using long_timeout_expires_at_once [OF ex_kern_ok a(2,3) ex_caller, of 50 RHINO_WAIT_FOREVER] by (auto simp: a(1))
qed

section \<open>An example run\<close>

definition ex_boot :: kstate where
  "ex_boot = snd (krhino_start (snd (krhino_init ex_image ex_bss)))"

lemma ex_boot_reach: "reach ex_boot"
  unfolding ex_boot_def by (rule boot [OF ex_bss_zero ex_image_ok])

lemma task_create_blks [simp]: "blks (snd (krhino_task_create s t name p ticks stk sz en r)) = blks s"
  by (simp add: krhino_task_create_def task_create_def Let_def)

lemma create_other:
  assumes "m \<noteq> m'"
  shows "blks (snd (krhino_sem_create s m' name n)) m = blks s m"
    and "blks (snd (krhino_fix_buf_queue_create s m' name buf k l)) m = blks s m"
  using assms by (simp_all add: krhino_sem_create_def sem_create_def krhino_fix_buf_queue_create_def
      buf_queue_create_def Let_def)

lemma ex_boot_facts:
  "g_active_task ex_boot = 0xA000" "g_sched_lock ex_boot = 0" "g_intrpt_nested_level ex_boot = 0"
  "blks ex_boot 0x10000 = \<lparr>blk_list = [], blk_policy = BLK_POLICY_PRI, obj_type = RHINO_OBJ_TYPE_NONE\<rparr>"
  "prio (tasks ex_boot 0xA000) = RHINO_CONFIG_TIMER_TASK_PRI" "task_state (tasks ex_boot 0x20000) = K_SEED"
proof -
  note I = krhino_init_inv [OF ex_bss_zero ex_image_ok]
  let ?i = "snd (krhino_init ex_image ex_bss)"
  have B: "boot_ok ?i" using I(1) by (simp add: boot_inv_def)
  have e: "ex_boot = (preferred_cpu_ready_task_get ?i)\<lparr>g_active_task := g_active_task ex_boot, g_sys_stat := RHINO_RUNNING\<rparr>"
    using boot_okD(15) [OF B] by (simp add: ex_boot_def krhino_start_def preferred_cpu_ready_task_get_def Let_def)
  show "g_active_task ex_boot = 0xA000"
    using boot_started [OF ex_bss_zero ex_image_ok] by (simp add: ex_boot_def ex_image_def)
  show "g_sched_lock ex_boot = 0" "g_intrpt_nested_level ex_boot = 0"
    using boot_okD(13,14) [OF B] by (subst e, simp add: preferred_cpu_ready_task_get_def)+
  show "prio (tasks ex_boot 0xA000) = RHINO_CONFIG_TIMER_TASK_PRI"
    using I(4) by (subst e) (simp add: ex_image_def preferred_cpu_ready_task_get_def)
  show "task_state (tasks ex_boot 0x20000) = K_SEED"
    using I(7) [of "0x20000"] by (subst e) (simp add: ex_image_def zero_task_def preferred_cpu_ready_task_get_def)
  have "blks ?i 0x10000 = blks ex_bss 0x10000"
    by (simp add: krhino_init_def ktimer_init_def dyn_mem_proc_task_start_def create_other Let_def ex_image_def
        kobj_list_init_def tick_list_init_def)
  then show "blks ex_boot 0x10000 = \<lparr>blk_list = [], blk_policy = BLK_POLICY_PRI, obj_type = RHINO_OBJ_TYPE_NONE\<rparr>"
    by (subst e) (simp add: ex_bss_def preferred_cpu_ready_task_get_def)
qed


text \<open>
  The timer task makes a mutex and locks it, then makes a more urgent task, which gets the CPU and
  waits for the mutex.
\<close>

lemma preempted:
  assumes "reach s" and "reach s'" and "g_intrpt_nested_level s = 0" "g_sched_lock s = 0"
    and "g_intrpt_nested_level s' = 0" "g_sched_lock s' = 0"
    and "rdy (tasks s' t)" and "prio (tasks s' t) < prio (tasks s (g_active_task s))"
    and "\<And>u. u \<noteq> t \<Longrightarrow> tasks s' u = tasks s u"
  shows "g_active_task s' = t"
proof (rule ccontr)
  let ?u = "g_active_task s'"
  assume n: "?u \<noteq> t"
  have "rdy (tasks s ?u)" "prio (tasks s ?u) \<le> prio (tasks s' t)"
    using preemptive [OF assms(2,5,6)] assms(7) assms(9) [OF n] by auto
  then show False using preemptive [OF assms(1,3,4)] assms(8) by fastforce
qed

definition ex_locked :: kstate where
  "ex_locked = exec (Mutex_lock 0x10000 RHINO_WAIT_FOREVER) (exec (Mutex_create 0x10000 0x10) ex_boot)"

definition ex_preempted :: kstate where
  "ex_preempted = exec (Task_create 0x20000 0x20 3 0 0x30000 512 0x40000 1) ex_locked"

lemma ex_locked_facts:
  "reach ex_locked" "g_active_task ex_locked = 0xA000" "g_sched_lock ex_locked = 0" "g_intrpt_nested_level ex_locked = 0"
  "obj_type (blks ex_locked 0x10000) = RHINO_MUTEX_OBJ_TYPE" "mutex_task (mutexes ex_locked 0x10000) = 0xA000"
  "prio (tasks ex_locked 0xA000) = RHINO_CONFIG_TIMER_TASK_PRI" "task_state (tasks ex_locked 0x20000) = K_SEED"
proof -
  note F = ex_boot_facts
  define s1 where "s1 = exec (Mutex_create 0x10000 0x10) ex_boot"
  have l: "legal ex_boot (Mutex_create 0x10000 0x10)" by (simp add: fresh_obj_def F)
  have r: "reach s1" unfolding s1_def by (rule call [OF ex_boot_reach l])
  have run: "g_sys_stat ex_boot = RHINO_RUNNING" using sys_invD(7) [OF reach_sys_inv [OF ex_boot_reach]] .
  have g: "g_active_task s1 = 0xA000" "g_sched_lock s1 = 0" "g_intrpt_nested_level s1 = 0" "tasks s1 = tasks ex_boot"
    "obj_type (blks s1 0x10000) = RHINO_MUTEX_OBJ_TYPE" "mutex_task (mutexes s1 0x10000) = NULL" "g_sys_stat s1 = RHINO_RUNNING"
    by (simp_all add: s1_def krhino_mutex_create_def mutex_create_def Let_def F run)
  have "legal s1 (Mutex_lock 0x10000 RHINO_WAIT_FOREVER)"
    by (simp add: not_idle_def g(1,4) F RHINO_CONFIG_TIMER_TASK_PRI_def RHINO_IDLE_PRI_def RHINO_CONFIG_PRI_MAX_def)
  then show "reach ex_locked" unfolding ex_locked_def s1_def [symmetric] by (rule call [OF r])
  show "g_active_task ex_locked = 0xA000" "g_sched_lock ex_locked = 0" "g_intrpt_nested_level ex_locked = 0"
    "obj_type (blks ex_locked 0x10000) = RHINO_MUTEX_OBJ_TYPE" "mutex_task (mutexes ex_locked 0x10000) = 0xA000"
    "prio (tasks ex_locked 0xA000) = RHINO_CONFIG_TIMER_TASK_PRI" "task_state (tasks ex_locked 0x20000) = K_SEED"
    unfolding ex_locked_def s1_def [symmetric] by (simp_all add: krhino_mutex_lock_def Let_def g F)
qed

lemma ex_preempted_facts:
  "reach ex_preempted" "g_active_task ex_preempted = 0x20000" "g_sched_lock ex_preempted = 0"
  "g_intrpt_nested_level ex_preempted = 0"
  "obj_type (blks ex_preempted 0x10000) = RHINO_MUTEX_OBJ_TYPE" "mutex_task (mutexes ex_preempted 0x10000) = 0xA000"
  "prio (tasks ex_preempted 0x20000) = 3"
proof -
  note F = ex_locked_facts
  show r: "reach ex_preempted" unfolding ex_preempted_def by (rule call [OF F(1)]) (simp add: F)
  have run: "g_sys_stat ex_locked = RHINO_RUNNING" using sys_invD(7) [OF reach_sys_inv [OF F(1)]] .
  note d = ex_preempted_def krhino_task_create_def task_create_def RHINO_CONFIG_PRI_MAX_def RHINO_IDLE_PRI_def
  show f: "g_sched_lock ex_preempted = 0" "g_intrpt_nested_level ex_preempted = 0"
    "obj_type (blks ex_preempted 0x10000) = RHINO_MUTEX_OBJ_TYPE" "mutex_task (mutexes ex_preempted 0x10000) = 0xA000"
    "prio (tasks ex_preempted 0x20000) = 3"
    by (simp_all add: d Let_def F run)
  have t: "u \<noteq> 0x20000 \<Longrightarrow> tasks ex_preempted u = tasks ex_locked u" "rdy (tasks ex_preempted 0x20000)" for u
    by (simp_all add: d Let_def F run rdy_def)
  show "g_active_task ex_preempted = 0x20000"
    by (rule preempted [OF F(1) r F(4,3) f(2,1) t(2) _ t(1)])
      (simp_all add: f F RHINO_CONFIG_TIMER_TASK_PRI_def)
qed


definition ex_waiting :: kstate where
  "ex_waiting = exec (Mutex_lock 0x10000 RHINO_WAIT_FOREVER) ex_preempted"

lemma ex_waiting_facts:
  "reach ex_waiting" "obj_type (blks ex_waiting 0x10000) = RHINO_MUTEX_OBJ_TYPE"
  "0x20000 \<in> set (blk_list (blks ex_waiting 0x10000))" "mutex_task (mutexes ex_waiting 0x10000) = 0xA000"
proof -
  note F = ex_preempted_facts
  let ?l = "lock_block ex_preempted 0x10000 RHINO_WAIT_FOREVER"
  have i: "prio (tasks ex_preempted (g_active_task ex_preempted)) \<noteq> RHINO_IDLE_PRI"
    by (simp add: F RHINO_IDLE_PRI_def RHINO_CONFIG_PRI_MAX_def)
  show "reach ex_waiting"
    unfolding ex_waiting_def by (rule call [OF F(1)]) (use i in \<open>simp add: not_idle_def\<close>)
  note L = lock_block_ok [OF reachD(1) [OF F(1)] F(4) i F(5), of RHINO_WAIT_FOREVER]
  have e: "ex_waiting = core_sched ?l"
    using krhino_mutex_lock_block [of "0x10000" ex_preempted RHINO_WAIT_FOREVER] F sys_invD(7) [OF reach_sys_inv [OF F(1)]]
    by (simp add: ex_waiting_def)
  show "obj_type (blks ex_waiting 0x10000) = RHINO_MUTEX_OBJ_TYPE" "mutex_task (mutexes ex_waiting 0x10000) = 0xA000"
    using F(5,6) list_frameD(1) [OF L(2)] stays_pri_change [OF sys_invD(6) [OF reach_sys_inv [OF F(1)]]]
    by (simp_all add: e F lock_block_def Let_def pend_to_blk_obj_eq stays_def)
  have "lists_ok ?l" using L(1) by (simp add: pi_ok_but_def F)
  then show "0x20000 \<in> set (blk_list (blks ex_waiting 0x10000))"
    using blk_ok_mem [OF lists_okD(2), of ?l "0x20000" "0x10000"] L(3,4) by (simp add: e F pending_def)
qed

theorem reachable_sys_inv_witness: "sys_inv ex_waiting"
  by (rule reachable_sys_inv [OF ex_waiting_facts(1)])

theorem reachable_preemptive_witness:
  "rdy (tasks ex_preempted 0x20000)"
  using reachable_preemptive [OF ex_preempted_facts(1,4,3)] by (simp add: ex_preempted_facts)

theorem reachable_no_lost_wakeup_witness: "mutex_task (mutexes ex_waiting 0x10000) \<noteq> 0x20000"
  using reachable_no_lost_wakeup [OF ex_waiting_facts(1,3)] ex_waiting_facts(2) by simp

theorem reachable_no_inversion_witness:
  "prio (tasks ex_waiting 0xA000) \<le> prio (tasks ex_waiting 0x20000)"
  using reachable_no_inversion [OF ex_waiting_facts(1-3)] by (simp add: ex_waiting_facts)

end
