(* ===== verification/Mblk.thy ===== *)
theory Mblk
  imports Example_State
begin

text \<open>
  Pools of blocks of one size (\<^verbatim>\<open>k_mm_blk.c\<close>). The free blocks form a chain through their first words,
  which are cells of \<open>umem\<close>. The loop that builds the chain need not end, so initialisation has the
  result \<open>None\<close> when it does not return.
\<close>

section \<open>Operations\<close>

partial_function (option) mblk_chain ::
  "(ptr \<Rightarrow> u32) \<Rightarrow> u32 \<Rightarrow> ptr \<Rightarrow> ptr \<Rightarrow> ptr \<Rightarrow> u32 \<Rightarrow> ((ptr \<Rightarrow> u32) \<times> ptr \<times> ptr \<times> u32) option" where
  "mblk_chain M blk_size p_end blk_cur blk_next n_blks =
     (if blk_next < p_end
      then mblk_chain (M(blk_cur := blk_next)) blk_size p_end blk_next (blk_next + blk_size) (n_blks + 1)
      else Some (M, blk_cur, blk_next, n_blks))"

definition addr_align_mask :: u32 where
  "addr_align_mask = 3"

definition krhino_mblk_pool_init ::
  "kstate \<Rightarrow> ptr \<Rightarrow> ptr \<Rightarrow> ptr \<Rightarrow> u32 \<Rightarrow> u32 \<Rightarrow> (kstat \<times> kstate) option" where
  "krhino_mblk_pool_init s pool name start blk_size pool_size =
     (if pool = NULL then Some (RHINO_NULL_PTR, s)
      else if name = NULL then Some (RHINO_NULL_PTR, s)
      else if start = NULL then Some (RHINO_NULL_PTR, s)
      else if pool_size < push_bit 1 blk_size then Some (RHINO_BLK_POOL_SIZE_ERR, s)
      else if start AND addr_align_mask > 0 then Some (RHINO_INV_ALIGN, s)
      else if blk_size AND addr_align_mask > 0 then Some (RHINO_INV_ALIGN, s)
      else if pool_size AND addr_align_mask > 0 then Some (RHINO_INV_ALIGN, s)
      else
        let p_end = start + pool_size
        in case mblk_chain (umem s) blk_size p_end start (start + blk_size) 0 of
             None \<Rightarrow> None
           | Some (M, blk_cur, blk_next, n_blks) \<Rightarrow>
               let n_blks = (if blk_next = p_end then n_blks + 1 else n_blks);
                   s = umem_update (\<lambda>_. M(blk_cur := NULL)) s;
                   s = set_pool pool (\<lambda>p. p\<lparr>pool_start := start, pool_end := p_end, blk_whole := n_blks,
                         blk_avail := n_blks, pool_blk_size := blk_size, avail_list := start\<rparr>) s;
                   s = g_kobj_list_update (kobj_mblkpool_head_update (\<lambda>l. l @ [pool])) s
               in Some (RHINO_SUCCESS, s))"

definition krhino_mblk_alloc :: "kstate \<Rightarrow> ptr \<Rightarrow> ptr \<Rightarrow> kstat \<times> kstate" where
  "krhino_mblk_alloc s pool blk =
     (if pool = NULL then (RHINO_NULL_PTR, s)
      else if blk = NULL then (RHINO_NULL_PTR, s)
      else if blk_avail (mblk_pools s pool) > 0 then
        let avail_blk = avail_list (mblk_pools s pool);
            s = umem_update (\<lambda>M. M(blk := avail_blk)) s;
            s = set_pool pool (\<lambda>p. p\<lparr>avail_list := umem s avail_blk\<rparr>) s;
            s = set_pool pool (\<lambda>p. p\<lparr>blk_avail := blk_avail p - 1\<rparr>) s
        in (RHINO_SUCCESS, s)
      else (RHINO_NO_MEM, umem_update (\<lambda>M. M(blk := NULL)) s))"

definition krhino_mblk_free :: "kstate \<Rightarrow> ptr \<Rightarrow> ptr \<Rightarrow> kstat \<times> kstate" where
  "krhino_mblk_free s pool blk =
     (if pool = NULL then (RHINO_NULL_PTR, s)
      else if blk = NULL then (RHINO_NULL_PTR, s)
      else
        let s = umem_update (\<lambda>M. M(blk := avail_list (mblk_pools s pool))) s;
            s = set_pool pool (\<lambda>p. p\<lparr>avail_list := blk\<rparr>) s;
            s = set_pool pool (\<lambda>p. p\<lparr>blk_avail := blk_avail p + 1\<rparr>) s
        in (RHINO_SUCCESS, s))"

definition krhino_mblk_check :: "kstate \<Rightarrow> ptr \<Rightarrow> ptr \<Rightarrow> bool" where
  "krhino_mblk_check s pool blk \<longleftrightarrow>
     pool \<noteq> NULL \<and> blk \<ge> pool_start (mblk_pools s pool) \<and> blk < pool_end (mblk_pools s pool)"

section \<open>Chains\<close>

fun path :: "(ptr \<Rightarrow> u32) \<Rightarrow> ptr \<Rightarrow> ptr list \<Rightarrow> ptr \<Rightarrow> bool" where
  "path M a [] b \<longleftrightarrow> a = b"
| "path M a (x # xs) b \<longleftrightarrow> a = x \<and> path M (M x) xs b"

lemma path_frame: "(\<And>x. x \<in> set xs \<Longrightarrow> M' x = M x) \<Longrightarrow> path M' a xs b = path M a xs b"
  by (induction xs arbitrary: a) auto

lemma path_upd [simp]: "x \<notin> set xs \<Longrightarrow> path (M(x := v)) a xs b = path M a xs b"
  by (rule path_frame) auto

section \<open>The blocks of a pool\<close>

definition blk_at :: "ptr \<Rightarrow> u32 \<Rightarrow> nat \<Rightarrow> ptr" where
  "blk_at start sz i = start + of_nat i * sz"

definition pool_blocks :: "mblk_pool_t \<Rightarrow> ptr set" where
  "pool_blocks P = blk_at (pool_start P) (pool_blk_size P) ` {..< unat (blk_whole P)}"

definition pool_wf :: "mblk_pool_t \<Rightarrow> bool" where
  "pool_wf P \<longleftrightarrow> pool_start P \<noteq> NULL \<and> 4 \<le> unat (pool_blk_size P)
     \<and> unat (pool_start P) + unat (blk_whole P) * unat (pool_blk_size P) \<le> unat (pool_end P)"

text \<open>The free blocks, in the order they will be given out. The cells of free blocks belong to the pool.\<close>

definition pool_rep :: "kstate \<Rightarrow> ptr \<Rightarrow> ptr list \<Rightarrow> bool" where
  "pool_rep s pool fs \<longleftrightarrow>
     (let P = mblk_pools s pool
      in pool \<noteq> NULL \<and> pool_wf P \<and> distinct fs \<and> set fs \<subseteq> pool_blocks P \<and> length fs = unat (blk_avail P)
         \<and> (\<exists>b. path (umem s) (avail_list P) fs b))"

lemma blk_at_0 [simp]: "blk_at start sz 0 = start"
  by (simp add: blk_at_def)

lemma blk_at_Suc: "blk_at start sz (Suc i) = blk_at start sz i + sz"
  by (simp add: blk_at_def algebra_simps)

lemma unat_word_of_nat32: "n < 2 ^ 32 \<Longrightarrow> unat (word_of_nat n :: u32) = n"
  by (simp add: unat_of_nat)

lemma unat_blk_at:
  assumes "unat start + i * unat sz < 2 ^ 32"
  shows "unat (blk_at start sz i) = unat start + i * unat sz"
proof -
  have "blk_at start sz i = word_of_nat (unat start + i * unat sz)" by (simp add: blk_at_def)
  moreover have "unat (word_of_nat (unat start + i * unat sz) :: u32) = unat start + i * unat sz"
    by (rule unat_word_of_nat32 [OF assms])
  ultimately show ?thesis by (simp only:)
qed

lemma pool_unat_blk_at:
  assumes "pool_wf P" and "i \<le> unat (blk_whole P)"
  shows "unat (blk_at (pool_start P) (pool_blk_size P) i) = unat (pool_start P) + i * unat (pool_blk_size P)"
proof (rule unat_blk_at)
  have "i * unat (pool_blk_size P) \<le> unat (blk_whole P) * unat (pool_blk_size P)" using assms(2) by simp
  then have "unat (pool_start P) + i * unat (pool_blk_size P) \<le> unat (pool_end P)"
    using assms(1) unfolding pool_wf_def by linarith
  also have "\<dots> < 2 ^ 32" using unsigned_less [where 'a = nat, of "pool_end P"] by simp
  finally show "unat (pool_start P) + i * unat (pool_blk_size P) < 2 ^ 32" .
qed

text \<open>Different blocks do not overlap and lie in the pool.\<close>

lemma pool_block_bounds:
  assumes "pool_wf P" and "b \<in> pool_blocks P"
  shows "unat (pool_start P) \<le> unat b" and "unat b + unat (pool_blk_size P) \<le> unat (pool_end P)" and "b \<noteq> NULL"
proof -
  obtain i where i: "i < unat (blk_whole P)" "b = blk_at (pool_start P) (pool_blk_size P) i"
    using assms(2) by (auto simp: pool_blocks_def)
  have u: "unat b = unat (pool_start P) + i * unat (pool_blk_size P)"
    using pool_unat_blk_at [OF assms(1)] i by simp
  have "Suc i * unat (pool_blk_size P) \<le> unat (blk_whole P) * unat (pool_blk_size P)"
    using i(1) by (intro mult_le_mono1) simp
  then show "unat b + unat (pool_blk_size P) \<le> unat (pool_end P)"
    using u assms(1) unfolding pool_wf_def by simp
  show le: "unat (pool_start P) \<le> unat b" using u by simp
  have "pool_start P \<noteq> NULL" using assms(1) by (simp add: pool_wf_def)
  then have "0 < unat (pool_start P)" using unat_gt_0 by blast
  with le show "b \<noteq> NULL" by auto
qed

lemma pool_blocks_disjoint:
  assumes wf: "pool_wf P" and "b \<in> pool_blocks P" "c \<in> pool_blocks P" "b \<noteq> c"
  shows "unat b + unat (pool_blk_size P) \<le> unat c \<or> unat c + unat (pool_blk_size P) \<le> unat b"
proof -
  let ?z = "unat (pool_blk_size P)"
  obtain i j where i: "i < unat (blk_whole P)" "b = blk_at (pool_start P) (pool_blk_size P) i"
    and j: "j < unat (blk_whole P)" "c = blk_at (pool_start P) (pool_blk_size P) j"
    using assms(2,3) by (auto simp: pool_blocks_def)
  have u: "unat b = unat (pool_start P) + i * ?z" "unat c = unat (pool_start P) + j * ?z"
    using pool_unat_blk_at [OF wf] i j by simp_all
  have "i \<noteq> j" using i(2) j(2) assms(4) by auto
  then consider "Suc i \<le> j" | "Suc j \<le> i" by linarith
  then show ?thesis
  proof cases
    case 1
    then have "Suc i * ?z \<le> j * ?z" by (rule mult_le_mono1)
    then show ?thesis using u by simp
  next
    case 2
    then have "Suc j * ?z \<le> i * ?z" by (rule mult_le_mono1)
    then show ?thesis using u by simp
  qed
qed

lemma finite_pool_blocks [simp]: "finite (pool_blocks P)"
  by (simp add: pool_blocks_def)

lemma card_pool_blocks:
  assumes "pool_wf P"
  shows "card (pool_blocks P) = unat (blk_whole P)"
proof -
  have "inj_on (blk_at (pool_start P) (pool_blk_size P)) {..< unat (blk_whole P)}"
  proof (rule inj_onI)
    fix i j assume i: "i \<in> {..< unat (blk_whole P)}" "j \<in> {..< unat (blk_whole P)}"
      and e: "blk_at (pool_start P) (pool_blk_size P) i = blk_at (pool_start P) (pool_blk_size P) j"
    have "i \<le> unat (blk_whole P)" "j \<le> unat (blk_whole P)" using i by simp_all
    note pool_unat_blk_at [OF assms this(1)] pool_unat_blk_at [OF assms this(2)]
    then have "i * unat (pool_blk_size P) = j * unat (pool_blk_size P)"
      unfolding e by linarith
    moreover have "unat (pool_blk_size P) \<noteq> 0" using assms by (simp add: pool_wf_def)
    ultimately show "i = j" by simp
  qed
  then show ?thesis by (simp add: pool_blocks_def card_image)
qed


section \<open>Initialisation\<close>

text \<open>The links the loop has written from block \<open>i\<close> to block \<open>n\<close>.\<close>

definition linked_mem :: "(ptr \<Rightarrow> u32) \<Rightarrow> ptr \<Rightarrow> u32 \<Rightarrow> nat \<Rightarrow> nat \<Rightarrow> ptr \<Rightarrow> u32" where
  "linked_mem M start sz i n = (\<lambda>a. if a \<in> blk_at start sz ` {i..<n} then a + sz else M a)"

lemma mblk_chain_links:
  assumes "i \<le> n" and "\<And>j. j \<le> n \<Longrightarrow> j > i \<Longrightarrow> blk_at start sz j < p_end" and "\<not> blk_at start sz (Suc n) < p_end"
  shows "mblk_chain M sz p_end (blk_at start sz i) (blk_at start sz (Suc i)) (of_nat i)
    = Some (linked_mem M start sz i n, blk_at start sz n, blk_at start sz (Suc n), of_nat n)"
  using assms(1,2)
proof (induction "n - i" arbitrary: i M)
  case 0
  then have "i = n" by simp
  then show ?case using assms(3) by (subst mblk_chain.simps) (simp add: linked_mem_def)
next
  case (Suc d)
  let ?M = "M(blk_at start sz i := blk_at start sz (Suc i))"
  have lt: "blk_at start sz (Suc i) < p_end" using Suc by simp
  have e: "linked_mem ?M start sz (Suc i) n = linked_mem M start sz i n"
  proof
    fix a
    have "{i..<n} = insert i {Suc i..<n}" using Suc.hyps(2) by auto
    then show "linked_mem ?M start sz (Suc i) n a = linked_mem M start sz i n a"
      by (simp add: linked_mem_def blk_at_Suc)
  qed
  have "mblk_chain M sz p_end (blk_at start sz i) (blk_at start sz (Suc i)) (of_nat i)
    = mblk_chain ?M sz p_end (blk_at start sz (Suc i)) (blk_at start sz (Suc (Suc i))) (of_nat (Suc i))"
    using lt by (subst mblk_chain.simps) (simp add: blk_at_Suc add.commute)
  also have "\<dots> = Some (linked_mem ?M start sz (Suc i) n, blk_at start sz n, blk_at start sz (Suc n), of_nat n)"
    using Suc by (intro Suc.hyps(1)) auto
  finally show ?case unfolding e .
qed

lemma path_blocks:
  assumes "\<And>j. j \<in> {i..<n} \<Longrightarrow> M (blk_at start sz j) = (if Suc j = n then e else blk_at start sz (Suc j))"
    and "i \<le> n" "i = n \<Longrightarrow> e = blk_at start sz i"
  shows "path M (blk_at start sz i) (map (blk_at start sz) [i..<n]) e"
  using assms
proof (induction "n - i" arbitrary: i)
  case 0
  then show ?case by simp
next
  case (Suc d)
  then have l: "[i..<n] = i # [Suc i..<n]" by (simp add: upt_rec)
  show ?case
  proof (cases "Suc i = n")
    case True
    then show ?thesis using Suc.prems(1) [of i] by (simp add: l)
  next
    case False
    have "path M (blk_at start sz (Suc i)) (map (blk_at start sz) [Suc i..<n]) e"
      using Suc False by (intro Suc.hyps(1)) auto
    then show ?thesis using Suc.prems(1) [of i] Suc.hyps(2) False by (simp add: l)
  qed
qed


lemma align_mask_iff: "w AND addr_align_mask > 0 \<longleftrightarrow> \<not> 4 dvd unat w"
proof -
  have "w AND addr_align_mask = take_bit 2 w"
    by (simp add: addr_align_mask_def take_bit_eq_mask mask_eq_exp_minus_1)
  then have "unat (w AND addr_align_mask) = unat w mod 4"
    by (simp only: unsigned_take_bit_eq [where 'a = nat]) (simp add: take_bit_eq_mod)
  then show ?thesis by (simp add: word_less_nat_alt mod_greater_zero_iff_not_dvd)
qed

lemma unat_double: "2 * unat (w :: u32) < 2 ^ 32 \<Longrightarrow> unat (push_bit 1 w) = 2 * unat w"
  by (simp add: push_bit_eq_mult unat_word_ariths)

lemma mblk_pool_init_run:
  assumes "pool \<noteq> NULL" "name \<noteq> NULL" "start \<noteq> NULL" and "0 < sz" "2 * unat sz \<le> unat psize"
    and "4 dvd unat start" "4 dvd unat sz" "4 dvd unat psize"
    and no: "unat start + unat psize + unat sz < 2 ^ 32"
  defines "n \<equiv> (unat psize - 1) div unat sz" and "w \<equiv> unat psize div unat sz"
  shows "krhino_mblk_pool_init s pool name start sz psize = Some (RHINO_SUCCESS,
    s\<lparr>umem := (linked_mem (umem s) start sz 0 n)(blk_at start sz n := NULL),
      mblk_pools := (mblk_pools s)(pool := (mblk_pools s pool)\<lparr>pool_start := start, pool_end := start + psize,
        blk_whole := word_of_nat w, blk_avail := word_of_nat w, pool_blk_size := sz, avail_list := start\<rparr>),
      g_kobj_list := (g_kobj_list s)\<lparr>kobj_mblkpool_head := kobj_mblkpool_head (g_kobj_list s) @ [pool]\<rparr>\<rparr>)"
    and "w = (if blk_at start sz (Suc n) = start + psize then Suc n else n)"
    and "\<And>i. i \<le> Suc n \<Longrightarrow> unat (blk_at start sz i) = unat start + i * unat sz"
proof -
  let ?z = "unat sz" and ?p = "unat psize"
  have z: "0 < ?z" using assms(4) by (simp add: unat_gt_0 word_neq_0_conv)
  have p0: "0 < ?p" using assms(5) z by linarith
  have n1: "n * ?z \<le> ?p - 1" unfolding n_def by (rule div_times_less_eq_dividend)
  have n2: "?p \<le> Suc n * ?z"
    using mod_less_divisor [OF z, of "?p - 1"] div_mult_mod_eq [of "?p - 1" ?z] p0 unfolding n_def mult_Suc by linarith
  have u: "unat (blk_at start sz i) = unat start + i * ?z" if "i \<le> Suc n" for i
  proof (rule unat_blk_at)
    have "i * ?z \<le> Suc n * ?z" using that by (rule mult_le_mono1)
    then show "unat start + i * ?z < 2 ^ 32" using n1 no p0 by simp
  qed
  then show "\<And>i. i \<le> Suc n \<Longrightarrow> unat (blk_at start sz i) = unat start + i * unat sz" .
  have e: "unat (start + psize) = unat start + ?p"
    using no by (intro unat_add_lem [THEN iffD1]) simp
  have lt: "blk_at start sz j < start + psize" if "j \<le> n" "j > 0" for j
  proof -
    have "j * ?z \<le> n * ?z" using that by (intro mult_le_mono1) simp
    then have "j * ?z < ?p" using n1 p0 by linarith
    then show ?thesis using u [of j] e that by (simp add: word_less_nat_alt)
  qed
  have ge: "\<not> blk_at start sz (Suc n) < start + psize"
    using u [of "Suc n"] e n2 by (simp add: word_less_nat_alt)
  have eq: "blk_at start sz (Suc n) = start + psize \<longleftrightarrow> Suc n * ?z = ?p"
    using u [of "Suc n"] e by (auto simp: word_unat_eq_iff)
  show w: "w = (if blk_at start sz (Suc n) = start + psize then Suc n else n)"
  proof (cases "Suc n * ?z = ?p")
    case True
    then have "w = Suc n" unfolding w_def using z by (metis nonzero_mult_div_cancel_right less_numeral_extra(3))
    then show ?thesis using True eq by simp
  next
    case False
    then have "?p < Suc n * ?z" using n2 by simp
    then have "w = n" unfolding w_def using n1 p0 z by (intro div_nat_eqI) (simp_all add: mult.commute [of "unat sz"])
    then show ?thesis using False eq by simp
  qed
  have chain: "mblk_chain (umem s) sz (start + psize) start (start + sz) 0
    = Some (linked_mem (umem s) start sz 0 n, blk_at start sz n, blk_at start sz (Suc n), of_nat n)"
    using mblk_chain_links [of 0 n start sz "start + psize" "umem s"] lt ge by (simp add: blk_at_Suc [of _ _ 0, simplified])
  have "unat (push_bit 1 sz) = 2 * ?z" using assms(5) no by (intro unat_double) simp
  then have g: "\<not> psize < push_bit 1 sz" using assms(5) by (simp add: word_less_nat_alt)
  have k: "(if blk_at start sz (Suc n) = start + psize then word_of_nat n + 1 else word_of_nat n) = (word_of_nat w :: u32)"
    unfolding w by simp
  show "krhino_mblk_pool_init s pool name start sz psize = Some (RHINO_SUCCESS,
    s\<lparr>umem := (linked_mem (umem s) start sz 0 n)(blk_at start sz n := NULL),
      mblk_pools := (mblk_pools s)(pool := (mblk_pools s pool)\<lparr>pool_start := start, pool_end := start + psize,
        blk_whole := word_of_nat w, blk_avail := word_of_nat w, pool_blk_size := sz, avail_list := start\<rparr>),
      g_kobj_list := (g_kobj_list s)\<lparr>kobj_mblkpool_head := kobj_mblkpool_head (g_kobj_list s) @ [pool]\<rparr>\<rparr>)"
    using assms(1-3,6-8) g unfolding krhino_mblk_pool_init_def Let_def chain
    by (simp add: align_mask_iff k)
qed


lemma mblk_pool_init_ok:
  assumes "pool \<noteq> NULL" "name \<noteq> NULL" "start \<noteq> NULL" and "0 < sz" "2 * unat sz \<le> unat psize"
    and "4 dvd unat start" "4 dvd unat sz" "4 dvd unat psize"
    and "unat start + unat psize + unat sz < 2 ^ 32"
  shows "\<exists>s'. krhino_mblk_pool_init s pool name start sz psize = Some (RHINO_SUCCESS, s')
    \<and> pool_rep s' pool (map (blk_at start sz) [0..<unat psize div unat sz])
    \<and> pool_blocks (mblk_pools s' pool) = blk_at start sz ` {..<unat psize div unat sz}
    \<and> (\<forall>a. \<not> (unat start \<le> unat a \<and> unat a < unat start + unat psize) \<longrightarrow> umem s' a = umem s a)
    \<and> pool_start (mblk_pools s' pool) = start \<and> pool_end (mblk_pools s' pool) = start + psize
    \<and> mm_heads s' = mm_heads s \<and> g_kmm_head s' = g_kmm_head s"
proof -
  define n where "n = (unat psize - 1) div unat sz"
  define w where "w = unat psize div unat sz"
  note R = mblk_pool_init_run(1) [OF assms, folded n_def w_def, of s] mblk_pool_init_run(2,3) [OF assms, folded n_def w_def]
  define N where "N = (linked_mem (umem s) start sz 0 n)(blk_at start sz n := NULL)"
  define s' where "s' = s\<lparr>umem := N,
      mblk_pools := (mblk_pools s)(pool := (mblk_pools s pool)\<lparr>pool_start := start, pool_end := start + psize,
        blk_whole := word_of_nat w, blk_avail := word_of_nat w, pool_blk_size := sz, avail_list := start\<rparr>),
      g_kobj_list := (g_kobj_list s)\<lparr>kobj_mblkpool_head := kobj_mblkpool_head (g_kobj_list s) @ [pool]\<rparr>\<rparr>"
  let ?P = "mblk_pools s' pool"
  have z: "0 < unat sz" using assms(4) by (simp add: unat_gt_0 word_neq_0_conv)
  then have z4: "4 \<le> unat sz" using assms(7) by (auto simp: dvd_def)
  have wz: "w * unat sz \<le> unat psize" unfolding w_def by (rule div_times_less_eq_dividend)
  have w0: "0 < w" unfolding w_def using assms(5) z by (simp add: div_greater_zero_iff)
  have "w * 1 \<le> w * unat sz" using z by (intro mult_le_mono2) simp
  then have "w \<le> unat psize" using wz by linarith
  then have uw: "unat (word_of_nat w :: u32) = w" using assms(9) by (intro unat_word_of_nat32) simp
  have e: "unat (start + psize) = unat start + unat psize"
    using assms(9) by (intro unat_add_lem [THEN iffD1]) simp
  have wf: "pool_wf ?P" using assms(3) z4 wz by (simp add: s'_def pool_wf_def uw e)
  have b: "pool_blocks ?P = blk_at start sz ` {..<w}" by (simp add: s'_def pool_blocks_def uw)
  have wn: "w \<le> Suc n" "n \<le> w" using R(2) by (simp_all split: if_splits)
  have inj: "blk_at start sz i = blk_at start sz j \<longleftrightarrow> i = j" if "i \<le> Suc n" "j \<le> Suc n" for i j
  proof
    assume e: "blk_at start sz i = blk_at start sz j"
    have "i * unat sz = j * unat sz" using R(3) [OF that(1)] R(3) [OF that(2)] unfolding e by linarith
    then show "i = j" using z by simp
  qed simp
  have d: "distinct (map (blk_at start sz) [0..<w])"
    unfolding distinct_map inj_on_def using wn(1) inj by simp
  have M: "N (blk_at start sz j) = (if j = n then NULL else blk_at start sz (Suc j))" if "j \<le> n" for j
  proof (cases "j = n")
    case False
    then have "blk_at start sz j \<noteq> blk_at start sz n" using inj [of j n] that by simp
    then show ?thesis using False that by (auto simp: N_def linked_mem_def blk_at_Suc)
  qed (simp add: N_def)
  let ?e = "if w = Suc n then NULL else blk_at start sz n"
  have "path N (blk_at start sz 0) (map (blk_at start sz) [0..<w]) ?e"
  proof (rule path_blocks)
    fix j assume "j \<in> {0..<w}"
    then show "N (blk_at start sz j) = (if Suc j = w then ?e else blk_at start sz (Suc j))"
      using M [of j] wn by (cases "Suc j = n") auto
  qed (use w0 in simp_all)
  then have rep: "pool_rep s' pool (map (blk_at start sz) [0..<w])"
    using assms(1) wf d b uw unfolding pool_rep_def Let_def by (auto simp: s'_def)
  have in_pool: "unat start \<le> unat (blk_at start sz j) \<and> unat (blk_at start sz j) < unat start + unat psize" if "j \<le> n" for j
  proof -
    have "j * unat sz \<le> n * unat sz" using that by (rule mult_le_mono1)
    also have "\<dots> \<le> unat psize - 1" unfolding n_def by (rule div_times_less_eq_dividend)
    finally show ?thesis using R(3) [of j] that assms(5) z by simp
  qed
  have "umem s' a = umem s a" if "\<not> (unat start \<le> unat a \<and> unat a < unat start + unat psize)" for a
  proof -
    have "a \<noteq> blk_at start sz n" "a \<notin> blk_at start sz ` {0..<n}" using in_pool that by fastforce+
    then show ?thesis by (simp add: s'_def N_def linked_mem_def)
  qed
  moreover have "krhino_mblk_pool_init s pool name start sz psize = Some (RHINO_SUCCESS, s')"
    unfolding s'_def N_def by (rule R(1))
  moreover have "pool_start ?P = start" "pool_end ?P = start + psize" "mm_heads s' = mm_heads s" "g_kmm_head s' = g_kmm_head s"
    by (simp_all add: s'_def)
  ultimately show ?thesis using rep b unfolding w_def by blast
qed

text \<open>A block size of zero: the loop writes the same link over and over.\<close>

lemma mblk_chain_stuck:
  assumes "mblk_chain M sz p_end bc bn k = Some r"
  shows "sz = 0 \<longrightarrow> \<not> bn < p_end"
  by (rule mblk_chain.raw_induct [where P = "\<lambda>M sz p_end bc bn k y. sz = 0 \<longrightarrow> \<not> bn < p_end", OF _ assms])
    (auto split: if_splits)

section \<open>Giving out and taking back\<close>

lemma pool_repD:
  assumes "pool_rep s pool fs"
  shows "pool \<noteq> NULL" "pool_wf (mblk_pools s pool)" "distinct fs" "set fs \<subseteq> pool_blocks (mblk_pools s pool)"
    "length fs = unat (blk_avail (mblk_pools s pool))"
    "\<exists>b. path (umem s) (avail_list (mblk_pools s pool)) fs b"
  using assms by (simp_all add: pool_rep_def Let_def)

lemma pool_blocks_cong:
  "pool_start P' = pool_start P \<Longrightarrow> pool_blk_size P' = pool_blk_size P \<Longrightarrow> blk_whole P' = blk_whole P
    \<Longrightarrow> pool_blocks P' = pool_blocks P"
  by (simp add: pool_blocks_def)

lemma pool_wf_cong:
  "pool_start P' = pool_start P \<Longrightarrow> pool_blk_size P' = pool_blk_size P \<Longrightarrow> blk_whole P' = blk_whole P
    \<Longrightarrow> pool_end P' = pool_end P \<Longrightarrow> pool_wf P' = pool_wf P"
  by (simp add: pool_wf_def)

lemma mblk_alloc_rep:
  assumes rep: "pool_rep s pool (b # fs)" and "p \<noteq> NULL" "p \<notin> set (b # fs)"
  shows "\<exists>s'. krhino_mblk_alloc s pool p = (RHINO_SUCCESS, s') \<and> umem s' p = b \<and> pool_rep s' pool fs
    \<and> s' = s\<lparr>umem := (umem s)(p := b), mblk_pools := (mblk_pools s)(pool := (mblk_pools s pool)
        \<lparr>avail_list := umem s b, blk_avail := blk_avail (mblk_pools s pool) - 1\<rparr>)\<rparr>"
proof -
  note R = pool_repD [OF rep]
  let ?P = "mblk_pools s pool"
  define P' where "P' = ?P\<lparr>avail_list := umem s b, blk_avail := blk_avail ?P - 1\<rparr>"
  have a: "blk_avail ?P \<noteq> 0" "avail_list ?P = b" using R(5,6) by auto
  have b: "p \<noteq> b" "p \<notin> set fs" using assms(3) by auto
  obtain e where e: "path (umem s) (umem s b) fs e" using R(6) by auto
  have "length fs = unat (blk_avail ?P - 1)" using R(5) unat_minus_one [OF a(1)] by simp
  moreover have "path ((umem s)(p := b)) (umem s b) fs e" using e b by simp
  moreover have "pool_blocks P' = pool_blocks ?P" "pool_wf P' = pool_wf ?P"
    unfolding P'_def by (rule pool_blocks_cong pool_wf_cong; simp)+
  ultimately have "pool_rep (s\<lparr>umem := (umem s)(p := b), mblk_pools := (mblk_pools s)(pool := P')\<rparr>) pool fs"
    using R(1-4) unfolding pool_rep_def Let_def by (auto simp: P'_def)
  moreover have "krhino_mblk_alloc s pool p
      = (RHINO_SUCCESS, s\<lparr>umem := (umem s)(p := b), mblk_pools := (mblk_pools s)(pool := P')\<rparr>)"
    using R(1) assms(2) a b(1) by (simp add: krhino_mblk_alloc_def Let_def word_neq_0_conv [symmetric])
      (intro kstate.equality; simp add: P'_def)
  ultimately show ?thesis unfolding P'_def by simp
qed

lemma mblk_alloc_none:
  assumes "pool_rep s pool []" and "p \<noteq> NULL"
  shows "krhino_mblk_alloc s pool p = (RHINO_NO_MEM, s\<lparr>umem := (umem s)(p := NULL)\<rparr>)"
proof -
  have "blk_avail (mblk_pools s pool) = 0" using pool_repD(5) [OF assms(1)] by (simp add: unat_eq_zero)
  then show ?thesis using pool_repD(1) [OF assms(1)] assms(2) by (simp add: krhino_mblk_alloc_def)
qed

lemma mblk_free_rep:
  assumes rep: "pool_rep s pool fs" and b: "b \<in> pool_blocks (mblk_pools s pool)" "b \<notin> set fs"
  shows "\<exists>s'. krhino_mblk_free s pool b = (RHINO_SUCCESS, s') \<and> pool_rep s' pool (b # fs)
    \<and> s' = s\<lparr>umem := (umem s)(b := avail_list (mblk_pools s pool)), mblk_pools := (mblk_pools s)(pool := (mblk_pools s pool)
        \<lparr>avail_list := b, blk_avail := blk_avail (mblk_pools s pool) + 1\<rparr>)\<rparr>"
proof -
  note R = pool_repD [OF rep]
  let ?P = "mblk_pools s pool"
  define P' where "P' = ?P\<lparr>avail_list := b, blk_avail := blk_avail ?P + 1\<rparr>"
  have cp: "pool_blocks P' = pool_blocks ?P" "pool_wf P' = pool_wf ?P"
    unfolding P'_def by (rule pool_blocks_cong pool_wf_cong; simp)+
  have "card (set (b # fs)) \<le> card (pool_blocks ?P)" using R(4) b(1) by (intro card_mono) auto
  then have "Suc (length fs) \<le> unat (blk_whole ?P)"
    using R(3) b(2) card_pool_blocks [OF R(2)] by (simp add: distinct_card)
  then have "Suc (unat (blk_avail ?P)) < 2 ^ 32"
    using R(5) unsigned_less [where 'a = nat, of "blk_whole ?P"] by simp
  then have "unat (blk_avail ?P + 1) = Suc (unat (blk_avail ?P))"
    by (simp add: unat_word_ariths)
  moreover have "\<exists>e. path ((umem s)(b := avail_list ?P)) b (b # fs) e" using R(6) b(2) by simp
  ultimately have "pool_rep (s\<lparr>umem := (umem s)(b := avail_list ?P), mblk_pools := (mblk_pools s)(pool := P')\<rparr>) pool (b # fs)"
    using R(1-5) b cp unfolding pool_rep_def Let_def by (auto simp: P'_def)
  moreover have "krhino_mblk_free s pool b
      = (RHINO_SUCCESS, s\<lparr>umem := (umem s)(b := avail_list ?P), mblk_pools := (mblk_pools s)(pool := P')\<rparr>)"
    using R(1) pool_block_bounds(3) [OF R(2) b(1)] by (simp add: krhino_mblk_free_def Let_def)
      (intro kstate.equality; simp add: P'_def)
  ultimately show ?thesis unfolding P'_def by simp
qed

text \<open>What the owners of the other blocks write does not reach the pool.\<close>

lemma pool_rep_user:
  assumes "pool_rep s pool fs" and "\<And>b. b \<in> set fs \<Longrightarrow> M b = umem s b"
  shows "pool_rep (s\<lparr>umem := M\<rparr>) pool fs"
  using assms path_frame [of fs M "umem s"] by (simp add: pool_rep_def Let_def)


section \<open>Properties\<close>

text \<open>C11: Initialising a pool of at least two blocks returns, whatever the memory holds; it writes only to
  the memory of the pool, and every block that fits is free afterwards, the first one first.\<close>

theorem mblk_pool_init_correct:
  assumes "pool \<noteq> NULL" "name \<noteq> NULL" "start \<noteq> NULL" and "0 < sz" "2 * unat sz \<le> unat psize"
    and "4 dvd unat start" "4 dvd unat sz" "4 dvd unat psize"
    and "unat start + unat psize + unat sz < 2 ^ 32"
  shows "\<exists>s'. krhino_mblk_pool_init s pool name start sz psize = Some (RHINO_SUCCESS, s')
    \<and> pool_rep s' pool (map (blk_at start sz) [0..<unat psize div unat sz])
    \<and> pool_blocks (mblk_pools s' pool) = blk_at start sz ` {..<unat psize div unat sz}
    \<and> (\<forall>a. \<not> (unat start \<le> unat a \<and> unat a < unat start + unat psize) \<longrightarrow> umem s' a = umem s a)"
  using mblk_pool_init_ok [OF assms, of s] by blast

theorem mblk_pool_init_correct_witness:
  "\<exists>s'. krhino_mblk_pool_init ex_state 0x1000 0x10 0x2000 16 72 = Some (RHINO_SUCCESS, s')
    \<and> pool_rep s' 0x1000 [0x2000, 0x2010, 0x2020, 0x2030]"
  using mblk_pool_init_correct [of "0x1000" "0x10" "0x2000" 16 72 ex_state]
  by (auto simp: blk_at_def upt_rec)

text \<open>C12: The pool behaves as a stack of free blocks: an allocation pops a block or reports that there is
  none, a block that is given back is pushed, and no block is ever lost or given out twice.\<close>

theorem mblk_pool_refines_stack:
  assumes "pool_rep s pool fs" and "p \<noteq> NULL" "p \<notin> set fs"
  shows "(case fs of
      [] \<Rightarrow> krhino_mblk_alloc s pool p = (RHINO_NO_MEM, s\<lparr>umem := (umem s)(p := NULL)\<rparr>)
    | b # fs' \<Rightarrow> \<exists>s'. krhino_mblk_alloc s pool p = (RHINO_SUCCESS, s') \<and> umem s' p = b \<and> pool_rep s' pool fs'
        \<and> krhino_mblk_check s pool b)
    \<and> (\<forall>b \<in> pool_blocks (mblk_pools s pool) - set fs.
        \<exists>s'. krhino_mblk_free s pool b = (RHINO_SUCCESS, s') \<and> pool_rep s' pool (b # fs))"
proof -
  note R = pool_repD [OF assms(1)]
  have "krhino_mblk_check s pool b" if "b \<in> set fs" for b
    using pool_block_bounds(1,2) [OF R(2), of b] R(1,2,4) that
    by (auto simp: krhino_mblk_check_def word_le_nat_alt word_less_nat_alt pool_wf_def)
  moreover have "\<exists>s'. krhino_mblk_free s pool b = (RHINO_SUCCESS, s') \<and> pool_rep s' pool (b # fs)"
    if "b \<in> pool_blocks (mblk_pools s pool) - set fs" for b
    using mblk_free_rep [OF assms(1), of b] that by blast
  moreover have "case fs of
      [] \<Rightarrow> krhino_mblk_alloc s pool p = (RHINO_NO_MEM, s\<lparr>umem := (umem s)(p := NULL)\<rparr>)
    | b # fs' \<Rightarrow> \<exists>s'. krhino_mblk_alloc s pool p = (RHINO_SUCCESS, s') \<and> umem s' p = b \<and> pool_rep s' pool fs'"
  proof (cases fs)
    case Nil
    then show ?thesis using mblk_alloc_none [of s pool p] assms by simp
  next
    case (Cons b fs')
    then show ?thesis using mblk_alloc_rep [of s pool b fs' p] assms by auto
  qed
  ultimately show ?thesis by (simp split: list.splits)
qed

lemma ex_pool: "\<exists>s. pool_rep s 0x1000 [0x2000, 0x2010, 0x2020, 0x2030]"
  using mblk_pool_init_ok [of "0x1000" "0x10" "0x2000" 16 72 ex_state]
  by (auto simp: blk_at_def upt_rec)

theorem mblk_pool_refines_stack_witness:
  "\<exists>s s'. pool_rep s 0x1000 [0x2000, 0x2010, 0x2020, 0x2030] \<and> krhino_mblk_alloc s 0x1000 0x500 = (RHINO_SUCCESS, s')
    \<and> pool_rep s' 0x1000 [0x2010, 0x2020, 0x2030]"
proof -
  obtain s where "pool_rep s 0x1000 [0x2000, 0x2010, 0x2020, 0x2030]" using ex_pool by blast
  then show ?thesis using mblk_pool_refines_stack [of s "0x1000" _ "0x500"] by fastforce
qed

text \<open>The owner of a block that was given out may write to all of it: the block lies in the pool and
  overlaps neither a free block nor one given to somebody else, so the pool stays intact.\<close>

theorem mblk_owner_may_write:
  assumes "pool_rep s pool fs" and "b \<in> pool_blocks (mblk_pools s pool) - set fs"
    and "\<And>a. a \<notin> {a. unat b \<le> unat a \<and> unat a < unat b + unat (pool_blk_size (mblk_pools s pool))} \<Longrightarrow> M a = umem s a"
  shows "pool_rep (s\<lparr>umem := M\<rparr>) pool fs
    \<and> (\<forall>c \<in> pool_blocks (mblk_pools s pool) - {b}. \<forall>a. unat c \<le> unat a \<and> unat a < unat c + unat (pool_blk_size (mblk_pools s pool))
         \<longrightarrow> M a = umem s a)"
proof -
  note R = pool_repD [OF assms(1)]
  let ?z = "unat (pool_blk_size (mblk_pools s pool))"
  have o: "M a = umem s a"
    if c: "c \<in> pool_blocks (mblk_pools s pool)" "c \<noteq> b" and a: "unat c \<le> unat a" "unat a < unat c + ?z" for c a
  proof -
    have "unat b + ?z \<le> unat c \<or> unat c + ?z \<le> unat b"
      using pool_blocks_disjoint [OF R(2) _ c(1)] assms(2) c(2) by blast
    then show ?thesis using a by (intro assms(3)) auto
  qed
  have "M c = umem s c" if "c \<in> set fs" for c
    using that R(2,4) assms(2) by (intro o [of c]) (auto simp: pool_wf_def)
  then have "pool_rep (s\<lparr>umem := M\<rparr>) pool fs" by (rule pool_rep_user [OF assms(1)])
  then show ?thesis using o by blast
qed

theorem mblk_owner_may_write_witness:
  "\<exists>s. pool_rep (s\<lparr>umem := (umem s)(0x2000 := 7)\<rparr>) 0x1000 [0x2010, 0x2020, 0x2030]"
proof -
  obtain s where s: "pool_rep s 0x1000 [0x2000, 0x2010, 0x2020, 0x2030]" using ex_pool by blast
  obtain s' where a: "pool_rep s' 0x1000 [0x2010, 0x2020, 0x2030]"
    "s' = s\<lparr>umem := (umem s)(0x500 := 0x2000), mblk_pools := (mblk_pools s)(0x1000 := (mblk_pools s 0x1000)
        \<lparr>avail_list := umem s 0x2000, blk_avail := blk_avail (mblk_pools s 0x1000) - 1\<rparr>)\<rparr>"
    using mblk_alloc_rep [OF s, of "0x500"] by auto
  have "pool_blocks (mblk_pools s' 0x1000) = pool_blocks (mblk_pools s 0x1000)"
    unfolding a(2) by (rule pool_blocks_cong) simp_all
  then have b: "0x2000 \<in> pool_blocks (mblk_pools s' 0x1000) - set [0x2010, 0x2020, 0x2030]"
    using pool_repD(4) [OF s] by auto
  have z: "4 \<le> unat (pool_blk_size (mblk_pools s' 0x1000))" using pool_repD(2) [OF a(1)] by (simp add: pool_wf_def)
  have "((umem s')(0x2000 := 7)) a = umem s' a"
    if "a \<notin> {a. unat (0x2000 :: ptr) \<le> unat a \<and> unat a < unat (0x2000 :: ptr) + unat (pool_blk_size (mblk_pools s' 0x1000))}" for a
    using that z by auto
  then show ?thesis using mblk_owner_may_write [OF a(1) b, of "(umem s')(0x2000 := 7)"] by blast
qed

text \<open>C13: With a block size of zero every check passes and the call never returns.\<close>

theorem mblk_pool_init_zero_diverges:
  assumes "pool \<noteq> NULL" "name \<noteq> NULL" "start \<noteq> NULL" and "0 < psize" "4 dvd unat start" "4 dvd unat psize"
    and "unat start + unat psize < 2 ^ 32"
  shows "krhino_mblk_pool_init s pool name start 0 psize = None"
proof -
  have "unat (start + psize) = unat start + unat psize" using assms(7) by (intro unat_add_lem [THEN iffD1]) simp
  then have lt: "start < start + psize" using assms(4) by (simp add: word_less_nat_alt)
  have "mblk_chain (umem s) 0 (start + psize) start start 0 = None"
    using mblk_chain_stuck [of "umem s" 0 "start + psize" start start 0] lt by (cases "mblk_chain (umem s) 0 (start + psize) start start 0") blast+
  then show ?thesis
    using assms(1-6) by (simp add: krhino_mblk_pool_init_def align_mask_iff Let_def)
qed

theorem mblk_pool_init_zero_diverges_witness:
  "krhino_mblk_pool_init ex_state 0x1000 0x10 0x2000 0 64 = None"
  by (rule mblk_pool_init_zero_diverges) simp_all

end
