(* ===== verification/Mm.thy ===== *)
theory Mm
  imports Bitmap Mblk
begin

text \<open>
  The heap (\<^verbatim>\<open>k_mm.c\<close>): operations. A block at address \<open>b\<close> has its header in the cells \<open>b\<close> (the
  block in front of it, when that one is free) and \<open>b + 4\<close> (the size of its buffer, with two flags), then
  the buffer; a free block keeps the links of its free list in the first two words of the buffer. The
  loops along free lists run over memory that could hold anything, so the operations that contain them
  have the result \<open>None\<close> when they do not return.
\<close>

section \<open>Trailing zeros\<close>

definition ctz_step :: "u32 \<Rightarrow> nat \<Rightarrow> u32 \<times> nat \<Rightarrow> u32 \<times> nat" where
  "ctz_step m k = (\<lambda>(x, n). if x AND m = 0 then (drop_bit k x, n + k) else (x, n))"

definition krhino_ctz32 :: "u32 \<Rightarrow> nat" where
  "krhino_ctz32 x =
     (if x = 0 then 32
      else
        let (x, n) = ctz_step 0x00000003 2
                      (ctz_step 0x0000000F 4
                        (ctz_step 0x000000FF 8 (ctz_step 0x0000FFFF 16 (x, 0))))
        in if x AND 0x00000001 = 0 then n + 1 else n)"

section \<open>Sizes and flags\<close>

definition MM_ALIGN_MASK :: u32 where
  "MM_ALIGN_MASK = 7"

definition MM_ALIGN_UP :: "u32 \<Rightarrow> u32" where
  "MM_ALIGN_UP a = (a + MM_ALIGN_MASK) AND NOT MM_ALIGN_MASK"

definition MM_ALIGN_DOWN :: "u32 \<Rightarrow> u32" where
  "MM_ALIGN_DOWN a = a AND NOT MM_ALIGN_MASK"

definition MM_MAX_BIT :: nat where
  "MM_MAX_BIT = 19"

definition MM_MAX_SIZE :: u32 where
  "MM_MAX_SIZE = push_bit MM_MAX_BIT 1"

definition MM_MIN_BIT :: nat where
  "MM_MIN_BIT = 6"

definition MM_MIN_SIZE :: u32 where
  "MM_MIN_SIZE = push_bit (MM_MIN_BIT - 1) 1"

definition MM_BIT_LEVEL :: int where
  "MM_BIT_LEVEL = int MM_MAX_BIT - int MM_MIN_BIT + 2"

definition MIN_FREE_MEMORY_SIZE :: u32 where
  "MIN_FREE_MEMORY_SIZE = 1024"

definition RHINO_CONFIG_MM_BLK_SIZE :: u32 where
  "RHINO_CONFIG_MM_BLK_SIZE = 16"

definition RHINO_CONFIG_MM_TLF_BLK_SIZE :: u32 where
  "RHINO_CONFIG_MM_TLF_BLK_SIZE = 2048"

definition RHINO_MM_PRESTAT_MASK :: u32 where
  "RHINO_MM_PRESTAT_MASK = 2"

definition RHINO_MM_FREE :: u32 where
  "RHINO_MM_FREE = 1"

definition RHINO_MM_ALLOCED :: u32 where
  "RHINO_MM_ALLOCED = 0"

definition RHINO_MM_PREVFREE :: u32 where
  "RHINO_MM_PREVFREE = 2"

definition RHINO_MM_PREVALLOCED :: u32 where
  "RHINO_MM_PREVALLOCED = 0"

text \<open>The sizes of the structures on a 32-bit machine.\<close>

definition MMLIST_HEAD_SIZE :: u32 where
  "MMLIST_HEAD_SIZE = 8"

definition sizeof_region_info :: u32 where
  "sizeof_region_info = 8"

definition sizeof_mm_head :: u32 where
  "sizeof_mm_head = 148"

definition sizeof_mblk_pool :: u32 where
  "sizeof_mblk_pool = 40"

section \<open>Headers\<close>

abbreviation blk_prev :: "kstate \<Rightarrow> ptr \<Rightarrow> u32" where
  "blk_prev s b \<equiv> umem s b"

abbreviation blk_buf_size :: "kstate \<Rightarrow> ptr \<Rightarrow> u32" where
  "blk_buf_size s b \<equiv> umem s (b + 4)"

abbreviation free_prev :: "kstate \<Rightarrow> ptr \<Rightarrow> u32" where
  "free_prev s b \<equiv> umem s (b + 8)"

abbreviation free_next :: "kstate \<Rightarrow> ptr \<Rightarrow> u32" where
  "free_next s b \<equiv> umem s (b + 12)"

abbreviation set_cell :: "ptr \<Rightarrow> u32 \<Rightarrow> kstate \<Rightarrow> kstate" where
  "set_cell a v \<equiv> umem_update (\<lambda>M. M(a := v))"

abbreviation set_prev :: "ptr \<Rightarrow> ptr \<Rightarrow> kstate \<Rightarrow> kstate" where
  "set_prev b v \<equiv> set_cell b v"

abbreviation set_buf_size :: "ptr \<Rightarrow> u32 \<Rightarrow> kstate \<Rightarrow> kstate" where
  "set_buf_size b v \<equiv> set_cell (b + 4) v"

abbreviation set_free_prev :: "ptr \<Rightarrow> ptr \<Rightarrow> kstate \<Rightarrow> kstate" where
  "set_free_prev b v \<equiv> set_cell (b + 8) v"

abbreviation set_free_next :: "ptr \<Rightarrow> ptr \<Rightarrow> kstate \<Rightarrow> kstate" where
  "set_free_next b v \<equiv> set_cell (b + 12) v"

definition buffer :: "ptr \<Rightarrow> ptr" where
  "buffer b = b + 8"

definition MM_GET_BUF_SIZE :: "kstate \<Rightarrow> ptr \<Rightarrow> u32" where
  "MM_GET_BUF_SIZE s b = blk_buf_size s b AND NOT MM_ALIGN_MASK"

definition MM_GET_BLK_SIZE :: "kstate \<Rightarrow> ptr \<Rightarrow> u32" where
  "MM_GET_BLK_SIZE s b = MM_GET_BUF_SIZE s b + MMLIST_HEAD_SIZE"

definition MM_GET_NEXT_BLK :: "kstate \<Rightarrow> ptr \<Rightarrow> ptr" where
  "MM_GET_NEXT_BLK s b = buffer b + MM_GET_BUF_SIZE s b"

definition MM_GET_THIS_BLK :: "ptr \<Rightarrow> ptr" where
  "MM_GET_THIS_BLK buf = buf - MMLIST_HEAD_SIZE"

section \<open>Levels and statistics\<close>

definition size_to_level :: "u32 \<Rightarrow> int" where
  "size_to_level sz =
     (let cnt = 32 - krhino_clz32 sz
      in if cnt < MM_MIN_BIT then 0
         else if cnt > MM_MAX_BIT then - 1
         else int cnt - int MM_MIN_BIT)"

definition addsize :: "k_mm_head \<Rightarrow> u32 \<Rightarrow> u32 \<Rightarrow> k_mm_head" where
  "addsize h sz req_size =
     (let h = (if free_size h > sz then h\<lparr>free_size := free_size h - sz\<rparr> else h\<lparr>free_size := 0\<rparr>);
          h = h\<lparr>used_size := used_size h + sz\<rparr>;
          h = (if used_size h > maxused_size h then h\<lparr>maxused_size := used_size h\<rparr> else h)
      in if req_size > 0 then
           let level = size_to_level req_size
           in if level \<noteq> - 1
              then h\<lparr>alloc_times := (alloc_times h)(nat level := alloc_times h (nat level) + 1)\<rparr> else h
         else h)"

definition removesize :: "k_mm_head \<Rightarrow> u32 \<Rightarrow> k_mm_head" where
  "removesize h sz =
     (let h = (if used_size h > sz then h\<lparr>used_size := used_size h - sz\<rparr> else h\<lparr>used_size := 0\<rparr>)
      in h\<lparr>free_size := free_size h + sz\<rparr>)"

section \<open>Free lists\<close>

definition k_mm_freelist_insert :: "kstate \<Rightarrow> ptr \<Rightarrow> ptr \<Rightarrow> kstate" where
  "k_mm_freelist_insert s mmhead blk =
     (let level = size_to_level (MM_GET_BUF_SIZE s blk)
      in if level < 0 \<or> level \<ge> MM_BIT_LEVEL then s
         else
           let l = nat level;
               s = set_free_prev blk NULL s;
               s = set_free_next blk (freelist (mm_heads s mmhead) l) s;
               s = (if freelist (mm_heads s mmhead) l \<noteq> NULL
                    then set_free_prev (freelist (mm_heads s mmhead) l) blk s else s);
               s = set_head mmhead (\<lambda>h. h\<lparr>freelist := (freelist h)(l := blk)\<rparr>) s
           in set_head mmhead (\<lambda>h. h\<lparr>free_bitmap := free_bitmap h OR push_bit l 1\<rparr>) s)"

definition k_mm_freelist_delete :: "kstate \<Rightarrow> ptr \<Rightarrow> ptr \<Rightarrow> kstate" where
  "k_mm_freelist_delete s mmhead blk =
     (let level = size_to_level (MM_GET_BUF_SIZE s blk)
      in if level < 0 \<or> level \<ge> MM_BIT_LEVEL then s
         else
           let l = nat level;
               s = (if free_next s blk \<noteq> NULL then set_free_prev (free_next s blk) (free_prev s blk) s else s);
               s = (if free_prev s blk \<noteq> NULL then set_free_next (free_prev s blk) (free_next s blk) s else s);
               s = (if freelist (mm_heads s mmhead) l = blk then
                      let s = set_head mmhead (\<lambda>h. h\<lparr>freelist := (freelist h)(l := free_next s blk)\<rparr>) s
                      in if freelist (mm_heads s mmhead) l = NULL
                         then set_head mmhead (\<lambda>h. h\<lparr>free_bitmap := free_bitmap h AND NOT (push_bit l 1)\<rparr>) s
                         else s
                    else s);
               s = set_free_prev blk NULL s
           in set_free_next blk NULL s)"

definition find_up_level :: "kstate \<Rightarrow> ptr \<Rightarrow> int \<Rightarrow> ptr" where
  "find_up_level s mmhead level =
     (let bitmap = free_bitmap (mm_heads s mmhead) AND push_bit (nat (level + 1)) 0xffffffff;
          level = krhino_ctz32 bitmap
      in if int level < MM_BIT_LEVEL then freelist (mm_heads s mmhead) level else NULL)"

text \<open>The search along one free list.\<close>

partial_function (option) same_level :: "kstate \<Rightarrow> u32 \<Rightarrow> ptr \<Rightarrow> ptr option" where
  "same_level s sz get_b =
     (if get_b = NULL then Some NULL
      else if MM_GET_BUF_SIZE s get_b \<ge> sz then Some get_b
      else same_level s sz (free_next s get_b))"

section \<open>Small blocks\<close>

text \<open>\<^verbatim>\<open>krhino_mblk_alloc\<close> called with the address of a local variable.\<close>

definition mblk_alloc_local :: "kstate \<Rightarrow> ptr \<Rightarrow> kstat \<times> ptr \<times> kstate" where
  "mblk_alloc_local s pool =
     (if pool = NULL then (RHINO_NULL_PTR, NULL, s)
      else if blk_avail (mblk_pools s pool) > 0 then
        let avail_blk = avail_list (mblk_pools s pool);
            s = set_pool pool (\<lambda>p. p\<lparr>avail_list := umem s avail_blk\<rparr>) s;
            s = set_pool pool (\<lambda>p. p\<lparr>blk_avail := blk_avail p - 1\<rparr>) s
        in (RHINO_SUCCESS, avail_blk, s)
      else (RHINO_NO_MEM, NULL, s))"

definition k_mm_smallblk_alloc :: "kstate \<Rightarrow> ptr \<Rightarrow> ptr \<times> kstate" where
  "k_mm_smallblk_alloc s mmhead =
     (if mmhead = NULL then (NULL, s)
      else
        let (sta, tmp, s) = mblk_alloc_local s (fix_pool (mm_heads s mmhead))
        in if sta \<noteq> RHINO_SUCCESS then (NULL, s)
           else (tmp, set_head mmhead (\<lambda>h. addsize h RHINO_CONFIG_MM_BLK_SIZE 0) s))"

definition k_mm_smallblk_free :: "kstate \<Rightarrow> ptr \<Rightarrow> ptr \<Rightarrow> kstate" where
  "k_mm_smallblk_free s mmhead p =
     (if mmhead = NULL \<or> p = NULL then s
      else
        let (sta, s) = krhino_mblk_free s (fix_pool (mm_heads s mmhead)) p;
            s = (if sta \<noteq> RHINO_SUCCESS then k_err_proc s RHINO_SYS_FATAL_ERR else s)
        in set_head mmhead (\<lambda>h. removesize h RHINO_CONFIG_MM_BLK_SIZE) s)"


section \<open>Allocation\<close>

text \<open>A fitting block of the same level, or the first one of a higher level.\<close>

definition mm_find :: "kstate \<Rightarrow> ptr \<Rightarrow> u32 \<Rightarrow> int \<Rightarrow> ptr option" where
  "mm_find s mmhead sz level =
     (case same_level s sz (freelist (mm_heads s mmhead) (nat level)) of
        None \<Rightarrow> None
      | Some get_b \<Rightarrow> Some (if get_b = NULL then find_up_level s mmhead level else get_b))"

text \<open>The block found is taken off its list and split when the rest can be a block.\<close>

definition mm_take :: "kstate \<Rightarrow> ptr \<Rightarrow> ptr \<Rightarrow> u32 \<Rightarrow> u32 \<Rightarrow> ptr \<times> kstate" where
  "mm_take s mmhead get_b sz req_size =
     (let s = k_mm_freelist_delete s mmhead get_b;
          next_b = MM_GET_NEXT_BLK s get_b;
          s = (if MM_GET_BUF_SIZE s get_b \<ge> sz + MMLIST_HEAD_SIZE + MM_MIN_SIZE then
                 let left_size = MM_GET_BUF_SIZE s get_b - sz - MMLIST_HEAD_SIZE;
                     s = set_buf_size get_b (sz OR (blk_buf_size s get_b AND RHINO_MM_PRESTAT_MASK)) s;
                     new_b = MM_GET_NEXT_BLK s get_b;
                     s = set_prev new_b get_b s;
                     s = set_buf_size new_b (left_size OR RHINO_MM_FREE OR RHINO_MM_PREVALLOCED) s;
                     s = set_prev next_b new_b s
                 in k_mm_freelist_insert s mmhead new_b
               else set_buf_size next_b (blk_buf_size s next_b AND NOT RHINO_MM_PREVFREE) s);
          s = set_buf_size get_b (blk_buf_size s get_b AND NOT RHINO_MM_FREE) s;
          retptr = buffer get_b;
          s = (if retptr \<noteq> NULL
               then set_head mmhead (\<lambda>h. addsize h (MM_GET_BLK_SIZE s get_b) req_size) s else s)
      in (retptr, s))"

definition k_mm_alloc :: "kstate \<Rightarrow> ptr \<Rightarrow> u32 \<Rightarrow> (ptr \<times> kstate) option" where
  "k_mm_alloc s mmhead req_size =
     (if mmhead = NULL then Some (NULL, s)
      else if req_size = 0 then Some (NULL, s)
      else
        let pool = fix_pool (mm_heads s mmhead);
            (retptr, s) =
              (if pool \<noteq> NULL \<and> req_size \<le> RHINO_CONFIG_MM_BLK_SIZE \<and> blk_avail (mblk_pools s pool) > 0
               then k_mm_smallblk_alloc s mmhead else (NULL, s))
        in if retptr \<noteq> NULL then Some (retptr, s)
           else
             let sz = MM_ALIGN_UP req_size;
                 sz = (if sz < MM_MIN_SIZE then MM_MIN_SIZE else sz);
                 level = size_to_level sz
             in if level = - 1 then Some (NULL, s)
                else case mm_find s mmhead sz level of
                       None \<Rightarrow> None
                     | Some get_b \<Rightarrow> if get_b = NULL then Some (NULL, s) else Some (mm_take s mmhead get_b sz req_size))"

section \<open>Release\<close>

definition k_mm_free :: "kstate \<Rightarrow> ptr \<Rightarrow> ptr \<Rightarrow> kstate" where
  "k_mm_free s mmhead p =
     (if p = NULL \<or> mmhead = NULL then s
      else if krhino_mblk_check s (fix_pool (mm_heads s mmhead)) p then k_mm_smallblk_free s mmhead p
      else
        let free_b = MM_GET_THIS_BLK p;
            s = set_buf_size free_b (blk_buf_size s free_b OR RHINO_MM_FREE) s;
            s = set_head mmhead (\<lambda>h. removesize h (MM_GET_BLK_SIZE s free_b)) s;
            next_b = MM_GET_NEXT_BLK s free_b;
            s = (if blk_buf_size s next_b AND RHINO_MM_FREE \<noteq> 0 then
                   let s = k_mm_freelist_delete s mmhead next_b
                   in set_buf_size free_b (blk_buf_size s free_b + MM_GET_BLK_SIZE s next_b) s
                 else s);
            (free_b, s) =
              (if blk_buf_size s free_b AND RHINO_MM_PREVFREE \<noteq> 0 then
                 let prev_b = blk_prev s free_b;
                     s = k_mm_freelist_delete s mmhead prev_b;
                     s = set_buf_size prev_b (blk_buf_size s prev_b + MM_GET_BLK_SIZE s free_b) s
                 in (prev_b, s)
               else (free_b, s));
            s = k_mm_freelist_insert s mmhead free_b;
            next_b = MM_GET_NEXT_BLK s free_b;
            s = set_prev next_b free_b s
        in set_buf_size next_b (blk_buf_size s next_b OR RHINO_MM_PREVFREE) s)"

section \<open>Resizing\<close>

text \<open>\<^verbatim>\<open>memcpy\<close> between word-aligned buffers.\<close>

definition copy_words :: "ptr \<Rightarrow> ptr \<Rightarrow> u32 \<Rightarrow> (ptr \<Rightarrow> u32) \<Rightarrow> ptr \<Rightarrow> u32" where
  "copy_words dst src n M = (\<lambda>a. if a - dst < n then M (src + (a - dst)) else M a)"

text \<open>The rest behind a block that was cut to \<open>new_size\<close> becomes a free block.\<close>

definition mm_split :: "kstate \<Rightarrow> ptr \<Rightarrow> ptr \<Rightarrow> ptr \<Rightarrow> u32 \<Rightarrow> u32 \<Rightarrow> kstate" where
  "mm_split s mmhead this_b next_b new_size split_size =
     (let s = set_buf_size this_b (new_size OR (blk_buf_size s this_b AND RHINO_MM_PRESTAT_MASK)) s;
          split_b = MM_GET_NEXT_BLK s this_b;
          s = set_prev split_b this_b s;
          s = set_buf_size split_b (split_size OR RHINO_MM_FREE OR RHINO_MM_PREVALLOCED) s;
          s = set_prev next_b split_b s;
          s = set_buf_size next_b (blk_buf_size s next_b OR RHINO_MM_PREVFREE) s
      in k_mm_freelist_insert s mmhead split_b)"

definition mm_shrink :: "kstate \<Rightarrow> ptr \<Rightarrow> ptr \<Rightarrow> u32 \<Rightarrow> u32 \<Rightarrow> kstate" where
  "mm_shrink s mmhead this_b new_size req_size =
     (let old_size = MM_GET_BUF_SIZE s this_b;
          next_b = MM_GET_NEXT_BLK s this_b;
          s = set_head mmhead (\<lambda>h. removesize h (MM_GET_BLK_SIZE s this_b)) s;
          (old_size, next_b, s) =
            (if blk_buf_size s next_b AND RHINO_MM_FREE \<noteq> 0 then
               let s = k_mm_freelist_delete s mmhead next_b
               in (old_size + MM_GET_BLK_SIZE s next_b, MM_GET_NEXT_BLK s next_b, s)
             else (old_size, next_b, s));
          s = (if old_size \<ge> new_size + MMLIST_HEAD_SIZE + MM_MIN_SIZE
               then mm_split s mmhead this_b next_b new_size (old_size - new_size - MMLIST_HEAD_SIZE) else s)
      in set_head mmhead (\<lambda>h. addsize h (MM_GET_BLK_SIZE s this_b) req_size) s)"

definition mm_enlarge :: "kstate \<Rightarrow> ptr \<Rightarrow> ptr \<Rightarrow> u32 \<Rightarrow> u32 \<Rightarrow> kstate" where
  "mm_enlarge s mmhead this_b new_size req_size =
     (let next_b = MM_GET_NEXT_BLK s this_b;
          s = set_head mmhead (\<lambda>h. removesize h (MM_GET_BLK_SIZE s this_b)) s;
          s = k_mm_freelist_delete s mmhead next_b;
          s = set_buf_size this_b (blk_buf_size s this_b + MM_GET_BLK_SIZE s next_b) s;
          next_b = MM_GET_NEXT_BLK s this_b;
          s = set_prev next_b this_b s;
          s = set_buf_size next_b (blk_buf_size s next_b AND NOT RHINO_MM_PREVFREE) s;
          s = (if MM_GET_BUF_SIZE s this_b \<ge> new_size + MMLIST_HEAD_SIZE + MM_MIN_SIZE
               then mm_split s mmhead this_b next_b new_size
                      (MM_GET_BUF_SIZE s this_b - new_size - MMLIST_HEAD_SIZE) else s)
      in set_head mmhead (\<lambda>h. addsize h (MM_GET_BLK_SIZE s this_b) req_size) s)"

definition k_mm_realloc :: "kstate \<Rightarrow> ptr \<Rightarrow> ptr \<Rightarrow> u32 \<Rightarrow> (ptr \<times> kstate) option" where
  "k_mm_realloc s mmhead oldmem new_size =
     (if oldmem = NULL then (if new_size > 0 then k_mm_alloc s mmhead new_size else Some (NULL, s))
      else if new_size = 0 then Some (NULL, k_mm_free s mmhead oldmem)
      else if krhino_mblk_check s (fix_pool (mm_heads s mmhead)) oldmem then
        (if new_size \<le> RHINO_CONFIG_MM_BLK_SIZE then Some (oldmem, s)
         else case k_mm_alloc s mmhead new_size of
                None \<Rightarrow> None
              | Some (ptr_aux, s) \<Rightarrow>
                  if ptr_aux \<noteq> NULL then
                    let s = umem_update (copy_words ptr_aux oldmem RHINO_CONFIG_MM_BLK_SIZE) s
                    in Some (ptr_aux, k_mm_smallblk_free s mmhead oldmem)
                  else Some (ptr_aux, s))
      else
        let req_size = new_size;
            this_b = MM_GET_THIS_BLK oldmem;
            old_size = MM_GET_BUF_SIZE s this_b;
            next_b = MM_GET_NEXT_BLK s this_b;
            new_size = MM_ALIGN_UP new_size;
            new_size = (if new_size < MM_MIN_SIZE then MM_MIN_SIZE else new_size)
        in if new_size \<le> old_size then Some (buffer this_b, mm_shrink s mmhead this_b new_size req_size)
           else if blk_buf_size s next_b AND RHINO_MM_FREE \<noteq> 0 \<and> new_size \<le> old_size + MM_GET_BLK_SIZE s next_b
           then Some (buffer this_b, mm_enlarge s mmhead this_b new_size req_size)
           else case k_mm_alloc s mmhead new_size of
                  None \<Rightarrow> None
                | Some (ptr_aux, s) \<Rightarrow>
                    if ptr_aux = NULL then Some (NULL, s)
                    else
                      let cpsize = (if MM_GET_BUF_SIZE s this_b > new_size then new_size
                                    else MM_GET_BUF_SIZE s this_b);
                          s = umem_update (copy_words ptr_aux oldmem cpsize) s
                      in Some (ptr_aux, k_mm_free s mmhead oldmem))"

section \<open>Regions\<close>

definition init_mm_region :: "kstate \<Rightarrow> ptr \<Rightarrow> u32 \<Rightarrow> ptr \<times> kstate" where
  "init_mm_region s regionaddr len =
     (let firstblk = regionaddr;
          s = set_prev firstblk NULL s;
          s = set_buf_size firstblk (MM_ALIGN_UP sizeof_region_info OR RHINO_MM_ALLOCED OR RHINO_MM_PREVALLOCED) s;
          lastblk = regionaddr + len - MMLIST_HEAD_SIZE;
          midblk = MM_GET_NEXT_BLK s firstblk;
          s = set_buf_size midblk ((lastblk - buffer midblk) OR RHINO_MM_ALLOCED OR RHINO_MM_PREVALLOCED) s;
          s = set_free_next midblk NULL s;
          s = set_free_prev midblk NULL s;
          s = set_prev lastblk midblk s;
          s = set_buf_size lastblk (0 OR RHINO_MM_ALLOCED OR RHINO_MM_PREVFREE) s;
          region = buffer firstblk;
          s = set_cell (region + 4) NULL s;
          s = set_cell region lastblk s
      in (firstblk, s))"

definition zero_head :: k_mm_head where
  "zero_head = \<lparr>regioninfo = NULL, fix_pool = NULL, used_size = 0, maxused_size = 0, free_size = 0,
     alloc_times = (\<lambda>_. 0), free_bitmap = 0, freelist = (\<lambda>_. NULL)\<rparr>"

text \<open>The pool for small blocks, in a block of the heap; \<open>name\<close> is the address of its name.\<close>

definition mm_init_pool :: "kstate \<Rightarrow> ptr \<Rightarrow> ptr \<Rightarrow> kstate option" where
  "mm_init_pool s mmhead name =
     (case k_mm_alloc s mmhead (RHINO_CONFIG_MM_TLF_BLK_SIZE + MM_ALIGN_UP sizeof_mblk_pool) of
        None \<Rightarrow> None
      | Some (pool, s) \<Rightarrow>
          if pool = NULL then Some s
          else case krhino_mblk_pool_init s pool name (pool + MM_ALIGN_UP sizeof_mblk_pool)
                      RHINO_CONFIG_MM_BLK_SIZE RHINO_CONFIG_MM_TLF_BLK_SIZE of
                 None \<Rightarrow> None
               | Some (stat, s) \<Rightarrow>
                   let s = (if stat = RHINO_SUCCESS then
                              let s = set_head mmhead (\<lambda>h. h\<lparr>fix_pool := pool\<rparr>) s
                              in set_head mmhead (\<lambda>h. removesize h RHINO_CONFIG_MM_TLF_BLK_SIZE) s
                            else k_mm_free s mmhead pool)
                   in Some (set_head mmhead (\<lambda>h. h\<lparr>maxused_size := used_size h\<rparr>) s))"

definition krhino_init_mm_head :: "kstate \<Rightarrow> ptr \<Rightarrow> ptr \<Rightarrow> ptr \<Rightarrow> u32 \<Rightarrow> (kstat \<times> kstate) option" where
  "krhino_init_mm_head s ppmmhead name orig_addr len =
     (if ppmmhead = NULL then Some (RHINO_NULL_PTR, s)
      else if orig_addr = NULL then Some (RHINO_NULL_PTR, s)
      else
        let addr = MM_ALIGN_UP orig_addr;
            len = len - (addr - orig_addr);
            len = MM_ALIGN_DOWN len
        in if len = 0 \<or> len < MIN_FREE_MEMORY_SIZE + RHINO_CONFIG_MM_TLF_BLK_SIZE \<or> len > MM_MAX_SIZE
           then Some (RHINO_MM_POOL_SIZE_ERR, s)
           else
             let pmmhead = addr;
                 s = set_head pmmhead (\<lambda>_. zero_head) s;
                 (firstblk, s) = init_mm_region s (addr + MM_ALIGN_UP sizeof_mm_head) (MM_ALIGN_DOWN (len - sizeof_mm_head));
                 s = set_head pmmhead (\<lambda>h. h\<lparr>regioninfo := buffer firstblk\<rparr>) s;
                 nextblk = MM_GET_NEXT_BLK s firstblk;
                 s = set_cell ppmmhead pmmhead s;
                 s = k_mm_free s pmmhead (buffer nextblk);
                 s = set_head pmmhead (\<lambda>h. h\<lparr>free_size := MM_GET_BUF_SIZE s nextblk\<rparr>) s;
                 s = set_head pmmhead (\<lambda>h. h\<lparr>used_size := len - MM_GET_BUF_SIZE s nextblk\<rparr>) s;
                 s = set_head pmmhead (\<lambda>h. h\<lparr>maxused_size := used_size h\<rparr>) s;
                 s = set_head pmmhead (\<lambda>h. h\<lparr>fix_pool := NULL\<rparr>) s
             in case mm_init_pool s pmmhead name of
                  None \<Rightarrow> None
                | Some s \<Rightarrow> Some (RHINO_SUCCESS, s))"

definition krhino_deinit_mm_head :: "kstate \<Rightarrow> ptr \<Rightarrow> kstat \<times> kstate" where
  "krhino_deinit_mm_head s mmhead = (RHINO_SUCCESS, set_head mmhead (\<lambda>_. zero_head) s)"

definition krhino_add_mm_region :: "kstate \<Rightarrow> ptr \<Rightarrow> ptr \<Rightarrow> u32 \<Rightarrow> kstat \<times> kstate" where
  "krhino_add_mm_region s mmhead orig_addr len =
     (if mmhead = NULL then (RHINO_NULL_PTR, s)
      else if orig_addr = NULL then (RHINO_NULL_PTR, s)
      else
        let addr = MM_ALIGN_UP orig_addr;
            len = len - (addr - orig_addr);
            len = MM_ALIGN_DOWN len
        in if len = 0 \<or> len < sizeof_region_info + MMLIST_HEAD_SIZE * 3 + MM_MIN_SIZE
           then (RHINO_MM_POOL_SIZE_ERR, s)
           else
             let s = umem_update (\<lambda>M a. if a - addr < len then 0 else M a) s;
                 (firstblk, s) = init_mm_region s addr len;
                 nextblk = MM_GET_NEXT_BLK s firstblk;
                 region = buffer firstblk;
                 s = set_cell (region + 4) (regioninfo (mm_heads s mmhead)) s;
                 s = set_head mmhead (\<lambda>h. h\<lparr>regioninfo := region\<rparr>) s;
                 s = set_head mmhead (\<lambda>h. h\<lparr>used_size := used_size h + MM_GET_BLK_SIZE s nextblk\<rparr>) s
             in (RHINO_SUCCESS, k_mm_free s mmhead (buffer nextblk)))"

section \<open>The heap of the kernel\<close>

definition krhino_mm_alloc :: "kstate \<Rightarrow> u32 \<Rightarrow> (ptr \<times> kstate) option" where
  "krhino_mm_alloc s sz = (if sz = 0 then Some (NULL, s) else k_mm_alloc s (g_kmm_head s) sz)"

definition krhino_mm_free :: "kstate \<Rightarrow> ptr \<Rightarrow> kstate" where
  "krhino_mm_free s p = k_mm_free s (g_kmm_head s) p"

definition krhino_mm_realloc :: "kstate \<Rightarrow> ptr \<Rightarrow> u32 \<Rightarrow> (ptr \<times> kstate) option" where
  "krhino_mm_realloc s oldmem newsize = k_mm_realloc s (g_kmm_head s) oldmem newsize"

end
