(* ===== verification/Mm_Tiles.thy ===== *)
theory Mm_Tiles
  imports Mm
begin

text \<open>
  The heap seen as a sequence of tiles. Addresses and sizes are natural numbers here: \<open>mem\<close> reads the
  memory at such an address, and the lemmas on headers turn the flag arithmetic of the code into
  sums.
\<close>

section \<open>Words and natural numbers\<close>

abbreviation w32 :: "nat \<Rightarrow> u32" where
  "w32 \<equiv> word_of_nat"

definition mem :: "(ptr \<Rightarrow> u32) \<Rightarrow> nat \<Rightarrow> nat" where
  "mem M a = (if a < 2 ^ 32 then unat (M (w32 a)) else 0)"

lemma w32_inject: "a < 2 ^ 32 \<Longrightarrow> b < 2 ^ 32 \<Longrightarrow> w32 a = w32 b \<longleftrightarrow> a = b"
  by (metis unat_word_of_nat32)

lemma w32_0: "a < 2 ^ 32 \<Longrightarrow> w32 a = 0 \<longleftrightarrow> a = 0"
  using w32_inject [of a 0] by simp

lemma w32_less: "a < 2 ^ 32 \<Longrightarrow> b < 2 ^ 32 \<Longrightarrow> w32 a < w32 b \<longleftrightarrow> a < b"
  by (simp only: word_less_nat_alt unat_word_of_nat32)

lemma w32_le: "a < 2 ^ 32 \<Longrightarrow> b < 2 ^ 32 \<Longrightarrow> w32 a \<le> w32 b \<longleftrightarrow> a \<le> b"
  by (simp only: word_le_nat_alt unat_word_of_nat32)

lemma w32_minus: "b \<le> a \<Longrightarrow> w32 a - w32 b = w32 (a - b)"
  by (simp add: of_nat_diff)

lemma w32_unat [simp]: "w32 (unat w) = w"
  by simp

lemma mem_upd:
  assumes "a < 2 ^ 32" "v < 2 ^ 32"
  shows "mem (M(w32 a := w32 v)) = (mem M)(a := v)"
proof
  fix b show "mem (M(w32 a := w32 v)) b = ((mem M)(a := v)) b"
    using assms w32_inject [of b a] by (cases "b = a") (simp_all add: mem_def unat_word_of_nat32)
qed

lemma mem_read: "a < 2 ^ 32 \<Longrightarrow> M (w32 a) = w32 (mem M a)"
  by (simp add: mem_def)

lemma mem_less: "mem M a < 2 ^ 32"
  using unsigned_less [where 'a = nat, of "M (w32 a)"] by (simp add: mem_def)

section \<open>Headers\<close>

text \<open>The size word of a block: size, free or not, block in front free or not.\<close>

definition hdr :: "nat \<Rightarrow> bool \<Rightarrow> bool \<Rightarrow> nat" where
  "hdr n fr pf = n + (if fr then 1 else 0) + (if pf then 2 else 0)"

lemma bit_w32: "v < 2 ^ 32 \<Longrightarrow> bit (w32 v) i \<longleftrightarrow> odd (v div 2 ^ i)"
  by (simp add: bit_word_unat unat_word_of_nat32)

lemma hdr_bits:
  assumes "8 dvd n" and "hdr n fr pf < 2 ^ 32"
  shows "bit (w32 (hdr n fr pf)) 0 \<longleftrightarrow> fr" and "bit (w32 (hdr n fr pf)) (Suc 0) \<longleftrightarrow> pf"
proof -
  obtain k where n: "n = 8 * k" using assms by blast
  show "bit (w32 (hdr n fr pf)) 0 \<longleftrightarrow> fr" "bit (w32 (hdr n fr pf)) (Suc 0) \<longleftrightarrow> pf"
    unfolding bit_w32 [OF assms(2)] by (auto simp: hdr_def n)
qed

lemma hdr_and_flags:
  assumes "8 dvd n" and "hdr n fr pf < 2 ^ 32"
  shows "w32 (hdr n fr pf) AND RHINO_MM_FREE \<noteq> 0 \<longleftrightarrow> fr" and "w32 (hdr n fr pf) AND RHINO_MM_PREVFREE \<noteq> 0 \<longleftrightarrow> pf"
    and "w32 (hdr n fr pf) AND RHINO_MM_PRESTAT_MASK = w32 (if pf then 2 else 0)"
proof -
  have b: "(w AND push_bit i 1 \<noteq> 0) = bit w i" for w :: u32 and i
    by (simp add: and_exp_eq_0_iff_not_bit push_bit_eq_mult)
  show "w32 (hdr n fr pf) AND RHINO_MM_FREE \<noteq> 0 \<longleftrightarrow> fr"
    using b [of _ 0] hdr_bits(1) [OF assms] by (simp add: RHINO_MM_FREE_def)
  show "w32 (hdr n fr pf) AND RHINO_MM_PREVFREE \<noteq> 0 \<longleftrightarrow> pf"
    using b [of _ 1] hdr_bits(2) [OF assms] by (simp add: RHINO_MM_PREVFREE_def)
  have "w AND 2 = (if bit w 1 then 2 else 0)" for w :: u32
    by (rule bit_word_eqI) (auto simp: bit_simps)
  then show "w32 (hdr n fr pf) AND RHINO_MM_PRESTAT_MASK = w32 (if pf then 2 else 0)"
    using hdr_bits(2) [OF assms] by (simp add: RHINO_MM_PRESTAT_MASK_def)
qed

lemma hdr_set_flags:
  assumes "8 dvd n" and "hdr n fr pf < 2 ^ 32"
  shows "w32 (hdr n fr pf) OR RHINO_MM_FREE = w32 (hdr n True pf)"
    and "w32 (hdr n fr pf) OR RHINO_MM_PREVFREE = w32 (hdr n fr True)"
    and "w32 (hdr n fr pf) AND NOT RHINO_MM_FREE = w32 (hdr n False pf)"
    and "w32 (hdr n fr pf) AND NOT RHINO_MM_PREVFREE = w32 (hdr n fr False)"
proof -
  note b = hdr_bits [OF assms]
  have "w32 (hdr n fr pf) OR RHINO_MM_FREE = set_bit 0 (w32 (hdr n fr pf))"
    "w32 (hdr n fr pf) AND NOT RHINO_MM_FREE = unset_bit 0 (w32 (hdr n fr pf))"
    "w32 (hdr n fr pf) OR RHINO_MM_PREVFREE = set_bit (Suc 0) (w32 (hdr n fr pf))"
    "w32 (hdr n fr pf) AND NOT RHINO_MM_PREVFREE = unset_bit (Suc 0) (w32 (hdr n fr pf))"
    by (simp_all add: RHINO_MM_FREE_def RHINO_MM_PREVFREE_def set_bit_eq_or unset_bit_eq_and_not push_bit_eq_mult)
  then show "w32 (hdr n fr pf) OR RHINO_MM_FREE = w32 (hdr n True pf)"
    "w32 (hdr n fr pf) OR RHINO_MM_PREVFREE = w32 (hdr n fr True)"
    "w32 (hdr n fr pf) AND NOT RHINO_MM_FREE = w32 (hdr n False pf)"
    "w32 (hdr n fr pf) AND NOT RHINO_MM_PREVFREE = w32 (hdr n fr False)"
    using b by (auto simp: set_bit_eq unset_bit_eq hdr_def)
qed

lemma flag_bits: "w AND MM_ALIGN_MASK = w32 (unat w mod 8)"
proof -
  have "w AND MM_ALIGN_MASK = take_bit 3 w"
    by (simp add: MM_ALIGN_MASK_def take_bit_eq_mask mask_eq_exp_minus_1)
  also have "unat (take_bit 3 w) = unat w mod 8"
    by (simp only: unsigned_take_bit_eq [where 'a = nat]) (simp add: take_bit_eq_mod)
  then have "take_bit 3 w = w32 (unat w mod 8)" by (metis w32_unat)
  finally show ?thesis .
qed

lemma align_down: "w AND NOT MM_ALIGN_MASK = w32 (unat w div 8 * 8)"
proof -
  have "w AND NOT MM_ALIGN_MASK = w - (w AND MM_ALIGN_MASK)"
  proof -
    have "(w AND NOT MM_ALIGN_MASK) + (w AND MM_ALIGN_MASK) = (w AND NOT MM_ALIGN_MASK) OR (w AND MM_ALIGN_MASK)"
      by (rule disjunctive_add) (simp add: bit_simps)
    also have "\<dots> = w" by (rule bit_word_eqI) (auto simp: bit_simps)
    finally show ?thesis by (simp add: eq_diff_eq)
  qed
  also have "\<dots> = w32 (unat w) - w32 (unat w mod 8)" unfolding flag_bits by simp
  also have "\<dots> = w32 (unat w - unat w mod 8)" by (rule w32_minus) simp
  also have "unat w - unat w mod 8 = unat w div 8 * 8" by (simp add: minus_mod_eq_div_mult)
  finally show ?thesis .
qed

lemma hdr_size:
  assumes "8 dvd n" and "hdr n fr pf < 2 ^ 32"
  shows "w32 (hdr n fr pf) AND NOT MM_ALIGN_MASK = w32 n"
proof -
  obtain k where n: "n = 8 * k" using assms by blast
  have "hdr n fr pf div 8 * 8 = n" by (auto simp: hdr_def n)
  then show ?thesis using assms(2) by (simp only: align_down unat_word_of_nat32)
qed

lemma hdr_make:
  assumes "8 dvd n" and "hdr n fr pf < 2 ^ 32"
  shows "w32 n OR RHINO_MM_FREE OR RHINO_MM_PREVALLOCED = w32 (hdr n True False)"
    and "w32 n OR w32 (if pf then 2 else 0) = w32 (hdr n False pf)"
    and "w32 n OR RHINO_MM_ALLOCED OR RHINO_MM_PREVALLOCED = w32 (hdr n False False)"
proof -
  have l: "hdr n False False < 2 ^ 32" using assms(2) by (simp add: hdr_def)
  have e: "w32 n = w32 (hdr n False False)" by (simp add: hdr_def)
  note S = hdr_set_flags(1,2) [OF assms(1) l, folded e]
  show "w32 n OR RHINO_MM_FREE OR RHINO_MM_PREVALLOCED = w32 (hdr n True False)"
    "w32 n OR RHINO_MM_ALLOCED OR RHINO_MM_PREVALLOCED = w32 (hdr n False False)"
    "w32 n OR w32 (if pf then 2 else 0) = w32 (hdr n False pf)"
    using S e by (auto simp: RHINO_MM_PREVALLOCED_def RHINO_MM_ALLOCED_def RHINO_MM_PREVFREE_def)
qed

lemma align_up:
  assumes "unat w + 7 < 2 ^ 32"
  shows "MM_ALIGN_UP w = w32 ((unat w + 7) div 8 * 8)"
proof -
  have "unat (w + MM_ALIGN_MASK) = unat w + 7"
    using assms unat_add_lem [of w MM_ALIGN_MASK] by (simp add: MM_ALIGN_MASK_def)
  then show ?thesis by (simp add: MM_ALIGN_UP_def align_down)
qed

lemma align_up_overflow:
  assumes "unat w + 7 \<ge> 2 ^ 32"
  shows "MM_ALIGN_UP w = 0"
proof -
  have "unat (w + MM_ALIGN_MASK) = unat w + 7 - 2 ^ 32"
    using assms unsigned_less [where 'a = nat, of w] by (simp add: unat_word_ariths MM_ALIGN_MASK_def mod_if)
  also have "\<dots> < 8" using unsigned_less [where 'a = nat, of w] by simp
  finally show ?thesis by (simp add: MM_ALIGN_UP_def align_down)
qed


section \<open>Tiles\<close>

text \<open>
  A heap is a sequence of tiles: blocks in use, free blocks, and fences. A fence is the empty block that
  ends a region, with the gap up to the next region behind it.
\<close>

datatype tile = Used nat | Free nat | Fence nat

fun len :: "tile \<Rightarrow> nat" where
  "len (Used n) = n + 8"
| "len (Free n) = n + 8"
| "len (Fence g) = g + 8"

fun bsize :: "tile \<Rightarrow> nat" where
  "bsize (Used n) = n"
| "bsize (Free n) = n"
| "bsize (Fence g) = 0"

fun is_free :: "tile \<Rightarrow> bool" where
  "is_free (Free n) = True"
| "is_free _ = False"

fun is_fence :: "tile \<Rightarrow> bool" where
  "is_fence (Fence g) = True"
| "is_fence _ = False"

fun tile_ok :: "tile \<Rightarrow> bool" where
  "tile_ok (Used n) \<longleftrightarrow> 8 dvd n \<and> 8 \<le> n"
| "tile_ok (Free n) \<longleftrightarrow> 8 dvd n \<and> 32 \<le> n"
| "tile_ok (Fence g) \<longleftrightarrow> 8 dvd g"

abbreviation total :: "tile list \<Rightarrow> nat" where
  "total ts \<equiv> sum_list (map len ts)"

text \<open>The tiles with their addresses.\<close>

fun loc :: "nat \<Rightarrow> tile list \<Rightarrow> (nat \<times> tile) list" where
  "loc a [] = []"
| "loc a (t # ts) = (a, t) # loc (a + len t) ts"

text \<open>The tile in front of the end of a sequence: its address, and whether it is free.\<close>

fun last_at :: "nat \<Rightarrow> nat \<Rightarrow> tile list \<Rightarrow> nat" where
  "last_at p a [] = p"
| "last_at p a (t # ts) = last_at a (a + len t) ts"

fun last_free :: "bool \<Rightarrow> tile list \<Rightarrow> bool" where
  "last_free pf [] = pf"
| "last_free pf (t # ts) = last_free (is_free t) ts"

text \<open>What the headers say, from address \<open>a\<close> on, where the tile in front is at \<open>p\<close>.\<close>

fun tiles :: "(nat \<Rightarrow> nat) \<Rightarrow> nat \<Rightarrow> bool \<Rightarrow> nat \<Rightarrow> tile list \<Rightarrow> bool" where
  "tiles m p pf a [] \<longleftrightarrow> True"
| "tiles m p pf a (t # ts) \<longleftrightarrow>
     tile_ok t \<and> m (a + 4) = hdr (bsize t) (is_free t) pf \<and> (pf \<longrightarrow> m a = p \<and> \<not> is_free t)
     \<and> tiles m a (is_free t) (a + len t) ts"

text \<open>Free blocks between two fences never grow beyond what the free lists can hold.\<close>

fun spans :: "nat \<Rightarrow> tile list \<Rightarrow> bool" where
  "spans k [] \<longleftrightarrow> True"
| "spans k (t # ts) \<longleftrightarrow> (if is_fence t then spans 0 ts else k + len t \<le> 2 ^ 19 \<and> spans (k + len t) ts)"

lemma len_bsize: "\<not> is_fence t \<Longrightarrow> len t = bsize t + 8"
  by (cases t) auto

lemma len_ge [simp]: "8 \<le> len t"
  by (cases t) auto

lemma tile_ok_dvd: "tile_ok t \<Longrightarrow> 8 dvd len t" "tile_ok t \<Longrightarrow> 8 dvd bsize t"
  by (cases t; simp)+

lemma loc_append: "loc a (xs @ ys) = loc a xs @ loc (a + total xs) ys"
  by (induction xs arbitrary: a) (simp_all add: add.assoc)

lemma tiles_append:
  "tiles m p pf a (xs @ ys) \<longleftrightarrow>
     tiles m p pf a xs \<and> tiles m (last_at p a xs) (last_free pf xs) (a + total xs) ys"
  by (induction xs arbitrary: p pf a) (simp_all add: add.assoc)

lemma last_at_append [simp]: "last_at p a (xs @ ys) = last_at (last_at p a xs) (a + total xs) ys"
  by (induction xs arbitrary: p a) (simp_all add: add.assoc)

lemma last_free_append [simp]: "last_free pf (xs @ ys) = last_free (last_free pf xs) ys"
  by (induction xs arbitrary: pf) simp_all

lemma tiles_frame:
  "(\<And>b t. (b, t) \<in> set (loc a ts) \<Longrightarrow> m' b = m b \<and> m' (b + 4) = m (b + 4)) \<Longrightarrow>
   tiles m' p pf a ts = tiles m p pf a ts"
proof (induction ts arbitrary: p pf a)
  case (Cons t ts)
  have "tiles m' a (is_free t) (a + len t) ts = tiles m a (is_free t) (a + len t) ts"
  proof (rule Cons.IH)
    fix b u assume "(b, u) \<in> set (loc (a + len t) ts)"
    then show "m' b = m b \<and> m' (b + 4) = m (b + 4)" by (intro Cons.prems [of b u]) simp
  qed
  then show ?case using Cons.prems [of a t] by simp
qed simp

lemma loc_bounds: "(b, t) \<in> set (loc a ts) \<Longrightarrow> a \<le> b \<and> b + len t \<le> a + total ts"
  by (induction ts arbitrary: a) fastforce+

lemma loc_split:
  "(b, t) \<in> set (loc a ts) \<longleftrightarrow> (\<exists>xs ys. ts = xs @ t # ys \<and> b = a + total xs)"
proof (induction ts arbitrary: a)
  case (Cons x ts)
  show ?case
  proof
    assume "(b, t) \<in> set (loc a (x # ts))"
    then consider "b = a" "t = x" | xs ys where "ts = xs @ t # ys" "b = a + len x + total xs"
      using Cons.IH [of "a + len x"] by auto
    then show "\<exists>xs ys. x # ts = xs @ t # ys \<and> b = a + total xs"
    proof cases
      case 1
      then show ?thesis by (intro exI [of _ "[]"] exI [of _ ts]) simp
    next
      case 2
      then show ?thesis by (intro exI [of _ "x # xs"] exI [of _ ys]) simp
    qed
  next
    assume "\<exists>xs ys. x # ts = xs @ t # ys \<and> b = a + total xs"
    then obtain xs ys where e: "x # ts = xs @ t # ys" "b = a + total xs" by blast
    then have "(b, t) \<in> set (loc a (xs @ t # ys))" by (simp add: loc_append)
    then show "(b, t) \<in> set (loc a (x # ts))" using e by simp
  qed
qed simp

text \<open>Tiles at different addresses do not overlap.\<close>

lemma loc_disjoint:
  assumes "(b, t) \<in> set (loc a ts)" and "(b', t') \<in> set (loc a ts)" and "b < b'"
  shows "b + len t \<le> b'"
  using assms
proof (induction ts arbitrary: a)
  case (Cons x ts)
  then consider "b = a" "t = x" "(b', t') \<in> set (loc (a + len x) ts)"
    | "(b, t) \<in> set (loc (a + len x) ts)" "b' = a"
    | "(b, t) \<in> set (loc (a + len x) ts)" "(b', t') \<in> set (loc (a + len x) ts)"
    by fastforce
  then show ?case
  proof cases
    case 1
    then show ?thesis using loc_bounds by blast
  next
    case 2
    then show ?thesis using loc_bounds Cons.prems(3) by fastforce
  next
    case 3
    then show ?thesis using Cons.IH Cons.prems(3) by blast
  qed
qed simp

lemma loc_unique:
  assumes "(b, t) \<in> set (loc a ts)" and "(b, t') \<in> set (loc a ts)"
  shows "t = t'"
  using assms
proof (induction ts arbitrary: a)
  case (Cons x ts)
  have "\<not> (a, u) \<in> set (loc (a + len x) ts)" for u
    using loc_bounds [of a u "a + len x" ts] len_ge [of x] by linarith
  then show ?case using Cons by auto
qed simp

lemma tiles_loc:
  assumes "tiles m p pf a ts" and "(b, t) \<in> set (loc a ts)"
  shows "tile_ok t \<and> (\<exists>q. m (b + 4) = hdr (bsize t) (is_free t) q)"
  using assms by (induction ts arbitrary: p pf a) auto

lemma tiles_dvd:
  assumes "tiles m p pf a ts" and "8 dvd a" and "(b, t) \<in> set (loc a ts)"
  shows "8 dvd b"
  using assms
proof (induction ts arbitrary: p pf a)
  case (Cons x ts)
  then have "8 dvd a + len x" using tile_ok_dvd [of x] by simp
  with Cons show ?case by auto
qed simp

lemma spans_append:
  assumes "\<And>t. t \<in> set ys \<Longrightarrow> \<not> is_fence t"
  shows "spans k (ys @ zs) \<longleftrightarrow> (ys = [] \<or> k + total ys \<le> 2 ^ 19) \<and> spans (k + total ys) zs"
  using assms
proof (induction ys arbitrary: k)
  case (Cons y ys)
  then have "spans (k + len y) (ys @ zs) \<longleftrightarrow> (ys = [] \<or> k + len y + total ys \<le> 2 ^ 19) \<and> spans (k + len y + total ys) zs"
    by (intro Cons.IH) auto
  then show ?case using Cons.prems [of y] by (auto simp: add.assoc)
qed simp

lemma spans_exchange:
  assumes "\<And>t. t \<in> set ys \<Longrightarrow> \<not> is_fence t" "\<And>t. t \<in> set ys' \<Longrightarrow> \<not> is_fence t"
    and "total ys = total ys'" "ys \<noteq> []"
  shows "spans k (xs @ ys @ zs) \<Longrightarrow> spans k (xs @ ys' @ zs)"
proof (induction xs arbitrary: k)
  case Nil
  then show ?case using spans_append [OF assms(1)] spans_append [OF assms(2)] assms(3,4) by auto
qed (auto split: if_splits)

lemma spans_bsize: "spans k ts \<Longrightarrow> t \<in> set ts \<Longrightarrow> \<not> is_fence t \<Longrightarrow> bsize t + 8 \<le> 2 ^ 19"
proof (induction ts arbitrary: k)
  case (Cons x ts)
  then show ?case using len_bsize [of x] by (auto split: if_splits)
qed simp

end
