(* ===== verification/Mm_Free.thy ===== *)
theory Mm_Free
  imports Mm_Tiles
begin

text \<open>
  The free lists of the heap: levels, the bitmap, and insertion and removal in the doubly linked lists
  that run through the free blocks.
\<close>

section \<open>Trailing zeros\<close>

definition ctz_inv :: "u32 \<Rightarrow> nat \<Rightarrow> u32 \<times> nat \<Rightarrow> bool" where
  "ctz_inv w k = (\<lambda>(x, n). (\<forall>i < n. \<not> bit w i) \<and> (\<forall>i. bit x i = bit w (i + n)) \<and> (\<exists>i < k. bit x i))"

lemma ctz_step_inv:
  assumes "ctz_inv w (2 * k) p" and "m = mask k"
  shows "ctz_inv w k (ctz_step m k p)"
proof -
  obtain x n where p: "p = (x, n)" by fastforce
  have lo: "\<forall>i < n. \<not> bit w i" and x: "\<And>i. bit x i = bit w (i + n)" and ex: "\<exists>i < 2 * k. bit x i"
    using assms(1) by (auto simp: ctz_inv_def p)
  have m: "x AND m = 0 \<longleftrightarrow> (\<forall>i < k. \<not> bit x i)"
  proof -
    have "x AND m = take_bit k x" by (simp add: assms(2) take_bit_eq_mask)
    moreover have "take_bit k x = 0 \<longleftrightarrow> (\<forall>i. \<not> bit (take_bit k x) i)"
      by (metis bit_eqI bit_0_eq bot_apply bot_bool_def)
    ultimately show ?thesis by (auto simp: bit_take_bit_iff)
  qed
  show ?thesis
  proof (cases "x AND m = 0")
    case True
    then have z: "\<forall>i < k. \<not> bit x i" using m by blast
    obtain i where i: "i < 2 * k" "bit x i" using ex by blast
    then have "k \<le> i" using z by (meson not_le)
    then have "\<exists>j < k. bit (drop_bit k x) j" using i by (intro exI [of _ "i - k"]) (simp add: bit_drop_bit_eq)
    moreover have "\<not> bit w j" if "j < n + k" for j
    proof (cases "j < n")
      case False
      then have "bit w j = bit x (j - n)" by (simp add: x)
      then show ?thesis using z that False by simp
    qed (use lo in blast)
    ultimately show ?thesis using True by (simp add: p ctz_step_def ctz_inv_def bit_drop_bit_eq x ac_simps)
  next
    case False
    then have "\<exists>i < k. bit x i" using m by blast
    then show ?thesis using False lo x by (simp add: p ctz_step_def ctz_inv_def)
  qed
qed

lemma krhino_ctz32_least:
  assumes "w \<noteq> 0"
  shows "bit w (krhino_ctz32 w)" and "i < krhino_ctz32 w \<Longrightarrow> \<not> bit w i"
proof -
  have "\<exists>i. bit w i" using assms by (metis bit_eqI bit_0_eq bot_apply bot_bool_def)
  then obtain j where i: "bit w j" by blast
  then have "j < 32" using bit_imp_le_length [of w j] by simp
  with i have 0: "ctz_inv w (2 * 16) (w, 0)" by (auto simp: ctz_inv_def)
  note 1 = ctz_step_inv [OF 0, of "0x0000FFFF"]
  note 2 = ctz_step_inv [where k = 8, of w "ctz_step 0x0000FFFF 16 (w, 0)" "0x000000FF"]
  note 3 = ctz_step_inv [where k = 4, of w "ctz_step 0x000000FF 8 (ctz_step 0x0000FFFF 16 (w, 0))" "0x0000000F"]
  note 4 = ctz_step_inv [where k = 2, of w "ctz_step 0x0000000F 4 (ctz_step 0x000000FF 8 (ctz_step 0x0000FFFF 16 (w, 0)))" "0x00000003"]
  obtain x n where e: "ctz_step 0x00000003 2 (ctz_step 0x0000000F 4 (ctz_step 0x000000FF 8 (ctz_step 0x0000FFFF 16 (w, 0)))) = (x, n)"
    by fastforce
  have "ctz_inv w 2 (x, n)" using 1 2 3 4 by (simp add: e mask_numeral)
  then have lo: "\<forall>i < n. \<not> bit w i" and x: "\<And>i. bit x i = bit w (i + n)" and ex: "bit x 0 \<or> bit x 1"
    by (auto simp: ctz_inv_def less_2_cases_iff)
  have c: "krhino_ctz32 w = (if bit x 0 then n else n + 1)"
    using assms e by (simp add: krhino_ctz32_def and_one_eq bit_0 even_iff_mod_2_eq_zero)
  show "bit w (krhino_ctz32 w)" using ex x [of 0] x [of 1] by (auto simp: c)
  show "i < krhino_ctz32 w \<Longrightarrow> \<not> bit w i"
    using lo x [of 0] by (auto simp: c less_Suc_eq split: if_splits)
qed

section \<open>Levels\<close>

definition lev :: "nat \<Rightarrow> nat" where
  "lev n = nat (size_to_level (w32 n))"

lemma level_cases:
  assumes "0 < n" "n < 2 ^ 32"
  shows "(size_to_level (w32 n) = 0 \<and> n < 2 ^ 6)
    \<or> (\<exists>l. size_to_level (w32 n) = int l \<and> 0 < l \<and> l \<le> 13 \<and> 2 ^ (l + 5) \<le> n \<and> n < 2 ^ (l + 6))
    \<or> (size_to_level (w32 n) = - 1 \<and> 2 ^ 19 \<le> n)"
proof -
  have "w32 n \<noteq> 0" using assms by (simp add: w32_0)
  note B = krhino_clz32_bounds [OF this, unfolded unat_word_of_nat32 [OF assms(2)]]
  define c where "c = 32 - krhino_clz32 (w32 n)"
  have c: "0 < c" "c \<le> 32" "2 ^ (c - 1) \<le> n" "n < 2 ^ c" using B by (auto simp: c_def)
  have e: "size_to_level (w32 n) = (if c < 6 then 0 else if c > 19 then - 1 else int c - 6)"
    by (simp add: size_to_level_def c_def MM_MIN_BIT_def MM_MAX_BIT_def Let_def)
  consider "c \<le> 6" | "6 < c" "c \<le> 19" | "19 < c" by linarith
  then show ?thesis
  proof cases
    case 1
    then have "(2::nat) ^ c \<le> 2 ^ 6" by (intro power_increasing) simp_all
    then show ?thesis using c(4) 1 by (auto simp: e)
  next
    case 2
    then have "size_to_level (w32 n) = int (c - 6) \<and> 0 < c - 6 \<and> c - 6 \<le> 13 \<and> 2 ^ (c - 6 + 5) \<le> n \<and> n < 2 ^ (c - 6 + 6)"
      using c(3,4) by (simp add: e)
    then show ?thesis by blast
  next
    case 3
    then have "(2::nat) ^ 19 \<le> 2 ^ (c - 1)" by (intro power_increasing) simp_all
    then show ?thesis using c(3) 3 by (simp add: e)
  qed
qed

lemma level_small:
  assumes "0 < n" "n < 2 ^ 19"
  shows "size_to_level (w32 n) = int (lev n)" and "lev n \<le> 13"
  using level_cases [of n] assms by (auto simp: lev_def)

lemma level_large: "2 ^ 19 \<le> n \<Longrightarrow> n < 2 ^ 32 \<Longrightarrow> size_to_level (w32 n) = - 1"
proof -
  assume n: "2 ^ 19 \<le> n" "n < 2 ^ 32"
  have "(2::nat) ^ (l + 6) \<le> 2 ^ 19" if "l \<le> 13" for l using that by (intro power_increasing) simp_all
  then show ?thesis using level_cases [of n] n by fastforce
qed

lemma level_less:
  assumes "0 < n" "n < 2 ^ 19" "0 < k" "k < 2 ^ 19" and "lev k < lev n"
  shows "k < n"
proof -
  have n: "2 ^ (lev n + 5) \<le> n" using level_cases [of n] assms level_small [OF assms(1,2)] by auto
  have k: "k < 2 ^ (lev k + 6)" using level_cases [of k] assms level_small [OF assms(3,4)] by auto
  have "(2::nat) ^ (lev k + 6) \<le> 2 ^ (lev n + 5)" using assms(5) by (intro power_increasing) simp_all
  then show ?thesis using n k by linarith
qed

lemma level_mono:
  assumes "0 < k" "k \<le> n" "n < 2 ^ 19"
  shows "lev k \<le> lev n"
  using level_less [of k n] assms by (cases "lev n < lev k") auto


section \<open>Cells of a block\<close>

lemma mem_read_cells:
  "b < 2 ^ 32 \<Longrightarrow> M (w32 b) = w32 (mem M b)"
  "b + 4 < 2 ^ 32 \<Longrightarrow> M (w32 b + 4) = w32 (mem M (b + 4))"
  "b + 8 < 2 ^ 32 \<Longrightarrow> M (w32 b + 8) = w32 (mem M (b + 8))"
  "b + 12 < 2 ^ 32 \<Longrightarrow> M (w32 b + 12) = w32 (mem M (b + 12))"
  using mem_read [of b M] mem_read [of "b + 4" M] mem_read [of "b + 8" M] mem_read [of "b + 12" M] by simp_all

lemma mem_upd_cells:
  "b < 2 ^ 32 \<Longrightarrow> v < 2 ^ 32 \<Longrightarrow> mem (M(w32 b := w32 v)) = (mem M)(b := v)"
  "b + 4 < 2 ^ 32 \<Longrightarrow> v < 2 ^ 32 \<Longrightarrow> mem (M(w32 b + 4 := w32 v)) = (mem M)(b + 4 := v)"
  "b + 8 < 2 ^ 32 \<Longrightarrow> v < 2 ^ 32 \<Longrightarrow> mem (M(w32 b + 8 := w32 v)) = (mem M)(b + 8 := v)"
  "b + 12 < 2 ^ 32 \<Longrightarrow> v < 2 ^ 32 \<Longrightarrow> mem (M(w32 b + 12 := w32 v)) = (mem M)(b + 12 := v)"
  using mem_upd [of b v M] mem_upd [of "b + 4" v M] mem_upd [of "b + 8" v M] mem_upd [of "b + 12" v M] by simp_all

section \<open>Doubly linked lists\<close>

text \<open>From \<open>a\<close>, reached from \<open>p\<close>, through the blocks of a list to \<open>b\<close>, reached from \<open>q\<close>.\<close>

fun dseg :: "(nat \<Rightarrow> nat) \<Rightarrow> nat \<Rightarrow> nat \<Rightarrow> nat list \<Rightarrow> nat \<Rightarrow> nat \<Rightarrow> bool" where
  "dseg m p a [] q b \<longleftrightarrow> p = q \<and> a = b"
| "dseg m p a (x # xs) q b \<longleftrightarrow> a = x \<and> m (x + 8) = p \<and> dseg m x (m (x + 12)) xs q b"

definition dll :: "(nat \<Rightarrow> nat) \<Rightarrow> nat \<Rightarrow> nat list \<Rightarrow> bool" where
  "dll m h xs \<longleftrightarrow> (\<exists>q. dseg m 0 h xs q 0)"

lemma dseg_append:
  "dseg m p a (xs @ ys) q b \<longleftrightarrow> (\<exists>q' b'. dseg m p a xs q' b' \<and> dseg m q' b' ys q b)"
  by (induction xs arbitrary: p a) auto

lemma dseg_frame:
  "(\<And>x. x \<in> set xs \<Longrightarrow> m' (x + 8) = m (x + 8) \<and> m' (x + 12) = m (x + 12)) \<Longrightarrow> dseg m' p a xs q b = dseg m p a xs q b"
  by (induction xs arbitrary: p a) auto

lemma dll_frame:
  "(\<And>x. x \<in> set xs \<Longrightarrow> m' (x + 8) = m (x + 8) \<and> m' (x + 12) = m (x + 12)) \<Longrightarrow> dll m' h xs = dll m h xs"
  unfolding dll_def using dseg_frame [of xs m' m 0 h] by blast

lemma dll_head: "dll m h xs \<Longrightarrow> h = (case xs of [] \<Rightarrow> 0 | x # _ \<Rightarrow> x)"
  by (cases xs) (auto simp: dll_def)

text \<open>The cells of different blocks differ, as blocks are aligned.\<close>

lemma cells_distinct:
  assumes "8 dvd x" "8 dvd (y :: nat)"
  shows "x + 8 \<noteq> y + 12" "x + 12 \<noteq> y + 8" "x + 8 = y + 8 \<longleftrightarrow> x = y" "x + 12 = y + 12 \<longleftrightarrow> x = y"
proof -
  have m: "x mod 8 = 0" "y mod 8 = 0" using assms by (simp_all add: mod_eq_0_iff_dvd)
  show "x + 8 \<noteq> y + 12" "x + 12 \<noteq> y + 8" using m by presburger+
qed simp_all

definition unlinked :: "(nat \<Rightarrow> nat) \<Rightarrow> nat \<Rightarrow> nat \<Rightarrow> nat" where
  "unlinked m b =
     (let n = m (b + 12); p = m (b + 8);
          m = (if n \<noteq> 0 then m(n + 8 := p) else m);
          m = (if p \<noteq> 0 then m(p + 12 := n) else m)
      in m(b + 8 := 0, b + 12 := 0))"

lemma dseg_last: "dseg m p a xs q b \<Longrightarrow> q = (if xs = [] then p else last xs)"
  by (induction xs arbitrary: p a) (auto split: if_splits)

lemma dll_delete:
  assumes d: "dll m h (xs @ b # ys)" and dis: "distinct (xs @ b # ys)"
    and al: "\<And>x. x \<in> set (xs @ b # ys) \<Longrightarrow> 8 dvd x \<and> 0 < x"
  shows "dll (unlinked m b) (if xs = [] then m (b + 12) else h) (xs @ ys)"
proof -
  obtain q p where 1: "dseg m 0 h xs p b" and p: "m (b + 8) = p" and 2: "dseg m b (m (b + 12)) ys q 0"
    using d by (auto simp: dll_def dseg_append)
  define n where "n = m (b + 12)"
  define m' where "m' = unlinked m b"
  have pl: "p = (if xs = [] then 0 else last xs)" by (rule dseg_last [OF 1])
  have nh: "n = (case ys of [] \<Rightarrow> 0 | y # _ \<Rightarrow> y)" using 2 by (cases ys) (auto simp: n_def)
  have cell: "m' (x + 8) = (if n \<noteq> 0 \<and> x = n then p else m (x + 8))"
    "m' (x + 12) = (if p \<noteq> 0 \<and> x = p then n else m (x + 12))" if "x \<in> set (xs @ ys)" for x
  proof -
    have x: "x \<noteq> b" "8 dvd x" "8 dvd b" using that dis al by auto
    have np: "n \<noteq> 0 \<Longrightarrow> 8 dvd n" "p \<noteq> 0 \<Longrightarrow> 8 dvd p" using al nh pl by (auto split: list.splits if_splits)
    note cells_distinct [OF x(2,3)] cells_distinct [OF x(2) np(1)] cells_distinct [OF x(2) np(2)]
    then show "m' (x + 8) = (if n \<noteq> 0 \<and> x = n then p else m (x + 8))"
      "m' (x + 12) = (if p \<noteq> 0 \<and> x = p then n else m (x + 12))"
      using x by (auto simp: m'_def unlinked_def Let_def n_def p)
  qed
  have ds: "distinct xs" "distinct ys" "set xs \<inter> set ys = {}" using dis by auto
  have n_ys: "n = 0 \<or> n \<in> set ys" using nh by (cases ys) auto
  have p_xs: "p = 0 \<or> p \<in> set xs" using pl by auto
  have keep: "m' (x + 8) = m (x + 8) \<and> m' (x + 12) = m (x + 12)" if "x \<in> set (xs @ ys)" "x \<noteq> n" "x \<noteq> p" for x
    using cell [OF that(1)] that by simp
  have left: "dseg m' 0 (if xs = [] then n else h) xs p n"
  proof (cases xs rule: rev_cases)
    case Nil
    then show ?thesis using pl by simp
  next
    case (snoc zs z)
    have z: "p = z" "z \<noteq> 0" "z \<noteq> n" using pl al [of z] ds(3) n_ys by (auto simp: snoc)
    have s: "dseg m 0 h zs (m (z + 8)) z" using 1 by (auto simp: snoc dseg_append)
    have "dseg m' 0 h zs (m (z + 8)) z = dseg m 0 h zs (m (z + 8)) z"
    proof (rule dseg_frame)
      fix x assume "x \<in> set zs"
      then show "m' (x + 8) = m (x + 8) \<and> m' (x + 12) = m (x + 12)"
        using ds n_ys z al [of x] by (intro keep) (auto simp: snoc)
    qed
    then show ?thesis using s cell [of z] z by (auto simp: snoc dseg_append)
  qed
  have right: "\<exists>q. dseg m' p n ys q 0"
  proof (cases ys)
    case Nil
    then show ?thesis using nh by simp
  next
    case (Cons z zs)
    have z: "n = z" "z \<noteq> 0" "z \<noteq> p" using nh al [of z] ds(3) p_xs by (auto simp: Cons)
    have s: "dseg m z (m (z + 12)) zs q 0" using 2 by (simp add: Cons)
    have "dseg m' z (m (z + 12)) zs q 0 = dseg m z (m (z + 12)) zs q 0"
    proof (rule dseg_frame)
      fix x assume "x \<in> set zs"
      then show "m' (x + 8) = m (x + 8) \<and> m' (x + 12) = m (x + 12)"
        using ds p_xs z al [of x] by (intro keep) (auto simp: Cons)
    qed
    then show ?thesis using s cell [of z] z by (auto simp: Cons)
  qed
  obtain q where "dseg m' p n ys q 0" using right by blast
  then have "dseg m' 0 (if xs = [] then n else h) (xs @ ys) q 0" using left dseg_append by blast
  then show ?thesis unfolding dll_def m'_def n_def by blast
qed


definition pushed :: "(nat \<Rightarrow> nat) \<Rightarrow> nat \<Rightarrow> nat \<Rightarrow> nat \<Rightarrow> nat" where
  "pushed m h b = (let m = m(b + 8 := 0, b + 12 := h) in if h \<noteq> 0 then m(h + 8 := b) else m)"

lemma dll_insert:
  assumes d: "dll m h xs" and b: "b \<notin> set xs" "8 dvd b" and dis: "distinct xs"
    and al: "\<And>x. x \<in> set xs \<Longrightarrow> 8 dvd x \<and> 0 < x"
  shows "dll (pushed m h b) b (b # xs)"
proof (cases xs)
  case Nil
  then show ?thesis using d by (simp add: dll_def pushed_def Let_def)
next
  case (Cons z zs)
  then have h: "h = z" "h \<noteq> 0" "8 dvd h" using dll_head [OF d] al [of z] by auto
  obtain q where q: "dseg m z (m (z + 12)) zs q 0" using d Cons by (auto simp: dll_def)
  have c: "pushed m h b (x + 8) = (if x = b then 0 else if x = h then b else m (x + 8))"
    "pushed m h b (x + 12) = (if x = b then h else m (x + 12))" if "8 dvd x" for x
    using cells_distinct [OF that b(2)] cells_distinct [OF that h(3)] h b Cons by (auto simp: pushed_def Let_def)
  have "dseg (pushed m h b) z (m (z + 12)) zs q 0 = dseg m z (m (z + 12)) zs q 0"
    by (rule dseg_frame) (use c al dis b h Cons in auto)
  then have "dseg (pushed m h b) 0 b (b # z # zs) q 0"
    using q c [OF b(2)] c [OF h(3)] h b Cons by auto
  then show ?thesis unfolding dll_def Cons by blast
qed

section \<open>The free lists\<close>

definition fl_ok :: "kstate \<Rightarrow> ptr \<Rightarrow> (nat \<Rightarrow> nat list) \<Rightarrow> bool" where
  "fl_ok s H FL \<longleftrightarrow>
     (\<forall>l. dll (mem (umem s)) (unat (freelist (mm_heads s H) l)) (FL l))
     \<and> (\<forall>l. distinct (FL l)) \<and> (\<forall>l l'. l \<noteq> l' \<longrightarrow> set (FL l) \<inter> set (FL l') = {})
     \<and> (\<forall>l. \<forall>x \<in> set (FL l). 0 < x \<and> 8 dvd x \<and> x + 16 \<le> 2 ^ 32)
     \<and> (\<forall>l. bit (free_bitmap (mm_heads s H)) l \<longleftrightarrow> FL l \<noteq> [])"

lemma fl_okD:
  assumes "fl_ok s H FL"
  shows "dll (mem (umem s)) (unat (freelist (mm_heads s H) l)) (FL l)" "distinct (FL l)"
    "l \<noteq> l' \<Longrightarrow> set (FL l) \<inter> set (FL l') = {}"
    "x \<in> set (FL l) \<Longrightarrow> 0 < x \<and> 8 dvd x \<and> x + 16 \<le> 2 ^ 32"
    "bit (free_bitmap (mm_heads s H)) l \<longleftrightarrow> FL l \<noteq> []"
  using assms by (simp_all add: fl_ok_def)

definition link_cell :: "(nat \<Rightarrow> nat list) \<Rightarrow> nat \<Rightarrow> bool" where
  "link_cell FL a \<longleftrightarrow> (\<exists>l. \<exists>x \<in> set (FL l). a = x + 8 \<or> a = x + 12)"

text \<open>Writing anywhere else, and to the other fields of the head, does no harm.\<close>

lemma fl_ok_frame:
  assumes "fl_ok s H FL" and "\<And>a. link_cell FL a \<Longrightarrow> mem (umem s') a = mem (umem s) a"
    and "freelist (mm_heads s' H) = freelist (mm_heads s H)" "free_bitmap (mm_heads s' H) = free_bitmap (mm_heads s H)"
  shows "fl_ok s' H FL"
proof -
  have "dll (mem (umem s')) h (FL l) = dll (mem (umem s)) h (FL l)" for h l
    by (rule dll_frame) (use assms(2) in \<open>auto simp: link_cell_def\<close>)
  then show ?thesis using assms(1,3,4) by (simp add: fl_ok_def)
qed

lemma word_cells:
  assumes "x + 16 \<le> 2 ^ 32" "y + 16 \<le> 2 ^ 32" "8 dvd x" "8 dvd y"
  shows "w32 x + 8 \<noteq> w32 y + 12" "w32 x + 12 \<noteq> w32 y + 8" "w32 x + 8 = w32 y + 8 \<longleftrightarrow> x = y"
    "w32 x + 12 = w32 y + 12 \<longleftrightarrow> x = y" "w32 x = w32 y \<longleftrightarrow> x = y"
  using w32_inject [of "x + 8" "y + 12"] w32_inject [of "x + 12" "y + 8"] w32_inject [of x y]
    cells_distinct [OF assms(3,4)] assms(1,2) by simp_all

lemmas mem_upd_cells0 = mem_upd_cells [where v = 0, simplified]

lemma mem_read_le:
  assumes "x + 16 \<le> 2 ^ 32"
  shows "M (w32 x + 8) = w32 (mem M (x + 8))" "M (w32 x + 12) = w32 (mem M (x + 12))"
  using mem_read_cells(3,4) [of x M] assms by simp_all

lemma freelist_delete_run:
  assumes fl: "fl_ok s H FL" and l: "FL l = xs @ b # ys" "l < 15"
    and lev: "size_to_level (MM_GET_BUF_SIZE s (w32 b)) = int l"
  shows "\<exists>M f bm. k_mm_freelist_delete s H (w32 b) =
      s\<lparr>umem := M, mm_heads := (mm_heads s)(H := (mm_heads s H)\<lparr>freelist := f, free_bitmap := bm\<rparr>)\<rparr>
    \<and> mem M = unlinked (mem (umem s)) b
    \<and> f = (freelist (mm_heads s H))(l := if xs = [] then w32 (mem (umem s) (b + 12)) else freelist (mm_heads s H) l)
    \<and> (\<forall>i. bit bm i = (if i = l then xs @ ys \<noteq> [] else bit (free_bitmap (mm_heads s H)) i))"
proof -
  note F = fl_okD [OF fl]
  let ?m = "mem (umem s)"
  define n where "n = ?m (b + 12)"
  define p where "p = ?m (b + 8)"
  have bb: "0 < b" "8 dvd b" "b + 16 \<le> 2 ^ 32" using F(4) [of b l] l by auto
  obtain q where d1: "dseg ?m 0 (unat (freelist (mm_heads s H) l)) xs p b" and d2: "dseg ?m b n ys q 0"
    using F(1) [of l] unfolding l(1) dll_def dseg_append by (auto simp: n_def p_def)
  have pl: "p = (if xs = [] then 0 else last xs)" by (rule dseg_last [OF d1])
  have nh: "n = (case ys of [] \<Rightarrow> 0 | y # _ \<Rightarrow> y)" using d2 by (cases ys) auto
  have n: "n = 0 \<longleftrightarrow> ys = []" "n \<noteq> 0 \<Longrightarrow> 8 dvd n \<and> n + 16 \<le> 2 ^ 32 \<and> n \<noteq> b"
    using nh F(4) [of _ l] F(2) [of l] unfolding l(1) by (cases ys; fastforce)+
  have p: "p = 0 \<longleftrightarrow> xs = []" "p \<noteq> 0 \<Longrightarrow> 8 dvd p \<and> p + 16 \<le> 2 ^ 32 \<and> p \<noteq> b"
    using pl F(4) [of _ l] F(2) [of l] unfolding l(1) by (cases xs rule: rev_cases; fastforce)+
  have h: "freelist (mm_heads s H) l = w32 b \<longleftrightarrow> xs = []"
  proof (cases xs)
    case Nil
    then have "unat (freelist (mm_heads s H) l) = b" using d1 by simp
    then show ?thesis using Nil by (metis w32_unat)
  next
    case (Cons x xs')
    then have "unat (freelist (mm_heads s H) l) = x" using d1 by simp
    moreover have "x \<noteq> b" "x < 2 ^ 32" using F(2) [of l] F(4) [of x l] l(1) Cons by auto
    ultimately show ?thesis using Cons unat_word_of_nat32 [of b] bb by auto
  qed
  have nl: "n < 2 ^ 32" "p < 2 ^ 32" using mem_less by (simp_all add: n_def p_def)
  have r: "umem s (w32 b + 12) = w32 n" "umem s (w32 b + 8) = w32 p"
    using mem_read_le [OF bb(3), of "umem s"] by (simp_all add: n_def p_def)
  have z: "w32 n = 0 \<longleftrightarrow> n = 0" "w32 p = 0 \<longleftrightarrow> p = 0" using w32_0 nl by simp_all
  define M where "M = ((let u = (if n \<noteq> 0 then (umem s)(w32 n + 8 := w32 p) else umem s);
      u = (if p \<noteq> 0 then u(w32 p + 12 := w32 n) else u) in u)(w32 b + 8 := 0))(w32 b + 12 := 0)"
  have mM: "mem M = unlinked ?m b"
    using n(2) p(2) nl bb unfolding M_def Let_def
    by (cases "n = 0"; cases "p = 0")
      (simp_all add: mem_upd_cells mem_upd_cells0 unlinked_def Let_def n_def [symmetric] p_def [symmetric])
  define f where "f = (freelist (mm_heads s H))(l := if xs = [] then w32 n else freelist (mm_heads s H) l)"
  define bm where "bm = (if xs @ ys = [] then free_bitmap (mm_heads s H) AND NOT (push_bit l 1) else free_bitmap (mm_heads s H))"
  have bits: "bit bm i = (if i = l then xs @ ys \<noteq> [] else bit (free_bitmap (mm_heads s H)) i)" for i
    using F(5) [of i] l bit_imp_le_length [of "free_bitmap (mm_heads s H)" i]
    by (auto simp: bm_def bit_simps)
  have c: "n \<noteq> 0 \<Longrightarrow> w32 b + 12 \<noteq> w32 n + 8 \<and> w32 b + 8 \<noteq> w32 n + 8"
    "p \<noteq> 0 \<Longrightarrow> w32 b + 12 \<noteq> w32 p + 12 \<and> w32 b + 8 \<noteq> w32 p + 12"
    using word_cells [of b n] word_cells [of b p] bb n(2) p(2) by auto
  have fl: "(freelist (mm_heads s H))(l := freelist (mm_heads s H) l) = freelist (mm_heads s H)" by simp
  have "k_mm_freelist_delete s H (w32 b) =
      s\<lparr>umem := M, mm_heads := (mm_heads s)(H := (mm_heads s H)\<lparr>freelist := f, free_bitmap := bm\<rparr>)\<rparr>"
  proof -
    define u1 where "u1 = (if n \<noteq> 0 then (umem s)(w32 n + 8 := w32 p) else umem s)"
    define u2 where "u2 = (if p \<noteq> 0 then u1(w32 p + 12 := w32 n) else u1)"
    have r1: "u1 (w32 b + 12) = w32 n" "u1 (w32 b + 8) = w32 p" "u2 (w32 b + 12) = w32 n"
      using c r by (auto simp: u1_def u2_def)
    have 1: "(if free_next s (w32 b) \<noteq> NULL then set_free_prev (free_next s (w32 b)) (free_prev s (w32 b)) s else s)
      = s\<lparr>umem := u1\<rparr>" using r z by (simp add: u1_def)
    have 2: "(if free_prev (s\<lparr>umem := u1\<rparr>) (w32 b) \<noteq> NULL
        then set_free_next (free_prev (s\<lparr>umem := u1\<rparr>) (w32 b)) (free_next (s\<lparr>umem := u1\<rparr>) (w32 b)) (s\<lparr>umem := u1\<rparr>)
        else s\<lparr>umem := u1\<rparr>) = s\<lparr>umem := u2\<rparr>" using r1 z by (simp add: u2_def)
    have M2: "M = u2(w32 b + 8 := 0, w32 b + 12 := 0)" by (simp add: M_def u2_def u1_def)
    have lv: "\<not> (int l < 0 \<or> int l \<ge> MM_BIT_LEVEL)" using l(2) by (simp add: MM_BIT_LEVEL_def MM_MAX_BIT_def MM_MIN_BIT_def)
    have f0: "xs \<noteq> [] \<Longrightarrow> f = freelist (mm_heads s H)" "xs = [] \<Longrightarrow> f = (freelist (mm_heads s H))(l := w32 n)"
      by (simp_all add: f_def)
    note run = k_mm_freelist_delete_def lev Let_def if_not_P [OF lv] nat_int 1 2
    show ?thesis
    proof (cases "xs = []")
      case True
      then have fb: "f = (freelist (mm_heads s H))(l := w32 n)"
        "bm = (if n = 0 then free_bitmap (mm_heads s H) AND NOT (push_bit l 1) else free_bitmap (mm_heads s H))"
        using n(1) by (simp_all add: bm_def f_def)
      then show ?thesis unfolding run using True h r1(3) z(1) by (cases "n = 0") (intro kstate.equality; simp add: M2)+
    next
      case False
      then have "bm = free_bitmap (mm_heads s H)" "f = freelist (mm_heads s H)" by (simp_all add: bm_def f_def)
      then show ?thesis unfolding run using False h by (intro kstate.equality; simp add: M2)
    qed
  qed
  then show ?thesis using mM bits unfolding f_def n_def by blast
qed


lemma unlinked_frame:
  assumes "a \<noteq> b + 8" "a \<noteq> b + 12" "m (b + 12) \<noteq> 0 \<Longrightarrow> a \<noteq> m (b + 12) + 8" "m (b + 8) \<noteq> 0 \<Longrightarrow> a \<noteq> m (b + 8) + 12"
  shows "unlinked m b a = m a"
  using assms by (auto simp: unlinked_def Let_def)

text \<open>A list operation touches links only, and nothing but the memory and the head.\<close>

definition fl_step :: "kstate \<Rightarrow> ptr \<Rightarrow> (nat \<Rightarrow> nat list) \<Rightarrow> kstate \<Rightarrow> bool" where
  "fl_step s H FL s' \<longleftrightarrow>
     (\<exists>M f bm. s' = s\<lparr>umem := M, mm_heads := (mm_heads s)(H := (mm_heads s H)\<lparr>freelist := f, free_bitmap := bm\<rparr>)\<rparr>)
     \<and> (\<forall>a. \<not> link_cell FL a \<longrightarrow> mem (umem s') a = mem (umem s) a)"

lemma freelist_delete_ok:
  assumes fl: "fl_ok s H FL" and b: "b \<in> set (FL l)" "l < 15"
    and lev: "size_to_level (MM_GET_BUF_SIZE s (w32 b)) = int l"
  defines "s' \<equiv> k_mm_freelist_delete s H (w32 b)"
  shows "fl_ok s' H (FL(l := remove1 b (FL l)))" and "fl_step s H FL s'"
proof -
  note F = fl_okD [OF fl]
  obtain xs ys where l: "FL l = xs @ b # ys" using split_list [OF b(1)] by blast
  have d: "b \<notin> set xs" "b \<notin> set ys" using F(2) [of l] l by auto
  have r: "remove1 b (FL l) = xs @ ys" using d by (simp add: l remove1_append)
  let ?m = "mem (umem s)"
  obtain M f bm where s': "s' = s\<lparr>umem := M, mm_heads := (mm_heads s)(H := (mm_heads s H)\<lparr>freelist := f, free_bitmap := bm\<rparr>)\<rparr>"
    and M: "mem M = unlinked ?m b"
    and f: "f = (freelist (mm_heads s H))(l := if xs = [] then w32 (?m (b + 12)) else freelist (mm_heads s H) l)"
    and bm: "\<forall>i. bit bm i = (if i = l then xs @ ys \<noteq> [] else bit (free_bitmap (mm_heads s H)) i)"
    using freelist_delete_run [OF fl l b(2) lev] unfolding s'_def by blast
  have al: "x \<in> set (FL l) \<Longrightarrow> 8 dvd x \<and> 0 < x" for x using F(4) by blast
  have dl: "dll (unlinked ?m b) (if xs = [] then ?m (b + 12) else unat (freelist (mm_heads s H) l)) (xs @ ys)"
    using dll_delete F(1) [of l] F(2) [of l] al unfolding l by blast
  obtain q where d1: "dseg ?m 0 (unat (freelist (mm_heads s H) l)) xs (?m (b + 8)) b" and d2: "dseg ?m b (?m (b + 12)) ys q 0"
    using F(1) [of l] unfolding l dll_def dseg_append by auto
  have p: "?m (b + 8) \<noteq> 0 \<Longrightarrow> ?m (b + 8) \<in> set (FL l)" using dseg_last [OF d1] l by (auto split: if_splits)
  have n: "?m (b + 12) \<noteq> 0 \<Longrightarrow> ?m (b + 12) \<in> set (FL l)" using d2 l by (cases ys) auto
  have keep: "unlinked ?m b a = ?m a" if "\<And>x. x \<in> set (FL l) \<Longrightarrow> a \<noteq> x + 8 \<and> a \<noteq> x + 12" for a
    using that p n b(1) by (intro unlinked_frame) auto
  have other: "dll (unlinked ?m b) h (FL k) = dll ?m h (FL k)" if "k \<noteq> l" for k h
  proof (rule dll_frame)
    fix x assume x: "x \<in> set (FL k)"
    have "x + 8 \<noteq> y + 8 \<and> x + 8 \<noteq> y + 12 \<and> x + 12 \<noteq> y + 8 \<and> x + 12 \<noteq> y + 12" if "y \<in> set (FL l)" for y
    proof -
      have "x \<noteq> y" using F(3) [of k l] \<open>k \<noteq> l\<close> x that by blast
      then show ?thesis using cells_distinct [of x y] F(4) x that by blast
    qed
    then show "unlinked ?m b (x + 8) = ?m (x + 8) \<and> unlinked ?m b (x + 12) = ?m (x + 12)"
      using keep by metis
  qed
  have "dll (unlinked ?m b) (unat (f k)) ((FL(l := xs @ ys)) k)" for k
  proof (cases "k = l")
    case True
    have "unat (w32 (?m (b + 12))) = ?m (b + 12)" by (rule unat_word_of_nat32 [OF mem_less])
    then show ?thesis using dl True by (cases "xs = []") (simp_all add: f)
  next
    case False
    then show ?thesis using other F(1) [of k] by (simp add: f)
  qed
  moreover have sub: "set ((FL(l := xs @ ys)) k) \<subseteq> set (FL k)" "distinct ((FL(l := xs @ ys)) k)" for k
    using l F(2) [of l] F(2) [of k] by auto
  moreover have "set ((FL(l := xs @ ys)) k) \<inter> set ((FL(l := xs @ ys)) k') = {}" if "k \<noteq> k'" for k k'
    using sub(1) [of k] sub(1) [of k'] F(3) [OF that] by blast
  moreover have "0 < x \<and> 8 dvd x \<and> x + 16 \<le> 2 ^ 32" if "x \<in> set ((FL(l := xs @ ys)) k)" for x k
    using sub(1) [of k] F(4) [of x k] that by blast
  moreover have "bit bm k \<longleftrightarrow> (FL(l := xs @ ys)) k \<noteq> []" for k using F(5) [of k] bm by simp
  ultimately show "fl_ok s' H (FL(l := remove1 b (FL l)))"
    unfolding fl_ok_def r s' M [symmetric] by simp
  show "fl_step s H FL s'"
    unfolding fl_step_def s' using keep M b(1) by (auto simp: link_cell_def)
qed

lemma freelist_insert_ok:
  assumes fl: "fl_ok s H FL" and b: "\<And>k. b \<notin> set (FL k)" "0 < b" "8 dvd b" "b + 16 \<le> 2 ^ 32" "l < 15"
    and lev: "size_to_level (MM_GET_BUF_SIZE s (w32 b)) = int l"
  defines "s' \<equiv> k_mm_freelist_insert s H (w32 b)"
  shows "fl_ok s' H (FL(l := b # FL l))" and "fl_step s H (FL(l := b # FL l)) s'"
proof -
  note F = fl_okD [OF fl]
  let ?m = "mem (umem s)"
  define h where "h = unat (freelist (mm_heads s H) l)"
  have wh: "freelist (mm_heads s H) l = w32 h" "h < 2 ^ 32"
    using unsigned_less [where 'a = nat, of "freelist (mm_heads s H) l"] by (simp_all add: h_def)
  have hh: "h \<noteq> 0 \<Longrightarrow> h \<in> set (FL l)"
    using dll_head [OF F(1) [of l]] by (simp add: h_def split: list.splits)
  have h8: "h \<noteq> 0 \<Longrightarrow> 8 dvd h \<and> h + 16 \<le> 2 ^ 32 \<and> h \<noteq> b" using hh F(4) [of h l] b(1) [of l] by auto
  define M where "M = (let u = (umem s)(w32 b + 8 := 0, w32 b + 12 := w32 h)
      in if h \<noteq> 0 then u(w32 h + 8 := w32 b) else u)"
  have mM: "mem M = pushed ?m h b"
    using b(4) wh(2) h8 unfolding M_def Let_def
    by (cases "h = 0") (simp_all add: mem_upd_cells mem_upd_cells0 pushed_def Let_def)
  define f where "f = (freelist (mm_heads s H))(l := w32 b)"
  define bm where "bm = free_bitmap (mm_heads s H) OR push_bit l 1"
  have bits: "bit bm i = (if i = l then True else bit (free_bitmap (mm_heads s H)) i)" for i
    using b(5) by (auto simp: bm_def bit_simps)
  have lv: "\<not> (int l < 0 \<or> int l \<ge> MM_BIT_LEVEL)" using b(5) by (simp add: MM_BIT_LEVEL_def MM_MAX_BIT_def MM_MIN_BIT_def)
  have s': "s' = s\<lparr>umem := M, mm_heads := (mm_heads s)(H := (mm_heads s H)\<lparr>freelist := f, free_bitmap := bm\<rparr>)\<rparr>"
    unfolding s'_def k_mm_freelist_insert_def Let_def lev if_not_P [OF lv] nat_int
    using w32_0 [OF wh(2)] wh(1) by (cases "h = 0") (intro kstate.equality; simp add: M_def f_def bm_def)+
  have al: "x \<in> set (FL l) \<Longrightarrow> 8 dvd x \<and> 0 < x" for x using F(4) by blast
  have ins: "dll (pushed ?m h b) b (b # FL l)"
    using F(1) [of l] b(1) [of l] b(3) F(2) [of l] al unfolding h_def by (intro dll_insert) auto
  have keep: "pushed ?m h b a = ?m a" if "\<And>x. x \<in> set (b # FL l) \<Longrightarrow> a \<noteq> x + 8 \<and> a \<noteq> x + 12" for a
    using that [of b] that [of h] hh by (auto simp: pushed_def Let_def)
  have other: "dll (pushed ?m h b) h' (FL k) = dll ?m h' (FL k)" if "k \<noteq> l" for k h'
  proof (rule dll_frame)
    fix x assume x: "x \<in> set (FL k)"
    have "x + 8 \<noteq> y + 8 \<and> x + 8 \<noteq> y + 12 \<and> x + 12 \<noteq> y + 8 \<and> x + 12 \<noteq> y + 12" if y: "y \<in> set (b # FL l)" for y
    proof -
      have "x \<noteq> y" using F(3) [of k l] \<open>k \<noteq> l\<close> x y b(1) [of k] by auto
      moreover have "8 dvd y" using y b(3) al by auto
      ultimately show ?thesis using cells_distinct [of x y] F(4) [OF x] by blast
    qed
    then show "pushed ?m h b (x + 8) = ?m (x + 8) \<and> pushed ?m h b (x + 12) = ?m (x + 12)"
      using keep by metis
  qed
  have "dll (pushed ?m h b) (unat (f k)) ((FL(l := b # FL l)) k)" for k
    using ins other F(1) [of k] unat_word_of_nat32 [of b] b(4) by (cases "k = l") (simp_all add: f_def)
  moreover have "set (b # FL l) \<inter> set (FL k) = {}" if "k \<noteq> l" for k using F(3) [of k l] b(1) [of k] that by auto
  ultimately show "fl_ok s' H (FL(l := b # FL l))"
    using F(2-5) b bits unfolding fl_ok_def s' by (simp add: mM)
  show "fl_step s H (FL(l := b # FL l)) s'"
    unfolding fl_step_def s' using keep mM by (auto simp: link_cell_def)
qed

text \<open>A block that is too large for every level is left out.\<close>

lemma freelist_insert_large:
  assumes "size_to_level (MM_GET_BUF_SIZE s b) = - 1"
  shows "k_mm_freelist_insert s H b = s"
  using assms by (simp add: k_mm_freelist_insert_def)

end
