(* ===== verification/Mm_Heap.thy ===== *)
theory Mm_Heap
  imports Mm_Free
begin

text \<open>
  The invariant of the heap: the headers describe a sequence of tiles, and the free lists hold exactly
  the free tiles, by level. The proofs about the operations work with a heap in which one block is open:
  it is on no free list, and its header and the flag of the tile behind it may be about to change.
\<close>

section \<open>Invariant\<close>

definition free_tiles :: "nat \<Rightarrow> tile list \<Rightarrow> (nat \<Rightarrow> nat list) \<Rightarrow> bool" where
  "free_tiles a ts FL \<longleftrightarrow> (\<forall>l x. x \<in> set (FL l) \<longleftrightarrow> (\<exists>n. (x, Free n) \<in> set (loc a ts) \<and> lev n = l))"

definition layout :: "nat \<Rightarrow> tile list \<Rightarrow> bool" where
  "layout a ts \<longleftrightarrow> 0 < a \<and> 8 dvd a \<and> a + total ts \<le> 2 ^ 32 \<and> ts \<noteq> [] \<and> is_fence (last ts) \<and> spans 0 ts
     \<and> (\<forall>t \<in> set ts. tile_ok t)"

definition heap :: "kstate \<Rightarrow> ptr \<Rightarrow> nat \<Rightarrow> tile list \<Rightarrow> (nat \<Rightarrow> nat list) \<Rightarrow> bool" where
  "heap s H a ts FL \<longleftrightarrow> layout a ts \<and> tiles (mem (umem s)) 0 False a ts \<and> fl_ok s H FL \<and> free_tiles a ts FL"

text \<open>The block between \<open>xs\<close> and \<open>ys\<close> is open; in a gap its own header is of no account.\<close>

definition gap :: "kstate \<Rightarrow> ptr \<Rightarrow> nat \<Rightarrow> tile list \<Rightarrow> nat \<Rightarrow> tile list \<Rightarrow> bool \<Rightarrow> (nat \<Rightarrow> nat list) \<Rightarrow> bool" where
  "gap s H a xs n ys pfy FL \<longleftrightarrow>
     layout a (xs @ Used n # ys) \<and> ys \<noteq> [] \<and> tiles (mem (umem s)) 0 False a xs
     \<and> (last_free False xs \<longrightarrow> mem (umem s) (a + total xs) = last_at 0 a xs)
     \<and> (\<exists>q. tiles (mem (umem s)) q pfy (a + total xs + (n + 8)) ys)
     \<and> fl_ok s H FL \<and> free_tiles a (xs @ Used n # ys) FL"

definition open_heap :: "kstate \<Rightarrow> ptr \<Rightarrow> nat \<Rightarrow> tile list \<Rightarrow> nat \<Rightarrow> bool \<Rightarrow> tile list \<Rightarrow> bool \<Rightarrow> (nat \<Rightarrow> nat list) \<Rightarrow> bool" where
  "open_heap s H a xs n fr ys pfy FL \<longleftrightarrow>
     gap s H a xs n ys pfy FL \<and> mem (umem s) (a + total xs + 4) = hdr n fr (last_free False xs)"

lemma layout_append:
  assumes "layout a (xs @ t # ys)"
  shows "0 < a" "8 dvd a" "a + total xs + len t + total ys \<le> 2 ^ 32" "tile_ok t"
    "\<And>u. u \<in> set xs \<union> set ys \<Longrightarrow> tile_ok u" "8 dvd a + total xs" "8 dvd total xs"
proof -
  show 1: "0 < a" "8 dvd a" "a + total xs + len t + total ys \<le> 2 ^ 32" "tile_ok t"
    and ok: "\<And>u. u \<in> set xs \<union> set ys \<Longrightarrow> tile_ok u"
    using assms by (auto simp: layout_def)
  have "8 dvd total us" if "\<And>u. u \<in> set us \<Longrightarrow> tile_ok u" for us
    using that by (induction us) (simp_all add: tile_ok_dvd)
  then show "8 dvd total xs" using ok by blast
  then show "8 dvd a + total xs" using 1 by simp
qed

lemma layout_end:
  assumes "layout a (xs @ t # ys)" and "\<not> is_fence t"
  obtains u us where "ys = u # us"
  using assms by (cases ys) (auto simp: layout_def)

lemma heap_open:
  assumes h: "heap s H a (xs @ Used n # ys) FL"
  shows "open_heap s H a xs n False ys False FL"
proof -
  have l: "layout a (xs @ Used n # ys)" using h by (simp add: heap_def)
  obtain u us where "ys = u # us" using layout_end [OF l] by auto
  then show ?thesis using h by (auto simp: heap_def open_heap_def gap_def tiles_append add.assoc)
qed

lemma open_close:
  assumes "open_heap s H a xs n False ys False FL"
  shows "heap s H a (xs @ Used n # ys) FL"
proof -
  obtain q where "tiles (mem (umem s)) q False (a + total xs + (n + 8)) ys" using assms by (auto simp: open_heap_def gap_def)
  then have i: "tiles (mem (umem s)) (a + total xs) False (a + total xs + (n + 8)) ys" by (cases ys) simp_all
  have "layout a (xs @ Used n # ys)" using assms by (simp add: open_heap_def gap_def)
  from layout_append(4) [OF this] have l: "8 dvd n" "8 \<le> n" by simp_all
  show ?thesis using assms l i by (auto simp: heap_def open_heap_def gap_def tiles_append add.assoc)
qed

section \<open>What the words say\<close>

lemma hdr_le: "hdr n fr pf \<le> n + 3"
  by (simp add: hdr_def)

lemma hdr_words:
  assumes m: "mem (umem s) (b + 4) = hdr n fr pf" and b: "b + 8 \<le> 2 ^ 32" "8 dvd n"
  shows "umem s (w32 b + 4) = w32 (hdr n fr pf)" "hdr n fr pf < 2 ^ 32" "MM_GET_BUF_SIZE s (w32 b) = w32 n"
    "MM_GET_BLK_SIZE s (w32 b) = w32 (n + 8)" "MM_GET_NEXT_BLK s (w32 b) = w32 (b + (n + 8))"
    "umem s (w32 b + 4) AND RHINO_MM_FREE \<noteq> 0 \<longleftrightarrow> fr" "umem s (w32 b + 4) AND RHINO_MM_PREVFREE \<noteq> 0 \<longleftrightarrow> pf"
proof -
  show u: "umem s (w32 b + 4) = w32 (hdr n fr pf)" using mem_read_cells(2) [of b "umem s"] b m by simp
  show h: "hdr n fr pf < 2 ^ 32" using mem_less [of "umem s" "b + 4"] m by simp
  show "MM_GET_BUF_SIZE s (w32 b) = w32 n" unfolding MM_GET_BUF_SIZE_def u by (rule hdr_size [OF b(2) h])
  then show "MM_GET_BLK_SIZE s (w32 b) = w32 (n + 8)" "MM_GET_NEXT_BLK s (w32 b) = w32 (b + (n + 8))"
    by (simp_all add: MM_GET_BLK_SIZE_def MM_GET_NEXT_BLK_def MMLIST_HEAD_SIZE_def buffer_def)
  show "umem s (w32 b + 4) AND RHINO_MM_FREE \<noteq> 0 \<longleftrightarrow> fr" "umem s (w32 b + 4) AND RHINO_MM_PREVFREE \<noteq> 0 \<longleftrightarrow> pf"
    unfolding u by (rule hdr_and_flags [OF b(2) h])+
qed

section \<open>Links and headers are different cells\<close>

lemma free_tilesD:
  assumes "free_tiles a ts FL" and "link_cell FL c"
  obtains x n where "(x, Free n) \<in> set (loc a ts)" "c = x + 8 \<or> c = x + 12"
  using assms by (auto simp: free_tiles_def link_cell_def)

lemma link_not_header:
  assumes f: "free_tiles a ts FL" and l: "layout a ts" and c: "link_cell FL c" and b: "(b, t) \<in> set (loc a ts)"
  shows "c \<noteq> b" "c \<noteq> b + 4" "\<not> is_free t \<Longrightarrow> b \<le> c \<Longrightarrow> c < b + len t \<Longrightarrow> False"
proof -
  obtain x n where x: "(x, Free n) \<in> set (loc a ts)" "c = x + 8 \<or> c = x + 12"
    by (rule free_tilesD [OF f c])
  have "tile_ok (Free n)" using x(1) l by (auto simp: loc_split layout_def)
  then have n: "32 \<le> n" by simp
  have 1: "x = b \<or> b + len t \<le> x \<or> x + n + 8 \<le> b"
    using loc_disjoint [OF b x(1)] loc_disjoint [OF x(1) b] by fastforce
  then show "c \<noteq> b" "c \<noteq> b + 4" using x(2) n len_ge [of t] by auto
  show False if "\<not> is_free t" "b \<le> c" "c < b + len t"
  proof -
    have "x \<noteq> b" using loc_unique [OF b, of "Free n"] x(1) that(1) by auto
    then show False using 1 x(2) n that(2,3) by auto
  qed
qed

lemma fl_step_tiles:
  assumes st: "fl_step s H FL s'" and f: "free_tiles a ts FL" and l: "layout a ts" and b: "(b, t) \<in> set (loc a ts)"
  shows "mem (umem s') b = mem (umem s) b \<and> mem (umem s') (b + 4) = mem (umem s) (b + 4)"
  using st link_not_header [OF f l _ b] unfolding fl_step_def by blast

text \<open>Free tiles fit a level.\<close>

lemma layout_free_level:
  assumes "layout a ts" and "(x, Free n) \<in> set (loc a ts)"
  shows "8 dvd n" "32 \<le> n" "n < 2 ^ 19" "size_to_level (w32 n) = int (lev n)" "lev n < 15" "x + 8 + n \<le> 2 ^ 32" "8 dvd x" "0 < x"
proof -
  have m: "Free n \<in> set ts" using assms(2) by (auto simp: loc_split)
  then show n: "8 dvd n" "32 \<le> n" using assms(1) by (auto simp: layout_def)
  have "spans 0 ts" using assms(1) by (simp add: layout_def)
  from spans_bsize [OF this m] show n19: "n < 2 ^ 19" by simp
  show "size_to_level (w32 n) = int (lev n)" "lev n < 15" using level_small [of n] n n19 by auto
  show "x + 8 + n \<le> 2 ^ 32" using loc_bounds [OF assms(2)] assms(1) by (simp add: layout_def)
  obtain xs ys where e: "ts = xs @ Free n # ys" "x = a + total xs" using assms(2) by (auto simp: loc_split)
  show "8 dvd x" "0 < x" using layout_append [of a xs "Free n" ys] assms(1) e by auto
qed


section \<open>Changing the headers around the open block\<close>

lemma gapD:
  assumes "gap s H a xs n ys pfy FL"
  shows "layout a (xs @ Used n # ys)" "ys \<noteq> []" "tiles (mem (umem s)) 0 False a xs"
    "last_free False xs \<Longrightarrow> mem (umem s) (a + total xs) = last_at 0 a xs"
    "\<exists>q. tiles (mem (umem s)) q pfy (a + total xs + (n + 8)) ys"
    "fl_ok s H FL" "free_tiles a (xs @ Used n # ys) FL" "8 dvd n" "8 \<le> n" "a + total xs + (n + 8) + total ys \<le> 2 ^ 32"
    "0 < a" "8 dvd a + total xs"
  using assms layout_append [of a xs "Used n" ys] by (simp_all add: gap_def)

lemma open_heapD:
  assumes "open_heap s H a xs n fr ys pfy FL"
  shows "gap s H a xs n ys pfy FL" "mem (umem s) (a + total xs + 4) = hdr n fr (last_free False xs)"
  using assms by (simp_all add: open_heap_def)

text \<open>The cells of the open block and of the tile behind it that are no links.\<close>

lemma open_link:
  assumes o: "gap s H a xs n ys pfy FL" and c: "link_cell FL c"
  shows "c < a + total xs \<or> a + total xs + (n + 8) + 8 \<le> c"
proof -
  note O = gapD [OF o]
  let ?ts = "xs @ Used n # ys"
  obtain u us where ys: "ys = u # us" using O(2) by (cases ys) auto
  have b: "(a + total xs, Used n) \<in> set (loc a ?ts)" "(a + total xs + (n + 8), u) \<in> set (loc a ?ts)"
    by (simp_all add: loc_append ys)
  note L = link_not_header [OF O(7,1) c]
  obtain x k where x: "(x, Free k) \<in> set (loc a ?ts)" "c = x + 8 \<or> c = x + 12" by (rule free_tilesD [OF O(7) c])
  have k: "32 \<le> k" using layout_free_level(2) [OF O(1) x(1)] .
  have nx: "x \<noteq> a + total xs" using loc_unique [OF b(1)] x(1) by auto
  have "x < a + total xs \<or> a + total xs + (n + 8) \<le> x" using loc_disjoint [OF b(1) x(1)] nx by fastforce
  moreover have "c < a + total xs" if "x < a + total xs" using loc_disjoint [OF x(1) b(1) that] x(2) k by auto
  ultimately show ?thesis using x(2) by auto
qed

lemma open_update:
  assumes o: "gap s H a xs n ys pfy FL"
  assumes "freelist (mm_heads s' H) = freelist (mm_heads s H)" "free_bitmap (mm_heads s' H) = free_bitmap (mm_heads s H)"
    and b: "b = a + total xs" and nb: "nb = b + (n + 8)"
    and lo: "\<And>c. c < b \<Longrightarrow> mem (umem s') c = mem (umem s) c"
    and hi: "\<And>c. nb + 8 \<le> c \<Longrightarrow> mem (umem s') c = mem (umem s) c"
    and hdr: "mem (umem s') (b + 4) = hdr n fr' (last_free False xs)"
    and prev: "mem (umem s') b = mem (umem s) b"
    and nxt: "mem (umem s') (nb + 4) = hdr (bsize (hd ys)) (is_free (hd ys)) pfy'" "pfy' \<Longrightarrow> \<not> is_free (hd ys)"
  shows "open_heap s' H a xs n fr' ys pfy' FL"
proof -
  note O = gapD [OF o, folded b, folded nb]
  obtain u us where ys: "ys = u # us" using O(2) by (cases ys) auto
  let ?m = "mem (umem s)" and ?m' = "mem (umem s')"
  have "tiles ?m' 0 False a xs = tiles ?m 0 False a xs"
  proof (rule tiles_frame)
    fix c t assume "(c, t) \<in> set (loc a xs)"
    then have "c + 8 \<le> b" using loc_bounds [of c t a xs] len_ge [of t] unfolding b by linarith
    then show "?m' c = ?m c \<and> ?m' (c + 4) = ?m (c + 4)" using lo [of c] lo [of "c + 4"] by simp
  qed
  then have xs: "tiles ?m' 0 False a xs" using O(3) by simp
  obtain q where q: "tiles ?m q pfy nb (u # us)" using O(5) ys by auto
  have "tiles ?m' nb (is_free u) (nb + len u) us = tiles ?m nb (is_free u) (nb + len u) us"
  proof (rule tiles_frame)
    fix c t assume "(c, t) \<in> set (loc (nb + len u) us)"
    then have "nb + 8 \<le> c" using loc_bounds [of c t "nb + len u" us] len_ge [of u] by linarith
    then show "?m' c = ?m c \<and> ?m' (c + 4) = ?m (c + 4)" using hi [of c] hi [of "c + 4"] by simp
  qed
  then have "tiles ?m' (?m' nb) pfy' nb ys" using q nxt by (simp add: ys)
  moreover have "fl_ok s' H FL"
    by (rule fl_ok_frame [OF O(6) _ assms(2,3)]) (use open_link [OF o, folded b, folded nb] lo hi in auto)
  ultimately show ?thesis
    using O xs hdr prev unfolding open_heap_def gap_def b [symmetric] nb [symmetric] by auto
qed

lemma open_next:
  assumes "gap s H a xs n ys pfy FL" and nb: "nb = a + total xs + (n + 8)"
  shows "mem (umem s) (nb + 4) = hdr (bsize (hd ys)) (is_free (hd ys)) pfy"
    "8 dvd bsize (hd ys)" "nb + 8 \<le> 2 ^ 32" "nb + len (hd ys) \<le> 2 ^ 32" "pfy \<Longrightarrow> \<not> is_free (hd ys)"
proof -
  note O = gapD [OF assms(1), folded nb]
  obtain u us where ys: "ys = u # us" using O(2) by (cases ys) auto
  show "mem (umem s) (nb + 4) = hdr (bsize (hd ys)) (is_free (hd ys)) pfy"
    "8 dvd bsize (hd ys)" "pfy \<Longrightarrow> \<not> is_free (hd ys)"
    using O(5) by (auto simp: ys tile_ok_dvd)
  have "nb + (len u + total us) \<le> 2 ^ 32" using O(10) by (simp add: ys)
  then show "nb + 8 \<le> 2 ^ 32" "nb + len (hd ys) \<le> 2 ^ 32" using len_ge [of u] by (simp_all add: ys del: len_ge)
qed

text \<open>The flag of the open block itself.\<close>

lemma gap_set_hdr:
  assumes o: "gap s H a xs n ys pfy FL" and b: "b = a + total xs"
  shows "open_heap (set_cell (w32 b + 4) (w32 (hdr n fr' (last_free False xs))) s) H a xs n fr' ys pfy FL"
proof -
  obtain nb where nb: "nb = b + (n + 8)" by simp
  note O = gapD [OF o, folded b, folded nb] and N = open_next [OF o, folded b, OF nb]
  have "hdr n fr' (last_free False xs) < 2 ^ 32" using hdr_le [of n fr' "last_free False xs"] O(11) N(3) nb b by simp
  moreover have "b + 8 \<le> 2 ^ 32" using N(3) nb by simp
  ultimately have m: "mem ((umem s)(w32 b + 4 := w32 (hdr n fr' (last_free False xs)))) = (mem (umem s))(b + 4 := hdr n fr' (last_free False xs))"
    by (intro mem_upd_cells) simp_all
  have "b + 4 < nb" using nb by simp
  then show ?thesis
    by (intro open_update [OF o _ _ b nb]) (use N(1,5) in \<open>simp_all add: m\<close>)
qed

text \<open>The header of the tile behind it: the flag, and the pointer back.\<close>

lemma open_set_next:
  assumes o: "open_heap s H a xs n fr ys pfy FL" and f: "\<not> is_free (hd ys)" and b: "b = a + total xs" and nb: "nb = b + (n + 8)"
  shows "open_heap (set_cell (w32 nb + 4) (w32 (hdr (bsize (hd ys)) False pfy')) s) H a xs n fr ys pfy' FL"
    and "open_heap (set_cell (w32 nb) v s) H a xs n fr ys pfy FL"
proof -
  note g = open_heapD(1) [OF o] and O = open_heapD(2) [OF o, folded b]
  note N = open_next [OF g, folded b, OF nb]
  have "bsize (hd ys) + 8 \<le> 2 ^ 32" using N(4) by (cases "hd ys") simp_all
  then have "hdr (bsize (hd ys)) False pfy' < 2 ^ 32" using hdr_le [of "bsize (hd ys)" False pfy'] by simp
  then have m: "mem ((umem s)(w32 nb + 4 := w32 (hdr (bsize (hd ys)) False pfy')))
      = (mem (umem s))(nb + 4 := hdr (bsize (hd ys)) False pfy')"
    using N(3) by (intro mem_upd_cells) simp_all
  have lt: "b + 4 < nb" using nb by simp
  show "open_heap (set_cell (w32 nb + 4) (w32 (hdr (bsize (hd ys)) False pfy')) s) H a xs n fr ys pfy' FL"
    by (rule open_update [OF g _ _ b nb]) (use f lt O in \<open>simp_all add: m\<close>)
  have m2: "mem ((umem s)(w32 nb := v)) = (mem (umem s))(nb := unat v)"
    using mem_upd_cells(1) [of nb "unat v" "umem s"] N(3) unsigned_less [where 'a = nat, of v] by simp
  show "open_heap (set_cell (w32 nb) v s) H a xs n fr ys pfy FL"
    by (rule open_update [OF g _ _ b nb]) (use f lt N(1,5) O in \<open>simp_all add: m2\<close>)
qed

text \<open>Fields of the head that say nothing about the lists.\<close>

lemma open_set_head:
  assumes "open_heap s H a xs n fr ys pfy FL" and "freelist (f (mm_heads s H)) = freelist (mm_heads s H)"
    "free_bitmap (f (mm_heads s H)) = free_bitmap (mm_heads s H)"
  shows "open_heap (set_head H f s) H a xs n fr ys pfy FL"
proof -
  obtain b nb where b: "b = a + total xs" and nb: "nb = b + (n + 8)" by simp
  note g = open_heapD(1) [OF assms(1)] and O = open_heapD(2) [OF assms(1), folded b]
  note N = open_next [OF g, folded b, OF nb]
  show ?thesis by (rule open_update [OF g _ _ b nb]) (use assms(2,3) N(1,5) O in simp_all)
qed

lemma heap_set_head:
  assumes "heap s H a ts FL" and "freelist (f (mm_heads s H)) = freelist (mm_heads s H)"
    "free_bitmap (f (mm_heads s H)) = free_bitmap (mm_heads s H)"
  shows "heap (set_head H f s) H a ts FL"
proof -
  have "fl_ok (set_head H f s) H FL"
    by (rule fl_ok_frame [of s]) (use assms in \<open>simp_all add: heap_def\<close>)
  then show ?thesis using assms(1) by (simp add: heap_def)
qed

end
