(* ===== verification/Mm_Steps.thy ===== *)
theory Mm_Steps
  imports Mm_Heap
begin

text \<open>
  The steps of which the operations of the heap are made: taking a block off its list, merging it with
  its neighbours, splitting it, and putting it on a list.
\<close>

section \<open>What a step may write\<close>

text \<open>The cells of the heap that belong to no block in use.\<close>

definition cells :: "nat \<Rightarrow> tile list \<Rightarrow> nat set" where
  "cells a ts = {c. a \<le> c \<and> c < a + total ts \<and> (\<forall>b n. (b, Used n) \<in> set (loc a ts) \<longrightarrow> c < b + 8 \<or> b + 8 + n \<le> c)}"

definition mm_frame :: "kstate \<Rightarrow> ptr \<Rightarrow> nat set \<Rightarrow> kstate \<Rightarrow> bool" where
  "mm_frame s H W s' \<longleftrightarrow>
     (\<exists>M h. s' = s\<lparr>umem := M, mm_heads := (mm_heads s)(H := h)\<rparr>
        \<and> regioninfo h = regioninfo (mm_heads s H) \<and> fix_pool h = fix_pool (mm_heads s H))
     \<and> (\<forall>c. c \<notin> W \<longrightarrow> mem (umem s') c = mem (umem s) c)"

lemma mm_frame_refl [simp]: "mm_frame s H W s"
  by (auto simp: mm_frame_def intro!: exI [of _ "umem s"] exI [of _ "mm_heads s H"])

lemma mm_frame_trans: "mm_frame s H W s' \<Longrightarrow> mm_frame s' H W s'' \<Longrightarrow> mm_frame s H W s''"
  unfolding mm_frame_def by (elim conjE exE, intro conjI; fastforce)

lemma mm_frame_mono: "mm_frame s H W s' \<Longrightarrow> W \<subseteq> W' \<Longrightarrow> mm_frame s H W' s'"
  by (auto simp: mm_frame_def)

lemma mm_frame_set_head:
  "regioninfo (f (mm_heads s H)) = regioninfo (mm_heads s H) \<Longrightarrow> fix_pool (f (mm_heads s H)) = fix_pool (mm_heads s H) \<Longrightarrow>
   mm_frame s H W (set_head H f s)"
  unfolding mm_frame_def by (intro conjI exI [of _ "umem s"] exI [of _ "f (mm_heads s H)"]) simp_all

lemma mm_frame_set_cell:
  assumes "unat c \<in> W"
  shows "mm_frame s H W (set_cell c v s)"
proof -
  have "mem ((umem s)(c := v)) d = mem (umem s) d" if "d \<notin> W" for d
  proof (cases "d < 2 ^ 32")
    case True
    then have "w32 d \<noteq> c" using that assms unat_word_of_nat32 [of d] by auto
    then show ?thesis by (simp add: mem_def)
  qed (simp add: mem_def)
  then show ?thesis
    unfolding mm_frame_def by (intro conjI exI [of _ "(umem s)(c := v)"] exI [of _ "mm_heads s H"]) simp_all
qed

lemma mm_frame_fl_step:
  assumes "fl_step s H FL s'" and "\<And>c. link_cell FL c \<Longrightarrow> c \<in> W"
  shows "mm_frame s H W s'"
proof -
  obtain M f bm where s': "s' = s\<lparr>umem := M, mm_heads := (mm_heads s)(H := (mm_heads s H)\<lparr>freelist := f, free_bitmap := bm\<rparr>)\<rparr>"
    using assms(1) by (auto simp: fl_step_def)
  have "mem (umem s') c = mem (umem s) c" if "c \<notin> W" for c
    using assms that unfolding fl_step_def by blast
  then show ?thesis
    unfolding mm_frame_def using s'
    by (intro conjI exI [of _ M] exI [of _ "(mm_heads s H)\<lparr>freelist := f, free_bitmap := bm\<rparr>"]) simp_all
qed

lemma cells_less:
  assumes "total ts' = total ts" and "\<And>b n. (b, Used n) \<in> set (loc a ts') \<Longrightarrow> (b, Used n) \<in> set (loc a ts)"
  shows "cells a ts \<subseteq> cells a ts'"
  using assms by (auto simp: cells_def)

lemma cells_open: "cells a (xs @ Used n # ys) \<subseteq> cells a (xs @ Free n # ys)"
  by (rule cells_less) (auto simp: loc_append)

lemma cells_merge:
  "cells a (xs @ Free n # Free m # ys) = cells a (xs @ Free (n + 8 + m) # ys)"
proof -
  have "set (loc a (xs @ Free n # Free m # ys)) \<inter> {(b, Used k) | b k. True}
      = set (loc a (xs @ Free (n + 8 + m) # ys)) \<inter> {(b, Used k) | b k. True}"
    by (auto simp: loc_append ac_simps)
  then have "(b, Used k) \<in> set (loc a (xs @ Free n # Free m # ys)) \<longleftrightarrow> (b, Used k) \<in> set (loc a (xs @ Free (n + 8 + m) # ys))" for b k
    by blast
  then show ?thesis by (simp add: cells_def ac_simps)
qed

lemma cells_header:
  assumes "(b, t) \<in> set (loc a ts)"
  shows "b \<in> cells a ts" "b + 4 \<in> cells a ts"
proof -
  have "b \<in> cells a ts \<and> b + 4 \<in> cells a ts"
  proof -
    have "a \<le> b" "b + 8 \<le> a + total ts" using loc_bounds [OF assms] len_ge [of t] by linarith+
    moreover have "c < d + 8 \<or> d + 8 + n \<le> c" if d: "(d, Used n) \<in> set (loc a ts)" and c: "c = b \<or> c = b + 4" for c d n
    proof -
      consider "b < d" | "b = d" | "d < b" by linarith
      then show ?thesis
      proof cases
        case 1
        then have "b + 8 \<le> d" using loc_disjoint [OF assms d] len_ge [of t] by linarith
        then show ?thesis using c by auto
      next
        case 3
        then show ?thesis using loc_disjoint [OF d assms] c by auto
      qed (use c in auto)
    qed
    ultimately show ?thesis unfolding cells_def mem_Collect_eq by (intro conjI allI impI; linarith?) metis+
  qed
  then show "b \<in> cells a ts" "b + 4 \<in> cells a ts" by simp_all
qed

lemma cells_link:
  assumes f: "free_tiles a ts FL" and l: "layout a ts" and c: "link_cell FL c"
  shows "c \<in> cells a ts"
proof -
  obtain x n where x: "(x, Free n) \<in> set (loc a ts)" "c = x + 8 \<or> c = x + 12" by (rule free_tilesD [OF f c])
  have n: "32 \<le> n" using layout_free_level(2) [OF l x(1)] .
  have "a \<le> c" "c < a + total ts" using loc_bounds [OF x(1)] x(2) n by auto
  moreover have "c < b + 8 \<or> b + 8 + k \<le> c" if b: "(b, Used k) \<in> set (loc a ts)" for b k
  proof -
    have "False" if "b \<le> c" "c < b + len (Used k)"
      by (rule link_not_header(3) [OF f l c b _ that]) simp
    then show ?thesis by fastforce
  qed
  ultimately show ?thesis by (auto simp: cells_def)
qed


section \<open>Taking a block off its list\<close>

lemma layout_swap:
  assumes "layout a (xs @ ts @ ys)" "\<And>t. t \<in> set ts \<union> set us \<Longrightarrow> \<not> is_fence t" "total us = total ts" "ts \<noteq> []"
    "us \<noteq> []" "\<And>t. t \<in> set us \<Longrightarrow> tile_ok t"
  shows "layout a (xs @ us @ ys)"
proof -
  have "spans 0 (xs @ us @ ys)"
    using assms by (intro spans_exchange [of ts us]) (auto simp: layout_def)
  moreover have "ys \<noteq> []"
  proof
    assume "ys = []"
    then have "last (xs @ ts @ ys) \<in> set ts" using assms(4) by simp
    then show False using assms(1,2) by (auto simp: layout_def)
  qed
  ultimately show ?thesis using assms by (auto simp: layout_def)
qed

lemma layout_open:
  assumes "layout a (xs @ Free n # ys)"
  shows "layout a (xs @ Used n # ys)"
proof -
  have "8 dvd n" "32 \<le> n" using layout_append(4) [OF assms] by simp_all
  then have ok: "tile_ok (Used n)" by simp
  have "layout a (xs @ [Used n] @ ys)"
    by (rule layout_swap [of a xs "[Free n]"]) (use assms ok in auto)
  then show ?thesis by simp
qed

lemma free_tiles_open:
  assumes f: "free_tiles a (xs @ Free n # ys) FL" and d: "distinct (FL (lev n))" and b: "b = a + total xs"
  shows "b \<in> set (FL (lev n))" "free_tiles a (xs @ Used n # ys) (FL(lev n := remove1 b (FL (lev n))))"
proof -
  have 1: "(b, Free k) \<notin> set (loc a xs)" "(b, Free k) \<notin> set (loc (b + (n + 8)) ys)" for k
    using loc_bounds [of b "Free k"] b by fastforce+
  show "b \<in> set (FL (lev n))" using f b by (fastforce simp: free_tiles_def loc_append)
  show "free_tiles a (xs @ Used n # ys) (FL(lev n := remove1 b (FL (lev n))))"
    using f d 1 unfolding free_tiles_def by (auto simp: loc_append b)
qed

lemma heap_headers:
  assumes st: "fl_step s H FL s'" and f: "free_tiles a ts FL" and l: "layout a ts"
  shows "tiles (mem (umem s')) p pf a ts = tiles (mem (umem s)) p pf a ts"
  by (rule tiles_frame) (rule fl_step_tiles [OF st f l])

lemma heap_take:
  assumes h: "heap s H a (xs @ Free n # ys) FL" and b: "b = a + total xs"
  defines "s' \<equiv> k_mm_freelist_delete s H (w32 b)"
  shows "open_heap s' H a xs n True ys True (FL(lev n := remove1 b (FL (lev n))))"
    and "mm_frame s H (cells a (xs @ Free n # ys)) s'"
proof -
  have l: "layout a (xs @ Free n # ys)" and t: "tiles (mem (umem s)) 0 False a (xs @ Free n # ys)"
    and fl: "fl_ok s H FL" and f: "free_tiles a (xs @ Free n # ys) FL" using h by (simp_all add: heap_def)
  have m: "(b, Free n) \<in> set (loc a (xs @ Free n # ys))" by (simp add: loc_append b)
  note F = layout_free_level [OF l m]
  note O = free_tiles_open [OF f fl_okD(2) [OF fl] b]
  have pf: "\<not> last_free False xs" using t by (simp add: tiles_append)
  have hd: "mem (umem s) (b + 4) = hdr n True False" using t pf by (simp add: tiles_append b)
  have sz: "size_to_level (MM_GET_BUF_SIZE s (w32 b)) = int (lev n)"
    using hdr_words(3) [OF hd] F by simp
  note D = freelist_delete_ok [OF fl O(1) F(5) sz, folded s'_def]
  have t': "tiles (mem (umem s')) 0 False a (xs @ Free n # ys)" using t heap_headers [OF D(2) f l] by simp
  obtain u us where ys: "ys = u # us" using layout_end [OF l] by auto
  show "open_heap s' H a xs n True ys True (FL(lev n := remove1 b (FL (lev n))))"
    using t' pf layout_open [OF l] D(1) O(2) ys unfolding open_heap_def gap_def by (auto simp: tiles_append add.assoc)
  show "mm_frame s H (cells a (xs @ Free n # ys)) s'"
    by (rule mm_frame_fl_step [OF D(2)]) (rule cells_link [OF f l])
qed

section \<open>Merging\<close>

lemma layout_join:
  assumes "layout a (xs @ Used n # Used m # ys)"
  shows "layout a (xs @ Used (n + 8 + m) # ys)"
proof -
  have ok: "tile_ok (Used n)" "tile_ok (Used m)" using assms by (auto simp: layout_def)
  then have ok': "tile_ok (Used (n + 8 + m))" by simp
  have "layout a (xs @ [Used (n + 8 + m)] @ ys)"
    by (rule layout_swap [of a xs "[Used n, Used m]"]) (use assms ok' in auto)
  then show ?thesis by simp
qed

lemma layout_cut:
  assumes l: "layout a (xs @ Used (n + 8 + m) # ys)" and ok: "tile_ok (Used n)" "tile_ok (Used m)"
  shows "layout a (xs @ Used n # Used m # ys)"
proof -
  have "layout a (xs @ [Used n, Used m] @ ys)"
    by (rule layout_swap [of a xs "[Used (n + 8 + m)]"]) (use l ok in auto)
  then show ?thesis by simp
qed

lemma free_tiles_join: "free_tiles a (xs @ Used n # Used m # ys) FL \<longleftrightarrow> free_tiles a (xs @ Used (n + 8 + m) # ys) FL"
  by (simp add: free_tiles_def loc_append ac_simps)

lemma tiles_tail:
  assumes "\<And>c t. (c, t) \<in> set (loc a (zs @ ys)) \<Longrightarrow> m' c = m c \<and> m' (c + 4) = m (c + 4)" and "e = a + total zs"
  shows "tiles m' q pf e ys = tiles m q pf e ys"
proof (rule tiles_frame)
  fix c t assume "(c, t) \<in> set (loc e ys)"
  then show "m' c = m c \<and> m' (c + 4) = m (c + 4)" using assms(2) by (intro assms(1) [of c t]) (simp add: loc_append)
qed

lemma gap_take_next:
  assumes g: "gap s H a xs n (Free m # ys) pfy FL" and b: "b = a + total xs" and nb: "nb = b + (n + 8)"
  defines "s' \<equiv> k_mm_freelist_delete s H (w32 nb)"
  shows "gap s' H a xs (n + 8 + m) ys True (FL(lev m := remove1 nb (FL (lev m))))"
    and "mm_frame s H (cells a (xs @ Used n # Free m # ys)) s'"
    and "mem (umem s') (b + 4) = mem (umem s) (b + 4)" "mem (umem s') (nb + 4) = mem (umem s) (nb + 4)"
proof -
  note G = gapD [OF g]
  let ?ts = "xs @ Used n # Free m # ys"
  have m: "(b, Used n) \<in> set (loc a ?ts)" "(nb, Free m) \<in> set (loc a ?ts)" by (simp_all add: loc_append b nb)
  note F = layout_free_level [OF G(1) m(2)]
  have e: "nb = a + total (xs @ [Used n])" by (simp add: nb b)
  note O = free_tiles_open [of a "xs @ [Used n]" m ys, simplified, OF G(7) fl_okD(2) [OF G(6)], of nb]
  have O1: "nb \<in> set (FL (lev m))" "free_tiles a (xs @ Used n # Used m # ys) (FL(lev m := remove1 nb (FL (lev m))))"
    using O e by simp_all
  have hd: "mem (umem s) (nb + 4) = hdr m True pfy" using open_next(1) [OF g] by (simp add: b nb)
  have sz: "size_to_level (MM_GET_BUF_SIZE s (w32 nb)) = int (lev m)" using hdr_words(3) [OF hd] F by simp
  note D = freelist_delete_ok [OF G(6) O1(1) F(5) sz, folded s'_def]
  note T = fl_step_tiles [OF D(2) G(7,1)]
  have xs: "tiles (mem (umem s')) 0 False a xs"
    using G(3) tiles_frame [of a xs "mem (umem s')" "mem (umem s)"] T by (auto simp: loc_append)
  obtain q where q: "tiles (mem (umem s)) q pfy nb (Free m # ys)" using G(5) by (auto simp: b nb)
  have "tiles (mem (umem s')) nb True (nb + (m + 8)) ys = tiles (mem (umem s)) nb True (nb + (m + 8)) ys"
    by (rule tiles_tail [of a "xs @ [Used n, Free m]"]) (use T in \<open>simp_all add: b nb\<close>)
  then have ys: "tiles (mem (umem s')) nb True (b + ((n + 8 + m) + 8)) ys" using q by (simp add: nb ac_simps)
  obtain u us where u: "ys = u # us" using layout_end [of a "xs @ [Used n]" "Free m" ys] G(1) by auto
  have l: "layout a (xs @ Used (n + 8 + m) # ys)"
    using layout_open [of a "xs @ [Used n]" m ys] G(1) layout_join by simp
  have f: "free_tiles a (xs @ Used (n + 8 + m) # ys) (FL(lev m := remove1 nb (FL (lev m))))"
    using O1(2) free_tiles_join by simp
  have p: "mem (umem s') b = mem (umem s) b" using T [OF m(1)] by simp
  show "gap s' H a xs (n + 8 + m) ys True (FL(lev m := remove1 nb (FL (lev m))))"
    unfolding gap_def b [symmetric] using l f xs ys D(1) G(4) p u b by auto
  show "mem (umem s') (b + 4) = mem (umem s) (b + 4)" "mem (umem s') (nb + 4) = mem (umem s) (nb + 4)"
    using T m by simp_all
  show "mm_frame s H (cells a (xs @ Used n # Free m # ys)) s'"
    by (rule mm_frame_fl_step [OF D(2)]) (rule cells_link [OF G(7,1)])
qed

lemma gap_take_prev:
  assumes g: "gap s H a (xs @ [Free p]) n ys pfy FL" and pb: "pb = a + total xs" and b: "b = pb + (p + 8)"
  defines "s' \<equiv> k_mm_freelist_delete s H (w32 pb)"
  shows "gap s' H a xs (p + 8 + n) ys pfy (FL(lev p := remove1 pb (FL (lev p))))"
    and "mm_frame s H (cells a (xs @ Free p # Free n # ys)) s'"
    and "mem (umem s') (b + 4) = mem (umem s) (b + 4)" "mem (umem s') (pb + 4) = mem (umem s) (pb + 4)"
proof -
  note G = gapD [OF g, simplified append_assoc append_Cons append_Nil]
  let ?ts = "xs @ Free p # Used n # ys"
  have m: "(pb, Free p) \<in> set (loc a ?ts)" "(b, Used n) \<in> set (loc a ?ts)" by (simp_all add: loc_append b pb)
  note F = layout_free_level [OF G(1) m(1)]
  note O = free_tiles_open [OF G(7) fl_okD(2) [OF G(6)] pb]
  have pf: "\<not> last_free False xs" "tiles (mem (umem s)) 0 False a xs" "mem (umem s) (pb + 4) = hdr p True False"
    using G(3) by (auto simp: tiles_append pb)
  have sz: "size_to_level (MM_GET_BUF_SIZE s (w32 pb)) = int (lev p)" using hdr_words(3) [OF pf(3)] F by simp
  note D = freelist_delete_ok [OF G(6) O(1) F(5) sz, folded s'_def]
  note T = fl_step_tiles [OF D(2) G(7,1)]
  have xs: "tiles (mem (umem s')) 0 False a xs"
    using pf(2) tiles_frame [of a xs "mem (umem s')" "mem (umem s)"] T by (auto simp: loc_append)
  have e: "a + total (xs @ [Free p]) = b" by (simp add: b pb)
  obtain q where q: "tiles (mem (umem s)) q pfy (b + (n + 8)) ys" using G(5) unfolding e by auto
  have "tiles (mem (umem s')) q pfy (b + (n + 8)) ys = tiles (mem (umem s)) q pfy (b + (n + 8)) ys"
    by (rule tiles_tail [of a "xs @ [Free p, Used n]"]) (use T in \<open>simp_all add: b pb\<close>)
  then have ys: "tiles (mem (umem s')) q pfy (pb + ((p + 8 + n) + 8)) ys" using q by (simp add: b ac_simps)
  have l: "layout a (xs @ Used (p + 8 + n) # ys)" using layout_open [OF G(1)] layout_join by simp
  have f: "free_tiles a (xs @ Used (p + 8 + n) # ys) (FL(lev p := remove1 pb (FL (lev p))))"
    using O(2) free_tiles_join by simp
  show "gap s' H a xs (p + 8 + n) ys pfy (FL(lev p := remove1 pb (FL (lev p))))"
    unfolding gap_def pb [symmetric] using l f xs ys D(1) G(2) pf(1) by auto
  show "mem (umem s') (b + 4) = mem (umem s) (b + 4)" "mem (umem s') (pb + 4) = mem (umem s) (pb + 4)"
    using T m by simp_all
  have "cells a ?ts \<subseteq> cells a (xs @ Free p # Free n # ys)" using cells_open [of a "xs @ [Free p]" n ys] by simp
  then show "mm_frame s H (cells a (xs @ Free p # Free n # ys)) s'"
    by (intro mm_frame_fl_step [OF D(2)]) (use cells_link [OF G(7,1)] in blast)
qed

section \<open>Splitting\<close>

text \<open>What lies in the gap may be written.\<close>

lemma gap_update:
  assumes o: "gap s H a xs n ys pfy FL"
    and hs: "freelist (mm_heads s' H) = freelist (mm_heads s H)" "free_bitmap (mm_heads s' H) = free_bitmap (mm_heads s H)"
    and b: "b = a + total xs" and nb: "nb = b + (n + 8)"
    and lo: "\<And>c. c < b \<Longrightarrow> mem (umem s') c = mem (umem s) c"
    and hi: "\<And>c. nb \<le> c \<Longrightarrow> mem (umem s') c = mem (umem s) c"
    and prev: "last_free False xs \<Longrightarrow> mem (umem s') b = mem (umem s) b"
  shows "gap s' H a xs n ys pfy FL"
proof -
  note O = gapD [OF o, folded b, folded nb]
  let ?m = "mem (umem s)" and ?m' = "mem (umem s')"
  have "tiles ?m' 0 False a xs = tiles ?m 0 False a xs"
  proof (rule tiles_frame)
    fix c t assume "(c, t) \<in> set (loc a xs)"
    then have "c + 8 \<le> b" using loc_bounds [of c t a xs] len_ge [of t] unfolding b by linarith
    then show "?m' c = ?m c \<and> ?m' (c + 4) = ?m (c + 4)" using lo [of c] lo [of "c + 4"] by simp
  qed
  then have xs: "tiles ?m' 0 False a xs" using O(3) by simp
  have "tiles ?m' q pfy nb ys = tiles ?m q pfy nb ys" for q
  proof (rule tiles_frame)
    fix c t assume "(c, t) \<in> set (loc nb ys)"
    then have "nb \<le> c" using loc_bounds [of c t nb ys] by simp
    then show "?m' c = ?m c \<and> ?m' (c + 4) = ?m (c + 4)" using hi [of c] hi [of "c + 4"] by simp
  qed
  moreover have "fl_ok s' H FL"
  proof (rule fl_ok_frame [OF O(6) _ hs])
    fix c assume "link_cell FL c"
    then have "c < b \<or> nb \<le> c" using open_link [OF o, folded b, folded nb, of c] by auto
    then show "mem (umem s') c = mem (umem s) c" using lo hi by auto
  qed
  ultimately show ?thesis
    using O xs prev unfolding gap_def b [symmetric] nb [symmetric] by auto
qed

lemma mem_set_cell:
  assumes "c < 2 ^ 32"
  shows "mem ((umem s)(w32 c := v)) = (mem (umem s))(c := unat v)"
  using mem_upd_cells(1) [of c "unat v" "umem s"] assms unsigned_less [where 'a = nat, of v] by simp

lemma gap_write:
  assumes o: "gap s H a xs n ys pfy FL" and b: "b = a + total xs"
    and c: "b \<le> c" "c < b + (n + 8)" "c = b \<Longrightarrow> \<not> last_free False xs"
  shows "gap (set_cell (w32 c) v s) H a xs n ys pfy FL"
proof -
  obtain nb where nb: "nb = b + (n + 8)" by simp
  have "nb + 8 \<le> 2 ^ 32" using open_next(3) [OF o, folded b, OF nb] .
  then have m: "mem ((umem s)(w32 c := v)) = (mem (umem s))(c := unat v)" using c nb by (intro mem_set_cell) simp
  show ?thesis by (rule gap_update [OF o _ _ b nb]) (use c nb in \<open>auto simp: m\<close>)
qed

lemma gap_split:
  assumes g: "gap s H a xs (n + 8 + k) ys pfy FL" and ok: "tile_ok (Used n)" "tile_ok (Used k)" and b: "b = a + total xs"
    and h: "mem (umem s) (b + 4) = hdr n False (last_free False xs)"
  shows "gap s H a (xs @ [Used n]) k ys pfy FL"
proof -
  note G = gapD [OF g]
  have "layout a (xs @ Used n # Used k # ys)" by (rule layout_cut [OF G(1) ok])
  moreover have "free_tiles a (xs @ Used n # Used k # ys) FL" using G(7) free_tiles_join by simp
  moreover have "tiles (mem (umem s)) 0 False a (xs @ [Used n])"
    using G(3,4) h ok by (auto simp: tiles_append b)
  moreover have "\<exists>q. tiles (mem (umem s)) q pfy (a + total (xs @ [Used n]) + (k + 8)) ys"
    using G(5) by (simp add: ac_simps)
  ultimately show ?thesis using G by (simp add: gap_def)
qed

section \<open>Putting a block on its list\<close>

lemma freelist_insert_keeps:
  assumes c: "c \<noteq> w + 8" "c \<noteq> w + 12" "\<And>l. freelist (mm_heads s H) l \<noteq> 0 \<Longrightarrow> c \<noteq> freelist (mm_heads s H) l + 8"
  shows "umem (k_mm_freelist_insert s H w) c = umem s c"
proof -
  define l where "l = size_to_level (MM_GET_BUF_SIZE s w)"
  show ?thesis
  proof (cases "l < 0 \<or> l \<ge> MM_BIT_LEVEL")
    case True
    then show ?thesis by (simp add: k_mm_freelist_insert_def l_def [symmetric])
  next
    case False
    show ?thesis
      unfolding k_mm_freelist_insert_def l_def [symmetric] Let_def if_not_P [OF False]
      using c(1,2) c(3) [of "nat l"] by (cases "freelist (mm_heads s H) (nat l) = 0") simp_all
  qed
qed

lemma freelist_insert_commute:
  assumes c: "c \<noteq> w + 4" "c \<noteq> w + 8" "c \<noteq> w + 12" "\<And>l. freelist (mm_heads s H) l \<noteq> 0 \<Longrightarrow> c \<noteq> freelist (mm_heads s H) l + 8"
  shows "k_mm_freelist_insert (set_cell c v s) H w = set_cell c v (k_mm_freelist_insert s H w)"
proof -
  define l where "l = size_to_level (MM_GET_BUF_SIZE s w)"
  have l': "size_to_level (MM_GET_BUF_SIZE (set_cell c v s) w) = l" using c by (simp add: l_def MM_GET_BUF_SIZE_def)
  define f where "f = freelist (mm_heads s H) (nat l)"
  show ?thesis
  proof (cases "l < 0 \<or> l \<ge> MM_BIT_LEVEL")
    case True
    then show ?thesis by (simp add: k_mm_freelist_insert_def l' l_def [symmetric])
  next
    case False
    have cf: "f \<noteq> 0 \<Longrightarrow> c \<noteq> f + 8" using c(4) [of "nat l"] by (simp add: f_def)
    show ?thesis
      unfolding k_mm_freelist_insert_def l' l_def [symmetric] Let_def if_not_P [OF False]
      using c cf by (cases "f = 0")
        (intro kstate.equality; simp add: f_def [symmetric] fun_upd_twist)+
  qed
qed

lemma heap_insert:
  assumes o: "open_heap s H a xs n True ys True FL" and pf: "\<not> last_free False xs" and n: "32 \<le> n"
    and b: "b = a + total xs" and p: "mem (umem s) (b + (n + 8)) = b"
  defines "s' \<equiv> k_mm_freelist_insert s H (w32 b)"
  shows "heap s' H a (xs @ Free n # ys) (FL(lev n := b # FL (lev n)))"
    and "mm_frame s H (cells a (xs @ Free n # ys)) s'"
proof -
  note O = open_heapD [OF o] and G = gapD [OF open_heapD(1) [OF o]]
  have "layout a (xs @ [Free n] @ ys)"
    by (rule layout_swap [of a xs "[Used n]"]) (use G(1,8) n in auto)
  then have l: "layout a (xs @ Free n # ys)" by simp
  have m: "(b, Free n) \<in> set (loc a (xs @ Free n # ys))" by (simp add: loc_append b)
  note F = layout_free_level [OF l m]
  have "hdr n True False = mem (umem s) (b + 4)" using O(2) pf by (simp add: b)
  then have sz: "size_to_level (MM_GET_BUF_SIZE s (w32 b)) = int (lev n)"
    using hdr_words(3) [of s b n True False] F by simp
  have "(b, Free k) \<notin> set (loc a (xs @ Used n # ys))" for k
    using loc_unique [of b "Free k" a "xs @ Used n # ys" "Used n"] by (auto simp: loc_append b)
  then have nin: "b \<notin> set (FL k)" for k using G(7) by (auto simp: free_tiles_def)
  have b16: "b + 16 \<le> 2 ^ 32" using F(2,6) by linarith
  note D = freelist_insert_ok [OF G(6) nin F(8,7) b16 F(5) sz, folded s'_def]
  have f: "free_tiles a (xs @ Free n # ys) (FL(lev n := b # FL (lev n)))"
    using G(7) unfolding free_tiles_def by (auto simp: loc_append b)
  obtain u us where u: "ys = u # us" using layout_end [OF l] by auto
  have "tiles (mem (umem s)) 0 False a (xs @ Free n # ys)"
    using G(3,5,8) O(2) pf n p by (auto simp: tiles_append b u ac_simps)
  then have "tiles (mem (umem s')) 0 False a (xs @ Free n # ys)" using heap_headers [OF D(2) f l] by simp
  then show "heap s' H a (xs @ Free n # ys) (FL(lev n := b # FL (lev n)))" using l f D(1) by (simp add: heap_def)
  show "mm_frame s H (cells a (xs @ Free n # ys)) s'"
    by (rule mm_frame_fl_step [OF D(2)]) (rule cells_link [OF f l])
qed

end
