(* ===== verification/Mm_Release.thy ===== *)
theory Mm_Release
  imports Mm_Steps
begin

text \<open>
  Release: \<^verbatim>\<open>k_mm_free\<close> marks the block free and merges it with the free blocks next to it.
\<close>

fun merge_next :: "nat \<Rightarrow> tile list \<Rightarrow> nat \<times> tile list" where
  "merge_next n (Free m # ys) = (n + 8 + m, ys)"
| "merge_next n ys = (n, ys)"

definition merge_prev :: "tile list \<Rightarrow> nat \<Rightarrow> tile list \<times> nat" where
  "merge_prev xs n = (if last_free False xs then (butlast xs, bsize (last xs) + 8 + n) else (xs, n))"

text \<open>The heap after the block between \<open>xs\<close> and \<open>ys\<close> has been released.\<close>

definition release :: "tile list \<Rightarrow> nat \<Rightarrow> tile list \<Rightarrow> tile list" where
  "release xs n ys = (let (n, ys) = merge_next n ys; (xs, n) = merge_prev xs n in xs @ Free n # ys)"

lemma last_freeE:
  assumes "last_free False xs"
  obtains zs p where "xs = zs @ [Free p]"
  using assms
proof (cases xs rule: rev_cases)
  case (snoc zs t)
  then show ?thesis using assms that by (cases t) auto
qed simp

section \<open>The steps of the release\<close>

lemma gap_frame_hdr:
  assumes g: "gap s H a xs n ys pfy FL" and b: "b = a + total xs"
  shows "mm_frame s H (cells a (xs @ Free n # ys)) (set_buf_size (w32 b) v s)"
proof -
  have "b + 8 \<le> 2 ^ 32" using gapD(10) [OF g, folded b] by simp
  then have "unat (w32 b + 4) = b + 4" using unat_word_of_nat32 [of "b + 4"] by simp
  moreover have "(b, Free n) \<in> set (loc a (xs @ Free n # ys))" by (simp add: loc_append b)
  ultimately show ?thesis using cells_header(2) [of b "Free n"] by (intro mm_frame_set_cell) simp
qed

lemma release_mark:
  assumes o: "open_heap s H a xs n fr ys pfy FL" and b: "b = a + total xs"
  shows "open_heap (set_buf_size (w32 b) (blk_buf_size s (w32 b) OR RHINO_MM_FREE) s) H a xs n True ys pfy FL"
    and "open_heap (set_buf_size (w32 b) (blk_buf_size s (w32 b) AND NOT RHINO_MM_FREE) s) H a xs n False ys pfy FL"
proof -
  note g = open_heapD(1) [OF o] and h = open_heapD(2) [OF o, folded b] and G = gapD [OF open_heapD(1) [OF o], folded b]
  have b8: "b + 8 \<le> 2 ^ 32" using G(10) by simp
  note W = hdr_words(1,2) [OF h b8 G(8)]
  show "open_heap (set_buf_size (w32 b) (blk_buf_size s (w32 b) OR RHINO_MM_FREE) s) H a xs n True ys pfy FL"
    "open_heap (set_buf_size (w32 b) (blk_buf_size s (w32 b) AND NOT RHINO_MM_FREE) s) H a xs n False ys pfy FL"
    unfolding W(1) hdr_set_flags [OF G(8) W(2)] by (rule gap_set_hdr [OF g b])+
qed

lemma release_next:
  assumes o: "open_heap s H a xs n fr ys pfy FL" and b: "b = a + total xs"
  defines "nb \<equiv> MM_GET_NEXT_BLK s (w32 b)"
  defines "s' \<equiv> (if blk_buf_size s nb AND RHINO_MM_FREE \<noteq> 0 then
      let s = k_mm_freelist_delete s H nb in set_buf_size (w32 b) (blk_buf_size s (w32 b) + MM_GET_BLK_SIZE s nb) s else s)"
  shows "\<exists>pfy' FL'. open_heap s' H a xs (fst (merge_next n ys)) fr (snd (merge_next n ys)) pfy' FL'
      \<and> \<not> is_free (hd (snd (merge_next n ys)))"
    and "mm_frame s H (cells a (xs @ Free n # ys)) s'"
proof -
  note g = open_heapD(1) [OF o] and h = open_heapD(2) [OF o, folded b] and G = gapD [OF open_heapD(1) [OF o], folded b]
  obtain d where d: "d = b + (n + 8)" by simp
  note N = open_next [OF g, folded b, OF d]
  have b8: "b + 8 \<le> 2 ^ 32" using N(3) d by simp
  note W = hdr_words [OF h b8 G(8)]
  have nb: "nb = w32 d" by (simp add: nb_def W(5) d)
  note W2 = hdr_words [OF N(1,3,2)]
  obtain u us where ys: "ys = u # us" using G(2) by (cases ys) auto
  have res: "(\<exists>pfy' FL'. open_heap s' H a xs (fst (merge_next n ys)) fr (snd (merge_next n ys)) pfy' FL'
      \<and> \<not> is_free (hd (snd (merge_next n ys)))) \<and> mm_frame s H (cells a (xs @ Free n # ys)) s'"
  proof (cases u)
    case (Free m)
    let ?s = "k_mm_freelist_delete s H (w32 d)"
    note T = gap_take_next [OF g [unfolded ys Free] b d]
    have pfy: "\<not> pfy" using N(5) by (auto simp: ys Free)
    have h': "mem (umem ?s) (b + 4) = hdr n fr (last_free False xs)" using T(3) h by simp
    have hd': "mem (umem ?s) (d + 4) = hdr m True pfy" using T(4) N(1) by (simp add: ys Free)
    have m8: "8 dvd m" using N(2) by (simp add: ys Free)
    have "s' = set_buf_size (w32 b) (w32 (hdr n fr (last_free False xs)) + w32 (m + 8)) ?s"
      unfolding s'_def nb using W2(6) hdr_words(1) [OF h' b8 G(8)] hdr_words(4) [OF hd' N(3) m8] by (simp add: ys Free Let_def)
    also have "w32 (hdr n fr (last_free False xs)) + w32 (m + 8) = w32 (hdr (n + 8 + m) fr (last_free False xs))"
      by (simp add: hdr_def)
    finally have s': "s' = set_buf_size (w32 b) (w32 (hdr (n + 8 + m) fr (last_free False xs))) ?s" .
    have o': "open_heap s' H a xs (n + 8 + m) fr us True (FL(lev m := remove1 d (FL (lev m))))"
      unfolding s' by (rule gap_set_hdr [OF T(1) b])
    have "mm_frame s H (cells a (xs @ Free n # Free m # us)) s'"
      unfolding s' using mm_frame_mono [OF T(2) cells_open] gap_frame_hdr [OF T(1) b] unfolding cells_merge by (rule mm_frame_trans)
    moreover have "\<not> is_free (hd us)" using open_next(5) [OF open_heapD(1) [OF o'] refl] by simp
    ultimately show ?thesis using o' by (auto simp: ys Free)
  next
    case (Used m)
    then have "s' = s" using W2(6) by (simp add: s'_def nb ys)
    then show ?thesis using o by (auto simp: ys Used)
  next
    case (Fence m)
    then have "s' = s" using W2(6) by (simp add: s'_def nb ys)
    then show ?thesis using o by (auto simp: ys Fence)
  qed
  then show "\<exists>pfy' FL'. open_heap s' H a xs (fst (merge_next n ys)) fr (snd (merge_next n ys)) pfy' FL'
      \<and> \<not> is_free (hd (snd (merge_next n ys)))"
    and "mm_frame s H (cells a (xs @ Free n # ys)) s'" by simp_all
qed

lemma release_prev:
  assumes o: "open_heap s H a xs n True ys pfy FL" and b: "b = a + total xs"
  defines "r \<equiv> (if blk_buf_size s (w32 b) AND RHINO_MM_PREVFREE \<noteq> 0 then
      let prev_b = blk_prev s (w32 b);
          s = k_mm_freelist_delete s H prev_b;
          s = set_buf_size prev_b (blk_buf_size s prev_b + MM_GET_BLK_SIZE s (w32 b)) s
      in (prev_b, s) else (w32 b, s))"
  defines "zs \<equiv> fst (merge_prev xs n)" and "k \<equiv> snd (merge_prev xs n)"
  shows "fst r = w32 (a + total zs)"
    and "\<exists>FL'. open_heap (snd r) H a zs k True ys pfy FL'" "\<not> last_free False zs"
    and "mm_frame s H (cells a (xs @ Free n # ys)) (snd r)"
proof -
  note g = open_heapD(1) [OF o] and h = open_heapD(2) [OF o, folded b] and G = gapD [OF open_heapD(1) [OF o], folded b]
  have b8: "b + 8 \<le> 2 ^ 32" using G(10) by simp
  note W = hdr_words [OF h b8 G(8)]
  have "fst r = w32 (a + total zs) \<and> (\<exists>FL'. open_heap (snd r) H a zs k True ys pfy FL') \<and> \<not> last_free False zs
    \<and> mm_frame s H (cells a (xs @ Free n # ys)) (snd r)"
  proof (cases "last_free False xs")
    case False
    then have "r = (w32 b, s)" using W(7) by (simp add: r_def)
    then show ?thesis using False o b by (auto simp: zs_def k_def merge_prev_def)
  next
    case True
    obtain us p where xs: "xs = us @ [Free p]" by (rule last_freeE [OF True])
    obtain c where c: "c = a + total us" by simp
    have bc: "b = c + (p + 8)" by (simp add: b c xs)
    have zk: "zs = us" "k = p + 8 + n" using True by (simp_all add: zs_def k_def merge_prev_def xs)
    have "mem (umem s) b = c" using G(4) [OF True] by (simp add: xs c)
    then have pv: "blk_prev s (w32 b) = w32 c" using mem_read_cells(1) [of b "umem s"] b8 by simp
    let ?s = "k_mm_freelist_delete s H (w32 c)"
    note T = gap_take_prev [OF g [unfolded xs] c bc]
    have t: "tiles (mem (umem s)) 0 False a (us @ [Free p])" using G(3) by (simp add: xs)
    then have hc: "mem (umem s) (c + 4) = hdr p True False" "8 dvd p" "\<not> last_free False us" by (auto simp: tiles_append c)
    have c8: "c + 8 \<le> 2 ^ 32" using b8 bc by simp
    have h': "mem (umem ?s) (b + 4) = hdr n True True" using T(3) h True by simp
    have hd': "mem (umem ?s) (c + 4) = hdr p True False" using T(4) hc by simp
    have r: "r = (w32 c, set_buf_size (w32 c) (w32 (hdr p True False) + w32 (n + 8)) ?s)"
      unfolding r_def using W(7) True pv hdr_words(1) [OF hd' c8 hc(2)] hdr_words(4) [OF h' b8 G(8)] by (simp add: Let_def)
    have "w32 (hdr p True False) + w32 (n + 8) = w32 (hdr (p + 8 + n) True (last_free False us))"
      using hc(3) by (simp add: hdr_def)
    then have r2: "snd r = set_buf_size (w32 c) (w32 (hdr (p + 8 + n) True (last_free False us))) ?s" using r by simp
    have "open_heap (snd r) H a us (p + 8 + n) True ys pfy (FL(lev p := remove1 c (FL (lev p))))"
      unfolding r2 by (rule gap_set_hdr [OF T(1) c])
    moreover have "mm_frame s H (cells a (us @ Free p # Free n # ys)) (snd r)"
      unfolding r2 using T(2) gap_frame_hdr [OF T(1) c] unfolding cells_merge by (rule mm_frame_trans)
    ultimately show ?thesis using r c hc(3) by (auto simp: zk xs)
  qed
  then show "fst r = w32 (a + total zs)" "\<exists>FL'. open_heap (snd r) H a zs k True ys pfy FL'" "\<not> last_free False zs"
    "mm_frame s H (cells a (xs @ Free n # ys)) (snd r)" by simp_all
qed

text \<open>The pointer and the flag behind the block may be written before or after the insertion.\<close>

lemma release_finish:
  assumes o: "open_heap s H a xs n True ys pfy FL" and pf: "\<not> last_free False xs" and nf: "\<not> is_free (hd ys)" and n: "32 \<le> n"
    and b: "b = a + total xs"
  defines "i \<equiv> k_mm_freelist_insert s H (w32 b)"
  defines "nb \<equiv> MM_GET_NEXT_BLK i (w32 b)"
  defines "s1 \<equiv> set_prev nb (w32 b) i"
  defines "s2 \<equiv> set_buf_size nb (blk_buf_size s1 nb OR RHINO_MM_PREVFREE) s1"
  defines "t1 \<equiv> set_prev nb (w32 b) s"
  defines "t2 \<equiv> set_buf_size nb (blk_buf_size t1 nb OR RHINO_MM_PREVFREE) t1"
  shows "\<exists>FL'. heap s2 H a (xs @ Free n # ys) FL'" and "mm_frame s H (cells a (xs @ Free n # ys)) s2"
    and "s2 = k_mm_freelist_insert t2 H (w32 b)" and "nb = w32 (b + (n + 8))"
proof -
  note g = open_heapD(1) [OF o] and h = open_heapD(2) [OF o, folded b] and G = gapD [OF open_heapD(1) [OF o], folded b]
  obtain d where d: "d = b + (n + 8)" by simp
  note N = open_next [OF g, folded b, OF d]
  have b8: "b + 8 \<le> 2 ^ 32" using N(3) d by simp
  note W = hdr_words [OF h b8 G(8)] and W2 = hdr_words [OF N(1,3,2)]
  have w: "w32 d \<noteq> w32 b + 4" "w32 d \<noteq> w32 b + 8" "w32 d \<noteq> w32 b + 12"
    "w32 d + 4 \<noteq> w32 b + 4" "w32 d + 4 \<noteq> w32 b + 8" "w32 d + 4 \<noteq> w32 b + 12" "w32 b + 4 \<noteq> w32 b + 8" "w32 b + 4 \<noteq> w32 b + 12"
    "w32 d \<noteq> w32 d + 4"
    using w32_inject [of d "b + 4"] w32_inject [of d "b + 8"] w32_inject [of d "b + 12"] w32_inject [of "d + 4" "b + 4"]
      w32_inject [of "d + 4" "b + 8"] w32_inject [of "d + 4" "b + 12"] w32_inject [of "b + 4" "b + 8"] w32_inject [of "b + 4" "b + 12"]
      w32_inject [of d "d + 4"] N(3) d n by simp_all
  have fl: "w32 d \<noteq> freelist (mm_heads s H) l + 8 \<and> w32 d + 4 \<noteq> freelist (mm_heads s H) l + 8
      \<and> w32 b + 4 \<noteq> freelist (mm_heads s H) l + 8" if z: "freelist (mm_heads s H) l \<noteq> 0" for l
  proof -
    define x where "x = unat (freelist (mm_heads s H) l)"
    have x: "freelist (mm_heads s H) l = w32 x" "x \<noteq> 0" using z unat_0_iff [of "freelist (mm_heads s H) l"] by (simp_all add: x_def)
    have m: "x \<in> set (FL l)"
      using dll_head [OF fl_okD(1) [OF G(6)], of l] x(2) by (simp add: x_def [symmetric] split: list.splits)
    then have lc: "link_cell FL (x + 8)" unfolding link_cell_def by blast
    have "x + 8 \<noteq> d" "x + 8 \<noteq> d + 4" "x + 8 \<noteq> b + 4"
      using open_link [OF g lc, folded b, folded d] d by auto
    moreover have "x + 16 \<le> 2 ^ 32" using fl_okD(4) [OF G(6) m] by simp
    ultimately show ?thesis
      using w32_inject [of "x + 8" d] w32_inject [of "x + 8" "d + 4"] w32_inject [of "x + 8" "b + 4"] N(3) d n x(1) by auto
  qed
  note K = freelist_insert_keeps [of _ "w32 b" s H, folded i_def] and C = freelist_insert_commute [of _ "w32 b" s H, folded i_def]
  have ib: "umem i (w32 b + 4) = umem s (w32 b + 4)" "umem i (w32 d + 4) = umem s (w32 d + 4)"
    using K [of "w32 b + 4"] K [of "w32 d + 4"] w fl by simp_all
  have nbd: "nb = w32 d" using W(5) ib(1) by (simp add: nb_def MM_GET_NEXT_BLK_def MM_GET_BUF_SIZE_def d)
  then show "nb = w32 (b + (n + 8))" by (simp add: d)
  have c1: "k_mm_freelist_insert t1 H (w32 b) = s1"
    unfolding t1_def s1_def nbd using C [of "w32 d" "w32 b"] w fl by simp
  have v: "blk_buf_size s1 nb = blk_buf_size t1 nb" using ib w(9) by (simp add: s1_def t1_def nbd)
  have "k_mm_freelist_insert t2 H (w32 b) = set_cell (w32 d + 4) (blk_buf_size t1 nb OR RHINO_MM_PREVFREE) (k_mm_freelist_insert t1 H (w32 b))"
    unfolding t2_def nbd by (rule freelist_insert_commute) (use w fl in \<open>simp_all add: t1_def\<close>)
  then show s2: "s2 = k_mm_freelist_insert t2 H (w32 b)" unfolding c1 s2_def using v by (simp add: nbd)
  have o1: "open_heap t1 H a xs n True ys pfy FL" unfolding t1_def nbd by (rule open_set_next(2) [OF o nf b d])
  have "mem (umem t1) (d + 4) = hdr (bsize (hd ys)) (is_free (hd ys)) pfy" using open_next(1) [OF open_heapD(1) [OF o1], folded b, OF d] .
  note W3 = hdr_words(1,2) [OF this N(3,2)]
  have t2: "t2 = set_cell (w32 d + 4) (w32 (hdr (bsize (hd ys)) False True)) t1"
    unfolding t2_def nbd W3(1) hdr_set_flags(2) [OF N(2) W3(2)] using nf by simp
  have o2: "open_heap t2 H a xs n True ys True FL" unfolding t2 by (rule open_set_next(1) [OF o1 nf b d])
  have "mem (umem t1) d = b" using mem_set_cell [of d s "w32 b"] N(3) unat_word_of_nat32 [of b] b8 by (simp add: t1_def nbd)
  then have p: "mem (umem t2) (b + (n + 8)) = b"
    using mem_upd_cells(2) [of d "hdr (bsize (hd ys)) False True" "umem t1"] mem_set_cell [of "d + 4" t1] N(3) by (simp add: t2 d [symmetric])
  note I = heap_insert [OF o2 pf n b p, folded s2]
  show "\<exists>FL'. heap s2 H a (xs @ Free n # ys) FL'" using I(1) by blast
  obtain u us where ys: "ys = u # us" using G(2) by (cases ys) auto
  have "(d, u) \<in> set (loc a (xs @ Free n # ys))" by (simp add: loc_append ys b d)
  from cells_header [OF this] have hc: "unat (w32 d) \<in> cells a (xs @ Free n # ys)" "unat (w32 d + 4) \<in> cells a (xs @ Free n # ys)"
    using unat_word_of_nat32 [of d] unat_word_of_nat32 [of "d + 4"] N(3) by simp_all
  have "mm_frame s H (cells a (xs @ Free n # ys)) t2"
    unfolding t2 t1_def nbd by (rule mm_frame_trans [OF mm_frame_set_cell [OF hc(1)] mm_frame_set_cell [OF hc(2)]])
  then show "mm_frame s H (cells a (xs @ Free n # ys)) s2" by (rule mm_frame_trans [OF _ I(2)])
qed

section \<open>Release of a block\<close>

lemma stat_fields [simp]:
  "freelist (removesize h sz) = freelist h" "free_bitmap (removesize h sz) = free_bitmap h"
  "regioninfo (removesize h sz) = regioninfo h" "fix_pool (removesize h sz) = fix_pool h"
  "freelist (addsize h sz rq) = freelist h" "free_bitmap (addsize h sz rq) = free_bitmap h"
  "regioninfo (addsize h sz rq) = regioninfo h" "fix_pool (addsize h sz rq) = fix_pool h"
  by (simp_all add: removesize_def addsize_def Let_def)

lemma cells_merge_next: "cells a (xs @ Free (fst (merge_next n ys)) # snd (merge_next n ys)) = cells a (xs @ Free n # ys)"
  by (cases "(n, ys)" rule: merge_next.cases) (simp_all add: cells_merge)

lemma cells_merge_prev: "cells a (fst (merge_prev xs n) @ Free (snd (merge_prev xs n)) # ys) = cells a (xs @ Free n # ys)"
proof (cases "last_free False xs")
  case True
  then obtain zs p where "xs = zs @ [Free p]" by (rule last_freeE)
  then show ?thesis using cells_merge [of a zs p n ys] by (simp add: merge_prev_def)
qed (simp add: merge_prev_def)

lemma merge_le: "n \<le> fst (merge_next n ys)" "n \<le> snd (merge_prev xs n)"
  by (cases "(n, ys)" rule: merge_next.cases) (simp_all add: merge_prev_def)

lemma heap_address:
  assumes "heap s H a (xs @ t # ys) FL" and b: "b = a + total xs" and t: "\<not> is_fence t"
  shows "b + 16 \<le> 2 ^ 32" "w32 (b + 8) \<noteq> NULL" "MM_GET_THIS_BLK (w32 (b + 8)) = w32 b" "buffer (w32 b) = w32 (b + 8)" "8 dvd b" "0 < b"
proof -
  have l: "layout a (xs @ t # ys)" using assms by (simp add: heap_def)
  show "8 dvd b" "0 < b" using layout_append(1,4,6) [OF l] b by simp_all
  have "16 \<le> len t" using layout_append(4) [OF l] t by (cases t) auto
  then show "b + 16 \<le> 2 ^ 32" using layout_append(3) [OF l] unfolding b by linarith
  then show "w32 (b + 8) \<noteq> NULL" using w32_0 [of "b + 8"] by simp
  show "MM_GET_THIS_BLK (w32 (b + 8)) = w32 b" "buffer (w32 b) = w32 (b + 8)"
    by (simp_all add: MM_GET_THIS_BLK_def MMLIST_HEAD_SIZE_def buffer_def)
qed

lemma gap_address:
  assumes "gap s H a xs n ys pfy FL" and b: "b = a + total xs"
  shows "b + 16 \<le> 2 ^ 32" "w32 (b + 8) \<noteq> NULL" "MM_GET_THIS_BLK (w32 (b + 8)) = w32 b"
proof -
  show "b + 16 \<le> 2 ^ 32" using gapD(9,10) [OF assms(1)] b by simp
  then show "w32 (b + 8) \<noteq> NULL" using w32_0 [of "b + 8"] by simp
  show "MM_GET_THIS_BLK (w32 (b + 8)) = w32 b" by (simp add: MM_GET_THIS_BLK_def MMLIST_HEAD_SIZE_def)
qed

lemma k_mm_free_open:
  assumes o: "open_heap s H a xs n False ys pfy FL" and n: "32 \<le> n" and b: "b = a + total xs" and H: "H \<noteq> NULL"
    and np: "\<not> krhino_mblk_check s (fix_pool (mm_heads s H)) (w32 (b + 8))"
  shows "\<exists>FL'. heap (k_mm_free s H (w32 (b + 8))) H a (release xs n ys) FL'"
    and "mm_frame s H (cells a (xs @ Free n # ys)) (k_mm_free s H (w32 (b + 8)))"
proof -
  note A = gap_address [OF open_heapD(1) [OF o] b]
  let ?W = "cells a (xs @ Free n # ys)"
  define s1 where "s1 = set_buf_size (w32 b) (blk_buf_size s (w32 b) OR RHINO_MM_FREE) s"
  define s2 where "s2 = set_head H (\<lambda>h. removesize h (MM_GET_BLK_SIZE s1 (w32 b))) s1"
  define nb where "nb = MM_GET_NEXT_BLK s2 (w32 b)"
  define s3 where "s3 = (if blk_buf_size s2 nb AND RHINO_MM_FREE \<noteq> 0 then
      let s = k_mm_freelist_delete s2 H nb in set_buf_size (w32 b) (blk_buf_size s (w32 b) + MM_GET_BLK_SIZE s nb) s else s2)"
  define r where "r = (if blk_buf_size s3 (w32 b) AND RHINO_MM_PREVFREE \<noteq> 0 then
      let prev_b = blk_prev s3 (w32 b);
          s = k_mm_freelist_delete s3 H prev_b;
          s = set_buf_size prev_b (blk_buf_size s prev_b + MM_GET_BLK_SIZE s (w32 b)) s
      in (prev_b, s) else (w32 b, s3))"
  define i where "i = k_mm_freelist_insert (snd r) H (fst r)"
  define nx where "nx = MM_GET_NEXT_BLK i (fst r)"
  define s5 where "s5 = set_prev nx (fst r) i"
  have run: "k_mm_free s H (w32 (b + 8)) = set_buf_size nx (blk_buf_size s5 nx OR RHINO_MM_PREVFREE) s5"
    unfolding k_mm_free_def A(3)
    by (simp only: A(2) H np if_False Let_def s1_def [symmetric] s2_def [symmetric] nb_def [symmetric]
          s3_def [unfolded Let_def, symmetric] r_def [unfolded Let_def, symmetric] case_prod_beta i_def [symmetric] nx_def [symmetric] s5_def [symmetric] simp_thms)
  define m zs where "m = fst (merge_next n ys)" and "zs = snd (merge_next n ys)"
  have o1: "open_heap s1 H a xs n True ys pfy FL" unfolding s1_def by (rule release_mark(1) [OF o b])
  have f1: "mm_frame s H ?W s1" unfolding s1_def by (rule gap_frame_hdr [OF open_heapD(1) [OF o] b])
  have o2: "open_heap s2 H a xs n True ys pfy FL" unfolding s2_def by (rule open_set_head [OF o1]) simp_all
  have f2: "mm_frame s H ?W s2" using f1 unfolding s2_def by (rule mm_frame_trans) (rule mm_frame_set_head, simp_all)
  obtain pf FL3 where o3: "open_heap s3 H a xs m True zs pf FL3" "\<not> is_free (hd zs)"
    using release_next(1) [OF o2 b, folded nb_def, folded s3_def] unfolding m_def zs_def by blast
  have f3: "mm_frame s H ?W s3" using f2 release_next(2) [OF o2 b, folded nb_def, folded s3_def] by (rule mm_frame_trans)
  note P = release_prev [OF o3(1) b, folded r_def]
  obtain FL4 where o4: "open_heap (snd r) H a (fst (merge_prev xs m)) (snd (merge_prev xs m)) True zs pf FL4" using P(2) by blast
  have f4: "mm_frame s H ?W (snd r)" using f3 P(4) unfolding m_def zs_def cells_merge_next by (rule mm_frame_trans)
  have k: "32 \<le> snd (merge_prev xs m)" using merge_le(1) [of n ys] merge_le(2) [of m xs] n by (simp add: m_def)
  note E = release_finish [OF o4 P(3) o3(2) k refl, folded P(1), folded i_def, folded nx_def, folded s5_def]
  have w: "cells a (fst (merge_prev xs m) @ Free (snd (merge_prev xs m)) # zs) = ?W"
    unfolding cells_merge_prev m_def zs_def cells_merge_next ..
  show "mm_frame s H ?W (k_mm_free s H (w32 (b + 8)))" using f4 E(2) unfolding run w by (rule mm_frame_trans)
  have "release xs n ys = fst (merge_prev xs m) @ Free (snd (merge_prev xs m)) # zs"
    by (simp add: release_def m_def zs_def case_prod_beta)
  then show "\<exists>FL'. heap (k_mm_free s H (w32 (b + 8))) H a (release xs n ys) FL'" using E(1) unfolding run by simp
qed

lemma k_mm_free_ok:
  assumes h: "heap s H a (xs @ Used n # ys) FL" and n: "32 \<le> n" and b: "b = a + total xs" and H: "H \<noteq> NULL"
    and np: "\<not> krhino_mblk_check s (fix_pool (mm_heads s H)) (w32 (b + 8))"
  shows "\<exists>FL'. heap (k_mm_free s H (w32 (b + 8))) H a (release xs n ys) FL'"
    and "mm_frame s H (cells a (xs @ Free n # ys)) (k_mm_free s H (w32 (b + 8)))"
  by (rule k_mm_free_open [OF heap_open [OF h] n b H np])+

end
