(* ===== verification/Mm_Alloc.thy ===== *)
theory Mm_Alloc
  imports Mm_Release
begin

text \<open>
  Allocation: the search through the free lists ends and finds a block whenever there is one that fits,
  and the block found is cut to size.
\<close>

section \<open>Search\<close>

lemma same_level_find:
  assumes "dseg (mem (umem s)) p x ys q 0" and "x < 2 ^ 32"
    and "\<And>y. y \<in> set ys \<Longrightarrow> 0 < y \<and> y + 16 \<le> 2 ^ 32 \<and> MM_GET_BUF_SIZE s (w32 y) = w32 (siz y) \<and> siz y < 2 ^ 32"
    and "n < 2 ^ 32"
  shows "same_level s (w32 n) (w32 x) = Some (case find (\<lambda>y. n \<le> siz y) ys of None \<Rightarrow> NULL | Some y \<Rightarrow> w32 y)"
  using assms(1-3)
proof (induction ys arbitrary: p x)
  case Nil
  then show ?case by (simp add: same_level.simps)
next
  case (Cons y ys)
  then have x: "x = y" "0 < y" "y + 16 \<le> 2 ^ 32" "MM_GET_BUF_SIZE s (w32 y) = w32 (siz y)" "siz y < 2 ^ 32" by auto
  have z: "w32 y \<noteq> 0" using w32_0 [of y] x by simp
  have le: "w32 n \<le> w32 (siz y) \<longleftrightarrow> n \<le> siz y" by (rule w32_le [OF assms(4) x(5)])
  have nx: "free_next s (w32 y) = w32 (mem (umem s) (y + 12))" using mem_read_le(2) [OF x(3), of "umem s"] .
  have "same_level s (w32 n) (free_next s (w32 y)) = Some (case find (\<lambda>y. n \<le> siz y) ys of None \<Rightarrow> NULL | Some y \<Rightarrow> w32 y)"
    unfolding nx by (rule Cons.IH [of y]) (use Cons.prems mem_less in auto)
  then show ?case using z x le by (subst same_level.simps) simp
qed

text \<open>The free block a link of level \<open>l\<close> points to, with its size.\<close>

lemma heap_link:
  assumes h: "heap s H a ts FL" and x: "x \<in> set (FL l)"
  obtains n where "(x, Free n) \<in> set (loc a ts)" "lev n = l" "32 \<le> n" "n < 2 ^ 19" "l < 15"
    "MM_GET_BUF_SIZE s (w32 x) = w32 n" "0 < x" "x + 16 \<le> 2 ^ 32"
proof -
  have l: "layout a ts" and t: "tiles (mem (umem s)) 0 False a ts" and fl: "fl_ok s H FL" and f: "free_tiles a ts FL"
    using h by (simp_all add: heap_def)
  obtain n where n: "(x, Free n) \<in> set (loc a ts)" "lev n = l" using f x by (auto simp: free_tiles_def)
  note F = layout_free_level [OF l n(1)]
  obtain q where "mem (umem s) (x + 4) = hdr n True q" using tiles_loc [OF t n(1)] by auto
  then have "MM_GET_BUF_SIZE s (w32 x) = w32 n" using hdr_words(3) [of s x n True q] F by simp
  then show ?thesis using that [OF n] F n(2) by simp
qed

lemma mm_find_ok:
  assumes h: "heap s H a ts FL" and n: "0 < n" "n < 2 ^ 19"
  obtains (found) x m where "mm_find s H (w32 n) (int (lev n)) = Some (w32 x)" "(x, Free m) \<in> set (loc a ts)" "n \<le> m" "0 < x" "x < 2 ^ 32"
    | (none) "mm_find s H (w32 n) (int (lev n)) = Some NULL" "\<forall>x m. (x, Free m) \<in> set (loc a ts) \<longrightarrow> m < n"
proof -
  have fl: "fl_ok s H FL" and f: "free_tiles a ts FL" and lay: "layout a ts" using h by (simp_all add: heap_def)
  note F = fl_okD [OF fl]
  define siz where "siz x = (SOME m. (x, Free m) \<in> set (loc a ts))" for x
  have siz: "siz x = m" if "(x, Free m) \<in> set (loc a ts)" for x m
    using loc_unique [OF that] someI [of "\<lambda>m. (x, Free m) \<in> set (loc a ts)", OF that] unfolding siz_def by blast
  let ?l = "lev n"
  define y where "y = unat (freelist (mm_heads s H) ?l)"
  obtain q where q: "dseg (mem (umem s)) 0 y (FL ?l) q 0" using F(1) [of ?l] by (auto simp: dll_def y_def)
  have wy: "freelist (mm_heads s H) ?l = w32 y" "y < 2 ^ 32"
    using unsigned_less [where 'a = nat, of "freelist (mm_heads s H) ?l"] by (simp_all add: y_def)
  have "same_level s (w32 n) (w32 y) = Some (case find (\<lambda>y. n \<le> siz y) (FL ?l) of None \<Rightarrow> NULL | Some y \<Rightarrow> w32 y)"
  proof (rule same_level_find [OF q wy(2)])
    fix x assume x: "x \<in> set (FL ?l)"
    obtain m where m: "(x, Free m) \<in> set (loc a ts)" "m < 2 ^ 19" "MM_GET_BUF_SIZE s (w32 x) = w32 m" "0 < x" "x + 16 \<le> 2 ^ 32"
      using heap_link [OF h x] .
    then show "0 < x \<and> x + 16 \<le> 2 ^ 32 \<and> MM_GET_BUF_SIZE s (w32 x) = w32 (siz x) \<and> siz x < 2 ^ 32"
      using siz [OF m(1)] by simp
  qed (use n in simp)
  then have same: "mm_find s H (w32 n) (int ?l) = Some (case find (\<lambda>y. n \<le> siz y) (FL ?l) of
      None \<Rightarrow> find_up_level s H (int ?l) | Some y \<Rightarrow> (if w32 y = NULL then find_up_level s H (int ?l) else w32 y))"
    unfolding mm_find_def by (simp add: wy(1) split: option.splits)
  show thesis
  proof (cases "find (\<lambda>y. n \<le> siz y) (FL ?l)")
    case (Some x)
    then have x: "x \<in> set (FL ?l)" "n \<le> siz x" by (auto simp: find_Some_iff)
    obtain m where m: "(x, Free m) \<in> set (loc a ts)" "0 < x" "x + 16 \<le> 2 ^ 32" using heap_link [OF h x(1)] .
    then have "w32 x \<noteq> NULL" using w32_0 [of x] by simp
    then have "mm_find s H (w32 n) (int ?l) = Some (w32 x)" using same Some by simp
    then show thesis using found m siz [OF m(1)] x(2) by simp
  next
    case None
    then have few: "siz x < n" if "x \<in> set (FL ?l)" for x using that by (auto simp: find_None_iff)
    have up: "mm_find s H (w32 n) (int ?l) = Some (find_up_level s H (int ?l))" using same None by simp
    define bm where "bm = free_bitmap (mm_heads s H) AND push_bit (Suc ?l) (0xffffffff :: u32)"
    have l13: "?l \<le> 13" using level_small(2) [OF n] .
    have bits: "bit bm i \<longleftrightarrow> FL i \<noteq> [] \<and> ?l < i" for i
    proof -
      have ones: "(0xffffffff :: u32) = - 1" by simp
      have "i < 32" if "bit (free_bitmap (mm_heads s H)) i" using bit_imp_le_length [OF that] by simp
      then show ?thesis using F(5) [of i] by (auto simp: bm_def ones bit_simps)
    qed
    have e: "find_up_level s H (int ?l) =
        (if int (krhino_ctz32 bm) < MM_BIT_LEVEL then freelist (mm_heads s H) (krhino_ctz32 bm) else NULL)"
      by (simp add: find_up_level_def bm_def Let_def nat_add_distrib)
    show thesis
    proof (cases "bm = 0")
      case True
      then have "find_up_level s H (int ?l) = NULL" unfolding e by (simp add: krhino_ctz32_def MM_BIT_LEVEL_def MM_MAX_BIT_def MM_MIN_BIT_def)
      moreover have "m < n" if m: "(x, Free m) \<in> set (loc a ts)" for x m
      proof -
        note M = layout_free_level [OF lay m]
        have x: "x \<in> set (FL (lev m))" using f m by (auto simp: free_tiles_def)
        have "\<not> ?l < lev m" using bits [of "lev m"] True x by auto
        moreover have "siz x < n" if "lev m = ?l" using few x that by simp
        moreover have "m < n" if "lev m < ?l" using level_less [OF n] M that by simp
        ultimately show ?thesis using siz [OF m] by fastforce
      qed
      ultimately show thesis using none up by simp
    next
      case False
      define k where "k = krhino_ctz32 bm"
      have k: "FL k \<noteq> []" "?l < k" using krhino_ctz32_least(1) [OF False] bits by (simp_all add: k_def)
      define x where "x = hd (FL k)"
      have x: "x \<in> set (FL k)" using k(1) by (simp add: x_def)
      have "unat (freelist (mm_heads s H) k) = x" using dll_head [OF F(1) [of k]] k(1) by (cases "FL k") (simp_all add: x_def)
      then have hx: "freelist (mm_heads s H) k = w32 x" by (metis w32_unat)
      obtain m where m: "(x, Free m) \<in> set (loc a ts)" "lev m = k" "32 \<le> m" "m < 2 ^ 19" "k < 15" "0 < x" "x + 16 \<le> 2 ^ 32"
        using heap_link [OF h x] .
      have "n < m" using level_less [of m n] n m k(2) by simp
      moreover have "find_up_level s H (int ?l) = w32 x"
        unfolding e using m(5) hx by (simp add: k_def [symmetric] MM_BIT_LEVEL_def MM_MAX_BIT_def MM_MIN_BIT_def)
      ultimately show thesis using found [of x m] up m by simp
    qed
  qed
qed

section \<open>Cutting a block to size\<close>

lemma cells_inside:
  assumes b: "(b, Free n) \<in> set (loc a ts)" and c: "b \<le> c" "c < b + (n + 8)"
  shows "c \<in> cells a ts"
proof -
  have "a \<le> c" "c < a + total ts" using loc_bounds [OF b] c by simp_all
  moreover have "c < d + 8 \<or> d + 8 + k \<le> c" if d: "(d, Used k) \<in> set (loc a ts)" for d k
  proof -
    have "d \<noteq> b" using loc_unique [OF d] b by fastforce
    then consider "d < b" | "b < d" by linarith
    then show ?thesis using loc_disjoint [OF d b] loc_disjoint [OF b d] c by cases auto
  qed
  ultimately show ?thesis by (auto simp: cells_def)
qed

text \<open>Setting a flag that is set already changes nothing.\<close>

lemma set_cell_same: "umem s c = v \<Longrightarrow> set_cell c v s = s"
  by (auto intro: kstate.equality)

lemma split_room: "w32 n + MMLIST_HEAD_SIZE + MM_MIN_SIZE = w32 (n + 40)"
  by (simp add: MMLIST_HEAD_SIZE_def MM_MIN_SIZE_def MM_MIN_BIT_def push_bit_eq_mult add.assoc)

lemma cut_header:
  assumes h: "mem (umem s) (b + 4) = hdr n' fr pf" "8 dvd n'" and b: "b + (n + 8) \<le> 2 ^ 32" and n: "8 dvd n"
  shows "w32 n OR (blk_buf_size s (w32 b) AND RHINO_MM_PRESTAT_MASK) = w32 (hdr n False pf)"
    and "mem (umem (set_buf_size (w32 b) (w32 (hdr n False pf)) s)) = (mem (umem s))(b + 4 := hdr n False pf)"
    and "MM_GET_NEXT_BLK (set_buf_size (w32 b) (w32 (hdr n False pf)) s) (w32 b) = w32 (b + (n + 8))"
proof -
  have b8: "b + 8 \<le> 2 ^ 32" using b by simp
  note W = hdr_words(1,2) [OF h(1) b8 h(2)]
  have lt: "hdr n False pf < 2 ^ 32" using hdr_le [of n False pf] b by simp
  show "w32 n OR (blk_buf_size s (w32 b) AND RHINO_MM_PRESTAT_MASK) = w32 (hdr n False pf)"
    unfolding W(1) hdr_and_flags(3) [OF h(2) W(2)] by (rule hdr_make(2) [OF n lt])
  show m: "mem (umem (set_buf_size (w32 b) (w32 (hdr n False pf)) s)) = (mem (umem s))(b + 4 := hdr n False pf)"
    using mem_upd_cells(2) [of b "hdr n False pf" "umem s"] b8 lt by simp
  show "MM_GET_NEXT_BLK (set_buf_size (w32 b) (w32 (hdr n False pf)) s) (w32 b) = w32 (b + (n + 8))"
    by (rule hdr_words(5) [OF _ b8 n]) (simp only: m fun_upd_same)
qed

lemma mm_split_ok:
  assumes g: "gap s H a xs (n + 8 + k) ys pfy FL" and h: "mem (umem s) (b + 4) = hdr n' fr (last_free False xs)" "8 dvd n'"
    and nf: "\<not> is_free (hd ys)" and n: "tile_ok (Used n)" and k: "8 dvd k" "32 \<le> k"
    and b: "b = a + total xs" and d: "d = b + (n + 8 + k + 8)"
  defines "s' \<equiv> mm_split s H (w32 b) (w32 d) (w32 n) (w32 k)"
  shows "\<exists>FL'. heap s' H a (xs @ Used n # Free k # ys) FL'" and "mm_frame s H (cells a (xs @ Used n # Free k # ys)) s'"
proof -
  let ?W = "cells a (xs @ Used n # Free k # ys)" and ?pf = "last_free False xs"
  obtain c where c: "c = b + (n + 8)" by simp
  have c2: "c = a + total (xs @ [Used n])" by (simp add: c b)
  have d2: "d = c + (k + 8)" by (simp add: d c)
  note G = gapD [OF g, folded b]
  have d8: "d + 8 \<le> 2 ^ 32" using open_next(3) [OF g] by (simp add: d b)
  have b8: "b + 8 \<le> 2 ^ 32" using d8 d by simp
  obtain u us where ys: "ys = u # us" using G(2) by (cases ys) auto
  have n8: "8 dvd n" "8 \<le> n" using n by simp_all
  have "b + (n + 8) \<le> 2 ^ 32" using d8 d by simp
  note C = cut_header [OF h this n8(1)]
  have "hdr k True False < 2 ^ 32" using hdr_le [of k True False] d8 d by simp
  note E2 = hdr_make(1) [OF k(1) this]
  define s1 where "s1 = set_buf_size (w32 b) (w32 (hdr n False ?pf)) s"
  have s1: "set_buf_size (w32 b) (w32 n OR (blk_buf_size s (w32 b) AND RHINO_MM_PRESTAT_MASK)) s = s1"
    unfolding C(1) s1_def ..
  have e4: "w32 b + 4 = w32 (b + 4)" by simp
  have g1: "gap s1 H a xs (n + 8 + k) ys pfy FL"
    unfolding s1_def e4 by (rule gap_write [OF g b]) simp_all
  have h1: "mem (umem s1) (b + 4) = hdr n False ?pf" unfolding s1_def C(2) by simp
  have "tile_ok (Used k)" using k by simp
  note g2 = gap_split [OF g1 n this b h1]
  have nx: "MM_GET_NEXT_BLK s1 (w32 b) = w32 c" unfolding c s1_def by (rule C(3))
  define s2 where "s2 = set_prev (w32 c) (w32 b) s1"
  have g3: "gap s2 H a (xs @ [Used n]) k ys pfy FL"
    unfolding s2_def by (rule gap_write [OF g2 c2]) simp_all
  define s3 where "s3 = set_buf_size (w32 c) (w32 k OR RHINO_MM_FREE OR RHINO_MM_PREVALLOCED) s2"
  have o3: "open_heap s3 H a (xs @ [Used n]) k True ys pfy FL"
    using gap_set_hdr [OF g3 c2, of True] unfolding s3_def E2 by simp
  define s4 where "s4 = set_prev (w32 d) (w32 c) s3"
  have o4: "open_heap s4 H a (xs @ [Used n]) k True ys pfy FL" unfolding s4_def by (rule open_set_next(2) [OF o3 nf c2 d2])
  define s5 where "s5 = set_buf_size (w32 d) (blk_buf_size s4 (w32 d) OR RHINO_MM_PREVFREE) s4"
  note N = open_next [OF open_heapD(1) [OF o4], folded c2, OF d2]
  note W4 = hdr_words(1,2) [OF N(1,3,2)]
  have s5: "s5 = set_cell (w32 d + 4) (w32 (hdr (bsize (hd ys)) False True)) s4"
    unfolding s5_def W4(1) hdr_set_flags(2) [OF N(2) W4(2)] using nf by simp
  have o5: "open_heap s5 H a (xs @ [Used n]) k True ys True FL" unfolding s5 by (rule open_set_next(1) [OF o4 nf c2 d2])
  have "mem (umem s4) d = c" using mem_set_cell [of d s3 "w32 c"] unat_word_of_nat32 [of c] d8 d2 by (simp add: s4_def)
  then have p: "mem (umem s5) (c + (k + 8)) = c"
    using mem_set_cell [of "d + 4" s4] d8 by (simp add: s5 d2 [symmetric])
  have s': "s' = k_mm_freelist_insert s5 H (w32 c)"
    unfolding s'_def mm_split_def by (simp only: s1 Let_def nx s2_def [symmetric] s3_def [symmetric] s4_def [symmetric] s5_def [symmetric])
  have "\<not> last_free False (xs @ [Used n])" by simp
  note I = heap_insert [OF o5 this k(2) c2 p, folded s']
  show "\<exists>FL'. heap s' H a (xs @ Used n # Free k # ys) FL'" using I(1) by (auto simp: append_assoc)
  let ?ts = "xs @ Used n # Free k # ys"
  have bm: "(b, Used n) \<in> set (loc a ?ts)" "(c, Free k) \<in> set (loc a ?ts)" "(d, u) \<in> set (loc a ?ts)"
    by (simp_all add: loc_append b ys d c)
  have un: "unat (w32 b + 4) = b + 4" "unat (w32 c) = c" "unat (w32 c + 4) = c + 4" "unat (w32 d) = d" "unat (w32 d + 4) = d + 4"
    using unat_word_of_nat32 [of "b + 4"] unat_word_of_nat32 [of c] unat_word_of_nat32 [of "c + 4"] unat_word_of_nat32 [of d]
      unat_word_of_nat32 [of "d + 4"] d8 d2 c by simp_all
  have w: "unat (w32 b + 4) \<in> ?W" "unat (w32 c) \<in> ?W" "unat (w32 c + 4) \<in> ?W" "unat (w32 d) \<in> ?W" "unat (w32 d + 4) \<in> ?W"
    unfolding un using cells_header [OF bm(1)] cells_header [OF bm(2)] cells_header [OF bm(3)] by simp_all
  have "mm_frame s H ?W s1" "mm_frame s1 H ?W s2" "mm_frame s2 H ?W s3" "mm_frame s3 H ?W s4" "mm_frame s4 H ?W s5"
    unfolding s1_def s2_def s3_def s4_def s5_def by (intro mm_frame_set_cell w)+
  moreover have "mm_frame s5 H ?W s'" using I(2) by simp
  ultimately show "mm_frame s H ?W s'" by (blast intro: mm_frame_trans)
qed

text \<open>The heap after a block of size \<open>n\<close> has been taken from a free block of size \<open>m\<close>.\<close>

definition carve :: "tile list \<Rightarrow> nat \<Rightarrow> nat \<Rightarrow> tile list \<Rightarrow> tile list" where
  "carve xs m n ys = xs @ (if n + 40 \<le> m then [Used n, Free (m - n - 8)] else [Used m]) @ ys"

lemma heap_flags:
  assumes "heap s H a (xs @ Free m # ys) FL"
  shows "\<not> last_free False xs" and "\<not> is_free (hd ys)" "ys \<noteq> []"
proof -
  have l: "layout a (xs @ Free m # ys)" using assms by (simp add: heap_def)
  obtain u us where "ys = u # us" using layout_end [OF l] by auto
  then show "\<not> last_free False xs" "\<not> is_free (hd ys)" "ys \<noteq> []" using assms by (auto simp: heap_def tiles_append)
qed

lemma add_stats:
  assumes h: "heap s H a ts FL"
  shows "heap (set_head H (\<lambda>h. addsize h sz rq) s) H a ts FL" "mm_frame s H W (set_head H (\<lambda>h. addsize h sz rq) s)"
    and "heap (set_head H (\<lambda>h. removesize h sz) s) H a ts FL" "mm_frame s H W (set_head H (\<lambda>h. removesize h sz) s)"
  by (rule heap_set_head [OF h] mm_frame_set_head; simp)+

lemma mm_take_ok:
  fixes rq :: u32
  assumes h: "heap s H a (xs @ Free m # ys) FL" and n: "n \<le> m" "8 dvd n" "32 \<le> n" and b: "b = a + total xs"
  defines "r \<equiv> mm_take s H (w32 b) (w32 n) rq"
  shows "fst r = w32 (b + 8)" and "\<exists>FL'. heap (snd r) H a (carve xs m n ys) FL'"
    and "mm_frame s H (cells a (xs @ Free m # ys)) (snd r)"
proof -
  let ?W = "cells a (xs @ Free m # ys)"
  have "\<not> is_fence (Free m)" by simp
  note A = heap_address [OF h b this] and P = heap_flags [OF h]
  define s1 where "s1 = k_mm_freelist_delete s H (w32 b)"
  note T = heap_take [OF h b, folded s1_def]
  note g = open_heapD(1) [OF T(1)] and hd = open_heapD(2) [OF T(1), folded b]
  note G = gapD [OF g, folded b]
  obtain d where d: "d = b + (m + 8)" by simp
  note N = open_next [OF g, folded b, OF d]
  have b8: "b + 8 \<le> 2 ^ 32" using A(1) by simp
  note W = hdr_words [OF hd b8 G(8)]
  have lt: "m < 2 ^ 19" using layout_free_level(3) [of a "xs @ Free m # ys" b m] h by (simp add: heap_def loc_append b)
  define nb where "nb = MM_GET_NEXT_BLK s1 (w32 b)"
  have nb: "nb = w32 d" by (simp add: nb_def W(5) d)
  define s2 where "s2 = (if MM_GET_BUF_SIZE s1 (w32 b) \<ge> w32 n + MMLIST_HEAD_SIZE + MM_MIN_SIZE then
                 let left_size = MM_GET_BUF_SIZE s1 (w32 b) - w32 n - MMLIST_HEAD_SIZE;
                     s = set_buf_size (w32 b) (w32 n OR (blk_buf_size s1 (w32 b) AND RHINO_MM_PRESTAT_MASK)) s1;
                     new_b = MM_GET_NEXT_BLK s (w32 b);
                     s = set_prev new_b (w32 b) s;
                     s = set_buf_size new_b (left_size OR RHINO_MM_FREE OR RHINO_MM_PREVALLOCED) s;
                     s = set_prev nb new_b s
                 in k_mm_freelist_insert s H new_b
               else set_buf_size nb (blk_buf_size s1 nb AND NOT RHINO_MM_PREVFREE) s1)"
  define s3 where "s3 = set_buf_size (w32 b) (blk_buf_size s2 (w32 b) AND NOT RHINO_MM_FREE) s2"
  define s4 where "s4 = set_head H (\<lambda>h. addsize h (MM_GET_BLK_SIZE s3 (w32 b)) rq) s3"
  have run: "r = (w32 (b + 8), s4)"
    unfolding r_def mm_take_def A(4)
    by (simp only: Let_def s1_def [symmetric] nb_def [symmetric] s2_def [unfolded Let_def, symmetric] s3_def [symmetric] A(2)
          not_False_eq_True if_True s4_def [symmetric] A(4))
  have cond: "MM_GET_BUF_SIZE s1 (w32 b) \<ge> w32 n + MMLIST_HEAD_SIZE + MM_MIN_SIZE \<longleftrightarrow> n + 40 \<le> m"
  proof -
    show ?thesis unfolding W(3) split_room using w32_le [of "n + 40" m] n lt by simp
  qed
  have "(\<exists>FL'. heap s3 H a (carve xs m n ys) FL') \<and> mm_frame s1 H ?W s3"
  proof (cases "n + 40 \<le> m")
    case True
    define k where "k = m - n - 8"
    have k: "m = n + 8 + k" "32 \<le> k" "8 dvd k" using True G(8) n(2) by (simp_all add: k_def dvd_diff_nat)
    have left: "MM_GET_BUF_SIZE s1 (w32 b) - w32 n - MMLIST_HEAD_SIZE = w32 k"
      unfolding W(3) k(1) by (simp add: MMLIST_HEAD_SIZE_def)
    have nn: "tile_ok (Used n)" using n by simp
    have d': "d = b + (n + 8 + k + 8)" by (simp add: d k(1))
    note S = mm_split_ok [OF g [unfolded k(1)] hd G(8) P(2) nn k(3,2) b d', folded k(1)]
    have bn: "b + (n + 8) \<le> 2 ^ 32" using N(3) d' by simp
    note C = cut_header [OF hd G(8) bn n(2)]
    define c where "c = b + (n + 8)"
    have ne: "w32 d + 4 \<noteq> w32 b + 4" "w32 d + 4 \<noteq> w32 c" "w32 d + 4 \<noteq> w32 c + 4" "w32 d + 4 \<noteq> w32 d"
      using w32_inject [of "d + 4" "b + 4"] w32_inject [of "d + 4" c] w32_inject [of "d + 4" "c + 4"] w32_inject [of "d + 4" d]
        N(3) d' k(2) by (simp_all add: c_def)
    define t where "t = set_prev (w32 d) (w32 c) (set_buf_size (w32 c) (w32 k OR RHINO_MM_FREE OR RHINO_MM_PREVALLOCED)
      (set_prev (w32 c) (w32 b) (set_buf_size (w32 b) (w32 (hdr n False (last_free False xs))) s1)))"
    note W2 = hdr_words(1,2) [OF N(1,3,2)]
    have t: "blk_buf_size t (w32 d) = w32 (hdr (bsize (List.hd ys)) (is_free (List.hd ys)) True)" using ne W2(1) by (simp add: t_def)
    have "blk_buf_size t (w32 d) OR RHINO_MM_PREVFREE = blk_buf_size t (w32 d)"
      unfolding t by (rule hdr_set_flags(2) [OF N(2) W2(2)])
    then have same: "set_buf_size (w32 d) (blk_buf_size t (w32 d) OR RHINO_MM_PREVFREE) t = t" by (intro set_cell_same) simp
    have "s2 = k_mm_freelist_insert t H (w32 c)"
      unfolding s2_def using cond True by (simp only: simp_thms if_True Let_def left C(1,3) c_def [symmetric] nb t_def)
    moreover have "mm_split s1 H (w32 b) (w32 d) (w32 n) (w32 k) = k_mm_freelist_insert t H (w32 c)"
      unfolding mm_split_def by (simp only: Let_def C(1,3) c_def [symmetric] t_def [symmetric] same)
    ultimately have s2: "s2 = mm_split s1 H (w32 b) (w32 d) (w32 n) (w32 k)" by simp
    obtain FL' where h2: "heap s2 H a (xs @ Used n # Free k # ys) FL'" using S(1) s2 by auto
    have tb: "mem (umem s2) (b + 4) = hdr n False (last_free False xs)" using h2 by (simp add: heap_def tiles_append b)
    note W3 = hdr_words(1,2) [OF tb b8 n(2)]
    have "blk_buf_size s2 (w32 b) AND NOT RHINO_MM_FREE = blk_buf_size s2 (w32 b)"
      unfolding W3(1) hdr_set_flags(3) [OF n(2) W3(2)] ..
    then have "s3 = s2" unfolding s3_def by (intro set_cell_same) simp
    moreover have W': "cells a (xs @ Used n # Free k # ys) \<subseteq> ?W"
      unfolding k(1) by (rule cells_less) (auto simp: loc_append ac_simps)
    moreover have "carve xs m n ys = xs @ Used n # Free k # ys" using True by (simp add: carve_def k_def)
    ultimately show ?thesis using h2 mm_frame_mono [OF S(2) W'] s2 by auto
  next
    case False
    then have s2: "s2 = set_buf_size nb (blk_buf_size s1 nb AND NOT RHINO_MM_PREVFREE) s1" using cond by (simp add: s2_def)
    note W2 = hdr_words(1,2) [OF N(1,3,2)]
    have s2': "s2 = set_cell (w32 d + 4) (w32 (hdr (bsize (List.hd ys)) False False)) s1"
      unfolding s2 nb W2(1) hdr_set_flags(4) [OF N(2) W2(2)] using P(2) by simp
    have o2: "open_heap s2 H a xs m True ys False (FL(lev m := remove1 b (FL (lev m))))"
      unfolding s2' by (rule open_set_next(1) [OF T(1) P(2) b d])
    have o3: "open_heap s3 H a xs m False ys False (FL(lev m := remove1 b (FL (lev m))))"
      unfolding s3_def by (rule release_mark(2) [OF o2 b])
    obtain u us where ys: "ys = u # us" using P(3) by (cases ys) auto
    have "(d, u) \<in> set (loc a (xs @ Free m # ys))" by (simp add: loc_append ys b d)
    then have "unat (w32 d + 4) \<in> ?W"
      using cells_header(2) [of d u a "xs @ Free m # ys"] unat_word_of_nat32 [of "d + 4"] N(3) by simp
    then have "mm_frame s1 H ?W s2" unfolding s2' by (rule mm_frame_set_cell)
    moreover have "mm_frame s2 H ?W s3" unfolding s3_def by (rule gap_frame_hdr [OF open_heapD(1) [OF o2] b])
    ultimately have "mm_frame s1 H ?W s3" by (rule mm_frame_trans)
    then show ?thesis using open_close [OF o3] False by (auto simp: carve_def)
  qed
  then obtain FL' where h3: "heap s3 H a (carve xs m n ys) FL'" and f3: "mm_frame s1 H ?W s3" by blast
  show "fst r = w32 (b + 8)" by (simp add: run)
  show "\<exists>FL'. heap (snd r) H a (carve xs m n ys) FL'" using add_stats(1) [OF h3] by (auto simp: run s4_def)
  have "mm_frame s H ?W s3" using T(2) f3 by (rule mm_frame_trans)
  then show "mm_frame s H ?W (snd r)" using add_stats(2) [OF h3] unfolding run s4_def snd_conv by (rule mm_frame_trans)
qed

end
