(* ===== verification/Mm_Correct.thy ===== *)
theory Mm_Correct
  imports Mm_Alloc
begin

text \<open>
  The heap with its pool of small blocks: what \<^verbatim>\<open>k_mm_alloc\<close> and \<^verbatim>\<open>k_mm_free\<close> promise their callers.
\<close>

section \<open>The heap and its pool\<close>

text \<open>The pool of small blocks lies in the block at \<open>pb\<close>, if there is a pool; its free blocks are \<open>fs\<close>.\<close>

definition small_pool :: "kstate \<Rightarrow> ptr \<Rightarrow> nat \<Rightarrow> tile list \<Rightarrow> nat \<Rightarrow> ptr list \<Rightarrow> bool" where
  "small_pool s H a ts pb fs \<longleftrightarrow>
     (let pool = fix_pool (mm_heads s H); P = mblk_pools s pool
      in if pool = NULL then fs = [] \<and> pb = 0
         else pool_rep s pool fs
           \<and> (\<exists>n. (pb, Used n) \<in> set (loc a ts) \<and> pb + 8 < unat (pool_start P) \<and> unat (pool_end P) \<le> pb + 8 + n))"

definition mm_ok :: "kstate \<Rightarrow> ptr \<Rightarrow> nat \<Rightarrow> tile list \<Rightarrow> nat \<Rightarrow> ptr list \<Rightarrow> bool" where
  "mm_ok s H a ts pb fs \<longleftrightarrow> H \<noteq> NULL \<and> (\<exists>FL. heap s H a ts FL) \<and> small_pool s H a ts pb fs"

text \<open>What the owners write into their blocks does not reach the heap.\<close>

lemma heap_client:
  assumes h: "heap s H a ts FL" and hs: "mm_heads s' H = mm_heads s H"
    and c: "\<And>c. c \<in> cells a ts \<Longrightarrow> mem (umem s') c = mem (umem s) c"
  shows "heap s' H a ts FL"
proof -
  have l: "layout a ts" and f: "free_tiles a ts FL" and fl: "fl_ok s H FL" using h by (simp_all add: heap_def)
  have "tiles (mem (umem s')) 0 False a ts = tiles (mem (umem s)) 0 False a ts"
    by (rule tiles_frame) (use c cells_header in blast)
  moreover have "fl_ok s' H FL"
    by (rule fl_ok_frame [OF fl]) (use c cells_link [OF f l] hs in simp_all)
  ultimately show ?thesis using h by (simp add: heap_def)
qed

lemma mem_frame: "c < 2 ^ 32 \<Longrightarrow> mem M' c = mem M c \<longleftrightarrow> M' (w32 c) = M (w32 c)"
  by (metis mem_def w32_unat)

text \<open>The addresses of the pool are no cells of the heap.\<close>

lemma pool_not_cell:
  assumes p: "small_pool s H a ts pb fs" and np: "fix_pool (mm_heads s H) \<noteq> NULL"
    and keep: "\<And>n. (pb, Used n) \<in> set (loc a ts) \<Longrightarrow> (pb, Used n) \<in> set (loc a ts')"
    and x: "unat (pool_start (mblk_pools s (fix_pool (mm_heads s H)))) \<le> unat x" "unat x < unat (pool_end (mblk_pools s (fix_pool (mm_heads s H))))"
  shows "unat x \<notin> cells a ts'"
proof -
  obtain n where n: "(pb, Used n) \<in> set (loc a ts')" "pb + 8 < unat (pool_start (mblk_pools s (fix_pool (mm_heads s H))))"
    "unat (pool_end (mblk_pools s (fix_pool (mm_heads s H)))) \<le> pb + 8 + n"
    using p np keep by (auto simp: small_pool_def Let_def)
  then show ?thesis using x by (force simp: cells_def)
qed

lemma pool_block_in:
  assumes "pool_rep s pool fs" and "x \<in> pool_blocks (mblk_pools s pool)"
  shows "unat (pool_start (mblk_pools s pool)) \<le> unat x" "unat x < unat (pool_end (mblk_pools s pool))"
proof -
  note R = pool_repD [OF assms(1)]
  have "4 \<le> unat (pool_blk_size (mblk_pools s pool))" using R(2) by (simp add: pool_wf_def)
  then show "unat (pool_start (mblk_pools s pool)) \<le> unat x" "unat x < unat (pool_end (mblk_pools s pool))"
    using pool_block_bounds(1,2) [OF R(2) assms(2)] by linarith+
qed

lemma small_pool_frame:
  assumes p: "small_pool s H a ts pb fs" and f: "mm_frame s H W s'"
    and keep: "\<And>n. (pb, Used n) \<in> set (loc a ts) \<Longrightarrow> (pb, Used n) \<in> set (loc a ts')"
    and W: "\<And>n c. (pb, Used n) \<in> set (loc a ts) \<Longrightarrow> pb + 8 \<le> c \<Longrightarrow> c < pb + 8 + n \<Longrightarrow> c \<notin> W"
  shows "small_pool s' H a ts' pb fs"
proof -
  let ?p = "fix_pool (mm_heads s H)"
  obtain M h where s': "s' = s\<lparr>umem := M, mm_heads := (mm_heads s)(H := h)\<rparr>" "fix_pool h = ?p"
    and c: "\<And>c. c \<notin> W \<Longrightarrow> mem M c = mem (umem s) c"
    using f by (auto simp: mm_frame_def)
  show ?thesis
  proof (cases "?p = NULL")
    case True
    then show ?thesis using p s' by (simp add: small_pool_def)
  next
    case False
    have r: "pool_rep s ?p fs" using p False by (simp add: small_pool_def Let_def)
    obtain n where n: "(pb, Used n) \<in> set (loc a ts)" "pb + 8 < unat (pool_start (mblk_pools s ?p))" "unat (pool_end (mblk_pools s ?p)) \<le> pb + 8 + n"
      using p False by (auto simp: small_pool_def Let_def)
    have "pool_rep (s\<lparr>umem := M\<rparr>) ?p fs"
    proof (rule pool_rep_user [OF r])
      fix x assume "x \<in> set fs"
      then have "x \<in> pool_blocks (mblk_pools s ?p)" using pool_repD(4) [OF r] by blast
      note pool_block_in [OF r this]
      then have "unat x \<notin> W" using n by (intro W [OF n(1)]) linarith+
      from c [OF this] show "M x = umem s x" using mem_frame [of "unat x" M "umem s"] unsigned_less [where 'a = nat, of x] by simp
    qed
    then have "pool_rep s' ?p fs" unfolding s' by (simp add: pool_rep_def Let_def)
    moreover have "mblk_pools s' = mblk_pools s" "fix_pool (mm_heads s' H) = ?p" using s' by simp_all
    ultimately show ?thesis using p False keep by (auto simp: small_pool_def Let_def)
  qed
qed

lemma used_not_cell: "(b, Used n) \<in> set (loc a ts) \<Longrightarrow> b + 8 \<le> c \<Longrightarrow> c < b + 8 + n \<Longrightarrow> c \<notin> cells a ts"
  by (fastforce simp: cells_def)

section \<open>Allocation\<close>

definition need :: "nat \<Rightarrow> nat" where
  "need rq = max 32 ((rq + 7) div 8 * 8)"

lemma need_props: "8 dvd need rq" "32 \<le> need rq" "rq \<le> need rq"
proof -
  show "8 dvd need rq" by (simp add: need_def max_def)
  show "32 \<le> need rq" by (simp add: need_def)
  have "rq \<le> (rq + 7) div 8 * 8" by presburger
  then show "rq \<le> need rq" by (simp add: need_def)
qed

lemma alloc_size:
  assumes "unat rq + 7 < 2 ^ 32"
  shows "(let sz = MM_ALIGN_UP rq in if sz < MM_MIN_SIZE then MM_MIN_SIZE else sz) = w32 (need (unat rq))" "need (unat rq) < 2 ^ 32"
proof -
  let ?n = "(unat rq + 7) div 8 * 8"
  have n: "?n < 2 ^ 32" using assms by linarith
  then show "need (unat rq) < 2 ^ 32" by (simp add: need_def)
  have "MM_MIN_SIZE = w32 32" by (simp add: MM_MIN_SIZE_def MM_MIN_BIT_def push_bit_eq_mult)
  then show "(let sz = MM_ALIGN_UP rq in if sz < MM_MIN_SIZE then MM_MIN_SIZE else sz) = w32 (need (unat rq))"
    unfolding Let_def align_up [OF assms] using w32_less [OF n, of 32] by (auto simp: need_def max_def)
qed

text \<open>No pool, or none of its blocks wanted or left: the search through the free lists.\<close>

lemma used_carve: "(x, Used k) \<in> set (loc a (xs @ Free m # ys)) \<Longrightarrow> n \<le> m \<Longrightarrow> (x, Used k) \<in> set (loc a (carve xs m n ys))"
  by (auto simp: carve_def loc_append ac_simps)

lemma k_mm_alloc_large:
  assumes ok: "mm_ok s H a ts pb fs" and rq: "rq \<noteq> 0" "unat rq + 7 < 2 ^ 32"
    and big: "\<not> (fix_pool (mm_heads s H) \<noteq> NULL \<and> rq \<le> RHINO_CONFIG_MM_BLK_SIZE \<and> blk_avail (mblk_pools s (fix_pool (mm_heads s H))) > 0)"
  shows "k_mm_alloc s H rq =
     (let sz = w32 (need (unat rq)); level = size_to_level sz
      in if level = - 1 then Some (NULL, s)
         else case mm_find s H sz level of None \<Rightarrow> None
              | Some get_b \<Rightarrow> if get_b = NULL then Some (NULL, s) else Some (mm_take s H get_b sz rq))"
proof -
  have H: "H \<noteq> NULL" using ok by (simp add: mm_ok_def)
  show ?thesis
    unfolding k_mm_alloc_def Let_def alloc_size(1) [OF rq(2), unfolded Let_def] if_not_P [OF big] using H rq(1) by simp
qed

text \<open>What an allocation of a block from the free lists does.\<close>

definition taken :: "kstate \<Rightarrow> ptr \<Rightarrow> nat \<Rightarrow> tile list \<Rightarrow> nat \<Rightarrow> ptr \<Rightarrow> kstate \<Rightarrow> tile list \<Rightarrow> bool" where
  "taken s H a ts n p s' ts' \<longleftrightarrow>
     (\<exists>xs m ys. ts = xs @ Free m # ys \<and> n \<le> m \<and> p = w32 (a + total xs + 8) \<and> ts' = carve xs m n ys
        \<and> mm_frame s H (cells a ts) s')"

lemma mm_alloc_search:
  fixes rq :: u32
  assumes ok: "mm_ok s H a ts pb fs" and n: "n < 2 ^ 32" "8 dvd n" "32 \<le> n"
  defines "r \<equiv> (let sz = w32 n; level = size_to_level sz
      in if level = - 1 then Some (NULL, s)
         else case mm_find s H sz level of None \<Rightarrow> None
              | Some get_b \<Rightarrow> if get_b = NULL then Some (NULL, s) else Some (mm_take s H get_b sz rq))"
  shows "(r = Some (NULL, s) \<and> (\<forall>m. Free m \<in> set ts \<longrightarrow> m < n))
    \<or> (\<exists>p s' ts'. r = Some (p, s') \<and> p \<noteq> NULL \<and> taken s H a ts n p s' ts' \<and> mm_ok s' H a ts' pb fs)"
proof -
  obtain FL where h: "heap s H a ts FL" using ok by (auto simp: mm_ok_def)
  have lay: "layout a ts" using h by (simp add: heap_def)
  show ?thesis
  proof (cases "n < 2 ^ 19")
    case False
    then have "r = Some (NULL, s)" using level_large [of n] n(1) by (simp add: r_def)
    moreover have "m < n" if "Free m \<in> set ts" for m
      using spans_bsize [of 0 ts "Free m"] lay that False by (fastforce simp: layout_def)
    ultimately show ?thesis by blast
  next
    case True
    then have l: "size_to_level (w32 n) = int (lev n)" using level_small [of n] n(3) by simp
    have n0: "0 < n" using n(3) by simp
    show ?thesis
    proof (cases rule: mm_find_ok [OF h n0 True])
      case (1 x m)
      have z: "w32 x \<noteq> NULL" using w32_0 [of x] 1(4,5) by simp
      obtain xs ys where ts: "ts = xs @ Free m # ys" "x = a + total xs" using 1(2) by (auto simp: loc_split)
      note T = mm_take_ok [OF h [unfolded ts(1)] 1(3) n(2,3) ts(2), of rq]
      have nf: "\<not> is_fence (Free m)" by simp
      let ?t = "mm_take s H (w32 x) (w32 n) rq"
      have r: "r = Some ?t" using 1(1) z l by (simp add: r_def Let_def)
      have sp: "small_pool s H a (xs @ Free m # ys) pb fs" using ok by (simp add: mm_ok_def ts(1))
      have "small_pool (snd ?t) H a (carve xs m n ys) pb fs"
        by (rule small_pool_frame [OF sp T(3)]) (use used_carve 1(3) used_not_cell in blast)+
      then have "mm_ok (snd ?t) H a (carve xs m n ys) pb fs" using T(2) ok by (auto simp: mm_ok_def)
      moreover have "taken s H a ts n (fst ?t) (snd ?t) (carve xs m n ys)"
        using T(1,3) 1(3) ts unfolding taken_def by blast
      moreover have "fst ?t \<noteq> NULL" using heap_address(2) [OF h [unfolded ts(1)] ts(2) nf] T(1) by simp
      ultimately show ?thesis using r by (metis prod.collapse)
    next
      case 2
      then have "r = Some (NULL, s)" using l by (simp add: r_def Let_def)
      moreover have "m < n" if m: "Free m \<in> set ts" for m
      proof -
        obtain xs ys where "ts = xs @ Free m # ys" using split_list [OF m] by blast
        then have "(a + total xs, Free m) \<in> set (loc a ts)" by (simp add: loc_append)
        then show ?thesis using 2(2) by blast
      qed
      ultimately show ?thesis by blast
    qed
  qed
qed

lemma k_mm_alloc_search:
  assumes ok: "mm_ok s H a ts pb fs" and rq: "rq \<noteq> 0" "unat rq + 7 < 2 ^ 32"
    and big: "\<not> (fix_pool (mm_heads s H) \<noteq> NULL \<and> rq \<le> RHINO_CONFIG_MM_BLK_SIZE \<and> blk_avail (mblk_pools s (fix_pool (mm_heads s H))) > 0)"
  shows "(k_mm_alloc s H rq = Some (NULL, s) \<and> (\<forall>m. Free m \<in> set ts \<longrightarrow> m < need (unat rq)))
    \<or> (\<exists>p s' ts'. k_mm_alloc s H rq = Some (p, s') \<and> p \<noteq> NULL \<and> taken s H a ts (need (unat rq)) p s' ts' \<and> mm_ok s' H a ts' pb fs)"
  by (rule mm_alloc_search [OF ok alloc_size(2) [OF rq(2)] need_props(1,2), of rq, folded k_mm_alloc_large [OF ok rq big]])

section \<open>The pool\<close>

lemma small_poolD:
  assumes "mm_ok s H a ts pb fs" and "fix_pool (mm_heads s H) \<noteq> NULL"
  shows "pool_rep s (fix_pool (mm_heads s H)) fs" and "\<exists>n. (pb, Used n) \<in> set (loc a ts)"
  using assms by (auto simp: mm_ok_def small_pool_def Let_def)

lemma mm_ok_add_stats:
  assumes "mm_ok s H a ts pb fs"
  shows "mm_ok (set_head H (\<lambda>h. addsize h sz rq) s) H a ts pb fs" and "mm_ok (set_head H (\<lambda>h. removesize h sz) s) H a ts pb fs"
  using assms by (auto simp: mm_ok_def small_pool_def Let_def pool_rep_def intro!: heap_set_head)

lemma smallblk_alloc_ok:
  assumes ok: "mm_ok s H a ts pb (x # fs)"
  shows "\<exists>s'. k_mm_smallblk_alloc s H = (x, s') \<and> mm_ok s' H a ts pb fs \<and> umem s' = umem s \<and> x \<noteq> NULL"
proof -
  let ?p = "fix_pool (mm_heads s H)"
  let ?P = "mblk_pools s ?p"
  have p: "?p \<noteq> NULL" using ok by (auto simp: mm_ok_def small_pool_def Let_def)
  note R = pool_repD [OF small_poolD(1) [OF ok p]]
  have H: "H \<noteq> NULL" using ok by (simp add: mm_ok_def)
  have av: "blk_avail ?P \<noteq> 0" "avail_list ?P = x" using R(5,6) by auto
  define P' where "P' = ?P\<lparr>avail_list := umem s x, blk_avail := blk_avail ?P - 1\<rparr>"
  define s1 where "s1 = s\<lparr>mblk_pools := (mblk_pools s)(?p := P')\<rparr>"
  have "mblk_alloc_local s ?p = (RHINO_SUCCESS, x, s1)"
    using p av by (simp add: mblk_alloc_local_def Let_def word_neq_0_conv [symmetric])
      (intro kstate.equality; simp add: s1_def P'_def)
  then have run: "k_mm_smallblk_alloc s H = (x, set_head H (\<lambda>h. addsize h RHINO_CONFIG_MM_BLK_SIZE 0) s1)"
    using H by (simp add: k_mm_smallblk_alloc_def)
  have "length fs = unat (blk_avail ?P - 1)" using R(5) unat_minus_one [OF av(1)] by simp
  moreover have "\<exists>e. path (umem s) (umem s x) fs e" using R(6) by auto
  moreover have "pool_blocks P' = pool_blocks ?P" "pool_wf P' = pool_wf ?P"
    unfolding P'_def by (rule pool_blocks_cong pool_wf_cong; simp)+
  ultimately have "pool_rep s1 ?p fs"
    using R(1-4) unfolding pool_rep_def Let_def s1_def by (auto simp: P'_def)
  moreover have "heap s1 H a ts FL" if "heap s H a ts FL" for FL by (rule heap_client [OF that]) (simp_all add: s1_def)
  ultimately have "mm_ok s1 H a ts pb fs" using ok by (auto simp: mm_ok_def small_pool_def Let_def s1_def P'_def split: if_splits)
  then have "mm_ok (set_head H (\<lambda>h. addsize h RHINO_CONFIG_MM_BLK_SIZE 0) s1) H a ts pb fs" by (rule mm_ok_add_stats(1))
  moreover have "x \<noteq> NULL" using pool_block_bounds(3) [OF R(2), of x] R(4) by simp
  ultimately show ?thesis using run by (simp add: s1_def)
qed

lemma smallblk_free_ok:
  assumes ok: "mm_ok s H a ts pb fs" and p: "fix_pool (mm_heads s H) \<noteq> NULL"
    and x: "x \<in> pool_blocks (mblk_pools s (fix_pool (mm_heads s H)))" "x \<notin> set fs"
  shows "mm_ok (k_mm_smallblk_free s H x) H a ts pb (x # fs)" and "\<And>c. c \<noteq> x \<Longrightarrow> umem (k_mm_smallblk_free s H x) c = umem s c"
    and "krhino_mblk_check s (fix_pool (mm_heads s H)) x" "x \<noteq> NULL"
proof -
  let ?p = "fix_pool (mm_heads s H)"
  note R = pool_repD [OF small_poolD(1) [OF ok p]]
  have H: "H \<noteq> NULL" using ok by (simp add: mm_ok_def)
  show z: "x \<noteq> NULL" using pool_block_bounds(3) [OF R(2) x(1)] .
  obtain s1 where s1: "krhino_mblk_free s ?p x = (RHINO_SUCCESS, s1)" "pool_rep s1 ?p (x # fs)"
    "s1 = s\<lparr>umem := (umem s)(x := avail_list (mblk_pools s ?p)), mblk_pools := (mblk_pools s)(?p := (mblk_pools s ?p)
        \<lparr>avail_list := x, blk_avail := blk_avail (mblk_pools s ?p) + 1\<rparr>)\<rparr>"
    using mblk_free_rep [OF small_poolD(1) [OF ok p] x] by blast
  have run: "k_mm_smallblk_free s H x = set_head H (\<lambda>h. removesize h RHINO_CONFIG_MM_BLK_SIZE) s1"
    using H z s1(1) by (simp add: k_mm_smallblk_free_def)
  note B = pool_block_in [OF small_poolD(1) [OF ok p] x(1)]
  then show "krhino_mblk_check s ?p x" using p by (simp add: krhino_mblk_check_def word_le_nat_alt word_less_nat_alt)
  have sp: "small_pool s H a ts pb fs" using ok by (simp add: mm_ok_def)
  have nc: "unat x \<notin> cells a ts" by (rule pool_not_cell [OF sp p _ B])
  have same: "mem (umem s1) c = mem (umem s) c" if "c \<in> cells a ts" for c
  proof -
    have "w32 c \<noteq> x" if "c < 2 ^ 32" using unat_word_of_nat32 [OF that] nc \<open>c \<in> cells a ts\<close> by auto
    then show ?thesis by (simp add: mem_def s1(3))
  qed
  have "heap s1 H a ts FL" if "heap s H a ts FL" for FL by (rule heap_client [OF that _ same]) (simp_all add: s1(3))
  then have "mm_ok s1 H a ts pb (x # fs)"
    using ok s1(2) p unfolding mm_ok_def small_pool_def Let_def by (auto simp: s1(3) split: if_splits)
  then show "mm_ok (k_mm_smallblk_free s H x) H a ts pb (x # fs)" unfolding run by (rule mm_ok_add_stats(2))
  show "\<And>c. c \<noteq> x \<Longrightarrow> umem (k_mm_smallblk_free s H x) c = umem s c" by (simp add: run s1(3))
qed

section \<open>Blocks in use\<close>

text \<open>The blocks given out: addresses and sizes of their buffers.\<close>

definition blocks :: "nat \<Rightarrow> tile list \<Rightarrow> (nat \<times> nat) set" where
  "blocks a ts = {(b + 8, n) | b n. (b, Used n) \<in> set (loc a ts)}"

lemma blocks_disjoint:
  assumes "(x, n) \<in> blocks a ts" and "(y, k) \<in> blocks a ts" and "(x, n) \<noteq> (y, k)"
  shows "x + n + 8 \<le> y \<or> y + k + 8 \<le> x"
proof -
  obtain b c where b: "x = b + 8" "(b, Used n) \<in> set (loc a ts)" and c: "y = c + 8" "(c, Used k) \<in> set (loc a ts)"
    using assms(1,2) by (auto simp: blocks_def)
  have "b \<noteq> c" using loc_unique [OF b(2), of "Used k"] b c assms(3) by auto
  then show ?thesis using loc_disjoint [OF b(2) c(2)] loc_disjoint [OF c(2) b(2)] b c by fastforce
qed

lemma blocks_carve:
  assumes "n \<le> m"
  shows "\<exists>k. n \<le> k \<and> k < n + 40 \<and> k \<le> m \<and> blocks a (carve xs m n ys) = insert (a + total xs + 8, k) (blocks a (xs @ Free m # ys))"
proof (cases "n + 40 \<le> m")
  case True
  then have "blocks a (carve xs m n ys) = insert (a + total xs + 8, n) (blocks a (xs @ Free m # ys))"
    by (auto simp: blocks_def carve_def loc_append ac_simps)
  then show ?thesis using True by (intro exI [of _ n]) simp
next
  case False
  then have "blocks a (carve xs m n ys) = insert (a + total xs + 8, m) (blocks a (xs @ Free m # ys))"
    by (auto simp: blocks_def carve_def loc_append)
  then show ?thesis using False assms by (intro exI [of _ m]) simp
qed

lemma blocks_merge_next: "blocks a (zs @ Free (fst (merge_next n ys)) # snd (merge_next n ys)) = blocks a (zs @ Free n # ys)"
  by (cases "(n, ys)" rule: merge_next.cases) (auto simp: blocks_def loc_append ac_simps)

lemma blocks_release:
  "blocks a (release xs n ys) = blocks a (xs @ Free n # ys)"
proof -
  have 2: "blocks a (fst (merge_prev xs k) @ Free (snd (merge_prev xs k)) # us) = blocks a (xs @ Free k # us)" for k us
  proof (cases "last_free False xs")
    case True
    then obtain zs p where "xs = zs @ [Free p]" by (rule last_freeE)
    then show ?thesis by (simp add: merge_prev_def blocks_def loc_append ac_simps)
  qed (simp add: merge_prev_def)
  show ?thesis by (simp add: release_def case_prod_beta blocks_merge_next 2)
qed

lemma blocks_open: "blocks a (xs @ Used n # ys) = insert (a + total xs + 8, n) (blocks a (xs @ Free n # ys))"
  by (auto simp: blocks_def loc_append)

lemma blocks_open': "blocks a (xs @ Free n # ys) = blocks a (xs @ Used n # ys) - {(a + total xs + 8, n)}"
proof -
  have "(a + total xs, Used k) \<notin> set (loc a (xs @ Free n # ys))" for k
    using loc_unique [of "a + total xs" "Used k" a "xs @ Free n # ys" "Free n"] by (auto simp: loc_append)
  then have "(a + total xs + 8, n) \<notin> blocks a (xs @ Free n # ys)" by (auto simp: blocks_def)
  then show ?thesis using blocks_open [of a xs n ys] by simp
qed

lemma blocks_mem: "(x + 8, n) \<in> blocks a ts \<longleftrightarrow> (x, Used n) \<in> set (loc a ts)"
  by (auto simp: blocks_def)

lemma taken_blocks:
  assumes ok: "mm_ok s H a ts pb fs" and t: "taken s H a ts n p s' ts'"
  shows "\<exists>k. n \<le> k \<and> k < n + 40 \<and> blocks a ts' = insert (unat p, k) (blocks a ts) \<and> 8 dvd unat p
    \<and> (\<forall>(y, j) \<in> blocks a ts. unat p + k + 8 \<le> y \<or> y + j + 8 \<le> unat p)" and "mm_frame s H (cells a ts) s'"
proof -
  obtain xs m ys where t: "ts = xs @ Free m # ys" "n \<le> m" "p = w32 (a + total xs + 8)" "ts' = carve xs m n ys"
    and f: "mm_frame s H (cells a ts) s'"
    using t by (auto simp: taken_def)
  show "mm_frame s H (cells a ts) s'" by (rule f)
  obtain k where k: "n \<le> k" "k < n + 40" "k \<le> m" "blocks a ts' = insert (a + total xs + 8, k) (blocks a ts)"
    using blocks_carve [OF t(2), of a xs ys] t(1,4) by auto
  obtain FL where h: "heap s H a (xs @ Free m # ys) FL" using ok by (auto simp: mm_ok_def t(1))
  have "\<not> is_fence (Free m)" by simp
  note A = heap_address [OF h refl this]
  have up: "unat p = a + total xs + 8" unfolding t(3) using A(1) by (intro unat_word_of_nat32) simp
  have "8 dvd unat p" using A(5) up by (simp add: dvd_add)
  moreover have "unat p + k + 8 \<le> y \<or> y + j + 8 \<le> unat p" if y: "(y, j) \<in> blocks a ts" for y j
  proof -
    obtain c where c: "y = c + 8" "(c, Used j) \<in> set (loc a ts)" using y by (auto simp: blocks_def)
    have b: "(a + total xs, Free m) \<in> set (loc a ts)" by (simp add: loc_append t(1))
    have "c \<noteq> a + total xs" using loc_unique [OF c(2)] b by fastforce
    then show ?thesis using loc_disjoint [OF b c(2)] loc_disjoint [OF c(2) b] k(3) c(1) up by fastforce
  qed
  ultimately show "\<exists>k. n \<le> k \<and> k < n + 40 \<and> blocks a ts' = insert (unat p, k) (blocks a ts) \<and> 8 dvd unat p
    \<and> (\<forall>(y, j) \<in> blocks a ts. unat p + k + 8 \<le> y \<or> y + j + 8 \<le> unat p)"
    using k up by auto
qed

lemma not_small:
  assumes ok: "mm_ok s H a ts pb fs" and p: "(unat p, n) \<in> blocks a ts" "0 < n" "unat p \<noteq> pb + 8"
  shows "\<not> krhino_mblk_check s (fix_pool (mm_heads s H)) p"
proof
  let ?P = "mblk_pools s (fix_pool (mm_heads s H))"
  assume c: "krhino_mblk_check s (fix_pool (mm_heads s H)) p"
  then obtain k where k: "(pb, Used k) \<in> set (loc a ts)" "pb + 8 < unat (pool_start ?P)" "unat (pool_end ?P) \<le> pb + 8 + k"
    using ok by (auto simp: mm_ok_def small_pool_def Let_def krhino_mblk_check_def)
  then have "(pb + 8, k) \<in> blocks a ts" by (simp add: blocks_def)
  then have "unat p + n + 8 \<le> pb + 8 \<or> pb + 8 + k + 8 \<le> unat p" using blocks_disjoint [OF p(1)] p(3) by fastforce
  then show False using c k by (auto simp: krhino_mblk_check_def word_le_nat_alt word_less_nat_alt)
qed

lemma free_block_ok:
  assumes ok: "mm_ok s H a ts pb fs" and p: "(unat p, n) \<in> blocks a ts" "32 \<le> n" "unat p \<noteq> pb + 8"
  shows "\<exists>ts'. mm_ok (k_mm_free s H p) H a ts' pb fs \<and> blocks a ts' = blocks a ts - {(unat p, n)}
    \<and> mm_frame s H (cells a ts \<union> {unat p ..< unat p + n}) (k_mm_free s H p)"
proof -
  obtain b where b: "unat p = b + 8" "(b, Used n) \<in> set (loc a ts)" using p(1) by (auto simp: blocks_def)
  obtain xs ys where t: "ts = xs @ Used n # ys" "b = a + total xs" using b(2) by (auto simp: loc_split)
  obtain FL where h: "heap s H a (xs @ Used n # ys) FL" using ok by (auto simp: mm_ok_def t(1))
  have H: "H \<noteq> NULL" and sp: "small_pool s H a ts pb fs" using ok by (simp_all add: mm_ok_def)
  have pw: "p = w32 (b + 8)" using b(1) by (metis w32_unat)
  have bs: "blocks a (release xs n ys) = blocks a ts - {(unat p, n)}"
    unfolding blocks_release t(1) b(1) t(2) by (rule blocks_open')
  have pb: "(pb, Used k) \<in> set (loc a ts) \<Longrightarrow> (pb, Used k) \<in> set (loc a (xs @ Free n # ys)) \<and> (pb, Used k) \<in> set (loc a (release xs n ys))" for k
    using bs blocks_open' [of a xs n ys] p(3) b(1) unfolding blocks_mem [symmetric] t by auto
  have np: "\<not> krhino_mblk_check s (fix_pool (mm_heads s H)) (w32 (b + 8))"
    using not_small [OF ok p(1) _ p(3)] p(2) pw by simp
  note F = k_mm_free_ok [OF h p(2) t(2) H np, folded pw]
  have "small_pool (k_mm_free s H p) H a (release xs n ys) pb fs" by (rule small_pool_frame [OF sp F(2)]) (use pb used_not_cell in blast)+
  then have "mm_ok (k_mm_free s H p) H a (release xs n ys) pb fs" using F(1) H by (simp add: mm_ok_def)
  moreover have "cells a (xs @ Free n # ys) \<subseteq> cells a ts \<union> {unat p ..< unat p + n}"
  proof
    fix c assume c: "c \<in> cells a (xs @ Free n # ys)"
    have "c \<in> cells a ts" if "\<not> (unat p \<le> c \<and> c < unat p + n)"
      using c that b(1) t(2) unfolding cells_def t(1) by (auto simp: loc_append)
    then show "c \<in> cells a ts \<union> {unat p ..< unat p + n}" by auto
  qed
  then have "mm_frame s H (cells a ts \<union> {unat p ..< unat p + n}) (k_mm_free s H p)" by (rule mm_frame_mono [OF F(2)])
  ultimately show ?thesis using bs by blast
qed

text \<open>The owner of a block may write to all of it.\<close>

lemma mm_ok_client:
  assumes ok: "mm_ok s H a ts pb fs" and x: "(x, k) \<in> blocks a ts" "x \<noteq> pb + 8"
    and M: "\<And>c. \<not> (x \<le> unat c \<and> unat c < x + k) \<Longrightarrow> M c = umem s c"
  shows "mm_ok (s\<lparr>umem := M\<rparr>) H a ts pb fs"
proof -
  obtain b where b: "x = b + 8" "(b, Used k) \<in> set (loc a ts)" using x(1) by (auto simp: blocks_def)
  have m: "mem M c = mem (umem s) c" if "\<not> (x \<le> c \<and> c < x + k)" for c
  proof (cases "c < 2 ^ 32")
    case True
    then show ?thesis using M [of "w32 c"] that unat_word_of_nat32 [OF True] by (simp add: mem_def)
  qed (simp add: mem_def)
  have "heap (s\<lparr>umem := M\<rparr>) H a ts FL" if "heap s H a ts FL" for FL
  proof (rule heap_client [OF that])
    fix c assume "c \<in> cells a ts"
    then have "\<not> (x \<le> c \<and> c < x + k)" using used_not_cell [OF b(2)] b(1) by auto
    then show "mem (umem (s\<lparr>umem := M\<rparr>)) c = mem (umem s) c" using m by simp
  qed simp
  moreover have "small_pool (s\<lparr>umem := M\<rparr>) H a ts pb fs"
  proof (rule small_pool_frame)
    show "small_pool s H a ts pb fs" using ok by (simp add: mm_ok_def)
    show "mm_frame s H {x ..< x + k} (s\<lparr>umem := M\<rparr>)"
      unfolding mm_frame_def using m by (intro conjI exI [of _ M] exI [of _ "mm_heads s H"]) simp_all
    show "c \<notin> {x ..< x + k}" if "(pb, Used n) \<in> set (loc a ts)" "pb + 8 \<le> c" "c < pb + 8 + n" for n c
    proof -
      have "(pb + 8, n) \<in> blocks a ts" using that(1) by (simp add: blocks_def)
      then show ?thesis using blocks_disjoint [OF x(1)] x(2) that(2,3) by fastforce
    qed
  qed
  ultimately show ?thesis using ok by (auto simp: mm_ok_def)
qed

lemma block_not_pool:
  assumes ok: "mm_ok s H a ts pb fs" and "(x, k) \<in> blocks a ts'" and "\<forall>(y, j) \<in> blocks a ts. x + k + 8 \<le> y \<or> y + j + 8 \<le> x"
  shows "x \<noteq> pb + 8"
proof
  assume e: "x = pb + 8"
  then have "(pb, Used k) \<in> set (loc a ts')" using assms(2) by (auto simp: blocks_def)
  then have "a \<le> pb" using loc_bounds by blast
  moreover have "0 < a" using ok by (auto simp: mm_ok_def heap_def layout_def)
  ultimately obtain j where "(pb + 8, j) \<in> blocks a ts"
    using ok by (auto simp: mm_ok_def small_pool_def Let_def blocks_def split: if_splits)
  then show False using assms(3) e by auto
qed

section \<open>Properties\<close>

text \<open>C6: An allocation always returns. A small request takes the first block of the pool while there is
  one. Any other request fails only if no free block is large enough, and then changes nothing; otherwise
  it gets a block of at least the size asked for and less than 40 bytes more than needed, which is aligned
  and overlaps no block in use, and the heap writes to no block in use.\<close>

theorem k_mm_alloc_correct:
  assumes ok: "mm_ok s H a ts pb fs" and rq: "rq \<noteq> 0" "unat rq + 7 < 2 ^ 32"
  shows "\<exists>p s'. k_mm_alloc s H rq = Some (p, s') \<and>
    (if unat rq \<le> 16 \<and> fs \<noteq> [] then p = hd fs \<and> mm_ok s' H a ts pb (tl fs) \<and> umem s' = umem s
     else if \<forall>m. Free m \<in> set ts \<longrightarrow> m < need (unat rq) then p = NULL \<and> s' = s
     else p \<noteq> NULL \<and> mm_frame s H (cells a ts) s' \<and>
       (\<exists>ts' k. mm_ok s' H a ts' pb fs \<and> blocks a ts' = insert (unat p, k) (blocks a ts) \<and> 8 dvd unat p
          \<and> need (unat rq) \<le> k \<and> k < need (unat rq) + 40
          \<and> (\<forall>(y, j) \<in> blocks a ts. unat p + k + 8 \<le> y \<or> y + j + 8 \<le> unat p)))"
proof (cases "unat rq \<le> 16 \<and> fs \<noteq> []")
  case True
  then obtain x xs where fs: "fs = x # xs" by (cases fs) auto
  let ?p = "fix_pool (mm_heads s H)"
  have p: "?p \<noteq> NULL" using ok fs by (auto simp: mm_ok_def small_pool_def Let_def)
  have av: "blk_avail (mblk_pools s ?p) > 0"
    using pool_repD(5) [OF small_poolD(1) [OF ok p]] fs by (auto simp: word_neq_0_conv [symmetric])
  have le: "rq \<le> RHINO_CONFIG_MM_BLK_SIZE" using True by (simp add: word_le_nat_alt RHINO_CONFIG_MM_BLK_SIZE_def)
  obtain s' where s': "k_mm_smallblk_alloc s H = (x, s')" "mm_ok s' H a ts pb xs" "umem s' = umem s" "x \<noteq> NULL"
    using smallblk_alloc_ok [OF ok [unfolded fs]] by blast
  have "H \<noteq> NULL" using ok by (simp add: mm_ok_def)
  then have "k_mm_alloc s H rq = Some (x, s')" using rq(1) p av le s'(1,4) by (simp add: k_mm_alloc_def)
  then show ?thesis using True s' fs by simp
next
  case False
  have big: "\<not> (fix_pool (mm_heads s H) \<noteq> NULL \<and> rq \<le> RHINO_CONFIG_MM_BLK_SIZE \<and> blk_avail (mblk_pools s (fix_pool (mm_heads s H))) > 0)"
  proof
    assume p: "fix_pool (mm_heads s H) \<noteq> NULL \<and> rq \<le> RHINO_CONFIG_MM_BLK_SIZE \<and> blk_avail (mblk_pools s (fix_pool (mm_heads s H))) > 0"
    then have "fs \<noteq> []" using pool_repD(5) [OF small_poolD(1) [OF ok]] by (auto simp: unat_eq_zero)
    then show False using False p by (simp add: word_le_nat_alt RHINO_CONFIG_MM_BLK_SIZE_def)
  qed
  let ?n = "need (unat rq)"
  note S = k_mm_alloc_search [OF ok rq big]
  show ?thesis
  proof (cases "\<forall>m. Free m \<in> set ts \<longrightarrow> m < ?n")
    case True
    have "\<not> taken s H a ts ?n p s' ts'" for p s' ts' using True by (fastforce simp: taken_def)
    then show ?thesis using S True False by auto
  next
    case few: False
    then obtain p s' ts' where r: "k_mm_alloc s H rq = Some (p, s')" "p \<noteq> NULL" "taken s H a ts ?n p s' ts'" "mm_ok s' H a ts' pb fs"
      using S by blast
    then show ?thesis using taken_blocks [OF ok r(3)] few False
      by (intro exI [of _ p] exI [of _ s']) (auto intro!: exI [of _ ts'])
  qed
qed

text \<open>C7: A block that is given back is free again, merged with its free neighbours, and every other
  block stays in use; a small block goes back to the pool. The heap writes to no block that stays in use.\<close>

theorem k_mm_free_correct:
  assumes ok: "mm_ok s H a ts pb fs"
  shows "((unat p, n) \<in> blocks a ts \<and> 32 \<le> n \<and> unat p \<noteq> pb + 8 \<longrightarrow>
      (\<exists>ts'. mm_ok (k_mm_free s H p) H a ts' pb fs \<and> blocks a ts' = blocks a ts - {(unat p, n)}
        \<and> mm_frame s H (cells a ts \<union> {unat p ..< unat p + n}) (k_mm_free s H p)))
    \<and> (fix_pool (mm_heads s H) \<noteq> NULL \<and> p \<in> pool_blocks (mblk_pools s (fix_pool (mm_heads s H))) - set fs \<longrightarrow>
      mm_ok (k_mm_free s H p) H a ts pb (p # fs) \<and> (\<forall>c. c \<noteq> p \<longrightarrow> umem (k_mm_free s H p) c = umem s c))"
proof -
  have H: "H \<noteq> NULL" using ok by (simp add: mm_ok_def)
  have "k_mm_free s H p = k_mm_smallblk_free s H p" if "krhino_mblk_check s (fix_pool (mm_heads s H)) p" "p \<noteq> NULL"
    using that H by (simp add: k_mm_free_def)
  then show ?thesis using free_block_ok [OF ok] smallblk_free_ok [OF ok] by simp
qed

text \<open>C10: The size of a request is rounded up without a check: a request within seven bytes of 4 GiB wraps
  to zero and is taken for one of 32 bytes. So it fails only when no block at all is free, and otherwise
  returns a block of 32 up to 71 bytes, as any request of 32 bytes does.\<close>

theorem k_mm_alloc_wraps:
  assumes ok: "mm_ok s H a ts pb fs" and rq: "2 ^ 32 \<le> unat rq + 7"
  shows "\<exists>p s'. k_mm_alloc s H rq = Some (p, s') \<and>
    (if \<exists>m. Free m \<in> set ts
     then p \<noteq> NULL \<and> (\<exists>ts' k. mm_ok s' H a ts' pb fs \<and> blocks a ts' = insert (unat p, k) (blocks a ts)
       \<and> 32 \<le> k \<and> k < 72)
     else p = NULL \<and> s' = s)"
proof -
  have rq0: "rq \<noteq> 0" "\<not> rq \<le> RHINO_CONFIG_MM_BLK_SIZE"
    using rq by (auto simp: word_le_nat_alt RHINO_CONFIG_MM_BLK_SIZE_def)
  have H: "H \<noteq> NULL" using ok by (simp add: mm_ok_def)
  have sz: "(if MM_ALIGN_UP rq < MM_MIN_SIZE then MM_MIN_SIZE else MM_ALIGN_UP rq) = w32 32"
    using align_up_overflow [OF rq] by (simp add: MM_MIN_SIZE_def MM_MIN_BIT_def push_bit_eq_mult)
  have run: "k_mm_alloc s H rq = (let sz = w32 32; level = size_to_level sz
      in if level = - 1 then Some (NULL, s)
         else case mm_find s H sz level of None \<Rightarrow> None
              | Some get_b \<Rightarrow> if get_b = NULL then Some (NULL, s) else Some (mm_take s H get_b sz rq))"
    unfolding k_mm_alloc_def Let_def sz using H rq0 by simp
  obtain FL where h: "heap s H a ts FL" using ok by (auto simp: mm_ok_def)
  have ge: "32 \<le> m" if "Free m \<in> set ts" for m using h that by (auto simp: heap_def layout_def)
  have "(32::nat) < 2 ^ 32" "(8::nat) dvd 32" "(32::nat) \<le> 32" by simp_all
  note S = mm_alloc_search [OF ok this, of rq, folded run]
  show ?thesis
  proof (cases "\<exists>m. Free m \<in> set ts")
    case True
    then have "\<not> (\<forall>m. Free m \<in> set ts \<longrightarrow> m < 32)" using ge by (meson not_le)
    with S obtain p s' ts' where r: "k_mm_alloc s H rq = Some (p, s')" "p \<noteq> NULL" "taken s H a ts 32 p s' ts'" "mm_ok s' H a ts' pb fs"
      by blast
    then show ?thesis using taken_blocks(1) [OF ok r(3)] True by auto
  next
    case False
    then have "\<not> taken s H a ts 32 p s' ts'" for p s' ts' by (fastforce simp: taken_def)
    then show ?thesis using S False by auto
  qed
qed

end
