(* ===== verification/Mm_Resize.thy ===== *)
theory Mm_Resize
  imports Mm_Correct
begin

text \<open>
  Resizing: \<^verbatim>\<open>k_mm_realloc\<close> shrinks a block, extends it into a free block behind it, or moves it.
\<close>

section \<open>Shrinking\<close>

text \<open>The heap after the block between \<open>xs\<close> and \<open>ys\<close> has been resized in place to \<open>k\<close>.\<close>

definition resized :: "tile list \<Rightarrow> nat \<Rightarrow> nat \<Rightarrow> tile list \<Rightarrow> tile list" where
  "resized xs n k ys = (let (n, ys) = merge_next n ys in carve xs n k ys)"

lemma room_iff:
  assumes "n < 2 ^ 21" "k < 2 ^ 21"
  shows "w32 n + MMLIST_HEAD_SIZE + MM_MIN_SIZE \<le> w32 k \<longleftrightarrow> n + 40 \<le> k"
  unfolding split_room using w32_le [of "n + 40" k] assms by simp

lemma rest_size: "n + 8 \<le> k \<Longrightarrow> w32 k - w32 n - MMLIST_HEAD_SIZE = w32 (k - n - 8)"
  by (simp add: MMLIST_HEAD_SIZE_def of_nat_diff)

lemma heap_sizes:
  assumes "heap s H a ts FL" and "t \<in> set ts" "\<not> is_fence t"
  shows "bsize t < 2 ^ 19" "8 dvd bsize t" "tile_ok t"
proof -
  have l: "layout a ts" using assms(1) by (simp add: heap_def)
  then show "tile_ok t" using assms(2) by (simp add: layout_def)
  then show "8 dvd bsize t" by (rule tile_ok_dvd)
  show "bsize t < 2 ^ 19" using spans_bsize [of 0 ts t] l assms(2,3) by (simp add: layout_def)
qed

lemma stats_done:
  assumes "\<exists>FL'. heap t H a ts FL'" and "mm_frame s H W t"
  shows "(\<exists>FL'. heap (set_head H (\<lambda>h. addsize h z rq) t) H a ts FL') \<and> mm_frame s H W (set_head H (\<lambda>h. addsize h z rq) t)"
proof -
  obtain FL' where h: "heap t H a ts FL'" using assms(1) by blast
  then show ?thesis using add_stats(1) [OF h] mm_frame_trans [OF assms(2) add_stats(2) [OF h]] by blast
qed

lemma mm_shrink_ok:
  fixes rq :: u32
  assumes h: "heap s H a (xs @ Used n # ys) FL" and b: "b = a + total xs" and k: "8 dvd k" "32 \<le> k" "k \<le> n"
  defines "s' \<equiv> mm_shrink s H (w32 b) (w32 k) rq"
  shows "\<exists>FL'. heap s' H a (resized xs n k ys) FL'"
    and "mm_frame s H (cells a (xs @ Used n # ys) \<union> cells a (resized xs n k ys)) s'"
proof -
  let ?W = "cells a (xs @ Used n # ys) \<union> cells a (resized xs n k ys)"
  define s1 where "s1 = set_head H (\<lambda>h. removesize h (MM_GET_BLK_SIZE s (w32 b))) s"
  note o = heap_open [OF h]
  have o1: "open_heap s1 H a xs n False ys False FL" unfolding s1_def by (rule open_set_head [OF o]) simp_all
  have f1: "mm_frame s H ?W s1" unfolding s1_def by (rule mm_frame_set_head) simp_all
  note g1 = open_heapD(1) [OF o1] and h1 = open_heapD(2) [OF o1, folded b]
  note G = gapD [OF g1, folded b]
  obtain d where d: "d = b + (n + 8)" by simp
  note N = open_next [OF g1, folded b, OF d]
  have b8: "b + 8 \<le> 2 ^ 32" using N(3) d by simp
  note W0 = hdr_words [OF open_heapD(2) [OF o, folded b] b8 G(8)] and W = hdr_words [OF h1 b8 G(8)] and W2 = hdr_words [OF N(1,3,2)]
  have n19: "n < 2 ^ 19" using heap_sizes(1) [OF h, of "Used n"] by simp
  have kt: "tile_ok (Used k)" using k by simp
  obtain u us where ys: "ys = u # us" using G(2) by (cases ys) auto
  have "(\<exists>FL'. heap s' H a (resized xs n k ys) FL') \<and> mm_frame s H ?W s'"
  proof (cases "is_free u")
    case True
    then obtain m where u: "u = Free m" by (cases u) auto
    define s2 where "s2 = k_mm_freelist_delete s1 H (w32 d)"
    note T = gap_take_next [OF g1 [unfolded ys u] b d, folded s2_def]
    have m: "m < 2 ^ 19" "8 dvd m" "32 \<le> m" using heap_sizes [OF h, of "Free m"] by (simp_all add: ys u)
    have h2: "mem (umem s2) (b + 4) = hdr n False (last_free False xs)" using T(3) h1 by simp
    have hd2: "mem (umem s2) (d + 4) = hdr m True False" using T(4) N(1) by (simp add: ys u)
    obtain e where e: "e = d + (m + 8)" by simp
    have nx: "MM_GET_NEXT_BLK s2 (w32 d) = w32 e" unfolding e by (rule hdr_words(5) [OF hd2 N(3) m(2)])
    have bz: "MM_GET_BLK_SIZE s2 (w32 d) = w32 (m + 8)" by (rule hdr_words(4) [OF hd2 N(3) m(2)])
    define j where "j = n + m - k"
    have j: "n + 8 + m = k + 8 + j" "32 \<le> j" "8 dvd j" using k m G(8) by (simp_all add: j_def)
    have e': "e = b + (k + 8 + j + 8)" using j(1) by (simp add: e d)
    have nf: "\<not> is_free (hd us)" using open_next(5) [OF T(1) refl] by simp
    note S = mm_split_ok [OF T(1) [unfolded j(1)] h2 G(8) nf kt j(3,2) b e']
    have osz: "w32 n + w32 (m + 8) = w32 (n + m + 8)" by simp
    have c: "w32 k + MMLIST_HEAD_SIZE + MM_MIN_SIZE \<le> w32 (n + m + 8)" using room_iff [of k "n + m + 8"] k m n19 by (simp del: of_nat_add)
    have r: "w32 (n + m + 8) - w32 k - MMLIST_HEAD_SIZE = w32 j" using rest_size [of k "n + m + 8"] k m by (simp add: j_def del: of_nat_add)
    have free: "blk_buf_size s1 (w32 d) AND RHINO_MM_FREE \<noteq> 0" using W2(6) by (simp add: ys u)
    have "s' = set_head H (\<lambda>h. addsize h (MM_GET_BLK_SIZE (mm_split s2 H (w32 b) (w32 e) (w32 k) (w32 j)) (w32 b)) rq)
        (mm_split s2 H (w32 b) (w32 e) (w32 k) (w32 j))"
      unfolding s'_def mm_shrink_def Let_def s1_def [symmetric] W0(3,5) d [symmetric] if_P [OF free] prod.case s2_def [symmetric] bz nx osz if_P [OF c] r ..
    moreover have sh: "resized xs n k ys = xs @ Used k # Free j # us" using k m by (simp add: resized_def carve_def ys u j_def)
    moreover have "mm_frame s H ?W (mm_split s2 H (w32 b) (w32 e) (w32 k) (w32 j))"
      by (rule mm_frame_trans [OF f1 mm_frame_trans [OF mm_frame_mono [OF T(2)] mm_frame_mono [OF S(2)]]]) (auto simp: sh [unfolded ys u] ys u)
    ultimately show ?thesis using stats_done [OF S(1)] by simp
  next
    case False
    then have nfree: "\<not> (blk_buf_size s1 (w32 d) AND RHINO_MM_FREE \<noteq> 0)" using W2(6) by (simp add: ys)
    have nf: "\<not> is_free (hd ys)" using False by (simp add: ys)
    have c: "w32 k + MMLIST_HEAD_SIZE + MM_MIN_SIZE \<le> w32 n \<longleftrightarrow> k + 40 \<le> n" using room_iff [of k n] k n19 by simp
    define t where "t = (if k + 40 \<le> n then mm_split s1 H (w32 b) (w32 d) (w32 k) (w32 (n - k - 8)) else s1)"
    have r: "k + 40 \<le> n \<Longrightarrow> w32 n - w32 k - MMLIST_HEAD_SIZE = w32 (n - k - 8)" using rest_size [of k n] by simp
    have t': "(if k + 40 \<le> n then mm_split s1 H (w32 b) (w32 d) (w32 k) (w32 n - w32 k - MMLIST_HEAD_SIZE) else s1) = t"
      unfolding t_def by (rule if_cong [OF refl _ refl]) (simp only: r)
    have "s' = set_head H (\<lambda>h. addsize h (MM_GET_BLK_SIZE t (w32 b)) rq) t"
      unfolding s'_def mm_shrink_def Let_def s1_def [symmetric] W0(3,5) d [symmetric] if_not_P [OF nfree] prod.case c t' ..
    moreover have "(\<exists>FL'. heap t H a (resized xs n k ys) FL') \<and> mm_frame s1 H (cells a (resized xs n k ys)) t"
    proof (cases "k + 40 \<le> n")
      case True
      define j where "j = n - k - 8"
      have j: "n = k + 8 + j" "32 \<le> j" "8 dvd j" using True k G(8) by (simp_all add: j_def dvd_diff_nat)
      have e': "d = b + (k + 8 + j + 8)" by (simp add: d j(1))
      have sh: "resized xs n k ys = xs @ Used k # Free j # ys" using True False by (cases u) (simp_all add: resized_def carve_def ys j_def)
      have "t = mm_split s1 H (w32 b) (w32 d) (w32 k) (w32 j)" unfolding t_def j_def if_P [OF True] ..
      then show ?thesis using mm_split_ok [OF g1 [unfolded j(1)] h1 G(8) nf kt j(3,2) b e'] sh by simp
    next
      case small: False
      have "resized xs n k ys = xs @ Used n # ys" using small False by (cases u) (simp_all add: resized_def carve_def ys)
      then show ?thesis using small open_close [OF o1] by (auto simp: t_def)
    qed
    then have "\<exists>FL'. heap t H a (resized xs n k ys) FL'" "mm_frame s H ?W t"
      using mm_frame_trans [OF f1 mm_frame_mono [of s1 H _ t ?W]] by auto
    ultimately show ?thesis using stats_done by simp
  qed
  then show "\<exists>FL'. heap s' H a (resized xs n k ys) FL'" "mm_frame s H ?W s'" by simp_all
qed

section \<open>Extending\<close>

lemma mm_enlarge_ok:
  fixes rq :: u32
  assumes h: "heap s H a (xs @ Used n # Free m # us) FL" and b: "b = a + total xs" and k: "8 dvd k" "32 \<le> k" "n \<le> k" "k \<le> n + 8 + m"
  defines "s' \<equiv> mm_enlarge s H (w32 b) (w32 k) rq"
  shows "\<exists>FL'. heap s' H a (resized xs n k (Free m # us)) FL'"
    and "mm_frame s H (cells a (xs @ Used n # Free m # us) \<union> cells a (resized xs n k (Free m # us))) s'"
proof -
  let ?W = "cells a (xs @ Used n # Free m # us) \<union> cells a (resized xs n k (Free m # us))"
  define s1 where "s1 = set_head H (\<lambda>h. removesize h (MM_GET_BLK_SIZE s (w32 b))) s"
  note o = heap_open [OF h]
  have o1: "open_heap s1 H a xs n False (Free m # us) False FL" unfolding s1_def by (rule open_set_head [OF o]) simp_all
  have f1: "mm_frame s H ?W s1" unfolding s1_def by (rule mm_frame_set_head) simp_all
  note g1 = open_heapD(1) [OF o1] and h1 = open_heapD(2) [OF o1, folded b]
  note G = gapD [OF g1, folded b]
  obtain d where d: "d = b + (n + 8)" by simp
  obtain e where e: "e = d + (m + 8)" by simp
  note N = open_next [OF g1, folded b, OF d]
  have b8: "b + 8 \<le> 2 ^ 32" using N(3) d by simp
  note W0 = hdr_words [OF open_heapD(2) [OF o, folded b] b8 G(8)]
  have n19: "n < 2 ^ 19" using heap_sizes(1) [OF h, of "Used n"] by simp
  have m: "m < 2 ^ 19" "8 dvd m" "32 \<le> m" using heap_sizes [OF h, of "Free m"] by simp_all
  let ?pf = "last_free False xs" and ?n = "n + 8 + m"
  define s2 where "s2 = k_mm_freelist_delete s1 H (w32 d)"
  note T = gap_take_next [OF g1 b d, folded s2_def]
  have h2: "mem (umem s2) (b + 4) = hdr n False ?pf" using T(3) h1 by simp
  have hd2: "mem (umem s2) (d + 4) = hdr m True False" using T(4) N(1) by simp
  have bz: "MM_GET_BLK_SIZE s2 (w32 d) = w32 (m + 8)" by (rule hdr_words(4) [OF hd2 N(3) m(2)])
  define s3 where "s3 = set_buf_size (w32 b) (w32 (hdr ?n False ?pf)) s2"
  have s3: "set_buf_size (w32 b) (blk_buf_size s2 (w32 b) + w32 (m + 8)) s2 = s3"
    unfolding hdr_words(1) [OF h2 b8 G(8)] s3_def by (simp add: hdr_def ac_simps)
  have o3: "open_heap s3 H a xs ?n False us True (FL(lev m := remove1 d (FL (lev m))))"
    unfolding s3_def by (rule gap_set_hdr [OF T(1) b])
  note g3 = open_heapD(1) [OF o3] and h3 = open_heapD(2) [OF o3, folded b]
  have e3: "e = b + (?n + 8)" by (simp add: e d)
  note N3 = open_next [OF g3, folded b, OF e3]
  have n8: "8 dvd ?n" using gapD(8) [OF g3] .
  have nx: "MM_GET_NEXT_BLK s3 (w32 b) = w32 e" unfolding e3 by (rule hdr_words(5) [OF h3 b8 n8])
  have nf: "\<not> is_free (hd us)" using N3(5) by simp
  define s4 where "s4 = set_prev (w32 e) (w32 b) s3"
  have o4: "open_heap s4 H a xs ?n False us True (FL(lev m := remove1 d (FL (lev m))))"
    unfolding s4_def by (rule open_set_next(2) [OF o3 nf b e3])
  define s5 where "s5 = set_buf_size (w32 e) (blk_buf_size s4 (w32 e) AND NOT RHINO_MM_PREVFREE) s4"
  note N4 = open_next [OF open_heapD(1) [OF o4], folded b, OF e3]
  note W4 = hdr_words(1,2) [OF N4(1,3,2)]
  have s5: "s5 = set_cell (w32 e + 4) (w32 (hdr (bsize (hd us)) False False)) s4"
    unfolding s5_def W4(1) hdr_set_flags(4) [OF N4(2) W4(2)] using nf by simp
  have o5: "open_heap s5 H a xs ?n False us False (FL(lev m := remove1 d (FL (lev m))))"
    unfolding s5 by (rule open_set_next(1) [OF o4 nf b e3])
  note g5 = open_heapD(1) [OF o5] and h5 = open_heapD(2) [OF o5, folded b]
  have z5: "MM_GET_BUF_SIZE s5 (w32 b) = w32 ?n" by (rule hdr_words(3) [OF h5 b8 n8])
  obtain v vs where us: "us = v # vs" using gapD(2) [OF g3] by (cases us) auto
  let ?ts = "xs @ Used n # Free m # us"
  have bm: "(b, Used n) \<in> set (loc a ?ts)" "(e, v) \<in> set (loc a ?ts)" by (simp_all add: loc_append b us e d)
  have un: "unat (w32 b + 4) = b + 4" "unat (w32 e) = e" "unat (w32 e + 4) = e + 4"
    using unat_word_of_nat32 [of "b + 4"] unat_word_of_nat32 [of e] unat_word_of_nat32 [of "e + 4"] N3(3) e3 by simp_all
  have w: "unat (w32 b + 4) \<in> ?W" "unat (w32 e) \<in> ?W" "unat (w32 e + 4) \<in> ?W"
    unfolding un using cells_header [OF bm(1)] cells_header [OF bm(2)] by simp_all
  have "mm_frame s1 H ?W s2" by (rule mm_frame_mono [OF T(2)]) simp
  moreover have "mm_frame s2 H ?W s3" "mm_frame s3 H ?W s4" "mm_frame s4 H ?W s5"
    unfolding s3_def s4_def s5_def by (intro mm_frame_set_cell w)+
  ultimately have f5: "mm_frame s H ?W s5" using f1 by (blast intro: mm_frame_trans)
  have c: "w32 k + MMLIST_HEAD_SIZE + MM_MIN_SIZE \<le> w32 ?n \<longleftrightarrow> k + 40 \<le> ?n"
    by (rule room_iff) (use k m n19 in simp_all)
  have r: "k + 40 \<le> ?n \<Longrightarrow> w32 ?n - w32 k - MMLIST_HEAD_SIZE = w32 (?n - k - 8)" by (rule rest_size) simp
  define t where "t = (if k + 40 \<le> ?n then mm_split s5 H (w32 b) (w32 e) (w32 k) (w32 (?n - k - 8)) else s5)"
  have t': "(if k + 40 \<le> ?n then mm_split s5 H (w32 b) (w32 e) (w32 k) (w32 ?n - w32 k - MMLIST_HEAD_SIZE) else s5) = t"
    unfolding t_def by (rule if_cong [OF refl _ refl]) (simp only: r)
  have s': "s' = set_head H (\<lambda>h. addsize h (MM_GET_BLK_SIZE t (w32 b)) rq) t"
    unfolding s'_def mm_enlarge_def Let_def s1_def [symmetric] W0(5) d [symmetric] s2_def [symmetric] bz s3 nx
      s4_def [symmetric] s5_def [symmetric] z5 c t' ..
  have "(\<exists>FL'. heap t H a (resized xs n k (Free m # us)) FL') \<and> mm_frame s5 H (cells a (resized xs n k (Free m # us))) t"
  proof (cases "k + 40 \<le> ?n")
    case True
    define j where "j = ?n - k - 8"
    have j: "?n = k + 8 + j" "32 \<le> j" "8 dvd j"
      using True dvd_diff_nat [OF dvd_diff_nat [OF n8 k(1)], of 8] by (simp_all add: j_def)
    have e': "e = b + (k + 8 + j + 8)" unfolding e3 j(1) ..
    have kt: "tile_ok (Used k)" using k by simp
    have sh: "resized xs n k (Free m # us) = xs @ Used k # Free j # us" using True by (simp add: resized_def carve_def j_def)
    have "t = mm_split s5 H (w32 b) (w32 e) (w32 k) (w32 j)" unfolding t_def j_def if_P [OF True] ..
    then show ?thesis using mm_split_ok [OF g5 [unfolded j(1)] h5 n8 nf kt j(3,2) b e'] sh by simp
  next
    case False
    then have "resized xs n k (Free m # us) = xs @ Used ?n # us" by (simp add: resized_def carve_def)
    then show ?thesis using False open_close [OF o5] unfolding t_def by auto
  qed
  then have "\<exists>FL'. heap t H a (resized xs n k (Free m # us)) FL'" "mm_frame s H ?W t"
    using mm_frame_trans [OF f5 mm_frame_mono [of s5 H _ t ?W]] by auto
  from stats_done [OF this] show "\<exists>FL'. heap s' H a (resized xs n k (Free m # us)) FL'" "mm_frame s H ?W s'"
    unfolding s' by simp_all
qed

section \<open>In place\<close>

lemma blocks_resized:
  assumes "k \<le> fst (merge_next n ys)"
  shows "\<exists>j. k \<le> j \<and> j < k + 40 \<and> blocks a (resized xs n k ys) = insert (a + total xs + 8, j) (blocks a (xs @ Used n # ys) - {(a + total xs + 8, n)})"
proof -
  have "blocks a (xs @ Free (fst (merge_next n ys)) # snd (merge_next n ys)) = blocks a (xs @ Used n # ys) - {(a + total xs + 8, n)}"
    unfolding blocks_merge_next by (rule blocks_open')
  then show ?thesis
    using blocks_carve [OF assms, of a xs "snd (merge_next n ys)"] by (auto simp: resized_def case_prod_beta)
qed

definition kept :: "kstate \<Rightarrow> kstate \<Rightarrow> (nat \<times> nat) set \<Rightarrow> bool" where
  "kept s s' B \<longleftrightarrow> (\<forall>(y, j) \<in> B. \<forall>i < j. mem (umem s') (y + i) = mem (umem s) (y + i))"

lemma in_place_ok:
  assumes ok: "mm_ok s H a (xs @ Used n # ys) pb fs" and b: "b = a + total xs" "b \<noteq> pb" and k: "k \<le> fst (merge_next n ys)"
    and h: "\<exists>FL'. heap s' H a (resized xs n k ys) FL'"
    and f: "mm_frame s H (cells a (xs @ Used n # ys) \<union> cells a (resized xs n k ys)) s'"
  shows "\<exists>ts' j. mm_ok s' H a ts' pb fs \<and> blocks a ts' = insert (b + 8, j) (blocks a (xs @ Used n # ys) - {(b + 8, n)}) \<and> k \<le> j
    \<and> (\<forall>i < min n j. mem (umem s') (b + 8 + i) = mem (umem s) (b + 8 + i))
    \<and> kept s s' (blocks a (xs @ Used n # ys) - {(b + 8, n)})"
proof -
  let ?ts = "xs @ Used n # ys" and ?ts' = "resized xs n k ys"
  obtain j where j: "k \<le> j" and bl: "blocks a ?ts' = insert (b + 8, j) (blocks a ?ts - {(b + 8, n)})"
    using blocks_resized [OF k, of a xs] b by auto
  have same: "mem (umem s') c = mem (umem s) c"
    if y: "(y, m) \<in> blocks a ?ts" "(y, m') \<in> blocks a ?ts'" "y \<le> c" "c < y + m" "c < y + m'" for c y m m'
  proof -
    obtain x where x: "y = x + 8" "(x, Used m) \<in> set (loc a ?ts)" using y(1) by (auto simp: blocks_def)
    then have x': "(x, Used m') \<in> set (loc a ?ts')" using y(2) by (auto simp: blocks_def)
    have "c \<notin> cells a ?ts" "c \<notin> cells a ?ts'"
      using used_not_cell [OF x(2), of c] used_not_cell [OF x', of c] y(3-5) x(1) by simp_all
    then show ?thesis using f by (simp add: mm_frame_def)
  qed
  have pb: "(pb, Used m) \<in> set (loc a ?ts')" if "(pb, Used m) \<in> set (loc a ?ts)" for m
    using that b(2) bl unfolding blocks_mem [symmetric] by auto
  have sp: "small_pool s H a ?ts pb fs" using ok by (simp add: mm_ok_def)
  have "small_pool s' H a ?ts' pb fs"
    by (rule small_pool_frame [OF sp f]) (use pb used_not_cell in blast)+
  then have "mm_ok s' H a ?ts' pb fs" using h ok by (auto simp: mm_ok_def)
  moreover have "(b + 8, n) \<in> blocks a ?ts" "(b + 8, j) \<in> blocks a ?ts'" using bl by (simp_all add: blocks_def loc_append b)
  then have "\<forall>i < min n j. mem (umem s') (b + 8 + i) = mem (umem s) (b + 8 + i)" using same by simp
  moreover have "kept s s' (blocks a ?ts - {(b + 8, n)})"
  proof -
    have "mem (umem s') (y + i) = mem (umem s) (y + i)" if y: "(y, m) \<in> blocks a ?ts - {(b + 8, n)}" "i < m" for y m i
      by (rule same [of y m m]) (use y bl in simp_all)
    then show ?thesis unfolding kept_def by blast
  qed
  ultimately show ?thesis using bl j by blast
qed

section \<open>Moving\<close>

lemma need_need [simp]: "need (need n) = need n"
proof -
  obtain k where k: "need n = 8 * k" using need_props(1) by blast
  have "(8 * k + 7) div 8 * 8 = 8 * k" by presburger
  then show ?thesis using need_props(2) [of n] unfolding k by (simp only: need_def [of "8 * k"])
qed

lemma need_less: "n + 7 < 2 ^ 32 \<Longrightarrow> need n + 7 < 2 ^ 32"
  unfolding need_def max_def by (simp split: if_splits) presburger

lemma mem_copy:
  assumes q: "q + k \<le> 2 ^ 32" "q < 2 ^ 32" and p: "p + k \<le> 2 ^ 32" and k: "k < 2 ^ 32"
  shows "i < k \<Longrightarrow> mem (copy_words (w32 q) (w32 p) (w32 k) M) (q + i) = mem M (p + i)"
    and "\<not> (q \<le> unat c \<and> unat c < q + k) \<Longrightarrow> copy_words (w32 q) (w32 p) (w32 k) M c = M c"
proof -
  have d: "unat (x - w32 q) = (if q \<le> unat x then unat x - q else unat x + 2 ^ 32 - q)" for x :: u32
    using unat_sub_if' [of x "w32 q"] unat_word_of_nat32 [OF q(2)] by simp
  have lt: "x - w32 q < w32 k \<longleftrightarrow> q \<le> unat x \<and> unat x < q + k" for x :: u32
    unfolding word_less_nat_alt d unat_word_of_nat32 [OF k] using q by auto
  show "copy_words (w32 q) (w32 p) (w32 k) M c = M c" if "\<not> (q \<le> unat c \<and> unat c < q + k)"
    unfolding copy_words_def lt using that by auto
  show "mem (copy_words (w32 q) (w32 p) (w32 k) M) (q + i) = mem M (p + i)" if i: "i < k"
  proof -
    have u: "unat (w32 (q + i)) = q + i" by (rule unat_word_of_nat32) (use i q in simp)
    have "w32 (q + i) - w32 q < w32 k" using lt [of "w32 (q + i)"] u i by (simp del: of_nat_add)
    moreover have "w32 p + (w32 (q + i) - w32 q) = w32 (p + i)" by simp
    ultimately have "copy_words (w32 q) (w32 p) (w32 k) M (w32 (q + i)) = M (w32 (p + i))"
      unfolding copy_words_def by (simp del: of_nat_add)
    then show ?thesis unfolding mem_def using i q p by simp
  qed
qed

text \<open>The block is allocated anew, copied and given back.\<close>

lemma moved_ok:
  assumes ok: "mm_ok s H a ts pb fs" and p: "(unat p, n) \<in> blocks a ts" "32 \<le> n" "unat p \<noteq> pb + 8" and k: "k = need k" "k < 2 ^ 32"
    and al: "mm_ok s1 H a ts1 pb fs" "taken s H a ts k q s1 ts1"
  defines "c \<equiv> (if MM_GET_BUF_SIZE s1 (MM_GET_THIS_BLK p) > w32 k then w32 k else MM_GET_BUF_SIZE s1 (MM_GET_THIS_BLK p))"
  defines "s' \<equiv> k_mm_free (umem_update (copy_words q p c) s1) H p"
  shows "\<exists>ts' j. mm_ok s' H a ts' pb fs \<and> blocks a ts' = insert (unat q, j) (blocks a ts - {(unat p, n)}) \<and> k \<le> j
    \<and> (\<forall>i < min n k. mem (umem s') (unat q + i) = mem (umem s) (unat p + i)) \<and> kept s s' (blocks a ts - {(unat p, n)})"
proof -
  obtain j where j: "k \<le> j" "blocks a ts1 = insert (unat q, j) (blocks a ts)"
    and dis: "\<forall>(y, m) \<in> blocks a ts. unat q + j + 8 \<le> y \<or> y + m + 8 \<le> unat q"
    using taken_blocks(1) [OF ok al(2)] by blast
  note f1 = taken_blocks(2) [OF ok al(2)]
  have q: "(unat q, j) \<in> blocks a ts1" "(unat p, n) \<in> blocks a ts1" using j(2) p(1) by simp_all
  have qpb: "unat q \<noteq> pb + 8" by (rule block_not_pool [OF ok q(1) dis])
  obtain FL1 where h1: "heap s1 H a ts1 FL1" using al(1) by (auto simp: mm_ok_def)
  obtain b where b: "unat p = b + 8" "(b, Used n) \<in> set (loc a ts1)" using q(2) by (auto simp: blocks_def)
  have l1: "layout a ts1" and t1: "tiles (mem (umem s1)) 0 False a ts1" using h1 by (simp_all add: heap_def)
  have end1: "x + m \<le> 2 ^ 32" if "(x, m) \<in> blocks a ts1" for x m
    using that loc_bounds l1 by (fastforce simp: blocks_def layout_def)
  have pw: "p = w32 (b + 8)" using b(1) by (metis w32_unat)
  have this_b: "MM_GET_THIS_BLK p = w32 b" unfolding pw by (simp add: MM_GET_THIS_BLK_def MMLIST_HEAD_SIZE_def)
  obtain pf where hd: "mem (umem s1) (b + 4) = hdr n False pf" "tile_ok (Used n)" using tiles_loc [OF t1 b(2)] by auto
  have b8: "b + 8 \<le> 2 ^ 32" using end1 [OF q(2)] b(1) by simp
  have n19: "n < 2 ^ 32" using end1 [OF q(2)] b(1) by simp
  have "8 dvd n" using hd(2) by simp
  then have sz: "MM_GET_BUF_SIZE s1 (w32 b) = w32 n" by (rule hdr_words(3) [OF hd(1) b8])
  have c: "c = w32 (min n k)" unfolding c_def this_b sz using w32_less [OF k(2) n19] by (auto simp: min_def)
  let ?M = "copy_words q p c (umem s1)" and ?m = "min n k"
  define s2 where "s2 = s1\<lparr>umem := ?M\<rparr>"
  have s2': "umem_update (copy_words q p c) s1 = s2" by (simp add: s2_def)
  have mq: "?m \<le> j" "?m \<le> n" using j(1) by simp_all
  have qb: "unat q + ?m \<le> 2 ^ 32" "unat q < 2 ^ 32" "unat p + ?m \<le> 2 ^ 32" "?m < 2 ^ 32"
    using end1 [OF q(1)] end1 [OF q(2)] mq n19 unsigned_less [where 'a = nat, of q] by simp_all
  note C = mem_copy [OF qb, of _ "umem s1", folded c, simplified w32_unat]
  have cl: "?M x = umem s1 x" if "\<not> (unat q \<le> unat x \<and> unat x < unat q + j)" for x
    by (rule C(2)) (use that mq(1) in auto)
  have ok2: "mm_ok s2 H a ts1 pb fs" unfolding s2_def by (rule mm_ok_client [OF al(1) q(1) qpb cl])
  obtain ts' where ts': "mm_ok s' H a ts' pb fs" "blocks a ts' = blocks a ts1 - {(unat p, n)}"
    and f3: "mm_frame s2 H (cells a ts1 \<union> {unat p ..< unat p + n}) s'"
    using free_block_ok [OF ok2 q(2) p(2,3)] unfolding s'_def s2' by blast
  have pq: "unat q + j + 8 \<le> unat p \<or> unat p + n + 8 \<le> unat q" using dis p(1) by blast
  have nc: "x + i \<notin> cells a us" if "(x, m) \<in> blocks a us" "i < m" for x m i us
    using that used_not_cell [of "x - 8" m a us "x + i"] by (auto simp: blocks_def)
  have e3: "mem (umem s') (x + i) = mem ?M (x + i)" if x: "(x, m) \<in> blocks a ts1" "x \<noteq> unat p" "i < m" for x m i
  proof -
    have "\<not> (unat p \<le> x + i \<and> x + i < unat p + n)" using blocks_disjoint [OF x(1) q(2)] x(2,3) by fastforce
    then show ?thesis using f3 nc [OF x(1,3)] by (simp add: mm_frame_def s2_def)
  qed
  have e1: "mem (umem s1) (x + i) = mem (umem s) (x + i)" if "(x, m) \<in> blocks a ts" "i < m" for x m i
    using f1 nc [OF that] by (simp add: mm_frame_def)
  have e2: "mem ?M (x + i) = mem (umem s1) (x + i)" if x: "(x, m) \<in> blocks a ts" "i < m" for x m i
  proof -
    have "\<not> (unat q \<le> x + i \<and> x + i < unat q + j)" using dis x by fastforce
    moreover have "x + i < 2 ^ 32" using end1 [of x m] x j(2) by simp
    ultimately show ?thesis unfolding mem_def using cl [of "w32 (x + i)"] unat_word_of_nat32 [of "x + i"] by (simp del: of_nat_add)
  qed
  have "mem (umem s') (unat q + i) = mem (umem s) (unat p + i)" if i: "i < ?m" for i
  proof -
    have "unat q \<noteq> unat p" using pq by auto
    then have "mem (umem s') (unat q + i) = mem ?M (unat q + i)" using e3 [OF q(1), of i] i j(1) by simp
    also have "\<dots> = mem (umem s1) (unat p + i)" by (rule C(1) [OF i])
    also have "\<dots> = mem (umem s) (unat p + i)" using e1 [OF p(1), of i] i by simp
    finally show ?thesis .
  qed
  moreover have "kept s s' (blocks a ts - {(unat p, n)})"
  proof -
    have "mem (umem s') (y + i) = mem (umem s) (y + i)" if y: "(y, m) \<in> blocks a ts - {(unat p, n)}" "i < m" for y m i
    proof -
      have "y \<noteq> unat p" using blocks_disjoint [OF p(1), of y m] y by auto
      then show ?thesis using e3 [of y m i] e2 [of y m i] e1 [of y m i] y j(2) by simp
    qed
    then show ?thesis unfolding kept_def by blast
  qed
  moreover have "blocks a ts' = insert (unat q, j) (blocks a ts - {(unat p, n)})" using ts'(2) j(2) pq by auto
  ultimately show ?thesis using ts'(1) j(1) by blast
qed

section \<open>Properties\<close>

text \<open>C8: Resizing always returns. It fails only if no free block is large enough, and then changes
  nothing. Otherwise the result is a block that is large enough, in place of the old one, with the old
  contents up to the smaller of the two sizes; the other blocks stay in use, with their contents.\<close>

theorem k_mm_realloc_correct:
  assumes ok: "mm_ok s H a ts pb fs" and p: "(unat p, n) \<in> blocks a ts" "32 \<le> n" "unat p \<noteq> pb + 8"
    and rq: "rq \<noteq> 0" "unat rq + 7 < 2 ^ 32"
  shows "\<exists>q s'. k_mm_realloc s H p rq = Some (q, s') \<and>
    (if q = NULL then s' = s \<and> (\<forall>m. Free m \<in> set ts \<longrightarrow> m < need (unat rq))
     else \<exists>ts' j. mm_ok s' H a ts' pb fs \<and> blocks a ts' = insert (unat q, j) (blocks a ts - {(unat p, n)})
       \<and> need (unat rq) \<le> j
       \<and> (\<forall>i < min n (unat rq). mem (umem s') (unat q + i) = mem (umem s) (unat p + i))
       \<and> kept s s' (blocks a ts - {(unat p, n)}))"
proof -
  obtain b where b: "unat p = b + 8" "(b, Used n) \<in> set (loc a ts)" using p(1) by (auto simp: blocks_def)
  obtain xs ys where t: "ts = xs @ Used n # ys" "b = a + total xs" using b(2) by (auto simp: loc_split)
  obtain FL where h: "heap s H a (xs @ Used n # ys) FL" using ok by (auto simp: mm_ok_def t(1))
  have pw: "p = w32 (b + 8)" using b(1) by (metis w32_unat)
  have nf: "\<not> is_fence (Used n)" by simp
  note A = heap_address [OF h t(2) nf, folded pw]
  have np: "\<not> krhino_mblk_check s (fix_pool (mm_heads s H)) p" using not_small [OF ok p(1) _ p(3)] p(2) by simp
  define k where "k = need (unat rq)"
  have k: "k < 2 ^ 32" "8 dvd k" "32 \<le> k" "unat rq \<le> k" "k + 7 < 2 ^ 32"
    using alloc_size(2) [OF rq(2)] need_props [of "unat rq"] need_less [OF rq(2)] by (simp_all add: k_def)
  note size = alloc_size(1) [OF rq(2), folded k_def, unfolded Let_def]
  have g: "gap s H a xs n ys False FL" and hd: "mem (umem s) (b + 4) = hdr n False (last_free False xs)"
    using heap_open [OF h] by (simp_all add: open_heap_def t(2))
  note G = gapD [OF g]
  obtain d where d: "d = b + (n + 8)" by simp
  note N = open_next [OF g, folded t(2), OF d]
  have b8: "b + 8 \<le> 2 ^ 32" using N(3) d by simp
  have d8: "d + 8 \<le> 2 ^ 32" by (rule N(3))
  note W = hdr_words [OF hd b8 G(8), folded d] and W2 = hdr_words [OF N(1,3,2)]
  have n32: "n < 2 ^ 32" using d8 d by simp
  obtain u us where ys: "ys = u # us" using G(2) by (cases ys) auto
  define ext where "ext \<longleftrightarrow> blk_buf_size s (w32 d) AND RHINO_MM_FREE \<noteq> 0 \<and> w32 k \<le> w32 n + MM_GET_BLK_SIZE s (w32 d)"
  have run: "k_mm_realloc s H p rq =
      (if w32 k \<le> w32 n then Some (p, mm_shrink s H (w32 b) (w32 k) rq)
       else if ext then Some (p, mm_enlarge s H (w32 b) (w32 k) rq)
       else case k_mm_alloc s H (w32 k) of None \<Rightarrow> None
         | Some (q, s1) \<Rightarrow> if q = NULL then Some (NULL, s1)
             else Some (q, k_mm_free (umem_update (copy_words q p
               (if MM_GET_BUF_SIZE s1 (w32 b) > w32 k then w32 k else MM_GET_BUF_SIZE s1 (w32 b))) s1) H p))"
    using A(2) rq(1) np unfolding k_mm_realloc_def Let_def size A(3) W(3,5) A(4) ext_def by (simp only: if_False split_def)
  have place: ?thesis if r: "k_mm_realloc s H p rq = Some (p, s')" and kn: "k \<le> fst (merge_next n ys)"
    and hs: "\<exists>FL'. heap s' H a (resized xs n k ys) FL'"
    and f: "mm_frame s H (cells a (xs @ Used n # ys) \<union> cells a (resized xs n k ys)) s'" for s'
  proof -
    have "b \<noteq> pb" using p(3) b(1) by simp
    then obtain ts' j where P: "mm_ok s' H a ts' pb fs" "blocks a ts' = insert (unat p, j) (blocks a ts - {(unat p, n)})" "k \<le> j"
      "\<forall>i < min n j. mem (umem s') (unat p + i) = mem (umem s) (unat p + i)" "kept s s' (blocks a ts - {(unat p, n)})"
      using in_place_ok [OF ok [unfolded t(1)] t(2) _ kn hs f] unfolding b(1) t(1) by blast
    then have "\<forall>i < min n (unat rq). mem (umem s') (unat p + i) = mem (umem s) (unat p + i)" using k(4) by simp
    then show ?thesis using r P A(2) unfolding k_def [symmetric] by auto
  qed
  show ?thesis
  proof (cases "k \<le> n")
    case True
    have "w32 k \<le> w32 n" using w32_le [OF k(1) n32] True by simp
    then have "k_mm_realloc s H p rq = Some (p, mm_shrink s H (w32 b) (w32 k) rq)" by (simp add: run)
    moreover have "k \<le> fst (merge_next n ys)" using True merge_le(1) [of n ys] by simp
    ultimately show ?thesis by (rule place) (rule mm_shrink_ok [OF h t(2) k(2,3) True])+
  next
    case False
    then have nle: "\<not> w32 k \<le> w32 n" using w32_le [OF k(1) n32] by simp
    show ?thesis
    proof (cases ext)
      case True
      then obtain m where u: "u = Free m" using W2(6) by (cases u) (auto simp: ext_def ys)
      have m: "m < 2 ^ 19" "n < 2 ^ 19" using heap_sizes(1) [OF h, of "Free m"] heap_sizes(1) [OF h, of "Used n"] by (simp_all add: ys u)
      have "MM_GET_BLK_SIZE s (w32 d) = w32 (m + 8)" using W2(4) by (simp add: ys u)
      then have "w32 k \<le> w32 (n + 8 + m)" using True by (simp add: ext_def ac_simps)
      then have kn: "k \<le> n + 8 + m" using w32_le [OF k(1), of "n + 8 + m"] m by simp
      have "n \<le> k" using False by simp
      note E = mm_enlarge_ok [OF h [unfolded ys u] t(2) k(2,3) this kn, of rq]
      have "k_mm_realloc s H p rq = Some (p, mm_enlarge s H (w32 b) (w32 k) rq)" using True nle by (simp add: run)
      moreover have "k \<le> fst (merge_next n ys)" using kn by (simp add: ys u)
      ultimately show ?thesis by (rule place) (use E in \<open>simp_all add: ys u\<close>)
    next
      case ext: False
      have uk: "unat (w32 k) = k" by (rule unat_word_of_nat32 [OF k(1)])
      have rk: "w32 k \<noteq> 0" using w32_0 [OF k(1)] k(3) by simp
      have big: "\<not> (fix_pool (mm_heads s H) \<noteq> NULL \<and> w32 k \<le> RHINO_CONFIG_MM_BLK_SIZE \<and> blk_avail (mblk_pools s (fix_pool (mm_heads s H))) > 0)"
        using k(3) uk by (simp add: word_le_nat_alt RHINO_CONFIG_MM_BLK_SIZE_def)
      have nk: "need (unat (w32 k)) = k" unfolding uk by (simp add: k_def)
      have "unat (w32 k) + 7 < 2 ^ 32" using k(5) uk by simp
      note S = k_mm_alloc_search [OF ok rk this big, unfolded nk]
      then consider "k_mm_alloc s H (w32 k) = Some (NULL, s)" "\<forall>m. Free m \<in> set ts \<longrightarrow> m < k"
        | q s1 ts1 where "k_mm_alloc s H (w32 k) = Some (q, s1)" "q \<noteq> NULL" "taken s H a ts k q s1 ts1" "mm_ok s1 H a ts1 pb fs"
        by blast
      then show ?thesis
      proof cases
        case 1
        then have "k_mm_realloc s H p rq = Some (NULL, s)" using nle ext by (simp add: run)
        then show ?thesis using 1(2) by (simp add: k_def)
      next
        case 2
        define s' where "s' = k_mm_free (umem_update (copy_words q p
               (if MM_GET_BUF_SIZE s1 (w32 b) > w32 k then w32 k else MM_GET_BUF_SIZE s1 (w32 b))) s1) H p"
        have r: "k_mm_realloc s H p rq = Some (q, s')" using 2(1,2) nle ext by (simp add: run s'_def)
        have "k = need k" by (simp add: k_def)
        from moved_ok [OF ok p this k(1) 2(4,3), unfolded A(3), folded s'_def]
        obtain ts' j where P: "mm_ok s' H a ts' pb fs" "blocks a ts' = insert (unat q, j) (blocks a ts - {(unat p, n)})" "k \<le> j"
          "\<forall>i < min n k. mem (umem s') (unat q + i) = mem (umem s) (unat p + i)" "kept s s' (blocks a ts - {(unat p, n)})"
          by blast
        then have "\<forall>i < min n (unat rq). mem (umem s') (unat q + i) = mem (umem s) (unat p + i)" using k(4) by simp
        then show ?thesis using r P 2(2) unfolding k_def [symmetric] by auto
      qed
    qed
  qed
qed

end
