(* ===== verification/Mm_Init.thy ===== *)
theory Mm_Init
  imports Mm_Resize
begin

text \<open>
  Initialisation of a heap: \<^verbatim>\<open>krhino_init_mm_head\<close> turns a piece of memory into a head, a region with one
  free block, and the pool of small blocks in it.
\<close>

section \<open>A region\<close>

text \<open>The headers of a new region from \<open>a\<close> on, with \<open>k\<close> bytes for use: the region's own block, the block
  for use, and the fence.\<close>

definition region_mem :: "(nat \<Rightarrow> nat) \<Rightarrow> nat \<Rightarrow> nat \<Rightarrow> bool" where
  "region_mem m a k \<longleftrightarrow> m (a + 4) = 8 \<and> m (a + 20) = k \<and> m (a + 24 + k) = a + 16 \<and> m (a + 28 + k) = 2"

lemma region_open:
  assumes m: "region_mem (mem (umem s)) a k" and a: "0 < a" "8 dvd a" "a + k + 32 \<le> 2 ^ 32" and k: "8 dvd k" "32 \<le> k" "k + 24 \<le> 2 ^ 19"
    and z: "freelist (mm_heads s H) = (\<lambda>_. NULL)" "free_bitmap (mm_heads s H) = 0"
  shows "open_heap s H a [Used 8] k False [Fence 0] True (\<lambda>_. [])"
proof -
  have "layout a [Used 8, Used k, Fence 0]" using a k by (simp add: layout_def)
  moreover have "fl_ok s H (\<lambda>_. [])" using z by (simp add: fl_ok_def dll_def)
  moreover have "free_tiles a [Used 8, Used k, Fence 0] (\<lambda>_. [])" by (simp add: free_tiles_def)
  ultimately show ?thesis
    using m k unfolding open_heap_def gap_def region_mem_def by (simp add: hdr_def ac_simps)
qed

lemma mem_cells:
  assumes "c < 2 ^ 32" "v < 2 ^ 32"
  shows "mem (umem (set_cell (w32 c) (w32 v) s)) = (mem (umem s))(c := v)"
  using mem_upd_cells(1) [OF assms, of "umem s"] by simp

lemma init_mm_region_ok:
  fixes s :: kstate
  assumes a: "0 < a" "8 dvd a" "a + k + 32 \<le> 2 ^ 32" and k: "8 dvd k" "32 \<le> k"
  defines "r \<equiv> init_mm_region s (w32 a) (w32 (k + 32))"
  shows "fst r = w32 a" and "region_mem (mem (umem (snd r))) a k"
    and "MM_GET_NEXT_BLK (snd r) (w32 a) = w32 (a + 16)"
    and "snd r = s\<lparr>umem := umem (snd r)\<rparr>" and "\<And>c. \<not> (a \<le> c \<and> c < a + k + 32) \<Longrightarrow> mem (umem (snd r)) c = mem (umem s) c"
proof -
  define s1 where "s1 = set_prev (w32 a) NULL s"
  define s2 where "s2 = set_buf_size (w32 a) (MM_ALIGN_UP sizeof_region_info OR RHINO_MM_ALLOCED OR RHINO_MM_PREVALLOCED) s1"
  define last where "last = w32 a + w32 (k + 32) - MMLIST_HEAD_SIZE"
  define mid where "mid = MM_GET_NEXT_BLK s2 (w32 a)"
  define s3 where "s3 = set_buf_size mid ((last - buffer mid) OR RHINO_MM_ALLOCED OR RHINO_MM_PREVALLOCED) s2"
  define s4 where "s4 = set_free_next mid NULL s3"
  define s5 where "s5 = set_free_prev mid NULL s4"
  define s6 where "s6 = set_prev last mid s5"
  define s7 where "s7 = set_buf_size last (0 OR RHINO_MM_ALLOCED OR RHINO_MM_PREVFREE) s6"
  define s8 where "s8 = set_cell (buffer (w32 a) + 4) NULL s7"
  define s9 where "s9 = set_cell (buffer (w32 a)) last s8"
  have r: "r = (w32 a, s9)"
    unfolding r_def init_mm_region_def Let_def s1_def [symmetric] s2_def [symmetric] mid_def [symmetric] last_def [symmetric]
      s3_def [symmetric] s4_def [symmetric] s5_def [symmetric] s6_def [symmetric] s7_def [symmetric] s8_def [symmetric] s9_def [symmetric] ..
  have e8: "MM_ALIGN_UP sizeof_region_info OR RHINO_MM_ALLOCED OR RHINO_MM_PREVALLOCED = w32 8"
    by (simp add: MM_ALIGN_UP_def MM_ALIGN_MASK_def sizeof_region_info_def RHINO_MM_ALLOCED_def RHINO_MM_PREVALLOCED_def)
  have lt: "a < 2 ^ 32" "a + 4 < 2 ^ 32" "a + 8 < 2 ^ 32" "a + 12 < 2 ^ 32" "a + 16 < 2 ^ 32" "a + 20 < 2 ^ 32" "a + 24 < 2 ^ 32" "a + 28 < 2 ^ 32"
    "a + 24 + k < 2 ^ 32" "a + 28 + k < 2 ^ 32" "a + 8 \<le> 2 ^ 32" "k < 2 ^ 32" using a k by simp_all
  have c: "w32 a + 4 = w32 (a + 4)" "w32 (a + 16) + 4 = w32 (a + 20)" "w32 (a + 16) + 12 = w32 (a + 28)" "w32 (a + 16) + 8 = w32 (a + 24)"
    "w32 (a + 24 + k) + 4 = w32 (a + 28 + k)" "buffer (w32 a) + 4 = w32 (a + 12)" "buffer (w32 a) = w32 (a + 8)"
    by (simp_all add: buffer_def ac_simps)
  have last: "last = w32 (a + 24 + k)" by (simp add: last_def MMLIST_HEAD_SIZE_def ac_simps)
  have m1: "mem (umem s1) = (mem (umem s))(a := 0)"
    unfolding s1_def using mem_cells [OF lt(1), of 0 s] by simp
  have m2: "mem (umem s2) = (mem (umem s1))(a + 4 := 8)"
    unfolding s2_def e8 c(1) by (rule mem_cells [OF lt(2)]) simp
  have h2: "mem (umem s2) (a + 4) = hdr 8 False False" by (simp add: m2 hdr_def)
  have "(8::nat) dvd 8" by simp
  from hdr_words(5) [OF h2 lt(11) this] have mid: "mid = w32 (a + 16)" by (simp add: mid_def)
  have hk: "hdr k False False < 2 ^ 32" using lt(12) by (simp add: hdr_def)
  have "last - buffer mid = w32 k" unfolding last mid buffer_def by simp
  then have ek: "(last - buffer mid) OR RHINO_MM_ALLOCED OR RHINO_MM_PREVALLOCED = w32 k"
    using hdr_make(3) [OF k(1) hk] by (simp add: hdr_def)
  have m3: "mem (umem s3) = (mem (umem s2))(a + 20 := k)"
    unfolding s3_def ek unfolding mid c(2) by (rule mem_cells [OF lt(6,12)])
  have m4: "mem (umem s4) = (mem (umem s3))(a + 28 := 0)"
    unfolding s4_def mid c(3) using mem_cells [OF lt(8), of 0 s3] by simp
  have m5: "mem (umem s5) = (mem (umem s4))(a + 24 := 0)"
    unfolding s5_def mid c(4) using mem_cells [OF lt(7), of 0 s4] by simp
  have m6: "mem (umem s6) = (mem (umem s5))(a + 24 + k := a + 16)"
    unfolding s6_def last mid by (rule mem_cells [OF lt(9,5)])
  have e2: "(0 :: u32) OR RHINO_MM_ALLOCED OR RHINO_MM_PREVFREE = w32 2" by (simp add: RHINO_MM_ALLOCED_def RHINO_MM_PREVFREE_def)
  have m7: "mem (umem s7) = (mem (umem s6))(a + 28 + k := 2)"
    unfolding s7_def e2 last c(5) by (rule mem_cells [OF lt(10)]) simp
  have m8: "mem (umem s8) = (mem (umem s7))(a + 12 := 0)"
    unfolding s8_def c(6) using mem_cells [OF lt(4), of 0 s7] by simp
  have m9: "mem (umem s9) = (mem (umem s8))(a + 8 := a + 24 + k)"
    unfolding s9_def last c(7) by (rule mem_cells [OF lt(3,9)])
  note m = m9 m8 m7 m6 m5 m4 m3 m2 m1
  show "fst r = w32 a" by (simp add: r)
  show R: "region_mem (mem (umem (snd r))) a k" using k by (simp add: r region_mem_def m)
  have h9: "mem (umem s9) (a + 4) = hdr 8 False False" using R by (simp add: region_mem_def r hdr_def)
  show "MM_GET_NEXT_BLK (snd r) (w32 a) = w32 (a + 16)"
    using hdr_words(5) [OF h9 lt(11)] by (simp add: r)
  show "snd r = s\<lparr>umem := umem (snd r)\<rparr>"
    unfolding r snd_conv by (intro kstate.equality; simp add: s9_def s8_def s7_def s6_def s5_def s4_def s3_def s2_def s1_def)
  show "mem (umem (snd r)) c = mem (umem s) c" if "\<not> (a \<le> c \<and> c < a + k + 32)" for c
    using that k by (auto simp: r m)
qed

section \<open>The pool of small blocks\<close>

text \<open>The 128 blocks of the pool in a region at \<open>a\<close>.\<close>

definition small_blocks :: "nat \<Rightarrow> ptr list" where
  "small_blocks a = map (blk_at (w32 (a + 64)) 16) [0..<128]"

lemma mm_init_pool_ok:
  assumes ok: "mm_ok s H a [Used 8, Free k, Fence 0] 0 []" and np: "fix_pool (mm_heads s H) = NULL" and k: "2128 \<le> k" and name: "name \<noteq> NULL"
  shows "\<exists>s'. mm_init_pool s H name = Some s' \<and> mm_ok s' H a [Used 8, Used 2088, Free (k - 2096), Fence 0] (a + 16) (small_blocks a)
    \<and> (\<forall>c. \<not> (a \<le> c \<and> c < a + k + 32) \<longrightarrow> mem (umem s') c = mem (umem s) c) \<and> g_kmm_head s' = g_kmm_head s"
proof -
  let ?ts = "[Used 8, Free k, Fence 0]" and ?ts' = "[Used 8, Used 2088, Free (k - 2096), Fence 0]"
  obtain FL where h: "heap s H a ?ts FL" using ok by (auto simp: mm_ok_def)
  then have lay: "0 < a" "8 dvd a" "a + k + 32 \<le> 2 ^ 32" by (auto simp: heap_def layout_def)
  let ?rq = "RHINO_CONFIG_MM_TLF_BLK_SIZE + MM_ALIGN_UP sizeof_mblk_pool"
  have rq: "?rq = 2088"
    by (simp add: RHINO_CONFIG_MM_TLF_BLK_SIZE_def MM_ALIGN_UP_def MM_ALIGN_MASK_def sizeof_mblk_pool_def)
  have nd: "need (unat (2088 :: u32)) = 2088" by (simp add: need_def)
  have big: "\<not> (fix_pool (mm_heads s H) \<noteq> NULL \<and> (2088 :: u32) \<le> RHINO_CONFIG_MM_BLK_SIZE \<and> blk_avail (mblk_pools s (fix_pool (mm_heads s H))) > 0)"
    using np by simp
  obtain p s1 ts1 where al: "k_mm_alloc s H 2088 = Some (p, s1)" "taken s H a ?ts 2088 p s1 ts1" "mm_ok s1 H a ts1 0 []"
    using k_mm_alloc_search [OF ok _ _ big] k unfolding nd by fastforce
  obtain xs m ys where t: "?ts = xs @ Free m # ys" "p = w32 (a + total xs + 8)" "ts1 = carve xs m 2088 ys" "mm_frame s H (cells a ?ts) s1"
    using al(2) by (auto simp: taken_def)
  have "xs = [Used 8] \<and> m = k \<and> ys = [Fence 0]" using t(1) by (auto simp: Cons_eq_append_conv)
  then have p: "p = w32 (a + 24)" and ts1: "ts1 = ?ts'" using t(2,3) k by (simp_all add: carve_def)
  let ?q = "w32 (a + 64)"
  have lt: "a + 2112 + 32 < 2 ^ 32" using lay(3) k by simp
  have up: "unat p = a + 24" "unat ?q = a + 64" "p + MM_ALIGN_UP sizeof_mblk_pool = ?q" "p \<noteq> NULL" "?q \<noteq> NULL"
    using unat_word_of_nat32 [of "a + 24"] unat_word_of_nat32 [of "a + 64"] w32_0 [of "a + 24"] w32_0 [of "a + 64"] lt
    by (simp_all add: p MM_ALIGN_UP_def MM_ALIGN_MASK_def sizeof_mblk_pool_def ac_simps)
  have q4: "4 dvd unat ?q" using lay(2) up(2) by (simp, presburger)
  obtain s2 where s2: "krhino_mblk_pool_init s1 p name ?q 16 2048 = Some (RHINO_SUCCESS, s2)"
    "pool_rep s2 p (small_blocks a)"
    "\<And>c. \<not> (unat ?q \<le> unat c \<and> unat c < unat ?q + 2048) \<Longrightarrow> umem s2 c = umem s1 c"
    "pool_start (mblk_pools s2 p) = ?q" "pool_end (mblk_pools s2 p) = ?q + 2048" "mm_heads s2 = mm_heads s1" "g_kmm_head s2 = g_kmm_head s1"
    using mblk_pool_init_ok [of p name ?q 16 2048 s1] up name q4 lt unfolding small_blocks_def by auto
  have qe: "unat (?q + 2048) = a + 2112" using unat_word_of_nat32 [of "a + 2112"] lt by (simp add: ac_simps)
  have mem2: "mem (umem s2) c = mem (umem s1) c" if "\<not> (a + 64 \<le> c \<and> c < a + 2112)" for c
  proof (cases "c < 2 ^ 32")
    case True
    have "umem s2 (w32 c) = umem s1 (w32 c)" by (rule s2(3)) (use that in \<open>simp only: unat_word_of_nat32 [OF True] up(2), auto\<close>)
    then show ?thesis by (simp add: mem_def)
  qed (simp add: mem_def)
  have used: "(a + 16, Used 2088) \<in> set (loc a ?ts')" by simp
  have "heap s2 H a ?ts' FL1" if "heap s1 H a ?ts' FL1" for FL1
  proof (rule heap_client [OF that])
    show "mem (umem s2) c = mem (umem s1) c" if "c \<in> cells a ?ts'" for c
      using used_not_cell [OF used, of c] that by (intro mem2) auto
  qed (simp add: s2(6))
  then obtain FL2 where h2: "heap s2 H a ?ts' FL2" using al(3) ts1 by (auto simp: mm_ok_def)
  define s3 where "s3 = set_head H (\<lambda>h. removesize h RHINO_CONFIG_MM_TLF_BLK_SIZE) (set_head H (\<lambda>h. h\<lparr>fix_pool := p\<rparr>) s2)"
  define s4 where "s4 = set_head H (\<lambda>h. h\<lparr>maxused_size := used_size h\<rparr>) s3"
  have run: "mm_init_pool s H name = Some s4"
    unfolding mm_init_pool_def rq al(1) option.case prod.case up(3)
    using up(4) s2(1) by (simp add: RHINO_CONFIG_MM_BLK_SIZE_def RHINO_CONFIG_MM_TLF_BLK_SIZE_def s3_def s4_def Let_def)
  have "heap s4 H a ?ts' FL2" unfolding s4_def s3_def by (intro heap_set_head h2) simp_all
  moreover have "pool_rep s4 p (small_blocks a)" using s2(2) by (simp add: s4_def s3_def pool_rep_def Let_def)
  then have "small_pool s4 H a ?ts' (a + 16) (small_blocks a)"
    unfolding small_pool_def Let_def using up s2(4,5) qe used by (auto simp: s4_def s3_def intro!: exI [of _ 2088])
  ultimately have "mm_ok s4 H a ?ts' (a + 16) (small_blocks a)" using ok by (auto simp: mm_ok_def)
  moreover have "mem (umem s4) c = mem (umem s) c" if "\<not> (a \<le> c \<and> c < a + k + 32)" for c
  proof -
    have "c \<notin> cells a ?ts" using that by (auto simp: cells_def)
    then have "mem (umem s1) c = mem (umem s) c" using t(4) by (simp add: mm_frame_def)
    moreover have "mem (umem s2) c = mem (umem s1) c" using that k by (intro mem2) auto
    ultimately show ?thesis by (simp add: s4_def s3_def)
  qed
  moreover have "g_kmm_head s4 = g_kmm_head s" using t(4) s2(7) by (auto simp: s4_def s3_def mm_frame_def)
  ultimately show ?thesis using run by blast
qed

section \<open>The head\<close>

lemma init_sizes:
  assumes o: "unat orig + 7 < 2 ^ 32" and n: "unat sz \<le> 2 ^ 19" "3079 \<le> unat sz"
  defines "A \<equiv> (unat orig + 7) div 8 * 8"
  defines "N \<equiv> (unat sz - (A - unat orig)) div 8 * 8"
  shows "MM_ALIGN_UP orig = w32 A" "MM_ALIGN_DOWN (sz - (w32 A - orig)) = w32 N"
    "w32 A + MM_ALIGN_UP sizeof_mm_head = w32 (A + 152)" "MM_ALIGN_DOWN (w32 N - sizeof_mm_head) = w32 ((N - 184) + 32)"
    "\<not> (w32 N = 0 \<or> w32 N < MIN_FREE_MEMORY_SIZE + RHINO_CONFIG_MM_TLF_BLK_SIZE \<or> w32 N > MM_MAX_SIZE)"
    "unat orig \<le> A" "A < unat orig + 8" "8 dvd A" "8 dvd N" "3072 \<le> N" "A + N \<le> unat orig + unat sz" "N \<le> 2 ^ 19"
proof -
  have r: "x div 8 * 8 \<le> x" "x < x div 8 * 8 + 8" for x :: nat
    using div_mult_mod_eq [of x 8] mod_less_divisor [of 8 x] by linarith+
  show A: "unat orig \<le> A" "A < unat orig + 8" unfolding A_def using r [of "unat orig + 7"] by linarith+
  show "8 dvd A" unfolding A_def by (rule dvd_triv_right)
  show N: "8 dvd N" unfolding N_def by (rule dvd_triv_right)
  have "N \<le> unat sz - (A - unat orig)" "unat sz - (A - unat orig) < N + 8"
    unfolding N_def by (rule r)+
  note le = this
  have "3072 \<le> unat sz - (A - unat orig)" using A n by linarith
  then have "(3072::nat) div 8 * 8 \<le> N" unfolding N_def by (intro mult_le_mono1 div_le_mono)
  then show N3: "3072 \<le> N" by simp
  show N2: "N \<le> 2 ^ 19" using le(1) n by linarith
  show "A + N \<le> unat orig + unat sz" using le(1) A n by linarith
  show up: "MM_ALIGN_UP orig = w32 A" unfolding A_def by (rule align_up [OF o])
  have "w32 A - orig = w32 A - w32 (unat orig)" by simp
  also have "\<dots> = w32 (A - unat orig)" by (rule w32_minus [OF A(1)])
  finally have "sz - (w32 A - orig) = w32 (unat sz) - w32 (A - unat orig)" by simp
  also have "\<dots> = w32 (unat sz - (A - unat orig))" by (rule w32_minus) (use A n in linarith)
  finally have l: "sz - (w32 A - orig) = w32 (unat sz - (A - unat orig))" .
  have "unat (w32 (unat sz - (A - unat orig))) = unat sz - (A - unat orig)"
    using n by (intro unat_word_of_nat32) simp
  then show "MM_ALIGN_DOWN (sz - (w32 A - orig)) = w32 N" unfolding MM_ALIGN_DOWN_def align_down l N_def by simp
  show "w32 A + MM_ALIGN_UP sizeof_mm_head = w32 (A + 152)"
    by (simp add: MM_ALIGN_UP_def MM_ALIGN_MASK_def sizeof_mm_head_def ac_simps)
  have "w32 N - sizeof_mm_head = w32 N - w32 148" by (simp add: sizeof_mm_head_def)
  also have "\<dots> = w32 (N - 148)" by (rule w32_minus) (use N3 in simp)
  finally have s: "w32 N - sizeof_mm_head = w32 (N - 148)" .
  have "unat (w32 (N - 148)) = N - 148" by (rule unat_word_of_nat32) (use N2 in simp)
  moreover have "(N - 148) div 8 * 8 = N - 184 + 32"
  proof -
    obtain j where j: "N = 8 * j" using N by (rule dvdE)
    then have "384 \<le> j" using N3 by linarith
    then obtain m where "j = 384 + m" by (blast dest: le_Suc_ex)
    then have m: "N = 8 * (m + 384)" using j by (simp add: add.commute)
    have "N - 148 = 4 + (m + 365) * 8" unfolding m by simp
    then show ?thesis unfolding m by simp
  qed
  ultimately show "MM_ALIGN_DOWN (w32 N - sizeof_mm_head) = w32 ((N - 184) + 32)"
    unfolding MM_ALIGN_DOWN_def align_down s by (simp only:)
  have "N < 2 ^ 32" using N2 by simp
  then show "\<not> (w32 N = 0 \<or> w32 N < MIN_FREE_MEMORY_SIZE + RHINO_CONFIG_MM_TLF_BLK_SIZE \<or> w32 N > MM_MAX_SIZE)"
    using N2 N3 w32_0 [of N] w32_less [of N 3072] w32_less [of "2 ^ 19" N]
    by (simp add: MIN_FREE_MEMORY_SIZE_def RHINO_CONFIG_MM_TLF_BLK_SIZE_def MM_MAX_SIZE_def MM_MAX_BIT_def push_bit_eq_mult)
qed

lemma init_mm_head_ok:
  assumes z: "pp \<noteq> NULL" "name \<noteq> NULL" "orig \<noteq> NULL"
    and len: "3079 \<le> unat sz" "unat sz \<le> 2 ^ 19" "unat orig + unat sz \<le> 2 ^ 32"
    and pp: "\<not> (unat orig \<le> unat pp \<and> unat pp < unat orig + unat sz)"
    and A_def: "A = (unat orig + 7) div 8 * 8" and N_def: "N = (unat sz - (A - unat orig)) div 8 * 8"
  shows "\<exists>s'. krhino_init_mm_head s pp name orig sz = Some (RHINO_SUCCESS, s') \<and> umem s' pp = w32 A
    \<and> mm_ok s' (w32 A) (A + 152) [Used 8, Used 2088, Free (N - 2280), Fence 0] (A + 168) (small_blocks (A + 152))
    \<and> (\<forall>c. c \<noteq> unat pp \<and> \<not> (unat orig \<le> c \<and> c < unat orig + unat sz) \<longrightarrow> mem (umem s') c = mem (umem s) c)
    \<and> g_kmm_head s' = g_kmm_head s"
proof -
  have o7: "unat orig + 7 < 2 ^ 32" using len by linarith
  note I = init_sizes [OF o7 len(2,1), folded A_def, folded N_def]
  define a where "a = A + 152"
  define k where "k = N - 184"
  have Nk: "N = k + 184" using I(10) by (simp add: k_def)
  have a: "0 < a" "8 dvd a" "a + k + 32 \<le> 2 ^ 32" using I(8,11) len(3) by (simp_all add: a_def Nk)
  have "8 dvd k" using I(9,10) unfolding k_def by (intro dvd_diff_nat) simp_all
  then have k: "8 dvd k" "32 \<le> k" "k + 24 \<le> 2 ^ 19" "2128 \<le> k" using I(10,12) by (simp_all add: Nk)
  have o0: "0 < unat orig" using z(3) by (simp add: unat_gt_0)
  have A32: "A < 2 ^ 32" "0 < A" using a(3) I(6) o0 by (simp_all add: a_def)
  let ?H = "w32 A"
  have H: "?H \<noteq> NULL" using w32_0 [OF A32(1)] A32(2) by simp
  define s1 where "s1 = set_head ?H (\<lambda>_. zero_head) s"
  define r where "r = init_mm_region s1 (w32 a) (w32 (k + 32))"
  note R = init_mm_region_ok [where s = s1, OF a k(1,2), folded r_def]
  define s3 where "s3 = set_head ?H (\<lambda>h. h\<lparr>regioninfo := buffer (w32 a)\<rparr>) (snd r)"
  define s4 where "s4 = set_cell pp ?H s3"
  define s5 where "s5 = k_mm_free s4 ?H (buffer (w32 (a + 16)))"
  define s6 where "s6 = set_head ?H (\<lambda>h. h\<lparr>free_size := MM_GET_BUF_SIZE s5 (w32 (a + 16))\<rparr>) s5"
  define s7 where "s7 = set_head ?H (\<lambda>h. h\<lparr>used_size := w32 N - MM_GET_BUF_SIZE s6 (w32 (a + 16))\<rparr>) s6"
  define s8 where "s8 = set_head ?H (\<lambda>h. h\<lparr>maxused_size := used_size h\<rparr>) s7"
  define s9 where "s9 = set_head ?H (\<lambda>h. h\<lparr>fix_pool := NULL\<rparr>) s8"
  have nx: "MM_GET_NEXT_BLK s3 (w32 a) = w32 (a + 16)"
    using R(3) by (simp add: s3_def MM_GET_NEXT_BLK_def MM_GET_BUF_SIZE_def)
  have run: "krhino_init_mm_head s pp name orig sz = (case mm_init_pool s9 ?H name of None \<Rightarrow> None | Some s \<Rightarrow> Some (RHINO_SUCCESS, s))"
    unfolding krhino_init_mm_head_def Let_def I(1) I(2) if_not_P [OF I(5)] if_not_P [OF z(1)] if_not_P [OF z(3)]
      I(3) I(4) a_def [symmetric] k_def [symmetric] s1_def [symmetric] r_def [symmetric] split_def R(1) s3_def [symmetric] nx
      s4_def [symmetric] s5_def [symmetric] s6_def [symmetric] s7_def [symmetric] s8_def [symmetric] s9_def [symmetric] ..
  have pa: "\<not> (a \<le> unat pp \<and> unat pp < a + k + 32)" using pp I(6,11) by (auto simp: a_def Nk)
  have m4: "mem (umem s4) = (mem (umem (snd r)))(unat pp := A)"
    using mem_set_cell [of "unat pp" s3 ?H] unsigned_less [where 'a = nat, of pp] unat_word_of_nat32 [OF A32(1)] by (simp add: s4_def s3_def)
  obtain M where r2: "snd r = s1\<lparr>umem := M\<rparr>" using R(4) by blast
  have h4: "mm_heads s4 ?H = zero_head\<lparr>regioninfo := buffer (w32 a)\<rparr>" by (simp add: s4_def s3_def r2 s1_def)
  have "region_mem (mem (umem s4)) a k" using R(2) pa k(2) unfolding region_mem_def m4 by auto
  then have o: "open_heap s4 ?H a [Used 8] k False [Fence 0] True (\<lambda>_. [])"
    by (rule region_open [OF _ a k(1-3)]) (simp_all add: h4 zero_head_def)
  have bz: "buffer (w32 (a + 16)) = w32 ((a + 16) + 8)" by (simp add: buffer_def)
  have np4: "\<not> krhino_mblk_check s4 (fix_pool (mm_heads s4 ?H)) (w32 ((a + 16) + 8))"
    by (simp add: h4 zero_head_def krhino_mblk_check_def)
  have b16: "a + 16 = a + total [Used 8]" by simp
  note F = k_mm_free_open [OF o k(2) b16 H np4, folded bz, folded s5_def]
  have rel: "release [Used 8] k [Fence 0] = [Used 8, Free k, Fence 0]" by (simp add: release_def merge_prev_def)
  obtain FL where h5: "heap s5 ?H a [Used 8, Free k, Fence 0] FL" using F(1) rel by auto
  have h9: "heap s9 ?H a [Used 8, Free k, Fence 0] FL"
    unfolding s9_def s8_def s7_def s6_def by (intro heap_set_head h5) simp_all
  have np9: "fix_pool (mm_heads s9 ?H) = NULL" by (simp add: s9_def)
  have "mm_ok s9 ?H a [Used 8, Free k, Fence 0] 0 []" using h9 np9 H by (auto simp: mm_ok_def small_pool_def)
  from mm_init_pool_ok [OF this np9 k(4) z(2)] obtain s' where s': "mm_init_pool s9 ?H name = Some s'"
    "mm_ok s' ?H a [Used 8, Used 2088, Free (k - 2096), Fence 0] (a + 16) (small_blocks a)"
    "\<And>c. \<not> (a \<le> c \<and> c < a + k + 32) \<Longrightarrow> mem (umem s') c = mem (umem s9) c" "g_kmm_head s' = g_kmm_head s9"
    by blast
  have "g_kmm_head s5 = g_kmm_head s4" using F(2) by (auto simp: mm_frame_def)
  then have g: "g_kmm_head s9 = g_kmm_head s" by (simp add: s9_def s8_def s7_def s6_def s4_def s3_def r2 s1_def)
  have out: "mem (umem s9) c = ((mem (umem s))(unat pp := A)) c" if "\<not> (a \<le> c \<and> c < a + k + 32)" for c
  proof -
    have "c \<notin> cells a [Used 8, Free k, Fence 0]" using that by (auto simp: cells_def)
    then have "mem (umem s5) c = mem (umem s4) c" using F(2) by (simp add: mm_frame_def)
    then show ?thesis using R(5) [OF that] by (simp add: s9_def s8_def s7_def s6_def m4 s1_def)
  qed
  have inside: "\<not> (a \<le> c \<and> c < a + k + 32)" if "\<not> (unat orig \<le> c \<and> c < unat orig + unat sz)" for c
    using that I(6,11) by (auto simp: a_def Nk)
  have "mem (umem s') (unat pp) = A" using s'(3) [OF pa] out [OF pa] by simp
  then have "umem s' pp = w32 A" using mem_read [of "unat pp" "umem s'"] unsigned_less [where 'a = nat, of pp] by simp
  moreover have "mem (umem s') c = mem (umem s) c" if "c \<noteq> unat pp" "\<not> (unat orig \<le> c \<and> c < unat orig + unat sz)" for c
    using s'(3) [OF inside [OF that(2)]] out [OF inside [OF that(2)]] that(1) by simp
  moreover have "mm_ok s' (w32 A) (A + 152) [Used 8, Used 2088, Free (N - 2280), Fence 0] (A + 168) (small_blocks (A + 152))"
    using s'(2) by (simp add: a_def Nk add.assoc)
  moreover have "krhino_init_mm_head s pp name orig sz = Some (RHINO_SUCCESS, s')" using run s'(1) by simp
  ultimately show ?thesis using g s'(4) by (intro exI [of _ s']) simp
qed

section \<open>Properties\<close>

text \<open>C9: Initialisation makes any piece of memory of 3079 bytes up to 512 KiB a heap: the head at the
  first aligned address, then a region with the pool of 128 small blocks, all free, and one free block
  of the rest. Nothing outside is written but the pointer to the head.\<close>

theorem krhino_init_mm_head_correct:
  assumes "pp \<noteq> NULL" "name \<noteq> NULL" "orig \<noteq> NULL"
    and "3079 \<le> unat sz" "unat sz \<le> 2 ^ 19" "unat orig + unat sz \<le> 2 ^ 32"
    and "\<not> (unat orig \<le> unat pp \<and> unat pp < unat orig + unat sz)"
  shows "let A = (unat orig + 7) div 8 * 8; N = (unat sz - (A - unat orig)) div 8 * 8 in
    \<exists>s'. krhino_init_mm_head s pp name orig sz = Some (RHINO_SUCCESS, s') \<and> umem s' pp = w32 A
      \<and> mm_ok s' (w32 A) (A + 152) [Used 8, Used 2088, Free (N - 2280), Fence 0] (A + 168) (small_blocks (A + 152))
      \<and> (\<forall>c. c \<noteq> unat pp \<and> \<not> (unat orig \<le> c \<and> c < unat orig + unat sz) \<longrightarrow> mem (umem s') c = mem (umem s) c)"
  unfolding Let_def using init_mm_head_ok [OF assms refl refl, of s] by blast

text \<open>The heap of the examples: one page at address \<open>0x10000\<close>.\<close>

abbreviation ex_tiles :: "tile list" where
  "ex_tiles \<equiv> [Used 8, Used 2088, Free 1816, Fence 0]"

lemma ex_heap: "\<exists>s. mm_ok s 0x10000 65688 ex_tiles 65704 (small_blocks 65688)"
proof -
  have u: "unat (0x10000 :: u32) = 65536" "unat (0x1000 :: u32) = 4096" "unat (0x500 :: u32) = 1280" by simp_all
  have "\<exists>s'. krhino_init_mm_head ex_state 0x500 1 0x10000 0x1000 = Some (RHINO_SUCCESS, s') \<and> umem s' 0x500 = w32 65536
    \<and> mm_ok s' (w32 65536) (65536 + 152) [Used 8, Used 2088, Free (4096 - 2280), Fence 0] (65536 + 168) (small_blocks (65536 + 152))
    \<and> (\<forall>c. c \<noteq> unat (0x500 :: u32) \<and> \<not> (unat (0x10000 :: u32) \<le> c \<and> c < unat (0x10000 :: u32) + unat (0x1000 :: u32))
        \<longrightarrow> mem (umem s') c = mem (umem ex_state) c) \<and> g_kmm_head s' = g_kmm_head ex_state"
    by (rule init_mm_head_ok) (simp_all add: u)
  then show ?thesis by auto
qed

theorem krhino_init_mm_head_correct_witness:
  "\<exists>s'. krhino_init_mm_head ex_state 0x500 1 0x10001 0xFFF = Some (RHINO_SUCCESS, s') \<and> umem s' 0x500 = 0x10008"
proof -
  have u: "unat (0x10001 :: u32) = 65537" "unat (0xFFF :: u32) = 4095" "unat (0x500 :: u32) = 1280" by simp_all
  show ?thesis using krhino_init_mm_head_correct [of "0x500" 1 "0x10001" "0xFFF" ex_state] by (auto simp: u Let_def)
qed

lemma ex_blocks: "blocks 65688 ex_tiles = {(65696, 8), (65712, 2088)}"
  by (auto simp: blocks_def)

theorem k_mm_alloc_correct_witness:
  "\<exists>s p s' ts k. k_mm_alloc s 0x10000 100 = Some (p, s') \<and> mm_ok s' 0x10000 65688 ts 65704 (small_blocks 65688)
    \<and> blocks 65688 ts = {(65696, 8), (65712, 2088), (unat p, k)} \<and> 100 \<le> k"
proof -
  obtain s where s: "mm_ok s 0x10000 65688 ex_tiles 65704 (small_blocks 65688)" using ex_heap by blast
  have u: "unat (100 :: u32) = 100" "need 100 = 104" by (simp_all add: need_def)
  have "\<not> (\<forall>m. Free m \<in> set ex_tiles \<longrightarrow> m < 104)" by auto
  then obtain p s' ts k where "k_mm_alloc s 0x10000 100 = Some (p, s')" "mm_ok s' 0x10000 65688 ts 65704 (small_blocks 65688)"
    "blocks 65688 ts = insert (unat p, k) {(65696, 8), (65712, 2088)}" "104 \<le> k"
    using k_mm_alloc_correct [OF s, of 100] unfolding u ex_blocks by auto
  then show ?thesis by (intro exI [of _ s] exI [of _ p] exI [of _ s'] exI [of _ ts] exI [of _ k]) auto
qed

theorem k_mm_alloc_wraps_witness:
  "\<exists>s p s' ts k. k_mm_alloc s 0x10000 0xFFFFFFFF = Some (p, s') \<and> p \<noteq> NULL \<and> (unat p, k) \<in> blocks 65688 ts \<and> k < 72
    \<and> mm_ok s' 0x10000 65688 ts 65704 (small_blocks 65688)"
proof -
  obtain s where s: "mm_ok s 0x10000 65688 ex_tiles 65704 (small_blocks 65688)" using ex_heap by blast
  have u: "2 ^ 32 \<le> unat (0xFFFFFFFF :: u32) + 7" by simp
  have "Free 1816 \<in> set ex_tiles" by simp
  then obtain p s' ts k where "k_mm_alloc s 0x10000 0xFFFFFFFF = Some (p, s')" "p \<noteq> NULL" "mm_ok s' 0x10000 65688 ts 65704 (small_blocks 65688)"
    "blocks 65688 ts = insert (unat p, k) (blocks 65688 ex_tiles)" "k < 72"
    using k_mm_alloc_wraps [OF s u] by (auto split: if_splits)
  then show ?thesis by (intro exI [of _ s] exI [of _ p] exI [of _ s'] exI [of _ ts] exI [of _ k]) simp
qed

lemma ex_taken:
  obtains s and p :: ptr and ts k where "mm_ok s 0x10000 65688 ts 65704 (small_blocks 65688)" "(unat p, k) \<in> blocks 65688 ts" "32 \<le> k"
    "unat p \<noteq> 65704 + 8" "blocks 65688 ts - {(unat p, k)} = {(65696, 8), (65712, 2088)}"
proof -
  obtain s where s: "mm_ok s 0x10000 65688 ex_tiles 65704 (small_blocks 65688)" using ex_heap by blast
  have u: "unat (100 :: u32) = 100" "need 100 = 104" by (simp_all add: need_def)
  have big: "\<not> (fix_pool (mm_heads s 0x10000) \<noteq> NULL \<and> (100 :: u32) \<le> RHINO_CONFIG_MM_BLK_SIZE
      \<and> blk_avail (mblk_pools s (fix_pool (mm_heads s 0x10000))) > 0)" by (simp add: RHINO_CONFIG_MM_BLK_SIZE_def)
  have "\<not> (\<forall>m. Free m \<in> set ex_tiles \<longrightarrow> m < 104)" by auto
  then obtain p s' ts where r: "taken s 0x10000 65688 ex_tiles 104 p s' ts" "mm_ok s' 0x10000 65688 ts 65704 (small_blocks 65688)"
    using k_mm_alloc_search [OF s _ _ big] unfolding u by auto
  obtain k where k: "104 \<le> k" "blocks 65688 ts = insert (unat p, k) (blocks 65688 ex_tiles)"
    and d: "\<forall>(y, j) \<in> blocks 65688 ex_tiles. unat p + k + 8 \<le> y \<or> y + j + 8 \<le> unat p"
    using taken_blocks(1) [OF s r(1)] by blast
  then have "(unat p, k) \<in> blocks 65688 ts" "32 \<le> k" "unat p \<noteq> 65704 + 8" "blocks 65688 ts - {(unat p, k)} = {(65696, 8), (65712, 2088)}"
    by (auto simp: ex_blocks)
  then show ?thesis by (rule that [OF r(2)])
qed

theorem k_mm_free_correct_witness:
  "\<exists>s p ts ts'. mm_ok s 0x10000 65688 ts 65704 (small_blocks 65688) \<and> blocks 65688 ts \<noteq> {(65696, 8), (65712, 2088)}
    \<and> mm_ok (k_mm_free s 0x10000 p) 0x10000 65688 ts' 65704 (small_blocks 65688) \<and> blocks 65688 ts' = {(65696, 8), (65712, 2088)}"
proof -
  obtain s and p :: ptr and ts k where s: "mm_ok s 0x10000 65688 ts 65704 (small_blocks 65688)" "(unat p, k) \<in> blocks 65688 ts" "32 \<le> k" "unat p \<noteq> 65704 + 8"
    "blocks 65688 ts - {(unat p, k)} = {(65696, 8), (65712, 2088)}" by (rule ex_taken)
  obtain ts' where "mm_ok (k_mm_free s 0x10000 p) 0x10000 65688 ts' 65704 (small_blocks 65688)" "blocks 65688 ts' = {(65696, 8), (65712, 2088)}"
    using k_mm_free_correct [OF s(1), THEN conjunct1, THEN mp, of p k] s(2-4) unfolding s(5) by blast
  moreover have "blocks 65688 ts \<noteq> {(65696, 8), (65712, 2088)}" using s(2,5) by auto
  ultimately show ?thesis using s(1) by blast
qed

theorem k_mm_realloc_correct_witness:
  "\<exists>s p q s'. k_mm_realloc s 0x10000 p 40 = Some (q, s') \<and> (q = NULL \<longrightarrow> s' = s)
    \<and> (q \<noteq> NULL \<longrightarrow> mem (umem s') (unat q) = mem (umem s) (unat p))"
proof -
  obtain s and p :: ptr and ts k where s: "mm_ok s 0x10000 65688 ts 65704 (small_blocks 65688)" "(unat p, k) \<in> blocks 65688 ts" "32 \<le> k" "unat p \<noteq> 65704 + 8"
    by (rule ex_taken)
  have u: "(40 :: u32) \<noteq> 0" "unat (40 :: u32) + 7 < 2 ^ 32" "unat (40 :: u32) = 40" by simp_all
  have k0: "0 < min k 40" using s(3) by simp
  obtain q s' where r: "k_mm_realloc s 0x10000 p 40 = Some (q, s')"
    and c: "q = NULL \<Longrightarrow> s' = s" "q \<noteq> NULL \<Longrightarrow> \<forall>i < min k 40. mem (umem s') (unat q + i) = mem (umem s) (unat p + i)"
    using k_mm_realloc_correct [OF s u(1,2)] unfolding u(3) by (clarsimp split: if_splits) blast+
  have "q \<noteq> NULL \<longrightarrow> mem (umem s') (unat q + 0) = mem (umem s) (unat p + 0)" using c(2) k0 by blast
  then show ?thesis using r c(1) by auto
qed

end
