(* ===== verification/Mutex_Chain.thy ===== *)
theory Mutex_Chain
  imports Rhino_Prelude
begin

text \<open>
  The mutexes a task holds are linked through \<^verbatim>\<open>mutex->mutex_list\<close>, starting at \<^verbatim>\<open>task->mutex_list\<close>.
  The model of the kernel has the sequence of their addresses in the task. This theory has the three
  ways in which the code works on the links (\<^verbatim>\<open>k_mutex.c\<close>, \<^verbatim>\<open>task_mutex_free\<close> in \<^verbatim>\<open>k_task.c\<close>) at the level
  of pointers, and shows that they compute on the sequences what the model says, as long as no mutex is
  in two chains. The invariant of the kernel gives that for the tasks that have not been deleted; what
  is left in a deleted task is no chain any more once one of its mutexes has a new owner.
\<close>

section \<open>Chains\<close>

text \<open>\<open>L m\<close> is \<^verbatim>\<open>m->mutex_list\<close>.\<close>

primrec chain :: "(ptr \<Rightarrow> ptr) \<Rightarrow> ptr \<Rightarrow> ptr list \<Rightarrow> bool" where
  "chain L h [] \<longleftrightarrow> h = NULL"
| "chain L h (m # ms) \<longleftrightarrow> h = m \<and> m \<noteq> NULL \<and> chain L (L m) ms"

lemma chain_upd_other: "m \<notin> set ms \<Longrightarrow> chain (L(m := x)) h ms = chain L h ms"
  by (induction ms arbitrary: h) auto

lemma chain_cong: "(\<And>x. x \<in> set ms \<Longrightarrow> L' x = L x) \<Longrightarrow> chain L' h ms = chain L h ms"
  by (induction ms arbitrary: h) auto

lemma chain_NULL [simp]: "chain L NULL ms \<longleftrightarrow> ms = []"
  by (cases ms) auto

text \<open>A chain never returns to a mutex, so it is the only sequence its links have.\<close>

lemma chain_unique: "chain L h ms \<Longrightarrow> chain L h ns \<Longrightarrow> ms = ns"
proof (induction ms arbitrary: h ns)
  case (Cons m ms)
  then show ?case by (cases ns) auto
qed (cases ns; simp)

section \<open>Taking a mutex\<close>

text \<open>\<^verbatim>\<open>mutex->mutex_list = task->mutex_list; task->mutex_list = mutex\<close>: the links and the head of the task.\<close>

definition mutex_link :: "(ptr \<Rightarrow> ptr) \<Rightarrow> ptr \<Rightarrow> ptr \<Rightarrow> (ptr \<Rightarrow> ptr) \<times> ptr" where
  "mutex_link L h mutex = (L(mutex := h), mutex)"

lemma mutex_link_chains:
  assumes c: "\<And>t. t \<in> A \<Longrightarrow> chain L (H t) (M t)" and a: "a \<in> A"
    and m: "m \<noteq> NULL" "\<And>t. t \<in> A \<Longrightarrow> m \<notin> set (M t)" and t: "t \<in> A"
  shows "chain (fst (mutex_link L (H a) m)) ((H(a := snd (mutex_link L (H a) m))) t) ((M(a := m # M a)) t)"
  using c [OF a] c [OF t] m by (simp add: mutex_link_def chain_upd_other a t)

section \<open>Releasing a mutex\<close>

text \<open>What \<^verbatim>\<open>prev\<close> of \<^verbatim>\<open>mutex_pri_look\<close> points to: the head in the task, or the link of a mutex.\<close>

datatype (plugins only: code size) cell = Head | Link ptr

fun cell_get :: "(ptr \<Rightarrow> ptr) \<times> ptr \<Rightarrow> cell \<Rightarrow> ptr" where
  "cell_get (L, h) Head = h"
| "cell_get (L, h) (Link m) = L m"

fun cell_set :: "(ptr \<Rightarrow> ptr) \<times> ptr \<Rightarrow> cell \<Rightarrow> ptr \<Rightarrow> (ptr \<Rightarrow> ptr) \<times> ptr" where
  "cell_set (L, h) Head x = (L, x)"
| "cell_set (L, h) (Link m) x = (L(m := x), h)"

partial_function (option) mutex_unlink ::
  "(ptr \<Rightarrow> ptr) \<times> ptr \<Rightarrow> cell \<Rightarrow> ptr \<Rightarrow> ((ptr \<Rightarrow> ptr) \<times> ptr) option" where
  "mutex_unlink st prev mutex_rel =
     (let mutex_tmp = cell_get st prev
      in if mutex_tmp = NULL then Some st
         else if mutex_tmp = mutex_rel then mutex_unlink (cell_set st prev (fst st mutex_tmp)) prev mutex_rel
         else mutex_unlink st (Link mutex_tmp) mutex_rel)"

lemma cell_get_set: "cell_get (cell_set st c x) d = (if d = c then x else cell_get st d)"
  by (cases st; cases c; cases d) auto

lemma fst_cell: "fst st m = cell_get st (Link m)"
  by (cases st) simp

lemma mutex_unlink_chain:
  assumes "chain (fst st) (cell_get st c) ms" and "distinct ms" and "c \<notin> Link ` set ms"
  shows "\<exists>st'. mutex_unlink st c rel = Some st' \<and> chain (fst st') (cell_get st' c) (removeAll rel ms)
    \<and> (\<forall>d. d \<noteq> c \<and> d \<notin> Link ` set ms \<longrightarrow> cell_get st' d = cell_get st d)"
  using assms
proof (induction ms arbitrary: st c)
  case Nil
  then show ?case by (subst mutex_unlink.simps) simp
next
  case (Cons m ms)
  have m: "cell_get st c = m" "m \<noteq> NULL" "chain (fst st) (fst st m) ms" "m \<notin> set ms" "distinct ms"
    using Cons.prems by auto
  have cl: "c \<notin> Link ` set ms" "c \<noteq> Link m" using Cons.prems by auto
  show ?case
  proof (cases "m = rel")
    case True
    let ?st = "cell_set st c (fst st m)"
    have "fst ?st x = fst st x" if "x \<in> set ms" for x
      unfolding fst_cell cell_get_set using that cl by auto
    then have "chain (fst ?st) (cell_get ?st c) ms"
      using m(3) chain_cong [of ms "fst ?st" "fst st" "fst st m"] by (simp add: cell_get_set)
    from Cons.IH [OF this m(5) cl(1)] True m show ?thesis
      by (subst mutex_unlink.simps) (auto simp: cell_get_set)
  next
    case False
    have "chain (fst st) (cell_get st (Link m)) ms" using m(3) by (simp add: fst_cell)
    moreover have "Link m \<notin> Link ` set ms" using m(4) by auto
    ultimately obtain st' where st': "mutex_unlink st (Link m) rel = Some st'"
      "chain (fst st') (cell_get st' (Link m)) (removeAll rel ms)"
      "\<forall>d. d \<noteq> Link m \<and> d \<notin> Link ` set ms \<longrightarrow> cell_get st' d = cell_get st d"
      using Cons.IH [of st "Link m"] m(5) by blast
    have "cell_get st' c = m" using st'(3) cl m(1) by simp
    with st' False m(1,2) show ?thesis
      by (subst mutex_unlink.simps) (auto simp: fst_cell)
  qed
qed

text \<open>So \<^verbatim>\<open>mutex_pri_look\<close> ends, takes the mutex out of the chain of its owner, and leaves all others.\<close>

lemma mutex_unlink_chains:
  assumes c: "\<And>t. t \<in> A \<Longrightarrow> chain L (H t) (M t)" and d: "distinct (M a)" and a: "a \<in> A"
    and disj: "\<And>t. t \<in> A \<Longrightarrow> t \<noteq> a \<Longrightarrow> set (M t) \<inter> set (M a) = {}"
  shows "\<exists>L' h. mutex_unlink (L, H a) Head rel = Some (L', h)
    \<and> (\<forall>t \<in> A. chain L' ((H(a := h)) t) ((M(a := removeAll rel (M a))) t))"
proof -
  obtain L' h where st: "mutex_unlink (L, H a) Head rel = Some (L', h)" "chain L' h (removeAll rel (M a))"
    "\<forall>d. d \<noteq> Head \<and> d \<notin> Link ` set (M a) \<longrightarrow> cell_get (L', h) d = cell_get (L, H a) d"
    using mutex_unlink_chain [of "(L, H a)" Head "M a" rel] c [OF a] d by auto
  have "chain L' (H t) (M t)" if t: "t \<in> A" "t \<noteq> a" for t
  proof -
    have "L' x = L x" if "x \<in> set (M t)" for x
      using st(3) [rule_format, of "Link x"] disj [OF t] that by auto
    then show ?thesis using c [OF t(1)] chain_cong [of "M t" L' L "H t"] by simp
  qed
  with st show ?thesis by auto
qed

section \<open>Releasing all mutexes of a task\<close>

text \<open>The walk of \<^verbatim>\<open>task_mutex_free\<close>: \<open>w m\<close> is the head of the chain of the task that gets \<open>m\<close>, if there is
  one. The link of \<open>m\<close> is read before it is overwritten.\<close>

partial_function (option) mutex_free_walk ::
  "(ptr \<Rightarrow> ptr) \<Rightarrow> (ptr \<Rightarrow> ptr option) \<Rightarrow> ptr \<Rightarrow> ptr list \<Rightarrow> (ptr list \<times> (ptr \<Rightarrow> ptr)) option" where
  "mutex_free_walk L w mutex visited =
     (if mutex = NULL then Some (visited, L)
      else let next_mutex = L mutex;
               L = (case w mutex of None \<Rightarrow> L | Some h \<Rightarrow> L(mutex := h))
           in mutex_free_walk L w next_mutex (visited @ [mutex]))"

text \<open>It ends and visits exactly the mutexes of the task, in order, whatever it writes.\<close>

lemma mutex_free_walk_visits:
  assumes "chain L h ms" and "distinct ms"
  shows "mutex_free_walk L w h vs = Some (vs @ ms,
    \<lambda>m. if m \<in> set ms then (case w m of None \<Rightarrow> L m | Some x \<Rightarrow> x) else L m)"
  using assms
proof (induction ms arbitrary: h L vs)
  case Nil
  then show ?case by (subst mutex_free_walk.simps) simp
next
  case (Cons m ms)
  let ?L = "case w m of None \<Rightarrow> L | Some x \<Rightarrow> L(m := x)"
  have "?L x = L x" if "x \<in> set ms" for x using Cons.prems that by (auto split: option.splits)
  then have "chain ?L (L m) ms" using Cons.prems chain_cong [of ms ?L L "L m"] by simp
  from Cons.IH [OF this, of "vs @ [m]"] Cons.prems show ?case
    by (subst mutex_free_walk.simps) (auto simp: Let_def fun_eq_iff split: option.splits)
qed

end
