(* ===== verification/Spec2Isabelle.thy ===== *)
theory Spec2Isabelle
  imports Reachability Mm_Init Mutex_Chain
begin

text \<open>
  Verification of the kernel of AliOS Things, Rhino: \<^verbatim>\<open>src/kernel/rhino/core\<close>.

  \<^bold>\<open>The program.\<close> Rhino is a preemptive kernel with fixed priorities for microcontrollers. Tasks and
  interrupt handlers call it; each call runs with interrupts off and ends in the scheduler. The model
  is that of the configuration \<^verbatim>\<open>board/atbm6431/config/k_config.h\<close> with the defaults of
  \<^verbatim>\<open>core/include/k_default_config.h\<close>: one CPU, 62 priorities, round robin, 32-bit pointers, 64-bit ticks.
  So a call is a function from the state of the kernel to a status and a new state, and concurrency is
  the order of calls and interrupts (theory \<^verbatim>\<open>System\<close>).

  \<^bold>\<open>How the code is represented.\<close>
  \<^item> The globals of \<^verbatim>\<open>k_obj.c\<close> are the fields of the record \<^verbatim>\<open>kstate\<close> (theory \<^verbatim>\<open>Kernel_State\<close>), under their
    names. Control blocks are records at addresses: \<^verbatim>\<open>tasks\<close>, \<^verbatim>\<open>mutexes\<close>, \<^verbatim>\<open>sems\<close>, \<^verbatim>\<open>queues\<close> and so on
    map a pointer to the \<^verbatim>\<open>ktask_t\<close>, \<^verbatim>\<open>kmutex_t\<close>, ... there, and \<^verbatim>\<open>blks\<close> to the \<^verbatim>\<open>blk_obj_t\<close> with which an
    object begins. Memory the kernel reads or writes through a pointer of its caller, the memory of
    pools and the heap included, is \<^verbatim>\<open>umem\<close>, a map from addresses of words to words.
  \<^item> The intrusive lists are sequences of addresses. Theory \<^verbatim>\<open>Klist\<close> has them at the level of
    pointers too, and shows that the operations, and the loops that look for a place in an ordered
    list, compute what the operations on sequences say.
    So does theory \<^verbatim>\<open>Mutex_Chain\<close> for the chains of mutexes, of tasks that have not been deleted.
  \<^item> Integers have their width (\<^verbatim>\<open>u8\<close>, \<^verbatim>\<open>u32\<close>, \<^verbatim>\<open>tick\<close> are words of 8, 32 and 64 bits) where the code can
    wrap. Priorities and the counts the code bounds are natural numbers.
  \<^item> Every check and early return is a branch; the status codes are the datatype \<^verbatim>\<open>kstat\<close>.
    \<^verbatim>\<open>k_err_proc\<close> records the error in the state.
  \<^item> A call that blocks returns no status at first: its result is \<^verbatim>\<open>None\<close> with the state in which
    another task has the CPU. The code behind the switch is the definition with the suffix \<^verbatim>\<open>_resume\<close>,
    run when the task runs again.
  \<^item> A loop whose end depends on the data is a recursion by a measure where it always ends, and has an
    optional result where it need not (\<^verbatim>\<open>krhino_find_first_bit\<close>, the walk along a chain of owners of
    mutexes, the chain of a memory pool, the search along a free list). That such a loop ends in the
    states the invariant admits is proved where it is used, so no theorem is about calls that return only.
    There is no fuel.

  \<^bold>\<open>Theories.\<close>
  \<^item> \<^verbatim>\<open>Rhino_Prelude\<close>: types of \<^verbatim>\<open>k_sys.h\<close>, status codes of \<^verbatim>\<open>k_err.h\<close>, lemmas on lists and words.
  \<^item> \<^verbatim>\<open>Bitmap\<close> (\<^verbatim>\<open>k_bitmap.h\<close>), \<^verbatim>\<open>Klist\<close> (\<^verbatim>\<open>k_list.h\<close>), \<^verbatim>\<open>Ringbuf\<close> and \<^verbatim>\<open>Ringbuf_Fifo\<close> (\<^verbatim>\<open>k_ringbuf.c\<close>): the data
    structures, each with its refinement: the first set bit, sequences, and a first-in first-out
    channel of messages (locale \<^verbatim>\<open>msg_channel\<close>, with an interpretation for each type of buffer).
  \<^item> \<^verbatim>\<open>Kernel_State\<close> (\<^verbatim>\<open>k_task.h\<close>, \<^verbatim>\<open>k_obj.h\<close> and the headers of the objects), \<^verbatim>\<open>Sched\<close> (\<^verbatim>\<open>k_sched.c\<close>),
    \<^verbatim>\<open>Kernel_Inv\<close>: the data, the run queue, and the structural invariant: each task is on exactly
    the lists its state calls for. Each part of it has one rule per kind of update.
  \<^item> \<^verbatim>\<open>Pend\<close> (\<^verbatim>\<open>k_pend.c\<close>, the lists of \<^verbatim>\<open>k_tick.c\<close>), \<^verbatim>\<open>PrioInherit\<close> (\<^verbatim>\<open>task_pri_change\<close>, \<^verbatim>\<open>mutex_pri_limit\<close>,
    \<^verbatim>\<open>mutex_pri_look\<close>): blocking and waking, and the equation of priority inheritance: the
    priority of a task is the best of its own and those of the tasks that wait for its mutexes.
    The invariant \<^verbatim>\<open>kern_ok\<close> joins both with what the scheduler owes: the active task is the first of
    the best ready list. \<^verbatim>\<open>Example_State\<close> is a state in which all of it holds, for the witnesses.
  \<^item> \<^verbatim>\<open>Mutex\<close> (\<^verbatim>\<open>k_mutex.c\<close>), \<^verbatim>\<open>Leave_Wait\<close>, \<^verbatim>\<open>Tick\<close> (\<^verbatim>\<open>k_tick.c\<close>, \<^verbatim>\<open>k_time.c\<close>), \<^verbatim>\<open>Task\<close> and \<^verbatim>\<open>Task_Del\<close>
    (\<^verbatim>\<open>k_task.c\<close>): the operations on tasks; each keeps \<^verbatim>\<open>kern_ok\<close>, and has theorems that say what it does.
  \<^item> \<^verbatim>\<open>Wait_Object\<close> states the contract of an object tasks wait for (locale \<^verbatim>\<open>wait_object\<close>: nobody waits
    while there is something to have); \<^verbatim>\<open>Sem\<close> (\<^verbatim>\<open>k_sem.c\<close>, \<^verbatim>\<open>k_task_sem.c\<close>), \<^verbatim>\<open>Event\<close> (\<^verbatim>\<open>k_event.c\<close>), \<^verbatim>\<open>Queue\<close>
    (\<^verbatim>\<open>k_queue.c\<close>), \<^verbatim>\<open>Buf_Queue\<close> (\<^verbatim>\<open>k_buf_queue.c\<close>) model the four kinds and interpret it. \<^verbatim>\<open>Messages\<close> is what
    the two kinds of queue share.
  \<^item> \<^verbatim>\<open>Sys\<close> (\<^verbatim>\<open>k_sys.c\<close>): boot and interrupts. \<^verbatim>\<open>Keeps\<close> says which objects an operation leaves alone.
    \<^verbatim>\<open>System\<close> has every call as a transition and the invariant \<^verbatim>\<open>sys_inv\<close> of the whole; \<^verbatim>\<open>Reachability\<close>
    has the reachable states (rule induction over \<^verbatim>\<open>reach\<close>) and the promises of the system: urgent
    tasks run, wake-ups are not lost, priorities are not inverted. \<^verbatim>\<open>Fairness\<close>: under round robin every
    task of the highest priority gets its turn, after a number of ticks given exactly.
  \<^item> \<^verbatim>\<open>Mblk\<close> (\<^verbatim>\<open>k_mm_blk.c\<close>): pools of blocks, refined to a stack.
  \<^item> \<^verbatim>\<open>Mm\<close> (\<^verbatim>\<open>k_mm.c\<close>): the heap, a two-level segregated fit allocator. \<^verbatim>\<open>Mm_Tiles\<close> reads the memory of a
    region as a sequence of tiles (used, free, fence), \<^verbatim>\<open>Mm_Free\<close> has the free lists, level by level,
    \<^verbatim>\<open>Mm_Heap\<close> joins them: \<^verbatim>\<open>heap\<close> is the invariant, and \<^verbatim>\<open>open_heap\<close> the state between two steps of an
    operation, in which one tile is off the lists. \<^verbatim>\<open>Mm_Steps\<close> has a lemma per step, \<^verbatim>\<open>Mm_Release\<close> the release
    of a block with its merges, \<^verbatim>\<open>Mm_Alloc\<close> the search and the split.
  \<^item> \<^verbatim>\<open>Mm_Correct\<close>: the invariant \<^verbatim>\<open>mm_ok\<close> of heap and pool for small blocks, the abstract view \<^verbatim>\<open>blocks\<close> (the
    blocks in use, with their sizes) and the theorems for allocation, which fails only when no free
    block is large enough, and release; \<^verbatim>\<open>Mm_Resize\<close>: resizing keeps the contents; \<^verbatim>\<open>Mm_Init\<close>: \<^verbatim>\<open>krhino_init_mm_head\<close>
    establishes the invariant.

  \<^bold>\<open>What callers must respect.\<close> The code does not check all it relies on. The predicate \<^verbatim>\<open>legal\<close> of
  \<^verbatim>\<open>System\<close> states the rest: objects are created in memory that is not an object in use, the idle task
  does not block or take a mutex, a deleted task is not deleted again, entries and exits of interrupts match. Where the
  code misbehaves outside of it in a way that a check would have prevented, a theorem shows how.

  \<^bold>\<open>Not modelled.\<close>
  \<^item> In the modelled files: code the configuration leaves out (several CPUs, \<^verbatim>\<open>RHINO_CONFIG_MM_DEBUG\<close>,
    \<^verbatim>\<open>RHINO_CONFIG_WORKQUEUE\<close>, hooks, trace points, guards of interrupt stacks); the variants of creation and
    deletion that take the control block from the heap; the clean-up of a task that returned;
    the measurement and the overflow check of stacks, which read memory below the kernel's data; the
    registration of objects for the debugger (\<^verbatim>\<open>kobj_list\<close>), apart from its initialisation.
  \<^item> \<^verbatim>\<open>krhino_init\<close> leaves out \<^verbatim>\<open>k_mm_init\<close>: the regions come from the linker script of the board. It writes
    only to the heap, which no other part of \<^verbatim>\<open>krhino_init\<close> uses. It also leaves out the initialisation of
    \<^verbatim>\<open>g_res_list\<close>, where deleted tasks with control blocks from the heap leave their memory.
  \<^item> Other files of the kernel: \<^verbatim>\<open>k_timer.c\<close> beyond the initialisation, \<^verbatim>\<open>k_workqueue.c\<close> (switched off),
    \<^verbatim>\<open>k_stats.c\<close>, \<^verbatim>\<open>k_idle.c\<close>, \<^verbatim>\<open>k_mm_debug.c\<close> (measurements and printing), the processor ports in assembly.
  \<^item> The rest of the repository: network stacks, drivers, the GUI, examples and tools, much of it third-party
    code, which use the kernel and are not part of it.
\<close>

end
